(* ===== verification/Prelude.thy ===== *)
theory Prelude
  imports Main "HOL-Library.Word"
begin

text \<open>
  What every component of the development shares.

  \<^item> The machine integers of the library: \<open>size_t\<close>, \<open>uint64_t\<close> are \<open>64 word\<close>,
    \<open>uint32_t\<close> and \<open>int32_t\<close> are \<open>32 word\<close> (\<open>sint\<close> reads the signed value).
  \<^item> Concurrency: a running program is a pair of the shared memory and the list of the program
    counters (with their local variables) of its threads. One atomic access of one thread is one
    step; \<open>interleave\<close> is the step relation of the whole program under every scheduler,
    \<open>reach\<close> its reachable states, \<open>run_sched\<close> the execution of one concrete schedule.
    Steps are sequentially consistent: each access takes effect at once and for all threads.
  \<^item> Generic lemmas on list updates, on sums over the threads of a program and on words.
\<close>

unbundle bit_operations_syntax

type_synonym u8 = "8 word"
type_synonym u32 = "32 word"
type_synonym u64 = "64 word"

named_theorems step_defs \<open>definitions of the atomic steps of a component\<close>
named_theorems inv_defs \<open>definitions of the invariants of a component\<close>


section \<open>Interleaving of threads\<close>

type_synonym ('sh, 'pc) system = "'sh \<times> 'pc list"

text \<open>
  \<open>ts i p sh\<close> lists the outcomes of the next atomic access of thread \<open>i\<close> at program
  counter \<open>p\<close> over the memory \<open>sh\<close>. An empty list is a blocked thread; several outcomes are a
  choice of the thread's client (which operation it calls next) or of its environment.
\<close>

type_synonym ('sh, 'pc) thread_step = "nat \<Rightarrow> 'pc \<Rightarrow> 'sh \<Rightarrow> ('pc \<times> 'sh) list"

inductive interleave :: "('sh, 'pc) thread_step \<Rightarrow> ('sh, 'pc) system \<Rightarrow> ('sh, 'pc) system \<Rightarrow> bool"
  for ts :: "('sh, 'pc) thread_step"
where
  interleaveI: "i < length ps \<Longrightarrow> (p', sh') \<in> set (ts i (ps ! i) sh) \<Longrightarrow>
    interleave ts (sh, ps) (sh', ps[i := p'])"

inductive_cases interleaveE: "interleave ts (sh, ps) t"
inductive_simps interleave_iff: "interleave ts (sh, ps) (sh', ps')"

inductive reach :: "('s \<Rightarrow> bool) \<Rightarrow> ('s \<Rightarrow> 's \<Rightarrow> bool) \<Rightarrow> 's \<Rightarrow> bool"
  for start :: "'s \<Rightarrow> bool" and step :: "'s \<Rightarrow> 's \<Rightarrow> bool"
where
  reach_start: "start s \<Longrightarrow> reach start step s"
| reach_step: "reach start step s \<Longrightarrow> step s t \<Longrightarrow> reach start step t"

lemma reach_mono: "(\<And>s. start s \<Longrightarrow> start' s) \<Longrightarrow> reach start step s \<Longrightarrow> reach start' step s"
  by (rotate_tac, induction rule: reach.induct) (auto intro: reach.intros)

text \<open>A concrete schedule: which thread moves, and which of its outcomes is taken.\<close>

fun run_sched :: "('sh, 'pc) thread_step \<Rightarrow> (nat \<times> nat) list \<Rightarrow> ('sh, 'pc) system \<Rightarrow> ('sh, 'pc) system option" where
  "run_sched ts [] s = Some s"
| "run_sched ts ((i, k) # sched) (sh, ps) =
     (if i < length ps \<and> k < length (ts i (ps ! i) sh)
      then (case ts i (ps ! i) sh ! k of (p', sh') \<Rightarrow> run_sched ts sched (sh', ps[i := p']))
      else None)"

lemma run_sched_reach:
  "run_sched ts sched s = Some t \<Longrightarrow> reach start (interleave ts) s \<Longrightarrow> reach start (interleave ts) t"
proof (induction ts sched s rule: run_sched.induct)
  case (1 ts s)
  then show ?case by simp
next
  case (2 ts i k sched sh ps)
  from "2.prems"(1) have ok: "i < length ps" "k < length (ts i (ps ! i) sh)"
    by (auto split: if_splits)
  obtain p' sh' where e: "ts i (ps ! i) sh ! k = (p', sh')"
    by (cases "ts i (ps ! i) sh ! k")
  with ok have "(p', sh') \<in> set (ts i (ps ! i) sh)"
    by (metis nth_mem)
  with ok have "interleave ts (sh, ps) (sh', ps[i := p'])"
    by (blast intro: interleaveI)
  with "2.prems"(2) have "reach start (interleave ts) (sh', ps[i := p'])"
    by (rule reach_step)
  moreover from "2.prems"(1) ok e have "run_sched ts sched (sh', ps[i := p']) = Some t"
    by simp
  ultimately show ?case using ok e "2.IH" by simp
qed

lemma run_sched_reach_start:
  "start s \<Longrightarrow> run_sched ts sched s = Some t \<Longrightarrow> reach start (interleave ts) t"
  by (rule run_sched_reach) (auto intro: reach_start)

lemma run_sched_append:
  "run_sched ts (xs @ ys) s = (case run_sched ts xs s of None \<Rightarrow> None | Some t \<Rightarrow> run_sched ts ys t)"
  by (induction ts xs s rule: run_sched.induct) (auto split: prod.splits)

text \<open>\<open>d\<close> steps of the thread \<open>i\<close> alone, whatever the other threads are.\<close>

definition moves_alone :: "('sh, 'pc) thread_step \<Rightarrow> nat \<Rightarrow> nat \<Rightarrow> 'pc \<times> 'sh \<Rightarrow> 'pc \<times> 'sh \<Rightarrow> bool" where
  "moves_alone ts i d a b \<longleftrightarrow> (\<forall>ps. i < length ps \<longrightarrow>
     run_sched ts (replicate d (i, 0)) (snd a, ps[i := fst a]) = Some (snd b, ps[i := fst b]))"

lemma moves_alone_refl: "moves_alone ts i 0 a a"
  by (simp add: moves_alone_def)

lemma moves_alone_one: "ts i p s = [(p', s')] \<Longrightarrow> moves_alone ts i 1 (p, s) (p', s')"
  by (simp add: moves_alone_def)

lemma moves_alone_trans: "moves_alone ts i d a b \<Longrightarrow> moves_alone ts i e b c \<Longrightarrow> moves_alone ts i (d + e) a c"
  by (simp add: moves_alone_def replicate_add run_sched_append)

text \<open>A loop of one thread.\<close>

lemma moves_alone_loop:
  "(\<And>j. j < d \<Longrightarrow> ts i (P j) (S j) = [(P (Suc j), S (Suc j))]) \<Longrightarrow> moves_alone ts i d (P 0, S 0) (P d, S d)"
proof (induction d)
  case (Suc d)
  then have "moves_alone ts i d (P 0, S 0) (P d, S d)" "moves_alone ts i 1 (P d, S d) (P (Suc d), S (Suc d))"
    using moves_alone_one [of ts i "P d" "S d"] by simp_all
  from moves_alone_trans [OF this] show ?case by simp
qed (rule moves_alone_refl)

text \<open>
  One thread running alone until its program counter is final: the sequential meaning of an
  operation. Every operation used this way has one outcome per step.
\<close>

fun run_alone :: "('pc \<Rightarrow> 'sh \<Rightarrow> 'pc \<times> 'sh) \<Rightarrow> ('pc \<Rightarrow> bool) \<Rightarrow> nat \<Rightarrow> 'pc \<Rightarrow> 'sh \<Rightarrow> ('pc \<times> 'sh) option" where
  "run_alone f fin n p sh =
     (if fin p then Some (p, sh)
      else (case n of 0 \<Rightarrow> None | Suc m \<Rightarrow> (case f p sh of (p', sh') \<Rightarrow> run_alone f fin m p' sh')))"

declare run_alone.simps [simp del]

lemma run_alone_fin [simp]: "fin p \<Longrightarrow> run_alone f fin n p sh = Some (p, sh)"
  by (simp add: run_alone.simps)

lemma run_alone_Suc: "\<not> fin p \<Longrightarrow>
    run_alone f fin (Suc n) p sh = (case f p sh of (p', sh') \<Rightarrow> run_alone f fin n p' sh')"
  by (subst run_alone.simps) simp

text \<open>Unfolds a run with a numeral bound.\<close>

lemma run_alone_numeral: "\<not> fin p \<Longrightarrow>
    run_alone f fin (numeral k) p sh = (case f p sh of (p', sh') \<Rightarrow> run_alone f fin (pred_numeral k) p' sh')"
  by (simp add: numeral_eq_Suc run_alone_Suc)

lemmas run_alone_unfold = run_alone_numeral run_alone_Suc

lemma run_alone_mono:
  "run_alone f fin n p sh = Some r \<Longrightarrow> n \<le> m \<Longrightarrow> run_alone f fin m p sh = Some r"
proof (induction n arbitrary: m p sh)
  case 0
  then have "fin p" by (subst (asm) run_alone.simps) (simp split: if_splits)
  with "0.prems"(1) show ?case by simp
next
  case (Suc n)
  show ?case
  proof (cases "fin p")
    case True
    with Suc.prems(1) show ?thesis by simp
  next
    case False
    from Suc.prems(2) obtain m' where m: "m = Suc m'" and "n \<le> m'" by (cases m) auto
    obtain p' sh' where "f p sh = (p', sh')" by (cases "f p sh")
    with Suc.prems(1) False m Suc.IH [OF _ \<open>n \<le> m'\<close>] show ?thesis
      by (simp add: run_alone_Suc)
  qed
qed


text \<open>One thread that moves alone, one outcome per step, and whose rank falls, comes to an end.\<close>

lemma run_sched_ends:
  assumes step: "\<And>s p. P s p \<Longrightarrow> \<not> fin p \<Longrightarrow>
      \<exists>p' s'. ts i p s = [(p', s')] \<and> P s' p' \<and> (rank s' p' :: nat) < rank s p"
    and "P s (ps ! i)" "i < length ps"
  shows "\<exists>n s' p'. run_sched ts (replicate n (i, 0)) (s, ps) = Some (s', ps[i := p'])
    \<and> fin p' \<and> P s' p' \<and> n \<le> rank s (ps ! i)"
  using assms(2,3)
proof (induction "rank s (ps ! i)" arbitrary: s ps rule: less_induct)
  case less
  show ?case
  proof (cases "fin (ps ! i)")
    case True
    with less.prems show ?thesis by (intro exI [of _ 0] exI [of _ s] exI [of _ "ps ! i"]) simp
  next
    case False
    from step [OF less.prems(1) False] obtain p' s' where
      st: "ts i (ps ! i) s = [(p', s')]" "P s' p'" "rank s' p' < rank s (ps ! i)" by blast
    have z: "ps[i := p'] ! i = p'" using less.prems(2) by simp
    from less.hyps [of s' "ps[i := p']"] st(2,3) less.prems(2) obtain n t q where
      "run_sched ts (replicate n (i, 0)) (s', ps[i := p']) = Some (t, ps[i := q])"
      "fin q" "P t q" "n \<le> rank s' p'" unfolding z by auto
    then show ?thesis using st less.prems(2)
      by (intro exI [of _ "Suc n"] exI [of _ t] exI [of _ q]) simp
  qed
qed


section \<open>Sums over the threads\<close>

definition weight_sum :: "('pc \<Rightarrow> nat) \<Rightarrow> 'pc list \<Rightarrow> nat" where
  "weight_sum w ps = sum_list (map w ps)"

lemma weight_sum_update:
  assumes "i < length ps"
  shows "weight_sum w (ps[i := p]) + w (ps ! i) = weight_sum w ps + w p"
proof -
  have "w (ps ! i) \<le> weight_sum w ps"
    using assms by (simp add: weight_sum_def member_le_sum_list)
  then show ?thesis
    using assms by (simp add: weight_sum_def map_update sum_list_update)
qed

lemma weight_sum_member: "i < length ps \<Longrightarrow> w (ps ! i) \<le> weight_sum w ps"
  by (simp add: weight_sum_def member_le_sum_list)

lemma weight_sum_members:
  assumes "i < length ps" "j < length ps" "i \<noteq> j"
  shows "w (ps ! i) + w (ps ! j) \<le> weight_sum w ps"
  using assms
proof (induction ps arbitrary: i j)
  case Nil
  then show ?case by simp
next
  case (Cons p ps)
  then show ?case
    using weight_sum_member [of "i - 1" ps w] weight_sum_member [of "j - 1" ps w]
    by (cases i; cases j) (force simp: weight_sum_def)+
qed

lemma weight_sum_bound: "(\<And>p. w p \<le> b) \<Longrightarrow> weight_sum w ps \<le> length ps * b"
  by (induction ps) (auto simp: weight_sum_def intro: add_mono)

lemma weight_sum_zero: "weight_sum w ps = 0 \<longleftrightarrow> (\<forall>p \<in> set ps. w p = 0)"
  by (simp add: weight_sum_def)

lemma weight_sum_replicate [simp]: "weight_sum w (replicate n p) = n * w p"
  by (simp add: weight_sum_def sum_list_replicate)

lemma weight_sum_mono: "(\<And>p. w p \<le> v p) \<Longrightarrow> weight_sum w ps \<le> weight_sum v ps"
  by (simp add: weight_sum_def sum_list_mono)

lemma nth_update_cases:
  "j < length ps \<Longrightarrow> ps[i := p] ! j = (if i = j then p else ps ! j)"
  by (simp add: nth_list_update)

lemma replicate_unroll: "replicate (numeral k) x = x # replicate (pred_numeral k) x"
  by (simp add: numeral_eq_Suc)

lemma replicate_two: "replicate 2 x = [x, x]"
  by (simp add: numeral_2_eq_2)

lemma length_filter_neq: "length xs \<noteq> length (filter P xs) \<longleftrightarrow> (\<exists>x \<in> set xs. \<not> P x)"
  using length_filter_less [of _ xs P] filter_True [of xs P] by (metis less_irrefl)

lemma all_nthD: "\<forall>p \<in> set ps. p = x \<Longrightarrow> i < length ps \<Longrightarrow> ps ! i = x"
  by simp


section \<open>What the threads own\<close>

text \<open>Each thread claims a set of addresses, given by its program counter.\<close>

definition claims :: "('pc \<Rightarrow> 'a set) \<Rightarrow> 'pc list \<Rightarrow> 'a set" where
  "claims f ps = (\<Union>p \<in> set ps. f p)"

definition claims_disjoint :: "('pc \<Rightarrow> 'a set) \<Rightarrow> 'pc list \<Rightarrow> bool" where
  "claims_disjoint f ps \<longleftrightarrow>
     (\<forall>i < length ps. \<forall>j < length ps. i \<noteq> j \<longrightarrow> f (ps ! i) \<inter> f (ps ! j) = {})"

lemma claims_iff: "a \<in> claims f ps \<longleftrightarrow> (\<exists>i < length ps. a \<in> f (ps ! i))"
  unfolding claims_def UN_iff by (metis in_set_conv_nth)

lemma claims_nth: "i < length ps \<Longrightarrow> f (ps ! i) \<subseteq> claims f ps"
  by (auto simp: claims_iff)

lemma claims_other:
  "claims_disjoint f ps \<Longrightarrow> i < length ps \<Longrightarrow> j < length ps \<Longrightarrow> i \<noteq> j \<Longrightarrow> f (ps ! j) \<subseteq> claims f ps - f (ps ! i)"
  using claims_nth [of j ps f] by (fastforce simp: claims_disjoint_def)

lemma claims_update:
  assumes "claims_disjoint f ps" "i < length ps"
  shows "claims f (ps[i := p]) = claims f ps - f (ps ! i) \<union> f p"
proof (rule set_eqI)
  fix a
  show "a \<in> claims f (ps[i := p]) \<longleftrightarrow> a \<in> claims f ps - f (ps ! i) \<union> f p"
    using assms unfolding claims_iff claims_disjoint_def Un_iff Diff_iff length_list_update
    by (metis disjoint_iff nth_list_update)
qed

lemma claims_disjoint_update:
  assumes "claims_disjoint f ps" "i < length ps" "f p \<inter> (claims f ps - f (ps ! i)) = {}"
  shows "claims_disjoint f (ps[i := p])"
  unfolding claims_disjoint_def length_list_update
proof (intro allI impI)
  fix k j
  assume k: "k < length ps" "j < length ps" "k \<noteq> j"
  consider "k = i" | "j = i" | "k \<noteq> i" "j \<noteq> i" by blast
  then show "f (ps[i := p] ! k) \<inter> f (ps[i := p] ! j) = {}"
  proof cases
    case 1
    with k assms claims_other [OF assms(1,2), of j] show ?thesis by fastforce
  next
    case 2
    with k assms claims_other [OF assms(1,2), of k] show ?thesis by fastforce
  next
    case 3
    with k assms(1) show ?thesis by (simp add: claims_disjoint_def)
  qed
qed

lemma claims_start:
  "\<forall>p \<in> set ps. f p = {} \<Longrightarrow> claims f ps = {} \<and> claims_disjoint f ps"
  by (simp add: claims_def claims_disjoint_def)


section \<open>Words\<close>

lemma of_nat_eq_iff_unat:
  "n < 2 ^ LENGTH('a) \<Longrightarrow> (x = (of_nat n :: 'a :: len word)) \<longleftrightarrow> unat x = n"
  by (auto simp: unat_of_nat take_bit_nat_eq_self_iff)

lemma of_nat_word_inj:
  "m < 2 ^ LENGTH('a) \<Longrightarrow> n < 2 ^ LENGTH('a) \<Longrightarrow>
    (of_nat m = (of_nat n :: 'a :: len word)) \<longleftrightarrow> m = n"
  by (metis of_nat_eq_iff_unat)

lemma unat_of_nat_64 [simp]: "n < 2 ^ 64 \<Longrightarrow> unat (of_nat n :: u64) = n"
  by (simp add: unat_of_nat take_bit_nat_eq_self_iff)

lemma unat_of_nat_32 [simp]: "n < 2 ^ 32 \<Longrightarrow> unat (of_nat n :: u32) = n"
  by (simp add: unat_of_nat take_bit_nat_eq_self_iff)

lemma take_bit_unat [simp]: "take_bit LENGTH('a) (unat x) = unat x" for x :: "'a::len word"
  by (simp add: take_bit_nat_eq_self_iff)

lemma and_shifted_mask:
  "x AND push_bit n (mask k) = push_bit n (take_bit k (drop_bit n x))" for x :: "'a::len word"
  by (rule bit_word_eqI) (auto simp: bit_simps)

lemma unat_and_shifted_mask:
  assumes "n + k \<le> LENGTH('a)"
  shows "unat (x AND push_bit n (mask k) :: 'a::len word) = 2 ^ n * (unat x div 2 ^ n mod 2 ^ k)"
proof -
  have "unat (push_bit n (take_bit k (drop_bit n x))) = take_bit LENGTH('a) (push_bit n (take_bit k (drop_bit n (unat x))))"
    by (simp add: unsigned_push_bit_eq unsigned_take_bit_eq unsigned_drop_bit_eq)
  also have "\<dots> = push_bit n (take_bit k (drop_bit n (unat x)))"
  proof -
    have "min (LENGTH('a) - n) k = k" using assms by simp
    then show ?thesis by (simp add: take_bit_push_bit)
  qed
  also have "\<dots> = 2 ^ n * (unat x div 2 ^ n mod 2 ^ k)"
    by (simp add: push_bit_eq_mult take_bit_eq_mod drop_bit_eq_div mult.commute)
  finally show ?thesis by (simp only: and_shifted_mask)
qed

lemma unat_drop_bit_div: "unat (drop_bit n x) = unat x div 2 ^ n" for x :: "'a::len word"
  by (simp only: unat_drop_bit_eq) (simp add: drop_bit_eq_div)

lemma unat_and_mask: "unat (x AND mask b) = unat x mod 2 ^ b" for x :: "'a::len word"
  by (simp only: take_bit_eq_mask [symmetric] unsigned_take_bit_eq) (simp add: take_bit_eq_mod)

lemma unat_mask_64: "b \<le> 64 \<Longrightarrow> unat (mask b :: u64) = 2 ^ b - 1"
proof -
  assume "b \<le> 64"
  then have "(2::nat) ^ b - 1 < 2 ^ 64"
    using power_increasing [of b 64 "2::nat"] by (simp del: power_increasing_iff)
  moreover have "(mask b :: u64) = of_nat (2 ^ b - 1)"
    by (simp add: mask_eq_exp_minus_1 of_nat_diff)
  ultimately show ?thesis by (simp only: unat_of_nat_64)
qed

lemma unat_less_32: "unat m < 2 ^ 32" for m :: u32
  using unsigned_less [of m] by simp
lemma unat_less_64: "unat m < 2 ^ 64" for m :: u64
  using unsigned_less [of m] by simp

lemma unat_add_no_wrap:
  "unat x + unat y < 2 ^ LENGTH('a) \<Longrightarrow> unat (x + y) = unat x + unat y" for x y :: "'a::len word"
  by (simp add: unat_word_ariths)

lemma unat_mult_no_wrap:
  "unat x * unat y < 2 ^ LENGTH('a) \<Longrightarrow> unat (x * y) = unat x * unat y" for x y :: "'a::len word"
  by (simp add: unat_word_ariths)

lemma unat_sub_no_wrap:
  "unat y \<le> unat x \<Longrightarrow> unat (x - y) = unat x - unat y" for x y :: "'a::len word"
  by (simp add: unat_sub word_le_nat_alt)


text \<open>A power of two has no bit in common with its predecessor.\<close>

lemma and_pred_power: "0 < n \<Longrightarrow> n AND (n - 1) = 0 \<Longrightarrow> \<exists>b. n = 2 ^ b" for n :: nat
proof (induction n rule: less_induct)
  case (less n)
  show ?case
  proof (cases "even n")
    case True
    then obtain m where m: "n = 2 * m" by blast
    with less.prems have "0 < m" by simp
    then have e: "n - 1 = Suc (2 * (m - 1))" using m by simp
    have "m AND (m - 1) = 0"
      using less.prems(2) m e by (simp add: and_nat_rec [of "2 * m"])
    with less.IH [of m] m \<open>0 < m\<close> obtain b where "m = 2 ^ b" by auto
    with m have "n = 2 ^ Suc b" by simp
    then show ?thesis by blast
  next
    case False
    then obtain m where m: "n = 2 * m + 1" by (rule oddE)
    have "m AND m = 0" using less.prems(2) m by (simp add: and_nat_rec [of "Suc (2 * m)"])
    with m show ?thesis by (auto intro: exI [of _ 0])
  qed
qed

text \<open>The test for a power of two that the constructors of the bounded queues assert.\<close>

lemma power_of_two_64:
  fixes sz :: u64
  assumes "1 < sz" "sz AND (sz - 1) = 0"
  obtains b where "0 < b" "b < 64" "unat sz = 2 ^ b" "sz - 1 = mask b"
proof -
  have pos: "1 < unat sz" using assms(1) by (simp add: word_less_nat_alt)
  have "unat sz AND (unat sz - 1) = unat (sz AND (sz - 1))"
    using pos by (simp add: unsigned_and_eq unat_sub_no_wrap)
  then have z: "unat sz AND (unat sz - 1) = 0" by (simp only: assms(2) unsigned_0)
  have "0 < unat sz" using pos by simp
  from and_pred_power [OF this z] obtain b where b: "unat sz = 2 ^ b" ..
  have "(2::nat) ^ b < 2 ^ 64" using unat_less_64 [of sz] by (simp only: b)
  then have "b < 64" by (rule power_less_imp_less_exp [rotated]) simp
  moreover have "0 < b" using pos b by (cases b) auto
  moreover have "sz - 1 = mask b"
  proof -
    have "sz = of_nat (unat sz)" by simp
    then have "sz = 2 ^ b" by (simp only: b of_nat_power of_nat_numeral)
    then show ?thesis by (simp add: mask_eq_exp_minus_1)
  qed
  ultimately show ?thesis using b that by blast
qed


text \<open>Positions that run through a ring.\<close>

lemma mod_Suc_neq: "1 < (n::nat) \<Longrightarrow> Suc t mod n \<noteq> t mod n"
  by (auto simp: mod_Suc)

lemma mod_eq_near: "a mod n = b mod n \<Longrightarrow> a \<le> b \<Longrightarrow> b < a + n \<Longrightarrow> a = b" for a b n :: nat
proof -
  assume "a mod n = b mod n" "a \<le> b" and *: "b < a + n"
  then have "n dvd b - a" by (metis mod_eq_dvd_iff_nat)
  with * \<open>a \<le> b\<close> show ?thesis by (auto dest: dvd_imp_le)
qed

lemma unat_add_of_nat_mod:
  "b < 64 \<Longrightarrow> unat (d + of_nat j) mod 2 ^ b = (unat d + j) mod 2 ^ b" for d :: u64
proof -
  assume "b < 64"
  then have "(2::nat) ^ b dvd 2 ^ 64" by (simp add: le_imp_power_dvd del: power_numeral)
  then have *: "k mod 2 ^ 64 mod 2 ^ b = k mod 2 ^ b" for k :: nat by (rule mod_mod_cancel)
  have "unat (d + of_nat j) = (unat d + j) mod 2 ^ 64"
    by (simp add: unat_word_ariths unat_of_nat take_bit_eq_mod mod_simps)
  then show ?thesis by (simp only: *)
qed

lemma of_nat_near: "(of_nat t :: u64) = of_nat u \<Longrightarrow> t \<le> u \<Longrightarrow> u < t + 2 ^ 64 \<Longrightarrow> t = u"
proof -
  assume e: "(of_nat t :: u64) = of_nat u" and *: "t \<le> u" "u < t + 2 ^ 64"
  have "t mod 2 ^ 64 = u mod 2 ^ 64"
    using arg_cong [OF e, of unat] by (simp add: unat_of_nat take_bit_eq_mod)
  from this * show ?thesis by (rule mod_eq_near)
qed


section \<open>Exclusion between readers and writers\<close>

text \<open>A thread that writes excludes every other reader and writer.\<close>

definition rw_exclusive :: "('pc \<Rightarrow> bool) \<Rightarrow> ('pc \<Rightarrow> bool) \<Rightarrow> 'pc list \<Rightarrow> bool" where
  "rw_exclusive reading writing ps \<longleftrightarrow> (\<forall>i < length ps. \<forall>j < length ps. i \<noteq> j \<longrightarrow>
     writing (ps ! i) \<longrightarrow> \<not> writing (ps ! j) \<and> \<not> reading (ps ! j))"

lemma rw_exclusiveD:
  "rw_exclusive reading writing ps \<Longrightarrow> i < length ps \<Longrightarrow> j < length ps \<Longrightarrow> i \<noteq> j \<Longrightarrow>
    writing (ps ! i) \<Longrightarrow> \<not> writing (ps ! j) \<and> \<not> reading (ps ! j)"
  by (simp add: rw_exclusive_def)

lemma rw_exclusive_start:
  "\<forall>p \<in> set ps. \<not> writing p \<Longrightarrow> rw_exclusive reading writing ps"
  by (simp add: rw_exclusive_def)

lemma rw_exclusive_update:
  assumes "rw_exclusive reading writing ps"
    and "reading p \<or> writing p \<Longrightarrow> \<forall>j < length ps. j \<noteq> i \<longrightarrow> \<not> writing (ps ! j)"
    and "writing p \<Longrightarrow> \<forall>j < length ps. j \<noteq> i \<longrightarrow> \<not> reading (ps ! j)"
  shows "rw_exclusive reading writing (ps[i := p])"
  unfolding rw_exclusive_def length_list_update
proof (intro allI impI)
  fix k j
  assume kj: "k < length ps" "j < length ps" "k \<noteq> j" and w: "writing (ps[i := p] ! k)"
  show "\<not> writing (ps[i := p] ! j) \<and> \<not> reading (ps[i := p] ! j)"
  proof (cases "k = i")
    case True
    with w kj assms(2,3) show ?thesis by simp
  next
    case False
    with w kj have "\<not> writing (ps ! j) \<and> \<not> reading (ps ! j)" "writing (ps ! k)"
      using rw_exclusiveD [OF assms(1), of k j] by simp_all
    with False kj assms(2) show ?thesis by (cases "j = i") auto
  qed
qed

lemma rw_exclusive_neutral:
  "rw_exclusive reading writing ps \<Longrightarrow> \<not> reading p \<Longrightarrow> \<not> writing p \<Longrightarrow>
    rw_exclusive reading writing (ps[i := p])"
  by (rule rw_exclusive_update) auto

end
