(* ===== verification/Interfaces.thy ===== *)
theory Interfaces
  imports Prelude
begin

text \<open>
  The contracts between the components, as locales.

  \<^item> \<open>protocol\<close>: a step function of a thread with an invariant that the start states
    satisfy and every atomic step keeps. Inside it: the invariant holds in every reachable state.
  \<^item> \<open>mutex_protocol\<close> and \<open>rw_protocol\<close>: the promises of a lock and of a read-write
    lock; a read-write lock is a lock for its writers.
  \<^item> \<open>fifo\<close> and \<open>bounded_fifo\<close>: the promises of a queue as its clients see them when
    calls do not overlap.
  \<^item> \<open>simulation\<close>: a protocol that implements a more abstract one, step by step;
    \<open>matching\<close>: the same for a relation between the states, of which it is a case.
  \<^item> \<open>dictionary\<close>: the promises of a map from keys to values.
  Each is interpreted on the definitions of the components that provide it.
\<close>


section \<open>Protocols and their invariants\<close>

locale protocol =
  fixes ts :: "('sh, 'pc) thread_step"
    and start :: "('sh, 'pc) system \<Rightarrow> bool"
    and inv :: "'sh \<Rightarrow> 'pc list \<Rightarrow> bool"
  assumes start_inv: "start (sh, ps) \<Longrightarrow> inv sh ps"
    and step_inv: "inv sh ps \<Longrightarrow> i < length ps \<Longrightarrow> (p', sh') \<in> set (ts i (ps ! i) sh) \<Longrightarrow>
      inv sh' (ps[i := p'])"
begin

lemma interleave_keeps: "interleave ts s t \<Longrightarrow> inv (fst s) (snd s) \<Longrightarrow> inv (fst t) (snd t)"
  by (induction rule: interleave.induct) (auto intro: step_inv)

lemma reach_keeps: "reach start (interleave ts) s \<Longrightarrow> inv (fst s) (snd s)"
proof (induction rule: reach.induct)
  case (reach_start s)
  then show ?case by (cases s) (auto intro: start_inv)
next
  case (reach_step s t)
  then show ?case by (blast intro: interleave_keeps)
qed

lemma reach_inv: "reach start (interleave ts) (sh, ps) \<Longrightarrow> inv sh ps"
  using reach_keeps by fastforce

text \<open>A component whose threads use the protocol, seen through \<open>f\<close>, keeps its invariant.\<close>

lemma keeps_inside:
  assumes "inv sh (map f ps)" "i < length ps"
    and "(f p', sh') = (f (ps ! i), sh) \<or> (f p', sh') \<in> set (ts i (f (ps ! i)) sh)"
  shows "inv sh' (map f (ps[i := p']))"
  using assms(3)
proof
  assume "(f p', sh') = (f (ps ! i), sh)"
  then have "map f (ps[i := p']) = map f ps" "sh' = sh"
    using assms(2) by (simp_all add: map_update list_update_same_conv)
  with assms(1) show ?thesis by simp
next
  assume "(f p', sh') \<in> set (ts i (f (ps ! i)) sh)"
  then show ?thesis using step_inv [OF assms(1), of i] assms(2) by (simp add: map_update)
qed

end

locale mutex_protocol = protocol ts start inv
  for ts :: "('sh, 'pc) thread_step"
    and start :: "('sh, 'pc) system \<Rightarrow> bool"
    and inv :: "'sh \<Rightarrow> 'pc list \<Rightarrow> bool" +
  fixes holds :: "'pc \<Rightarrow> bool"
  assumes inv_mutex: "inv sh ps \<Longrightarrow> i < length ps \<Longrightarrow> j < length ps \<Longrightarrow>
      holds (ps ! i) \<Longrightarrow> holds (ps ! j) \<Longrightarrow> i = j"
begin

lemma reach_mutex:
  "reach start (interleave ts) (sh, ps) \<Longrightarrow> i < length ps \<Longrightarrow> j < length ps \<Longrightarrow>
    holds (ps ! i) \<Longrightarrow> holds (ps ! j) \<Longrightarrow> i = j"
  by (blast intro: inv_mutex reach_inv)

text \<open>The number of holders is at most one.\<close>

lemma holders_le_one:
  assumes "inv sh ps"
  shows "length (filter holds ps) \<le> 1"
proof -
  have "\<forall>i \<in> {i. i < length ps \<and> holds (ps ! i)}. \<forall>j \<in> {i. i < length ps \<and> holds (ps ! i)}. i = j"
    using inv_mutex [OF assms] by blast
  then have "card {i. i < length ps \<and> holds (ps ! i)} \<le> 1"
    by (simp add: card_le_Suc0_iff_eq)
  then show ?thesis by (simp add: length_filter_conv_card)
qed

end

locale rw_protocol = protocol ts start inv
  for ts :: "('sh, 'pc) thread_step"
    and start :: "('sh, 'pc) system \<Rightarrow> bool"
    and inv :: "'sh \<Rightarrow> 'pc list \<Rightarrow> bool" +
  fixes reading :: "'pc \<Rightarrow> bool" and writing :: "'pc \<Rightarrow> bool"
  assumes inv_writer: "inv sh ps \<Longrightarrow> i < length ps \<Longrightarrow> j < length ps \<Longrightarrow> i \<noteq> j \<Longrightarrow>
      writing (ps ! i) \<Longrightarrow> \<not> writing (ps ! j) \<and> \<not> reading (ps ! j)"
begin

lemma reach_rw:
  "reach start (interleave ts) (sh, ps) \<Longrightarrow> i < length ps \<Longrightarrow> j < length ps \<Longrightarrow> i \<noteq> j \<Longrightarrow>
    writing (ps ! i) \<Longrightarrow> \<not> writing (ps ! j) \<and> \<not> reading (ps ! j)"
  by (blast dest: inv_writer reach_inv)

end

text \<open>
  A protocol that implements another: every step is a step of the abstract one, or none. The state
  and the program counters are mapped by \<open>abs\<close> and \<open>abs_pc\<close>.
\<close>

locale simulation = protocol ts start inv
  for ts :: "('sh, 'pc) thread_step"
    and start :: "('sh, 'pc) system \<Rightarrow> bool"
    and inv :: "'sh \<Rightarrow> 'pc list \<Rightarrow> bool" +
  fixes ts' :: "('ash, 'apc) thread_step"
    and start' :: "('ash, 'apc) system \<Rightarrow> bool"
    and abs :: "'sh \<Rightarrow> 'ash" and abs_pc :: "'pc \<Rightarrow> 'apc"
  assumes start_abs: "start (sh, ps) \<Longrightarrow> start' (abs sh, map abs_pc ps)"
    and step_abs: "inv sh ps \<Longrightarrow> i < length ps \<Longrightarrow> (p', sh') \<in> set (ts i (ps ! i) sh) \<Longrightarrow>
      (abs_pc p', abs sh') = (abs_pc (ps ! i), abs sh)
      \<or> (abs_pc p', abs sh') \<in> set (ts' i (abs_pc (ps ! i)) (abs sh))"
begin

lemma step_or_none:
  assumes "inv sh ps" "i < length ps" "(p', sh') \<in> set (ts i (ps ! i) sh)"
  shows "(abs sh', map abs_pc (ps[i := p'])) = (abs sh, map abs_pc ps)
    \<or> interleave ts' (abs sh, map abs_pc ps) (abs sh', map abs_pc (ps[i := p']))"
proof (cases "(abs_pc p', abs sh') = (abs_pc (ps ! i), abs sh)")
  case True
  with assms(2) show ?thesis by (simp add: map_update list_update_same_conv)
next
  case False
  with step_abs [OF assms] assms(2) have "(abs_pc p', abs sh') \<in> set (ts' i (map abs_pc ps ! i) (abs sh))" by auto
  then have "interleave ts' (abs sh, map abs_pc ps) (abs sh', (map abs_pc ps)[i := abs_pc p'])"
    using assms(2) by (intro interleave.interleaveI) simp_all
  then show ?thesis by (simp add: map_update)
qed

end

text \<open>
  The same with a relation \<open>match\<close> between the states of the two programs, for an abstraction
  that is not a function, or that needs the shared state to map a program counter.
\<close>

locale matching =
  fixes ts :: "('sh, 'pc) thread_step"
    and start :: "('sh, 'pc) system \<Rightarrow> bool"
    and ts' :: "('ash, 'apc) thread_step"
    and start' :: "('ash, 'apc) system \<Rightarrow> bool"
    and match :: "('sh, 'pc) system \<Rightarrow> ('ash, 'apc) system \<Rightarrow> bool"
  assumes start_match: "start (sh, ps) \<Longrightarrow> \<exists>t. start' t \<and> match (sh, ps) t"
    and step_match: "match (sh, ps) t \<Longrightarrow> reach start' (interleave ts') t \<Longrightarrow> i < length ps \<Longrightarrow> (p', sh') \<in> set (ts i (ps ! i) sh) \<Longrightarrow>
      \<exists>t'. (t' = t \<or> interleave ts' t t') \<and> match (sh', ps[i := p']) t'"
begin

lemma interleave_match:
  assumes "interleave ts s s'" "match s t" "reach start' (interleave ts') t"
  shows "\<exists>t'. (t' = t \<or> interleave ts' t t') \<and> match s' t'"
  using assms by (cases rule: interleave.cases) (simp only: step_match)

lemma reach_match:
  "reach start (interleave ts) s \<Longrightarrow> \<exists>t. reach start' (interleave ts') t \<and> match s t"
proof (induction rule: reach.induct)
  case (reach_start s)
  then show ?case using start_match [of "fst s" "snd s"] by (auto intro: reach.reach_start)
next
  case (reach_step s s')
  then obtain t where t: "reach start' (interleave ts') t" "match s t" by blast
  with interleave_match [OF reach_step.hyps(2)] show ?case by (blast intro: reach.reach_step)
qed

end

sublocale simulation \<subseteq> matched: matching ts start ts' start'
  "\<lambda>s t. inv (fst s) (snd s) \<and> t = (abs (fst s), map abs_pc (snd s))"
proof
  fix sh ps assume "start (sh, ps)"
  then show "\<exists>t. start' t \<and> inv (fst (sh, ps)) (snd (sh, ps)) \<and> t = (abs (fst (sh, ps)), map abs_pc (snd (sh, ps)))"
    by (auto intro: start_inv start_abs)
next
  fix sh ps t i p' sh'
  assume "inv (fst (sh, ps)) (snd (sh, ps)) \<and> t = (abs (fst (sh, ps)), map abs_pc (snd (sh, ps)))"
    and "i < length ps" "(p', sh') \<in> set (ts i (ps ! i) sh)"
  then show "\<exists>t'. (t' = t \<or> interleave ts' t t') \<and> inv (fst (sh', ps[i := p'])) (snd (sh', ps[i := p']))
      \<and> t' = (abs (fst (sh', ps[i := p'])), map abs_pc (snd (sh', ps[i := p'])))"
    using step_or_none [of sh ps i p' sh'] step_inv [of sh ps i p' sh'] by auto
qed

context simulation
begin

lemma reach_abs: "reach start (interleave ts) s \<Longrightarrow>
    reach start' (interleave ts') (abs (fst s), map abs_pc (snd s))"
  using matched.reach_match by blast

end

text \<open>For its writers a read-write lock is a lock.\<close>

sublocale rw_protocol \<subseteq> writers: mutex_protocol ts start inv writing
  by unfold_locales (use inv_writer in blast)


section \<open>Concurrent sets\<close>

text \<open>
  The calls a client makes on a set that many threads use: where a thread is outside the calls and
  at the start of \<open>emplace\<close> and \<open>find\<close>, what one access does, and where a call has returned or
  thrown an exception.
\<close>

record ('sh, 'pc, 'k) set_ops =
  so_init :: 'sh
  so_idle :: 'pc
  so_emplace :: "'k \<Rightarrow> 'pc"
  so_find :: "'k \<Rightarrow> 'pc"
  so_move :: "'pc \<Rightarrow> 'sh \<Rightarrow> 'pc \<times> 'sh"
  so_final :: "'pc \<Rightarrow> bool"
  so_threw :: "'pc \<Rightarrow> bool"

text \<open>
  The contract: a call of \<open>emplace k\<close> adds \<open>k\<close> to the keys in one of its accesses, which divides
  it into \<open>before k\<close> and \<open>after\<close>; no other access changes the keys.
\<close>

locale concurrent_set =
  fixes C :: "('sh, 'pc, 'k) set_ops"
    and inv :: "'sh \<Rightarrow> 'pc list \<Rightarrow> bool"
    and keys :: "'sh \<Rightarrow> 'k set"
    and before :: "'k \<Rightarrow> 'pc \<Rightarrow> bool" and after :: "'pc \<Rightarrow> bool" and finding :: "'pc \<Rightarrow> bool"
  assumes init_inv: "length ps < 4096 \<Longrightarrow> \<forall>p \<in> set ps. p = so_idle C \<Longrightarrow> inv (so_init C) ps"
    and init_keys: "keys (so_init C) = {}"
    and begin_inv: "inv sh ps \<Longrightarrow> i < length ps \<Longrightarrow> ps ! i = so_idle C \<Longrightarrow>
      inv sh (ps[i := so_emplace C k]) \<and> inv sh (ps[i := so_find C k])"
    and end_inv: "inv sh ps \<Longrightarrow> i < length ps \<Longrightarrow> so_final C (ps ! i) \<Longrightarrow> inv sh (ps[i := so_idle C])"
    and move_inv: "inv sh ps \<Longrightarrow> i < length ps \<Longrightarrow> ps ! i \<noteq> so_idle C \<Longrightarrow> \<not> so_final C (ps ! i) \<Longrightarrow>
      inv (snd (so_move C (ps ! i) sh)) (ps[i := fst (so_move C (ps ! i) sh)])"
    and begin_calls: "before k (so_emplace C k)" "finding (so_find C k)"
    and before_open: "before k p \<Longrightarrow> p \<noteq> so_idle C \<and> \<not> so_final C p"
    and after_open: "after p \<Longrightarrow> p \<noteq> so_idle C \<or> so_final C p"
    and finding_open: "finding p \<Longrightarrow> p \<noteq> so_idle C"
    and move_before: "inv sh ps \<Longrightarrow> i < length ps \<Longrightarrow> before k (ps ! i) \<Longrightarrow> so_move C (ps ! i) sh = (p', sh') \<Longrightarrow>
      before k p' \<and> keys sh' = keys sh \<or> after p' \<and> keys sh' = insert k (keys sh)"
    and move_after: "inv sh ps \<Longrightarrow> i < length ps \<Longrightarrow> after (ps ! i) \<Longrightarrow> \<not> so_final C (ps ! i) \<Longrightarrow>
      so_move C (ps ! i) sh = (p', sh') \<Longrightarrow> after p' \<and> keys sh' = keys sh"
    and move_finding: "inv sh ps \<Longrightarrow> i < length ps \<Longrightarrow> finding (ps ! i) \<Longrightarrow> \<not> so_final C (ps ! i) \<Longrightarrow>
      so_move C (ps ! i) sh = (p', sh') \<Longrightarrow> finding p' \<and> keys sh' = keys sh"
begin

text \<open>A call that has not returned can move, and the keys only grow.\<close>

lemma move_emplace:
  assumes inv: "inv sh ps" and i: "i < length ps" and going: "\<not> so_final C (ps ! i)"
    and at: "before k (ps ! i) \<or> after (ps ! i) \<and> k \<in> keys sh" and mv: "so_move C (ps ! i) sh = (p', sh')"
  shows "inv sh' (ps[i := p'])" "keys sh \<subseteq> keys sh'" "keys sh' \<subseteq> insert k (keys sh)"
    "before k p' \<or> after p' \<and> k \<in> keys sh'"
proof -
  have "ps ! i \<noteq> so_idle C" using at before_open after_open going by blast
  from move_inv [OF inv i this going] mv show "inv sh' (ps[i := p'])" by simp
  show "keys sh \<subseteq> keys sh'" "keys sh' \<subseteq> insert k (keys sh)" "before k p' \<or> after p' \<and> k \<in> keys sh'"
    using at move_before [OF inv i _ mv, of k] move_after [OF inv i _ going mv] by blast+
qed

lemma move_find:
  assumes inv: "inv sh ps" and i: "i < length ps" and going: "\<not> so_final C (ps ! i)"
    and at: "finding (ps ! i)" and mv: "so_move C (ps ! i) sh = (p', sh')"
  shows "inv sh' (ps[i := p'])" "keys sh' = keys sh" "finding p'"
  using move_inv [OF inv i finding_open [OF at] going] move_finding [OF inv i at going mv] mv by simp_all

end


section \<open>Queues\<close>

text \<open>Calls that do not overlap: push a list, pop a number of elements.\<close>

fun enq_all :: "('a \<Rightarrow> 'q \<Rightarrow> bool \<times> 'q) \<Rightarrow> 'a list \<Rightarrow> 'q \<Rightarrow> bool list \<times> 'q" where
  "enq_all enq [] q = ([], q)"
| "enq_all enq (x # xs) q =
     (case enq x q of (b, q') \<Rightarrow> case enq_all enq xs q' of (bs, q'') \<Rightarrow> (b # bs, q''))"

fun deq_many :: "('q \<Rightarrow> 'a option \<times> 'q) \<Rightarrow> nat \<Rightarrow> 'q \<Rightarrow> 'a option list \<times> 'q" where
  "deq_many deq 0 q = ([], q)"
| "deq_many deq (Suc n) q =
     (case deq q of (r, q') \<Rightarrow> case deq_many deq n q' of (rs, q'') \<Rightarrow> (r # rs, q''))"

lemma deq_many_numeral:
  "deq_many deq (numeral k) q =
     (case deq q of (r, q') \<Rightarrow> case deq_many deq (pred_numeral k) q' of (rs, q'') \<Rightarrow> (r # rs, q''))"
  by (simp add: numeral_eq_Suc)

text \<open>The specification of a bounded queue, on lists.\<close>

definition spec_enq :: "nat \<Rightarrow> 'a \<Rightarrow> 'a list \<Rightarrow> bool \<times> 'a list" where
  "spec_enq cap x xs = (if length xs < cap then (True, xs @ [x]) else (False, xs))"

fun spec_deq :: "'a list \<Rightarrow> 'a option \<times> 'a list" where
  "spec_deq [] = (None, [])"
| "spec_deq (x # xs) = (Some x, xs)"

locale fifo =
  fixes enq :: "'a \<Rightarrow> 'q \<Rightarrow> bool \<times> 'q"
    and deq :: "'q \<Rightarrow> 'a option \<times> 'q"
    and contents :: "'q \<Rightarrow> 'a list"
    and wf :: "'q \<Rightarrow> bool"
    and room :: "'q \<Rightarrow> nat"
  assumes enq_room: "wf q \<Longrightarrow> 0 < room q \<Longrightarrow> enq x q = (b, q') \<Longrightarrow>
      b \<and> wf q' \<and> contents q' = contents q @ [x] \<and> room q \<le> Suc (room q')"
    and deq_spec: "wf q \<Longrightarrow> deq q = (r, q') \<Longrightarrow>
      wf q' \<and> spec_deq (contents q) = (r, contents q')"
begin

lemma enq_all_contents:
  "wf q \<Longrightarrow> length xs \<le> room q \<Longrightarrow> enq_all enq xs q = (bs, q') \<Longrightarrow>
    wf q' \<and> contents q' = contents q @ xs \<and> bs = replicate (length xs) True"
proof (induction xs arbitrary: q bs q')
  case Nil
  then show ?case by simp
next
  case (Cons x xs)
  obtain b q1 where e: "enq x q = (b, q1)" by (cases "enq x q")
  obtain bs1 q2 where e2: "enq_all enq xs q1 = (bs1, q2)" by (cases "enq_all enq xs q1")
  from Cons.prems e have h: "b \<and> wf q1 \<and> contents q1 = contents q @ [x] \<and> room q \<le> Suc (room q1)"
    by (auto dest!: enq_room [rotated 2])
  with Cons.prems have "length xs \<le> room q1" by simp
  with h e2 Cons.IH have "wf q2 \<and> contents q2 = contents q1 @ xs \<and> bs1 = replicate (length xs) True"
    by blast
  with h e e2 Cons.prems show ?case by auto
qed

lemma deq_many_contents:
  "wf q \<Longrightarrow> n \<le> length (contents q) \<Longrightarrow> deq_many deq n q = (rs, q') \<Longrightarrow>
    wf q' \<and> contents q' = drop n (contents q) \<and> rs = map Some (take n (contents q))"
proof (induction n arbitrary: q rs q')
  case 0
  then show ?case by simp
next
  case (Suc n)
  obtain r q1 where e: "deq q = (r, q1)" by (cases "deq q")
  obtain rs1 q2 where e2: "deq_many deq n q1 = (rs1, q2)" by (cases "deq_many deq n q1")
  from Suc.prems obtain x xs where c: "contents q = x # xs" by (cases "contents q") auto
  with deq_spec [OF Suc.prems(1) e] have h: "wf q1" "r = Some x" "contents q1 = xs" by auto
  with Suc.prems(2) c have "n \<le> length (contents q1)" by simp
  with h e2 Suc.IH have "wf q2 \<and> contents q2 = drop n xs \<and> rs1 = map Some (take n xs)" by blast
  with h e e2 c Suc.prems show ?case by auto
qed

text \<open>First in, first out: what is pushed into an empty queue comes out in the same order.\<close>

lemma push_pop:
  assumes "wf q" "contents q = []" "length xs \<le> room q"
    and "enq_all enq xs q = (bs, q1)" "deq_many deq (length xs) q1 = (rs, q2)"
  shows "rs = map Some xs \<and> contents q2 = []"
  using enq_all_contents [OF assms(1,3,4)] deq_many_contents [OF _ _ assms(5)] assms(2) by simp

end

text \<open>A bounded queue also says when it refuses: exactly when it is full, and without a change. Its
  contract may be limited to a number of pushes, the \<open>left\<close> ones.\<close>

locale bounded_fifo =
  fixes enq :: "'a \<Rightarrow> 'q \<Rightarrow> bool \<times> 'q"
    and deq :: "'q \<Rightarrow> 'a option \<times> 'q"
    and contents :: "'q \<Rightarrow> 'a list"
    and wf :: "'q \<Rightarrow> bool"
    and cap :: "'q \<Rightarrow> nat"
    and left :: "'q \<Rightarrow> nat"
  assumes enq_spec: "wf q \<Longrightarrow> 0 < left q \<Longrightarrow> enq x q = (b, q') \<Longrightarrow>
      wf q' \<and> cap q' = cap q \<and> left q \<le> Suc (left q') \<and> spec_enq (cap q) x (contents q) = (b, contents q')"
    and enq_refused: "wf q \<Longrightarrow> 0 < left q \<Longrightarrow> enq x q = (False, q') \<Longrightarrow> q' = q"
    and deq_cap: "wf q \<Longrightarrow> deq q = (r, q') \<Longrightarrow>
      wf q' \<and> cap q' = cap q \<and> left q \<le> left q' \<and> spec_deq (contents q) = (r, contents q')"
    and within_cap: "wf q \<Longrightarrow> length (contents q) \<le> cap q"
begin

lemma full_iff_refused:
  "wf q \<Longrightarrow> 0 < left q \<Longrightarrow> enq x q = (b, q') \<Longrightarrow> \<not> b \<longleftrightarrow> length (contents q) = cap q"
  using enq_spec [of q x b q'] within_cap [of q] by (auto simp: spec_enq_def split: if_splits)

end

sublocale bounded_fifo \<subseteq> as_fifo: fifo enq deq contents wf "\<lambda>q. min (left q) (cap q - length (contents q))"
proof
  fix q x b q'
  assume "wf q" "0 < min (left q) (cap q - length (contents q))" "enq x q = (b, q')"
  then show "b \<and> wf q' \<and> contents q' = contents q @ [x] \<and> min (left q) (cap q - length (contents q))
      \<le> Suc (min (left q') (cap q' - length (contents q')))"
    using enq_spec [of q x b q'] by (cases "contents q' = contents q @ [x]") (auto simp: spec_enq_def)
next
  fix q r q'
  assume "wf q" "deq q = (r, q')"
  then show "wf q' \<and> spec_deq (contents q) = (r, contents q')"
    using deq_cap by blast
qed

text \<open>
  A queue under threads that push and pop at the same time: \<open>sent\<close> are the values pushed so
  far, \<open>got\<close> the values popped, and what is pushed and not yet popped is \<open>inside\<close>.
\<close>

locale queue_protocol = protocol ts start inv
  for ts :: "('sh, 'pc) thread_step"
    and start :: "('sh, 'pc) system \<Rightarrow> bool"
    and inv :: "'sh \<Rightarrow> 'pc list \<Rightarrow> bool" +
  fixes sent :: "'sh \<Rightarrow> 'a list" and got :: "'sh \<Rightarrow> 'a list"
    and inside :: "'sh \<Rightarrow> 'a list" and bad :: "'pc \<Rightarrow> bool"
  assumes inv_log: "inv sh ps \<Longrightarrow> sent sh = got sh @ inside sh"
    and inv_safe: "inv sh ps \<Longrightarrow> p \<in> set ps \<Longrightarrow> \<not> bad p"
begin

text \<open>What comes out is a beginning of what went in, in the same order.\<close>

lemma reach_fifo: "reach start (interleave ts) (sh, ps) \<Longrightarrow>
    got sh = take (length (got sh)) (sent sh) \<and> inside sh = drop (length (got sh)) (sent sh)"
  using inv_log [OF reach_inv] by simp

lemma reach_safe: "reach start (interleave ts) (sh, ps) \<Longrightarrow> \<forall>p \<in> set ps. \<not> bad p"
  using inv_safe [OF reach_inv] by blast

end


section \<open>Maps\<close>

text \<open>Calls on a map from keys to values, and their replies.\<close>

datatype ('k, 'v) dict_op = DictEmplace 'k 'v | DictGet 'k | DictRemove 'k

datatype 'v dict_reply = DictNew bool | DictGot "'v option" | DictRemoved

fun dict_run :: "('k \<Rightarrow> 'v \<Rightarrow> 'm \<Rightarrow> bool \<times> 'm) \<Rightarrow> ('k \<Rightarrow> 'm \<Rightarrow> 'v option) \<Rightarrow> ('k \<Rightarrow> 'm \<Rightarrow> 'm)
  \<Rightarrow> ('k, 'v) dict_op list \<Rightarrow> 'm \<Rightarrow> 'v dict_reply list \<times> 'm"
where
  "dict_run emplace get remove [] m = ([], m)"
| "dict_run emplace get remove (DictEmplace k v # ops) m =
     (case emplace k v m of (b, m') \<Rightarrow>
       case dict_run emplace get remove ops m' of (rs, m'') \<Rightarrow> (DictNew b # rs, m''))"
| "dict_run emplace get remove (DictGet k # ops) m =
     (case dict_run emplace get remove ops m of (rs, m') \<Rightarrow> (DictGot (get k m) # rs, m'))"
| "dict_run emplace get remove (DictRemove k # ops) m =
     (case dict_run emplace get remove ops (remove k m) of (rs, m') \<Rightarrow> (DictRemoved # rs, m'))"

text \<open>The specification: partial functions. \<open>emplace\<close> says whether the key was new, and renews
  the value of a key that was not.\<close>

definition map_emplace :: "'k \<Rightarrow> 'v \<Rightarrow> ('k \<rightharpoonup> 'v) \<Rightarrow> bool \<times> ('k \<rightharpoonup> 'v)" where
  "map_emplace k v m = (m k = None, m(k \<mapsto> v))"

definition map_get :: "'k \<Rightarrow> ('k \<rightharpoonup> 'v) \<Rightarrow> 'v option" where
  "map_get k m = m k"

definition map_remove :: "'k \<Rightarrow> ('k \<rightharpoonup> 'v) \<Rightarrow> 'k \<rightharpoonup> 'v" where
  "map_remove k m = m(k := None)"

locale dictionary =
  fixes emplace :: "'k \<Rightarrow> 'v \<Rightarrow> 'm \<Rightarrow> bool \<times> 'm"
    and get :: "'k \<Rightarrow> 'm \<Rightarrow> 'v option"
    and remove :: "'k \<Rightarrow> 'm \<Rightarrow> 'm"
    and contents :: "'m \<Rightarrow> 'k \<rightharpoonup> 'v"
    and wf :: "'m \<Rightarrow> bool"
    and room :: "'m \<Rightarrow> nat"
  assumes emplace_law: "wf m \<Longrightarrow> 0 < room m \<Longrightarrow> emplace k v m = (b, m') \<Longrightarrow>
      wf m' \<and> map_emplace k v (contents m) = (b, contents m') \<and> room m \<le> Suc (room m')"
    and get_law: "wf m \<Longrightarrow> get k m = map_get k (contents m)"
    and remove_law: "wf m \<Longrightarrow> wf (remove k m) \<and> contents (remove k m) = map_remove k (contents m)
      \<and> room m \<le> room (remove k m)"
begin

lemma run_contents:
  "wf m \<Longrightarrow> length ops \<le> room m \<Longrightarrow> dict_run emplace get remove ops m = (rs, m') \<Longrightarrow>
    wf m' \<and> dict_run map_emplace map_get map_remove ops (contents m) = (rs, contents m')"
proof (induction ops arbitrary: m rs)
  case Nil
  then show ?case by simp
next
  case (Cons c ops)
  show ?case
  proof (cases c)
    case (DictEmplace k v)
    obtain b m1 where e: "emplace k v m = (b, m1)" by (cases "emplace k v m")
    obtain rs1 where r: "dict_run emplace get remove ops m1 = (rs1, m')" "rs = DictNew b # rs1"
      using Cons.prems(3) e DictEmplace by (auto split: prod.splits)
    have "wf m1 \<and> map_emplace k v (contents m) = (b, contents m1) \<and> room m \<le> Suc (room m1)"
      using emplace_law [OF Cons.prems(1) _ e] Cons.prems(2) by simp
    with Cons.IH [OF _ _ r(1)] Cons.prems(2) r(2) DictEmplace show ?thesis by simp
  next
    case (DictGet k)
    obtain rs1 where r: "dict_run emplace get remove ops m = (rs1, m')" "rs = DictGot (get k m) # rs1"
      using Cons.prems(3) DictGet by (auto split: prod.splits)
    with Cons.IH [OF _ _ r(1)] Cons.prems(1,2) DictGet get_law [OF Cons.prems(1)] show ?thesis by simp
  next
    case (DictRemove k)
    obtain rs1 where r: "dict_run emplace get remove ops (remove k m) = (rs1, m')" "rs = DictRemoved # rs1"
      using Cons.prems(3) DictRemove by (auto split: prod.splits)
    with Cons.IH [OF _ _ r(1)] Cons.prems(1,2) DictRemove remove_law [OF Cons.prems(1), of k]
    show ?thesis by simp
  qed
qed

end

end
