(* ===== verification/Spin_Lock.thy ===== *)
theory Spin_Lock
  imports Interfaces
begin

text \<open>
  The class \<open>spinlock\<close> of \<open>synchronization/spinlock.h\<close>. The shared memory is the flag
  \<open>m_lock\<close>; a program counter says which atomic access of \<open>lock\<close>, \<open>try_lock\<close> or
  \<open>unlock\<close> a thread makes next. A thread calls \<open>unlock\<close> only while it holds the lock.
\<close>

datatype sl_pc =
  SlIdle          \<comment> \<open>outside every call\<close>
| SlExchange      \<comment> \<open>lock: before the exchange\<close>
| SlSpin          \<comment> \<open>lock: in the inner loop of relaxed loads\<close>
| SlTryLoad       \<comment> \<open>try_lock: before the load\<close>
| SlTryExchange   \<comment> \<open>try_lock: before the exchange\<close>
| SlFailed        \<comment> \<open>try_lock returned false\<close>
| SlHeld          \<comment> \<open>lock returned, or try_lock returned true\<close>

fun spinlock_lock :: "sl_pc \<Rightarrow> bool \<Rightarrow> sl_pc \<times> bool" where
  "spinlock_lock SlExchange m = (if m then SlSpin else SlHeld, True)"
| "spinlock_lock SlSpin m = (if m then SlSpin else SlExchange, m)"
| "spinlock_lock p m = (p, m)"

fun spinlock_try_lock :: "sl_pc \<Rightarrow> bool \<Rightarrow> sl_pc \<times> bool" where
  "spinlock_try_lock SlTryLoad m = (if m then SlFailed else SlTryExchange, m)"
| "spinlock_try_lock SlTryExchange m = (if m then SlFailed else SlHeld, True)"
| "spinlock_try_lock p m = (p, m)"

definition spinlock_unlock :: "bool \<Rightarrow> bool" where
  "spinlock_unlock m = False"

definition spinlock_init :: bool where
  "spinlock_init = False"

definition spinlock_step :: "(bool, sl_pc) thread_step" where
  "spinlock_step i p m =
     (case p of
        SlIdle \<Rightarrow> [(SlExchange, m), (SlTryLoad, m)]
      | SlExchange \<Rightarrow> [spinlock_lock p m]
      | SlSpin \<Rightarrow> [spinlock_lock p m]
      | SlTryLoad \<Rightarrow> [spinlock_try_lock p m]
      | SlTryExchange \<Rightarrow> [spinlock_try_lock p m]
      | SlFailed \<Rightarrow> [(SlIdle, m)]
      | SlHeld \<Rightarrow> [(SlIdle, spinlock_unlock m)])"

definition spinlock_start :: "(bool, sl_pc) system \<Rightarrow> bool" where
  "spinlock_start s \<longleftrightarrow> fst s = spinlock_init \<and> (\<forall>p \<in> set (snd s). p = SlIdle)"

abbreviation sl_holds :: "sl_pc \<Rightarrow> bool" where
  "sl_holds p \<equiv> p = SlHeld"

text \<open>The flag is set exactly while one thread holds the lock.\<close>

definition spinlock_inv :: "bool \<Rightarrow> sl_pc list \<Rightarrow> bool" where
  [inv_defs]: "spinlock_inv m ps \<longleftrightarrow>
     weight_sum (\<lambda>p. of_bool (sl_holds p)) ps = of_bool m"

lemma spinlock_step_inv:
  assumes "spinlock_inv m ps" "i < length ps" "(p', m') \<in> set (spinlock_step i (ps ! i) m)"
  shows "spinlock_inv m' (ps[i := p'])"
proof -
  let ?w = "\<lambda>p. of_bool (sl_holds p) :: nat"
  have "weight_sum ?w (ps[i := p']) + ?w (ps ! i) = weight_sum ?w ps + ?w p'"
    using assms(2) by (rule weight_sum_update)
  moreover have "?w (ps ! i) \<le> weight_sum ?w ps"
    using assms(2) by (rule weight_sum_member)
  ultimately show ?thesis
    using assms(1,3)
    by (cases "ps ! i"; cases m)
      (auto simp: spinlock_inv_def spinlock_step_def spinlock_unlock_def)
qed

interpretation sl: mutex_protocol spinlock_step spinlock_start spinlock_inv sl_holds
proof
  fix m ps
  assume "spinlock_start (m, ps)"
  then show "spinlock_inv m ps"
    by (auto simp: spinlock_start_def spinlock_inv_def spinlock_init_def weight_sum_zero)
next
  fix m ps i p' m'
  assume "spinlock_inv m ps" "i < length ps" "(p', m') \<in> set (spinlock_step i (ps ! i) m)"
  then show "spinlock_inv m' (ps[i := p'])" by (rule spinlock_step_inv)
next
  fix m ps i j
  assume "spinlock_inv m ps" and ij: "i < length ps" "j < length ps"
    and h: "sl_holds (ps ! i)" "sl_holds (ps ! j)"
  then have "weight_sum (\<lambda>p. of_bool (sl_holds p)) ps \<le> 1"
    by (simp add: spinlock_inv_def)
  with weight_sum_members [OF ij, of "\<lambda>p. of_bool (sl_holds p)"] h show "i = j"
    by (cases "i = j") auto
qed

text \<open>C27. Mutual exclusion of \<open>spinlock\<close>: in every reachable state of any number of threads
  that call \<open>lock\<close>, \<open>try_lock\<close> and \<open>unlock\<close> in any order, at most one thread holds
  the lock, and then the flag is set.\<close>

theorem spinlock_mutual_exclusion:
  assumes "reach spinlock_start (interleave spinlock_step) (m, ps)"
    and "i < length ps" "j < length ps" "ps ! i = SlHeld" "ps ! j = SlHeld"
  shows "i = j \<and> m"
proof
  show "i = j" using assms by (auto intro: sl.reach_mutex)
  have "spinlock_inv m ps" using assms(1) by (rule sl.reach_inv)
  with weight_sum_member [OF assms(2), of "\<lambda>p. of_bool (sl_holds p)"] assms(4) show m
    by (cases m) (auto simp: spinlock_inv_def)
qed

theorem spinlock_mutual_exclusion_witness:
  "reach spinlock_start (interleave spinlock_step) (True, [SlHeld, SlSpin])
   \<and> (0::nat) = 0 \<and> True"
proof -
  have "reach spinlock_start (interleave spinlock_step) (True, [SlHeld, SlSpin])"
    by (rule run_sched_reach_start
        [where s = "(False, [SlIdle, SlIdle])" and sched = "[(0, 0), (1, 0), (0, 0), (1, 0)]"])
      (simp_all add: spinlock_start_def spinlock_init_def spinlock_step_def)
  from this spinlock_mutual_exclusion [OF this, of 0 0] show ?thesis by simp
qed

text \<open>\<open>try_lock\<close> alone returns at once: true exactly when the lock was free, and the
  flag is set when it returns true and unchanged when it returns false.\<close>

theorem spinlock_try_lock_alone:
  "run_alone spinlock_try_lock (\<lambda>p. p \<in> {SlHeld, SlFailed}) 2 SlTryLoad m =
     Some (if m then (SlFailed, True) else (SlHeld, True))"
  by (simp add: run_alone_unfold)

text \<open>\<open>lock\<close> alone returns after one access when the lock is free, and keeps spinning,
  without a write, as long as another thread holds it.\<close>

lemma spinlock_lock_alone:
  "run_alone spinlock_lock sl_holds 1 SlExchange False = Some (SlHeld, True)"
  by (simp add: run_alone_Suc)

lemma spinlock_lock_waits: "fst (spinlock_lock p True) \<noteq> SlHeld" if "p \<noteq> SlHeld"
  using that by (cases p) auto

end
