(* ===== verification/RW_Spinlock.thy ===== *)
theory RW_Spinlock
  imports Interfaces
begin

text \<open>
  The class \<open>rw_spinlock\<close> of \<open>synchronization/spinlock.h\<close>. The shared memory is the
  32-bit word \<open>m_lock\<close>: its low 20 bits count readers, its high 12 bits count writers, and
  both counts include the threads that have added themselves and not yet taken it back.
  A bracket from \<open>lock_shared\<close> to \<open>unlock_shared\<close> is one program counter, so a thread
  that nests read locks counts once per level.
\<close>

unbundle bit_operations_syntax

datatype rw_pc =
  RwIdle
| RdTry      \<comment> \<open>lock_shared: before the increment\<close>
| RdUndo     \<comment> \<open>lock_shared: before the decrement after a failure\<close>
| RdSpin     \<comment> \<open>lock_shared: in the inner loop\<close>
| RdHeld
| WrTry      \<comment> \<open>lock: before the addition\<close>
| WrUndo     \<comment> \<open>lock: before the subtraction after a failure\<close>
| WrSpin     \<comment> \<open>lock: in the inner loop\<close>
| WrHeld

definition rw_writer_bits :: "u32 \<Rightarrow> bool" where
  "rw_writer_bits m \<longleftrightarrow> m AND 0xfff00000 \<noteq> 0"

fun rw_lock_shared :: "rw_pc \<Rightarrow> u32 \<Rightarrow> rw_pc \<times> u32" where
  "rw_lock_shared RdTry m = (if \<not> rw_writer_bits (m + 1) then RdHeld else RdUndo, m + 1)"
| "rw_lock_shared RdUndo m = (RdSpin, m - 1)"
| "rw_lock_shared RdSpin m = (if rw_writer_bits m then RdSpin else RdTry, m)"
| "rw_lock_shared p m = (p, m)"

definition rw_unlock_shared :: "u32 \<Rightarrow> u32" where
  "rw_unlock_shared m = m - 1"

fun rw_lock :: "rw_pc \<Rightarrow> u32 \<Rightarrow> rw_pc \<times> u32" where
  "rw_lock WrTry m = (if m + 0x100000 = 0x100000 then WrHeld else WrUndo, m + 0x100000)"
| "rw_lock WrUndo m = (WrSpin, m - 0x100000)"
| "rw_lock WrSpin m = (if rw_writer_bits m then WrSpin else WrTry, m)"
| "rw_lock p m = (p, m)"

definition rw_unlock :: "u32 \<Rightarrow> u32" where
  "rw_unlock m = m - 0x100000"

definition rw_init :: u32 where
  "rw_init = 0"

definition rw_step :: "(u32, rw_pc) thread_step" where
  "rw_step i p m =
     (case p of
        RwIdle \<Rightarrow> [(RdTry, m), (WrTry, m)]
      | RdTry \<Rightarrow> [rw_lock_shared p m]
      | RdUndo \<Rightarrow> [rw_lock_shared p m]
      | RdSpin \<Rightarrow> [rw_lock_shared p m]
      | RdHeld \<Rightarrow> [(RwIdle, rw_unlock_shared m)]
      | WrTry \<Rightarrow> [rw_lock p m]
      | WrUndo \<Rightarrow> [rw_lock p m]
      | WrSpin \<Rightarrow> [rw_lock p m]
      | WrHeld \<Rightarrow> [(RwIdle, rw_unlock m)])"

text \<open>Fewer than 4096 brackets are open at once, so neither count can overflow its bits.\<close>

definition rw_start :: "(u32, rw_pc) system \<Rightarrow> bool" where
  "rw_start s \<longleftrightarrow> fst s = rw_init \<and> length (snd s) < 4096 \<and> (\<forall>p \<in> set (snd s). p = RwIdle)"

text \<open>What a thread has added to the word.\<close>

fun rw_weight :: "rw_pc \<Rightarrow> nat" where
  "rw_weight RdUndo = 1"
| "rw_weight RdHeld = 1"
| "rw_weight WrUndo = 0x100000"
| "rw_weight WrHeld = 0x100000"
| "rw_weight _ = 0"

lemma writer_bits_32: "(m AND 0xfff00000 = 0) \<longleftrightarrow> unat m < 2 ^ 20" for m :: u32
proof -
  have e: "(0xfff00000 :: u32) = push_bit 20 (mask 12)" by (simp add: mask_eq_exp_minus_1 push_bit_eq_mult)
  have "(m AND 0xfff00000 = 0) \<longleftrightarrow> unat (m AND 0xfff00000) = 0" by (simp only: unat_eq_0)
  also have "\<dots> \<longleftrightarrow> unat m div 2 ^ 20 mod 2 ^ 12 = 0"
    unfolding e by (subst unat_and_shifted_mask) simp_all
  also have "\<dots> \<longleftrightarrow> unat m < 2 ^ 20"
  proof -
    have "unat m div 2 ^ 20 < 2 ^ 12" using unat_less_32 [of m] by (simp add: less_mult_imp_div_less)
    then show ?thesis by (simp add: div_eq_0_iff)
  qed
  finally show ?thesis .
qed

lemma rw_writer_bits_iff: "rw_writer_bits m \<longleftrightarrow> 2 ^ 20 \<le> unat m"
  by (simp add: rw_writer_bits_def writer_bits_32 linorder_not_less)

abbreviation rw_reading :: "rw_pc \<Rightarrow> bool" where
  "rw_reading p \<equiv> p = RdHeld"

abbreviation rw_writing :: "rw_pc \<Rightarrow> bool" where
  "rw_writing p \<equiv> p = WrHeld"

text \<open>The word is the sum of what the threads added; a writer excludes every other holder.\<close>

definition rw_inv :: "u32 \<Rightarrow> rw_pc list \<Rightarrow> bool" where
  [inv_defs]: "rw_inv m ps \<longleftrightarrow>
     length ps < 4096 \<and> unat m = weight_sum rw_weight ps \<and> rw_exclusive rw_reading rw_writing ps"

lemma rw_weight_bound: "rw_weight p \<le> 0x100000"
  by (cases p) auto

lemma rw_sum_bound: "length ps < 4096 \<Longrightarrow> weight_sum rw_weight ps < 2 ^ 32"
proof -
  assume "length ps < 4096"
  then have "weight_sum rw_weight ps \<le> 4095 * 0x100000"
    using weight_sum_bound [of rw_weight "0x100000" ps, OF rw_weight_bound]
    by linarith
  then show ?thesis by simp
qed

text \<open>Adding to and taking from the word never wraps.\<close>

lemma rw_inv_bound: "rw_inv m ps \<Longrightarrow> length (ps[i := p]) < 4096"
  by (simp add: rw_inv_def)

lemma rw_sum_step:
  assumes "rw_inv m ps" "i < length ps"
  shows "weight_sum rw_weight (ps[i := p']) + rw_weight (ps ! i) = unat m + rw_weight p'"
    and "weight_sum rw_weight (ps[i := p']) < 2 ^ 32"
    and "rw_weight (ps ! i) \<le> unat m"
  using assms weight_sum_update [OF assms(2), of rw_weight p'] weight_sum_member [OF assms(2), of rw_weight]
    rw_sum_bound [of "ps[i := p']"]
  by (auto simp: rw_inv_def)

lemma rw_step_word:
  assumes "rw_inv m ps" "i < length ps" "(p', m') \<in> set (rw_step i (ps ! i) m)"
  shows "unat m' = weight_sum rw_weight (ps[i := p'])"
proof -
  have add: "unat (m + d) = weight_sum rw_weight (ps[i := p'])"
    if "rw_weight (ps ! i) = 0" "rw_weight p' = unat d" for d
    using rw_sum_step(1,2) [OF assms(1,2), of p'] that by (simp add: unat_add_no_wrap)
  have sub: "unat (m - d) = weight_sum rw_weight (ps[i := p'])"
    if "rw_weight p' = 0" "rw_weight (ps ! i) = unat d" for d
    using rw_sum_step(1) [OF assms(1,2), of p'] rw_sum_step(3) [OF assms(1,2)] that by (simp add: unat_sub_no_wrap)
  show ?thesis
    using assms(3) rw_sum_step(1) [OF assms(1,2), of p'] add sub
    by (cases "ps ! i")
      (auto simp: rw_step_def rw_unlock_shared_def rw_unlock_def split: if_splits)
qed

text \<open>An acquisition succeeds only when no conflicting holder is in the word.\<close>

lemma rw_no_writer:
  assumes "rw_inv m ps" "\<not> rw_writer_bits (m + 1)" "i < length ps" "ps ! i = RdTry"
  shows "\<forall>j < length ps. \<not> rw_writing (ps ! j)"
proof (intro allI impI notI)
  fix j assume j: "j < length ps" "rw_writing (ps ! j)"
  have "unat m < 2 ^ 32 - 1"
    using rw_sum_step(1,2) [OF assms(1,3), of RdHeld] assms(4) by simp
  then have "unat (m + 1) = unat m + 1" by (simp add: unat_add_no_wrap)
  with assms(2) have "unat m < 2 ^ 20" by (simp add: rw_writer_bits_iff)
  moreover have "0x100000 \<le> unat m"
    using assms(1) weight_sum_member [OF j(1), of rw_weight] j(2) by (simp add: rw_inv_def)
  ultimately show False by simp
qed

lemma rw_no_holder:
  assumes "rw_inv m ps" "m + 0x100000 = 0x100000"
  shows "\<forall>j < length ps. \<not> rw_writing (ps ! j) \<and> \<not> rw_reading (ps ! j)"
proof -
  from assms(2) have "m = 0" by simp
  with assms(1) have "\<forall>p \<in> set ps. rw_weight p = 0"
    by (simp add: rw_inv_def flip: weight_sum_zero)
  then show ?thesis by (metis nth_mem rw_weight.simps(2,4) zero_neq_numeral zero_neq_one)
qed

lemma rw_step_inv:
  assumes "rw_inv m ps" "i < length ps" "(p', m') \<in> set (rw_step i (ps ! i) m)"
  shows "rw_inv m' (ps[i := p'])"
proof -
  have ex: "rw_exclusive rw_reading rw_writing ps" using assms(1) by (simp add: rw_inv_def)
  have "rw_exclusive rw_reading rw_writing (ps[i := p'])"
  proof (cases "p' = RdHeld \<or> p' = WrHeld")
    case False
    with ex show ?thesis by (auto intro: rw_exclusive_neutral)
  next
    case True
    with assms(3) consider "p' = RdHeld" "\<not> rw_writer_bits (m + 1)" "ps ! i = RdTry"
      | "p' = WrHeld" "m + 0x100000 = 0x100000"
      by (cases "ps ! i") (auto simp: rw_step_def split: if_splits)
    then show ?thesis
      using ex rw_no_writer [OF assms(1) _ assms(2)] rw_no_holder [OF assms(1)]
      by cases (auto intro!: rw_exclusive_update)
  qed
  with rw_step_word [OF assms] assms(1) show ?thesis by (simp add: rw_inv_def)
qed

interpretation rw: rw_protocol rw_step rw_start rw_inv rw_reading rw_writing
proof
  fix m ps
  assume "rw_start (m, ps)"
  then show "rw_inv m ps"
    by (auto simp: rw_start_def rw_inv_def rw_init_def weight_sum_zero intro!: rw_exclusive_start
        dest: weight_sum_zero [THEN iffD2, of ps rw_weight])
next
  fix m ps i p' m'
  assume "rw_inv m ps" "i < length ps" "(p', m') \<in> set (rw_step i (ps ! i) m)"
  then show "rw_inv m' (ps[i := p'])" by (rule rw_step_inv)
next
  fix m ps i j
  assume "rw_inv m ps" "i < length ps" "j < length ps" "i \<noteq> j" "rw_writing (ps ! i)"
  then show "\<not> rw_writing (ps ! j) \<and> \<not> rw_reading (ps ! j)"
    by (auto simp: rw_inv_def dest: rw_exclusiveD)
qed


text \<open>An array of locks: a step moves one of them, and each keeps its invariant.\<close>

lemma rw_array_keeps:
  assumes "\<forall>c < n. rw_inv (gs ! c) (map (f c) ps)" "length gs = n" "i < length ps"
    and "(f d p', m) = (f d (ps ! i), gs ! d) \<or> (f d p', m) \<in> set (rw_step i (f d (ps ! i)) (gs ! d))"
    and "\<And>c. c \<noteq> d \<Longrightarrow> f c p' = f c (ps ! i)"
  shows "\<forall>c < n. rw_inv (gs[d := m] ! c) (map (f c) (ps[i := p']))"
proof (intro allI impI)
  fix c assume c: "c < n"
  show "rw_inv (gs[d := m] ! c) (map (f c) (ps[i := p']))"
  proof (rule rw.keeps_inside)
    show "rw_inv (gs ! c) (map (f c) ps)" using assms(1) c by blast
    show "i < length ps" by fact
    show "(f c p', gs[d := m] ! c) = (f c (ps ! i), gs ! c)
      \<or> (f c p', gs[d := m] ! c) \<in> set (rw_step i (f c (ps ! i)) (gs ! c))"
      using assms(2,4,5) c by (cases "c = d") simp_all
  qed
qed


section \<open>Properties\<close>

text \<open>C10. Exclusion of \<open>rw_spinlock\<close>: with fewer than 4096 open brackets, whatever the
  threads call and however their atomic accesses interleave (failed attempts included), a thread
  between \<open>lock\<close> and \<open>unlock\<close> excludes every other reader and writer.\<close>

theorem rw_spinlock_exclusion:
  assumes "reach rw_start (interleave rw_step) (m, ps)"
    and "i < length ps" "j < length ps" "i \<noteq> j" "ps ! i = WrHeld"
  shows "ps ! j \<noteq> WrHeld \<and> ps ! j \<noteq> RdHeld"
  using rw.reach_rw [OF assms(1-4)] assms(5) by simp

theorem rw_spinlock_exclusion_witness:
  "reach rw_start (interleave rw_step) (0x100001, [WrHeld, RdUndo])
   \<and> ([WrHeld, RdUndo] ! 1 \<noteq> WrHeld \<and> [WrHeld, RdUndo] ! 1 \<noteq> RdHeld)"
proof -
  have "reach rw_start (interleave rw_step) (0x100001, [WrHeld, RdUndo])"
    by (rule run_sched_reach_start
        [where s = "(0, [RwIdle, RwIdle])" and sched = "[(0, 1), (1, 0), (0, 0), (1, 0)]"])
      (simp_all add: rw_start_def rw_init_def rw_step_def rw_writer_bits_def)
  from this rw_spinlock_exclusion [OF this, of 0 1] show ?thesis by simp
qed

text \<open>C26. The word of \<open>rw_spinlock\<close> keeps an exact account: it is the number of readers in
  it plus \<open>0x100000\<close> times the number of writers in it, where a thread that failed counts
  until it has taken its own addition back. So once every thread is outside, the word is zero
  again: no failed attempt leaks.\<close>

theorem rw_spinlock_account:
  assumes "reach rw_start (interleave rw_step) (m, ps)"
  shows "unat m = length (filter (\<lambda>p. p \<in> {RdHeld, RdUndo}) ps)
                + 0x100000 * length (filter (\<lambda>p. p \<in> {WrHeld, WrUndo}) ps)"
proof -
  have "weight_sum rw_weight qs = length (filter (\<lambda>p. p \<in> {RdHeld, RdUndo}) qs)
                + 0x100000 * length (filter (\<lambda>p. p \<in> {WrHeld, WrUndo}) qs)" for qs
  proof (induction qs)
    case (Cons q qs)
    then show ?case by (cases q) (auto simp: weight_sum_def)
  qed (simp add: weight_sum_def)
  with rw.reach_inv [OF assms] show ?thesis by (simp add: rw_inv_def)
qed

theorem rw_spinlock_account_witness:
  "unat (0x100001 :: u32) = 1 + 0x100000 * 1"
proof -
  have "reach rw_start (interleave rw_step) (0x100001, [WrHeld, RdUndo])"
    by (rule run_sched_reach_start
        [where s = "(0, [RwIdle, RwIdle])" and sched = "[(0, 1), (1, 0), (0, 0), (1, 0)]"])
      (simp_all add: rw_start_def rw_init_def rw_step_def rw_writer_bits_def)
  from rw_spinlock_account [OF this] show ?thesis by simp
qed

text \<open>A thread alone acquires the free lock at its first access, and a reader also joins other
  readers.\<close>

lemma rw_lock_shared_alone:
  "unat m < 2 ^ 20 - 1 \<Longrightarrow> run_alone rw_lock_shared rw_reading 1 RdTry m = Some (RdHeld, m + 1)"
  by (simp add: run_alone_Suc rw_writer_bits_iff unat_add_no_wrap)

lemma rw_lock_alone: "run_alone rw_lock rw_writing 1 WrTry 0 = Some (WrHeld, 0x100000)"
  by (simp add: run_alone_Suc)

text \<open>The loops of a thread that waits for itself, one turn at a time.\<close>

lemma rw_lock_blocked:
  assumes "m \<noteq> 0" "p \<in> {WrTry, WrSpin} \<and> w = m \<or> p = WrUndo \<and> w = m + 0x100000"
  shows "run_alone rw_lock rw_writing n p w = None"
  using assms(2)
proof (induction n arbitrary: p w)
  case 0
  then show ?case by (auto simp: run_alone.simps)
next
  case (Suc n)
  obtain q v where q: "rw_lock p w = (q, v)" by (cases "rw_lock p w")
  with Suc.prems assms(1)
  have "q \<in> {WrTry, WrSpin} \<and> v = m \<or> q = WrUndo \<and> v = m + 0x100000"
    by (auto split: if_splits)
  with Suc.IH Suc.prems q show ?case by (auto simp: run_alone_Suc)
qed

lemma rw_lock_shared_blocked:
  assumes "0x100000 \<le> unat m" "unat m < 2 ^ 32 - 1"
    and "p \<in> {RdTry, RdSpin} \<and> w = m \<or> p = RdUndo \<and> w = m + 1"
  shows "run_alone rw_lock_shared rw_reading n p w = None"
  using assms(3)
proof (induction n arbitrary: p w)
  case 0
  then show ?case by (auto simp: run_alone.simps)
next
  case (Suc n)
  have "unat (m + 1) = unat m + 1" using assms(2) by (simp add: unat_add_no_wrap)
  moreover obtain q v where q: "rw_lock_shared p w = (q, v)" by (cases "rw_lock_shared p w")
  ultimately have "q \<in> {RdTry, RdSpin} \<and> v = m \<or> q = RdUndo \<and> v = m + 1"
    using Suc.prems assms(1) by (auto simp: rw_writer_bits_iff split: if_splits)
  with Suc.IH Suc.prems q show ?case by (auto simp: run_alone_Suc)
qed

text \<open>The comment on \<open>rw_spinlock\<close> about one thread calling twice, with nobody else
  around: write then read, read then write, and write then write never return, whatever the
  number of steps, while read then read returns at once.\<close>

theorem rw_spinlock_same_thread:
  "run_alone rw_lock_shared rw_reading n RdTry 0x100000 = None
   \<and> run_alone rw_lock rw_writing n WrTry 1 = None
   \<and> run_alone rw_lock rw_writing n WrTry 0x100000 = None
   \<and> run_alone rw_lock_shared rw_reading 1 RdTry 1 = Some (RdHeld, 2)"
  using rw_lock_shared_blocked [of "0x100000" RdTry "0x100000" n] rw_lock_blocked [of 1 WrTry 1 n]
    rw_lock_blocked [of "0x100000" WrTry "0x100000" n] rw_lock_shared_alone [of 1]
  by simp


section \<open>The bound on the number of brackets is needed\<close>

text \<open>The start states with any number of threads.\<close>

definition rw_start_unbounded :: "(u32, rw_pc) system \<Rightarrow> bool" where
  "rw_start_unbounded s \<longleftrightarrow> fst s = rw_init \<and> (\<forall>p \<in> set (snd s). p = RwIdle)"

text \<open>One writer holds the lock and \<open>k\<close> others have failed but not yet subtracted.\<close>

definition rw_crowd :: "nat \<Rightarrow> nat \<Rightarrow> (u32, rw_pc) system" where
  "rw_crowd k r = (of_nat (Suc k * 0x100000), WrHeld # replicate k WrUndo @ replicate r RwIdle)"

lemma rw_crowd_join:
  assumes "(of_nat (Suc k * 0x100000) :: u32) \<noteq> 0"
  shows "run_sched rw_step [(Suc k, 1), (Suc k, 0)] (rw_crowd k (Suc r)) = Some (rw_crowd (Suc k) r)"
proof -
  have "(of_nat (Suc k * 0x100000) + 0x100000 :: u32) = of_nat (Suc (Suc k) * 0x100000)"
    by (simp add: algebra_simps)
  moreover have "(of_nat (Suc k * 0x100000) + 0x100000 :: u32) \<noteq> 0x100000"
    using assms by simp
  ultimately show ?thesis
    by (simp add: rw_crowd_def rw_step_def nth_append list_update_append replicate_app_Cons_same
        del: of_nat_mult of_nat_Suc)
qed

lemma rw_crowd_start:
  "run_sched rw_step [(0, 1), (0, 0)] (0, RwIdle # replicate r RwIdle) = Some (rw_crowd 0 r)"
  by (simp add: rw_crowd_def rw_step_def)

lemma rw_crowd_reach:
  "k \<le> n \<Longrightarrow> n \<le> 4096 \<Longrightarrow> reach rw_start_unbounded (interleave rw_step) (rw_crowd k (n - k)) \<or> k = 4096"
proof (induction k)
  case 0
  have "rw_start_unbounded (0, RwIdle # replicate n RwIdle)"
    by (auto simp: rw_start_unbounded_def rw_init_def)
  then show ?case using run_sched_reach_start [OF _ rw_crowd_start [of n]] by simp
next
  case (Suc k)
  then have r: "reach rw_start_unbounded (interleave rw_step) (rw_crowd k (Suc (n - Suc k)))"
    by (simp add: Suc_diff_Suc)
  show ?case
  proof (cases "Suc k = 4096")
    case False
    with Suc.prems have "unat (of_nat (Suc k * 0x100000) :: u32) = Suc k * 0x100000"
      by (intro unat_of_nat_32) simp
    then have "(of_nat (Suc k * 0x100000) :: u32) \<noteq> 0"
      by (metis mult_eq_0_iff nat.simps(3) unsigned_0 zero_neq_numeral)
    with rw_crowd_join r show ?thesis by (blast intro: run_sched_reach)
  qed simp
qed

lemma rw_crowd_last:
  "run_sched rw_step [(Suc k, 1), (Suc k, 0)] (0, WrHeld # replicate k WrUndo @ [RwIdle])
     = Some (0x100000, WrHeld # replicate k WrUndo @ [WrHeld])"
  by (simp add: rw_step_def nth_append list_update_append)

text \<open>The 12 writer bits are a hard limit: with 4097 threads in the lock, 4095 of them
  between a failed addition and its subtraction, the word wraps to zero and a second writer gets
  in. So the bound of 4096 in the exclusion theorem cannot be dropped.\<close>

theorem rw_spinlock_writer_overflow:
  "\<exists>m ps. reach rw_start_unbounded (interleave rw_step) (m, ps)
     \<and> ps ! 0 = WrHeld \<and> ps ! 4096 = WrHeld"
proof -
  have "rw_crowd 4095 1 = (0, WrHeld # replicate 4095 WrUndo @ [RwIdle])"
    by (simp add: rw_crowd_def)
  with rw_crowd_reach [of 4095 4096] rw_crowd_last [of 4095]
  have "reach rw_start_unbounded (interleave rw_step) (0x100000, WrHeld # replicate 4095 WrUndo @ [WrHeld])"
    by (auto intro: run_sched_reach simp del: run_sched.simps)
  moreover have "(WrHeld # replicate 4095 WrUndo @ [WrHeld]) ! Suc 4095 = WrHeld"
    by (simp only: nth_Cons_Suc nth_append length_replicate) simp
  ultimately show ?thesis by (intro exI conjI) (assumption, simp_all)
qed

end
