(* ===== verification/Thread_Id.thy ===== *)
theory Thread_Id
  imports Prelude
begin

text \<open>
  The functions of \<open>core/thread_id.h\<close>. What the operating system answers
  (\<open>GetCurrentThreadId\<close>, \<open>pthread_threadid_np\<close>, \<open>sched_getcpu\<close>,
  \<open>GetCurrentProcessorNumber\<close>) is the argument; the functions say what the library makes of it
  on each platform.
\<close>

datatype platform = Windows | Linux | MacOS

definition get_thread_id :: "platform \<Rightarrow> u64 \<Rightarrow> u64" where
  "get_thread_id pl native = (case pl of Windows \<Rightarrow> native | MacOS \<Rightarrow> native | Linux \<Rightarrow> 0)"

definition get_proc_id :: "platform \<Rightarrow> int \<Rightarrow> int" where
  "get_proc_id pl native = (case pl of Linux \<Rightarrow> native | Windows \<Rightarrow> native | MacOS \<Rightarrow> 0)"

text \<open>The recursive locks keep the identifier in 32 bits.\<close>

definition thread_id32 :: "platform \<Rightarrow> u64 \<Rightarrow> u32" where
  "thread_id32 pl native = ucast (get_thread_id pl native)"

lemma thread_id32_linux [simp]: "thread_id32 Linux native = 0"
  by (simp add: thread_id32_def get_thread_id_def)

lemma thread_id32_native: "pl \<noteq> Linux \<Longrightarrow> thread_id32 pl native = ucast native"
  by (cases pl) (simp_all add: thread_id32_def get_thread_id_def)

end
