(* ===== verification/Recursive_Spinlock.thy ===== *)
theory Recursive_Spinlock
  imports Interfaces Thread_Id
begin

text \<open>
  The class \<open>recursive_spinlock\<close> of \<open>synchronization/spinlock.h\<close>: the identifier of the
  owner and a counter of nested calls. The identifier of a thread, as \<open>get_thread_id\<close> gives it,
  is a parameter \<open>tid\<close>; the properties say for which identifiers the lock works.
  The program counters carry the number of calls the thread has not yet unlocked. A failed
  \<open>assert\<close> is the program counter \<open>RAborted\<close>.
\<close>

record rec_state =
  m_owner_id :: u32
  m_recursion :: u64

definition rec_free :: u32 where
  "rec_free = 0"

definition rec_init :: rec_state where
  "rec_init = \<lparr>m_owner_id = rec_free, m_recursion = 0\<rparr>"

datatype rec_pc =
  RReady nat     \<comment> \<open>outside every call\<close>
| RLoad nat      \<comment> \<open>lock: before the load of the owner\<close>
| RInc nat       \<comment> \<open>lock: recursion branch\<close>
| RCas nat       \<comment> \<open>lock: before the compare-exchange\<close>
| RSet nat       \<comment> \<open>lock: owner set, before the counter is set\<close>
| RSpin nat      \<comment> \<open>lock: inner loop\<close>
| RTryLoad nat   \<comment> \<open>try_lock: before the load of the owner\<close>
| RTryInc nat    \<comment> \<open>try_lock: recursion branch\<close>
| RTryCas nat    \<comment> \<open>try_lock: before the compare-exchange\<close>
| RTrySet nat    \<comment> \<open>try_lock: owner set, before the counter is incremented\<close>
| RDec nat       \<comment> \<open>unlock: before the decrement\<close>
| RTest nat      \<comment> \<open>unlock: before the test of the counter\<close>
| RClear nat     \<comment> \<open>unlock: before the owner is cleared\<close>
| RAborted

fun rec_lock :: "u32 \<Rightarrow> rec_pc \<Rightarrow> rec_state \<Rightarrow> rec_pc \<times> rec_state" where
  "rec_lock me (RLoad d) s = (if m_owner_id s = me then RInc d else RCas d, s)"
| "rec_lock me (RInc d) s = (RReady (Suc d), s\<lparr>m_recursion := m_recursion s + 1\<rparr>)"
| "rec_lock me (RCas d) s =
     (if m_owner_id s = rec_free then (RSet d, s\<lparr>m_owner_id := me\<rparr>) else (RSpin d, s))"
| "rec_lock me (RSet d) s =
     (if m_recursion s = 0 then (RReady (Suc d), s\<lparr>m_recursion := 1\<rparr>) else (RAborted, s))"
| "rec_lock me (RSpin d) s = (if m_owner_id s \<noteq> rec_free then RSpin d else RCas d, s)"
| "rec_lock me p s = (p, s)"

fun rec_try_lock :: "u32 \<Rightarrow> rec_pc \<Rightarrow> rec_state \<Rightarrow> rec_pc \<times> rec_state" where
  "rec_try_lock me (RTryLoad d) s =
     (if m_owner_id s = me then RTryInc d
      else if m_owner_id s = rec_free then RTryCas d else RReady d, s)"
| "rec_try_lock me (RTryInc d) s = (RReady (Suc d), s\<lparr>m_recursion := m_recursion s + 1\<rparr>)"
| "rec_try_lock me (RTryCas d) s =
     (if m_owner_id s = rec_free then (RTrySet d, s\<lparr>m_owner_id := me\<rparr>) else (RReady d, s))"
| "rec_try_lock me (RTrySet d) s =
     (if m_recursion s = 0 then (RReady (Suc d), s\<lparr>m_recursion := m_recursion s + 1\<rparr>)
      else (RAborted, s))"
| "rec_try_lock me p s = (p, s)"

fun rec_unlock :: "u32 \<Rightarrow> rec_pc \<Rightarrow> rec_state \<Rightarrow> rec_pc \<times> rec_state" where
  "rec_unlock me (RDec d) s = (RTest d, s\<lparr>m_recursion := m_recursion s - 1\<rparr>)"
| "rec_unlock me (RTest d) s = (if m_recursion s = 0 then RClear d else RReady (d - 1), s)"
| "rec_unlock me (RClear d) s =
     (if m_owner_id s = me then (RReady (d - 1), s\<lparr>m_owner_id := rec_free\<rparr>) else (RAborted, s))"
| "rec_unlock me p s = (p, s)"

text \<open>A thread unlocks only what it locked, and nests fewer calls than the counter can hold.\<close>

definition rec_max_depth :: nat where
  "rec_max_depth = 2 ^ 64 - 1"

definition rec_calls :: "nat \<Rightarrow> rec_pc list" where
  "rec_calls d =
     (if d < rec_max_depth then [RLoad d, RTryLoad d] else []) @ (if 0 < d then [RDec d] else [])"

definition rec_step :: "(nat \<Rightarrow> u32) \<Rightarrow> (rec_state, rec_pc) thread_step" where
  "rec_step tid i p s =
     (case p of
        RReady d \<Rightarrow> map (\<lambda>q. (q, s)) (rec_calls d)
      | RLoad d \<Rightarrow> [rec_lock (tid i) p s] | RInc d \<Rightarrow> [rec_lock (tid i) p s]
      | RCas d \<Rightarrow> [rec_lock (tid i) p s] | RSet d \<Rightarrow> [rec_lock (tid i) p s]
      | RSpin d \<Rightarrow> [rec_lock (tid i) p s]
      | RTryLoad d \<Rightarrow> [rec_try_lock (tid i) p s] | RTryInc d \<Rightarrow> [rec_try_lock (tid i) p s]
      | RTryCas d \<Rightarrow> [rec_try_lock (tid i) p s] | RTrySet d \<Rightarrow> [rec_try_lock (tid i) p s]
      | RDec d \<Rightarrow> [rec_unlock (tid i) p s] | RTest d \<Rightarrow> [rec_unlock (tid i) p s]
      | RClear d \<Rightarrow> [rec_unlock (tid i) p s]
      | RAborted \<Rightarrow> [])"

text \<open>The identifiers for which the lock works: different for different threads, never \<open>Free\<close>.\<close>

definition good_tids :: "(nat \<Rightarrow> u32) \<Rightarrow> nat \<Rightarrow> bool" where
  "good_tids tid n \<longleftrightarrow> (\<forall>i < n. tid i \<noteq> 0 \<and> (\<forall>j < n. tid i = tid j \<longrightarrow> i = j))"

definition rec_start :: "(nat \<Rightarrow> u32) \<Rightarrow> (rec_state, rec_pc) system \<Rightarrow> bool" where
  "rec_start tid s \<longleftrightarrow> fst s = rec_init \<and> good_tids tid (length (snd s)) \<and> (\<forall>p \<in> set (snd s). p = RReady 0)"

text \<open>Which program counters own the lock, what the counter must then be, and which depths occur.\<close>

fun rec_owns :: "rec_pc \<Rightarrow> bool" where
  "rec_owns (RReady d) = (0 < d)"
| "rec_owns (RLoad d) = (0 < d)"
| "rec_owns (RTryLoad d) = (0 < d)"
| "rec_owns (RCas d) = False"
| "rec_owns (RSpin d) = False"
| "rec_owns (RTryCas d) = False"
| "rec_owns RAborted = False"
| "rec_owns p = True"

fun rec_count :: "rec_pc \<Rightarrow> nat" where
  "rec_count (RReady d) = d"
| "rec_count (RLoad d) = d"
| "rec_count (RInc d) = d"
| "rec_count (RTryLoad d) = d"
| "rec_count (RTryInc d) = d"
| "rec_count (RDec d) = d"
| "rec_count (RTest d) = d - 1"
| "rec_count _ = 0"

fun rec_local :: "rec_pc \<Rightarrow> bool" where
  "rec_local (RReady d) = (d \<le> rec_max_depth)"
| "rec_local (RLoad d) = (d < rec_max_depth)"
| "rec_local (RTryLoad d) = (d < rec_max_depth)"
| "rec_local (RInc d) = (0 < d \<and> d < rec_max_depth)"
| "rec_local (RTryInc d) = (0 < d \<and> d < rec_max_depth)"
| "rec_local (RCas d) = (d = 0)"
| "rec_local (RSpin d) = (d = 0)"
| "rec_local (RSet d) = (d = 0)"
| "rec_local (RTryCas d) = (d = 0)"
| "rec_local (RTrySet d) = (d = 0)"
| "rec_local (RDec d) = (0 < d \<and> d \<le> rec_max_depth)"
| "rec_local (RTest d) = (0 < d \<and> d \<le> rec_max_depth)"
| "rec_local (RClear d) = (d = 1)"
| "rec_local RAborted = False"

definition rec_inv :: "(nat \<Rightarrow> u32) \<Rightarrow> rec_state \<Rightarrow> rec_pc list \<Rightarrow> bool" where
  [inv_defs]: "rec_inv tid s ps \<longleftrightarrow> good_tids tid (length ps)
     \<and> (m_owner_id s = rec_free \<longrightarrow> m_recursion s = 0)
     \<and> (\<forall>i < length ps. rec_local (ps ! i)
          \<and> (rec_owns (ps ! i) \<longleftrightarrow> m_owner_id s = tid i)
          \<and> (rec_owns (ps ! i) \<longrightarrow> m_recursion s = of_nat (rec_count (ps ! i))))"

lemma rec_invD:
  assumes "rec_inv tid s ps" "i < length ps"
  shows "rec_local (ps ! i)" "rec_owns (ps ! i) \<longleftrightarrow> m_owner_id s = tid i"
    "rec_owns (ps ! i) \<Longrightarrow> m_recursion s = of_nat (rec_count (ps ! i))" "tid i \<noteq> 0"
  using assms by (auto simp: rec_inv_def good_tids_def)

lemma rec_inv_owner:
  "rec_inv tid s ps \<Longrightarrow> i < length ps \<Longrightarrow> j < length ps \<Longrightarrow> m_owner_id s = tid i \<Longrightarrow>
    m_owner_id s = tid j \<Longrightarrow> i = j"
  by (auto simp: rec_inv_def good_tids_def)

text \<open>The counter is zero exactly when the number of calls it stands for is.\<close>

lemma rec_count_zero:
  "rec_local p \<Longrightarrow> (of_nat (rec_count p) = (0 :: u64)) \<longleftrightarrow> rec_count p = 0"
  using of_nat_word_inj [where 'a = 64, of "rec_count p" 0]
  by (cases p) (auto simp: rec_max_depth_def)

text \<open>One step of thread \<open>i\<close> keeps the invariant if it keeps the local facts of \<open>i\<close> and
  does not change the lock under another owner.\<close>

lemma rec_inv_update:
  assumes inv: "rec_inv tid s ps" and i: "i < length ps"
    and own: "s' = s \<or> (m_owner_id s \<in> {rec_free, tid i} \<and> m_owner_id s' \<in> {rec_free, tid i})"
    and free: "m_owner_id s' = rec_free \<longrightarrow> m_recursion s' = 0"
    and loc: "rec_local p'" "rec_owns p' \<longleftrightarrow> m_owner_id s' = tid i"
      "rec_owns p' \<longrightarrow> m_recursion s' = of_nat (rec_count p')"
  shows "rec_inv tid s' (ps[i := p'])"
proof -
  have "rec_local (ps ! j) \<and> (rec_owns (ps ! j) \<longleftrightarrow> m_owner_id s' = tid j)
      \<and> (rec_owns (ps ! j) \<longrightarrow> m_recursion s' = of_nat (rec_count (ps ! j)))"
    if "j < length ps" "j \<noteq> i" for j
    using own
  proof
    assume "s' = s"
    with inv that show ?thesis by (simp add: rec_inv_def)
  next
    assume o: "m_owner_id s \<in> {rec_free, tid i} \<and> m_owner_id s' \<in> {rec_free, tid i}"
    from inv i that have "tid j \<noteq> tid i" "tid j \<noteq> rec_free"
      by (auto simp: rec_inv_def good_tids_def rec_free_def)
    with o inv that show ?thesis by (auto simp: rec_inv_def)
  qed
  with inv i free loc show ?thesis by (simp add: rec_inv_def nth_list_update)
qed

lemma rec_step_inv:
  assumes "rec_inv tid s ps" "i < length ps" "(p', s') \<in> set (rec_step tid i (ps ! i) s)"
  shows "rec_inv tid s' (ps[i := p'])"
proof (rule rec_inv_update [OF assms(1,2)])
  note d = rec_invD [OF assms(1,2)]
  have f: "m_owner_id s = rec_free \<longrightarrow> m_recursion s = 0" using assms(1) by (simp add: rec_inv_def)
  note z = rec_count_zero [OF d(1)]
  show "s' = s \<or> (m_owner_id s \<in> {rec_free, tid i} \<and> m_owner_id s' \<in> {rec_free, tid i})"
    using assms(3) d by (cases "ps ! i") (auto simp: rec_step_def split: if_splits)
  show "m_owner_id s' = rec_free \<longrightarrow> m_recursion s' = 0"
    using assms(3) d f z by (cases "ps ! i") (auto simp: rec_step_def rec_free_def split: if_splits)
  show "rec_local p'"
    using assms(3) d f z by (cases "ps ! i") (auto simp: rec_step_def rec_calls_def rec_free_def rec_max_depth_def split: if_splits)
  show "rec_owns p' \<longleftrightarrow> m_owner_id s' = tid i"
    using assms(3) d f z by (cases "ps ! i") (auto simp: rec_step_def rec_calls_def rec_free_def split: if_splits)
  show "rec_owns p' \<longrightarrow> m_recursion s' = of_nat (rec_count p')"
    using assms(3) d f z by (cases "ps ! i") (auto simp: rec_step_def rec_calls_def rec_free_def of_nat_diff split: if_splits)
qed

lemma rec_start_inv: "rec_start tid (s, ps) \<Longrightarrow> rec_inv tid s ps"
  by (auto simp: rec_start_def rec_inv_def rec_init_def good_tids_def rec_free_def all_nthD)

interpretation rl: mutex_protocol "rec_step tid" "rec_start tid" "rec_inv tid" rec_owns for tid
proof
  fix s ps
  assume "rec_start tid (s, ps)"
  then show "rec_inv tid s ps" by (rule rec_start_inv)
next
  fix s ps i p' s'
  assume "rec_inv tid s ps" "i < length ps" "(p', s') \<in> set (rec_step tid i (ps ! i) s)"
  then show "rec_inv tid s' (ps[i := p'])" by (rule rec_step_inv)
next
  fix s ps i j
  assume "rec_inv tid s ps" "i < length ps" "j < length ps" "rec_owns (ps ! i)" "rec_owns (ps ! j)"
  then show "i = j" by (metis rec_invD(2) rec_inv_owner)
qed


section \<open>Properties\<close>

text \<open>C28. Mutual exclusion of \<open>recursive_spinlock\<close> when the identifiers of the threads are
  different and not zero: two threads that have calls to unlock are the same thread, whatever mix
  of \<open>lock\<close>, \<open>try_lock\<close> and \<open>unlock\<close> the threads make, and no \<open>assert\<close> of the
  class fails.\<close>

theorem recursive_spinlock_exclusion:
  assumes "reach (rec_start tid) (interleave (rec_step tid)) (s, ps)" "i < length ps"
  shows "ps ! i \<noteq> RAborted
    \<and> (j < length ps \<and> ps ! i = RReady (Suc d) \<and> ps ! j = RReady (Suc e) \<longrightarrow> i = j)"
proof -
  have "rec_inv tid s ps" using assms(1) by (rule rl.reach_inv)
  then show ?thesis using rec_invD(1) [of tid s ps i] assms(2)
    by (auto intro!: rl.inv_mutex [of tid s ps i j])
qed

text \<open>Identifiers 1, 2, 3, \<open>\<dots>\<close> are good ones for a concrete run.\<close>

definition small_tids :: "nat \<Rightarrow> u32" where
  "small_tids i = of_nat (Suc i)"

lemma small_tids_run:
  "reach (rec_start small_tids) (interleave (rec_step small_tids))
     (\<lparr>m_owner_id = 1, m_recursion = 2\<rparr>, [RReady 2, RSpin 0])"
proof (rule run_sched_reach_start
    [where s = "(rec_init, [RReady 0, RReady 0])"
       and sched = "[(0, 0), (0, 0), (0, 0), (1, 0), (0, 0), (1, 0), (1, 0), (0, 1), (0, 0), (0, 0)]"])
  show "rec_start small_tids (rec_init, [RReady 0, RReady 0])"
    by (auto simp: rec_start_def good_tids_def small_tids_def less_Suc_eq numeral_2_eq_2)
qed (simp add: rec_init_def rec_step_def rec_calls_def rec_max_depth_def small_tids_def rec_free_def)

theorem recursive_spinlock_exclusion_witness:
  "[RReady 2, RSpin 0] ! 0 \<noteq> RAborted \<and> (0 < (2::nat) \<and> [RReady 2, RSpin 0] ! 0 = RReady (Suc 1))"
  using recursive_spinlock_exclusion [OF small_tids_run, of 0 0 1 1] by simp

text \<open>C29. The counter of \<open>recursive_spinlock\<close>, for threads with different identifiers that are
  not 0 (\<open>good_tids\<close>): while a thread has \<open>d\<close> calls to unlock,
  the owner is that thread and the counter is \<open>d\<close>; when the lock has no owner, the counter is
  zero and no thread has a call to unlock. So the last \<open>unlock\<close>, and only it, frees the
  lock.\<close>

theorem recursive_spinlock_depth:
  assumes "reach (rec_start tid) (interleave (rec_step tid)) (s, ps)"
    and "i < length ps" "ps ! i = RReady d"
  shows "(0 < d \<longleftrightarrow> m_owner_id s = tid i) \<and> (0 < d \<longrightarrow> unat (m_recursion s) = d)
    \<and> (m_owner_id s = rec_free \<longrightarrow> m_recursion s = 0 \<and> d = 0)"
proof -
  have inv: "rec_inv tid s ps" using assms(1) by (rule rl.reach_inv)
  note d = rec_invD [OF inv assms(2), unfolded assms(3), simplified]
  then show ?thesis using inv by (auto simp: rec_inv_def rec_max_depth_def rec_free_def)
qed

theorem recursive_spinlock_depth_witness:
  "unat (2 :: u64) = 2 \<and> (1 :: u32) = small_tids 0"
  using recursive_spinlock_depth [OF small_tids_run, of 0 2] by simp

text \<open>On Linux \<open>get_thread_id\<close> is 0, which is also the value \<open>Free\<close> of the owner, and
  the lock excludes nobody: from the start state every thread's \<open>lock\<close> takes the recursion
  branch and returns, so two threads are inside at once, whatever the operating system's own
  identifiers are.\<close>

theorem recursive_spinlock_linux:
  "run_sched (rec_step (\<lambda>i. thread_id32 Linux (native i)))
     [(0, 0), (0, 0), (0, 0), (1, 0), (1, 0), (1, 0)] (rec_init, [RReady 0, RReady 0])
   = Some (\<lparr>m_owner_id = rec_free, m_recursion = 2\<rparr>, [RReady 1, RReady 1])"
  by (simp add: rec_init_def rec_step_def rec_calls_def rec_max_depth_def rec_free_def)

end
