(* ===== verification/Recursive_RW_Spinlock.thy ===== *)
theory Recursive_RW_Spinlock
  imports Interfaces Thread_Id
begin

text \<open>
  The class \<open>recursive_rw_spinlock\<close> of \<open>synchronization/spinlock.h\<close>. The 64-bit word
  \<open>m_lock\<close> holds a reader count (20 bits), a writer count (12 bits) and the identifier of the
  thread that holds the exclusive lock (upper 32 bits); \<open>m_write_recursion_depth\<close> counts that
  thread's nested exclusive calls.

  A program counter carries the stack of brackets its thread has open. Brackets close in the
  reverse order of opening, as the guards \<open>unique_lock\<close> and \<open>shared_lock\<close> close them.
  \<open>checks\<close> says whether \<open>assert\<close> is compiled in; a failed one is \<open>QAborted\<close>.
\<close>

unbundle bit_operations_syntax

record rrw_state =
  rrw_word :: u64
  rrw_depth :: u64

definition rrw_init :: rrw_state where
  "rrw_init = \<lparr>rrw_word = 0, rrw_depth = 0\<rparr>"

definition exclusive_mask :: u64 where
  "exclusive_mask = 0x00000000fff00000"

definition shared_mask :: u64 where
  "shared_mask = 0x00000000000fffff"

definition thread_id_mask :: u64 where
  "thread_id_mask = 0xffffffff00000000"

datatype mode = Excl | Shrd

lemma mode_not [simp]: "m \<noteq> Excl \<longleftrightarrow> m = Shrd" "m \<noteq> Shrd \<longleftrightarrow> m = Excl"
  by (cases m; simp)+

datatype rrw_pc =
  QReady "mode list"
| QsCheck "mode list"     \<comment> \<open>lock_shared: check for recursion, load of the word\<close>
| QsAssert "mode list"    \<comment> \<open>lock_shared: we are the owner, the assert on the depth\<close>
| QsTry "mode list"       \<comment> \<open>lock_shared: before the increment\<close>
| QsUndo "mode list"      \<comment> \<open>lock_shared: before the decrement after a failure\<close>
| QsSpin "mode list"      \<comment> \<open>lock_shared: inner loop\<close>
| QsTest "mode list"      \<comment> \<open>unlock_shared: before the load of the depth\<close>
| QsDec "mode list"       \<comment> \<open>unlock_shared: before the decrement\<close>
| QxCheck "mode list"     \<comment> \<open>lock: check for recursion, load of the word\<close>
| QxAssert "mode list"    \<comment> \<open>lock: we are the owner, the assert on the depth\<close>
| QxInc "mode list"       \<comment> \<open>lock: before the increment of the depth\<close>
| QxTry "mode list"       \<comment> \<open>lock: before the addition\<close>
| QxPublish "mode list"   \<comment> \<open>lock: acquired, before the identifier is added\<close>
| QxDepth "mode list"     \<comment> \<open>lock: before the depth is set\<close>
| QxUndo "mode list"      \<comment> \<open>lock: before the subtraction after a failure\<close>
| QxSpin "mode list"      \<comment> \<open>lock: inner loop\<close>
| QxDec "mode list"       \<comment> \<open>unlock: before the decrement of the depth\<close>
| QxTest "mode list"      \<comment> \<open>unlock: before the test of the depth\<close>
| QxRetire "mode list"    \<comment> \<open>unlock: before the identifier is subtracted\<close>
| QxFree "mode list"      \<comment> \<open>unlock: before the writer is subtracted\<close>
| QAborted

definition rrw_owner :: "u64 \<Rightarrow> u32" where
  "rrw_owner w = ucast (drop_bit 32 (thread_id_mask AND w))"

definition rrw_writer_bits :: "u64 \<Rightarrow> bool" where
  "rrw_writer_bits w \<longleftrightarrow> w AND exclusive_mask \<noteq> 0"

definition rrw_this_id :: "u32 \<Rightarrow> u64" where
  "rrw_this_id me = push_bit 32 (ucast me)"

fun rrw_lock_shared :: "bool \<Rightarrow> u32 \<Rightarrow> rrw_pc \<Rightarrow> rrw_state \<Rightarrow> rrw_pc \<times> rrw_state" where
  "rrw_lock_shared checks me (QsCheck st) s =
     (if rrw_owner (rrw_word s) = me then QsAssert st else QsTry st, s)"
| "rrw_lock_shared checks me (QsAssert st) s =
     (if checks \<and> rrw_depth s = 0 then QAborted else QReady (Shrd # st), s)"
| "rrw_lock_shared checks me (QsTry st) s =
     (if \<not> rrw_writer_bits (rrw_word s + 1) then QReady (Shrd # st) else QsUndo st,
      s\<lparr>rrw_word := rrw_word s + 1\<rparr>)"
| "rrw_lock_shared checks me (QsUndo st) s = (QsSpin st, s\<lparr>rrw_word := rrw_word s - 1\<rparr>)"
| "rrw_lock_shared checks me (QsSpin st) s =
     (if rrw_writer_bits (rrw_word s) then QsSpin st else QsTry st, s)"
| "rrw_lock_shared checks me p s = (p, s)"

fun rrw_unlock_shared :: "rrw_pc \<Rightarrow> rrw_state \<Rightarrow> rrw_pc \<times> rrw_state" where
  "rrw_unlock_shared (QsTest st) s = (if rrw_depth s = 0 then QsDec st else QReady (tl st), s)"
| "rrw_unlock_shared (QsDec st) s = (QReady (tl st), s\<lparr>rrw_word := rrw_word s - 1\<rparr>)"
| "rrw_unlock_shared p s = (p, s)"

fun rrw_lock :: "bool \<Rightarrow> u32 \<Rightarrow> rrw_pc \<Rightarrow> rrw_state \<Rightarrow> rrw_pc \<times> rrw_state" where
  "rrw_lock checks me (QxCheck st) s =
     (if rrw_owner (rrw_word s) = me then QxAssert st else QxTry st, s)"
| "rrw_lock checks me (QxAssert st) s =
     (if checks \<and> rrw_depth s = 0 then QAborted else QxInc st, s)"
| "rrw_lock checks me (QxInc st) s = (QReady (Excl # st), s\<lparr>rrw_depth := rrw_depth s + 1\<rparr>)"
| "rrw_lock checks me (QxTry st) s =
     (if rrw_word s + 0x100000 = 0x100000 then QxPublish st else QxUndo st,
      s\<lparr>rrw_word := rrw_word s + 0x100000\<rparr>)"
| "rrw_lock checks me (QxPublish st) s =
     (if checks \<and> rrw_this_id me AND (exclusive_mask OR shared_mask) \<noteq> 0 then (QAborted, s)
      else (QxDepth st, s\<lparr>rrw_word := rrw_word s + rrw_this_id me\<rparr>))"
| "rrw_lock checks me (QxDepth st) s = (QReady (Excl # st), s\<lparr>rrw_depth := 1\<rparr>)"
| "rrw_lock checks me (QxUndo st) s = (QxSpin st, s\<lparr>rrw_word := rrw_word s - 0x100000\<rparr>)"
| "rrw_lock checks me (QxSpin st) s =
     (if rrw_writer_bits (rrw_word s) then QxSpin st else QxTry st, s)"
| "rrw_lock checks me p s = (p, s)"

fun rrw_unlock :: "bool \<Rightarrow> u32 \<Rightarrow> rrw_pc \<Rightarrow> rrw_state \<Rightarrow> rrw_pc \<times> rrw_state" where
  "rrw_unlock checks me (QxDec st) s = (QxTest st, s\<lparr>rrw_depth := rrw_depth s - 1\<rparr>)"
| "rrw_unlock checks me (QxTest st) s = (if rrw_depth s = 0 then QxRetire st else QReady (tl st), s)"
| "rrw_unlock checks me (QxRetire st) s =
     (if checks \<and> rrw_this_id me AND (exclusive_mask OR shared_mask) \<noteq> 0 then (QAborted, s)
      else (QxFree st, s\<lparr>rrw_word := rrw_word s - rrw_this_id me\<rparr>))"
| "rrw_unlock checks me (QxFree st) s = (QReady (tl st), s\<lparr>rrw_word := rrw_word s - 0x100000\<rparr>)"
| "rrw_unlock checks me p s = (p, s)"

text \<open>The calls a thread may make: open a bracket while fewer than 255 are open, and
  close the innermost one.\<close>

definition rrw_calls :: "mode list \<Rightarrow> rrw_pc list" where
  "rrw_calls st =
     (if length st < 255 then [QsCheck st, QxCheck st] else [])
     @ (case st of [] \<Rightarrow> [] | Shrd # _ \<Rightarrow> [QsTest st] | Excl # _ \<Rightarrow> [QxDec st])"

definition rrw_step :: "bool \<Rightarrow> (nat \<Rightarrow> u32) \<Rightarrow> (rrw_state, rrw_pc) thread_step" where
  "rrw_step checks tid i p s =
     (case p of
        QReady st \<Rightarrow> map (\<lambda>q. (q, s)) (rrw_calls st)
      | QsCheck st \<Rightarrow> [rrw_lock_shared checks (tid i) p s]
      | QsAssert st \<Rightarrow> [rrw_lock_shared checks (tid i) p s]
      | QsTry st \<Rightarrow> [rrw_lock_shared checks (tid i) p s]
      | QsUndo st \<Rightarrow> [rrw_lock_shared checks (tid i) p s]
      | QsSpin st \<Rightarrow> [rrw_lock_shared checks (tid i) p s]
      | QsTest st \<Rightarrow> [rrw_unlock_shared p s]
      | QsDec st \<Rightarrow> [rrw_unlock_shared p s]
      | QxCheck st \<Rightarrow> [rrw_lock checks (tid i) p s]
      | QxAssert st \<Rightarrow> [rrw_lock checks (tid i) p s]
      | QxInc st \<Rightarrow> [rrw_lock checks (tid i) p s]
      | QxTry st \<Rightarrow> [rrw_lock checks (tid i) p s]
      | QxPublish st \<Rightarrow> [rrw_lock checks (tid i) p s]
      | QxDepth st \<Rightarrow> [rrw_lock checks (tid i) p s]
      | QxUndo st \<Rightarrow> [rrw_lock checks (tid i) p s]
      | QxSpin st \<Rightarrow> [rrw_lock checks (tid i) p s]
      | QxDec st \<Rightarrow> [rrw_unlock checks (tid i) p s]
      | QxTest st \<Rightarrow> [rrw_unlock checks (tid i) p s]
      | QxRetire st \<Rightarrow> [rrw_unlock checks (tid i) p s]
      | QxFree st \<Rightarrow> [rrw_unlock checks (tid i) p s]
      | QAborted \<Rightarrow> [])"

definition rrw_start :: "(nat \<Rightarrow> u32) \<Rightarrow> (rrw_state, rrw_pc) system \<Rightarrow> bool" where
  "rrw_start tid s \<longleftrightarrow> fst s = rrw_init \<and> length (snd s) < 4096
     \<and> (\<forall>i < length (snd s). tid i \<noteq> 0 \<and> (\<forall>j < length (snd s). tid i = tid j \<longrightarrow> i = j))
     \<and> (\<forall>p \<in> set (snd s). p = QReady [])"


section \<open>The two halves of the word\<close>

definition rrw_lo :: "u64 \<Rightarrow> nat" where
  "rrw_lo w = unat w mod 2 ^ 32"

definition rrw_hi :: "u64 \<Rightarrow> nat" where
  "rrw_hi w = unat w div 2 ^ 32"

lemma rrw_lo_add:
  assumes "rrw_lo w + unat d < 2 ^ 32"
  shows "rrw_lo (w + d) = rrw_lo w + unat d" "rrw_hi (w + d) = rrw_hi w"
proof -
  have w: "unat w = rrw_hi w * 2 ^ 32 + rrw_lo w" by (simp add: rrw_lo_def rrw_hi_def)
  have "rrw_hi w < 2 ^ 32" using unat_less_64 [of w] by (simp add: rrw_hi_def less_mult_imp_div_less)
  with w assms have "unat w + unat d < 2 ^ 64" by simp
  then have "unat (w + d) = rrw_hi w * 2 ^ 32 + (rrw_lo w + unat d)"
    by (simp add: unat_add_no_wrap w)
  with assms show "rrw_lo (w + d) = rrw_lo w + unat d" "rrw_hi (w + d) = rrw_hi w"
    by (simp_all add: rrw_lo_def [of "w + d"] rrw_hi_def [of "w + d"])
qed

lemma rrw_lo_sub:
  assumes "unat d \<le> rrw_lo w"
  shows "rrw_lo (w - d) = rrw_lo w - unat d" "rrw_hi (w - d) = rrw_hi w"
proof -
  have w: "unat w = rrw_hi w * 2 ^ 32 + rrw_lo w" and l: "rrw_lo w < 2 ^ 32"
    by (simp_all add: rrw_lo_def rrw_hi_def)
  have "unat (w - d) = unat w - unat d" using assms w by (intro unat_sub_no_wrap) simp
  then have "unat (w - d) = rrw_hi w * 2 ^ 32 + (rrw_lo w - unat d)" using assms w by simp
  with l show "rrw_lo (w - d) = rrw_lo w - unat d" "rrw_hi (w - d) = rrw_hi w"
    by (simp_all add: rrw_lo_def [of "w - d"] rrw_hi_def [of "w - d"])
qed

lemma unat_this_id: "unat (rrw_this_id me) = unat me * 2 ^ 32"
proof -
  have "unat me * 2 ^ 32 < 2 ^ 64" using unat_less_32 [of me] by simp
  moreover have "unat (ucast me :: u64) = unat me"
    using unat_less_32 [of me] by (simp add: unsigned_ucast_eq take_bit_nat_eq_self_iff)
  ultimately show ?thesis
    by (simp add: rrw_this_id_def push_bit_eq_mult unat_word_ariths)
qed

lemma rrw_hi_add:
  assumes "rrw_hi w = 0"
  shows "rrw_lo (w + rrw_this_id me) = rrw_lo w" "rrw_hi (w + rrw_this_id me) = unat me"
proof -
  have l: "rrw_lo w < 2 ^ 32" and w: "unat w = rrw_lo w"
    using assms by (simp_all add: rrw_lo_def rrw_hi_def)
  have "unat w + unat me * 2 ^ 32 < 2 ^ 64" using unat_less_32 [of me] l w by simp
  then have "unat (w + rrw_this_id me) = unat me * 2 ^ 32 + rrw_lo w"
    by (simp add: unat_add_no_wrap unat_this_id w)
  with l show "rrw_lo (w + rrw_this_id me) = rrw_lo w" "rrw_hi (w + rrw_this_id me) = unat me"
    by (simp_all add: rrw_lo_def [of "w + _"] rrw_hi_def [of "w + _"])
qed

lemma rrw_hi_sub:
  assumes "rrw_hi w = unat me"
  shows "rrw_lo (w - rrw_this_id me) = rrw_lo w" "rrw_hi (w - rrw_this_id me) = 0"
proof -
  have "unat w = rrw_hi w * 2 ^ 32 + rrw_lo w" and l: "rrw_lo w < 2 ^ 32"
    by (simp_all add: rrw_lo_def rrw_hi_def)
  with assms have w: "unat w = unat me * 2 ^ 32 + rrw_lo w" by simp
  have "unat (w - rrw_this_id me) = rrw_lo w"
    using w by (simp add: unat_sub_no_wrap unat_this_id)
  with l show "rrw_lo (w - rrw_this_id me) = rrw_lo w" "rrw_hi (w - rrw_this_id me) = 0"
    by (simp_all add: rrw_lo_def [of "w - _"] rrw_hi_def [of "w - _"])
qed

lemma rrw_owner_iff: "rrw_owner w = me \<longleftrightarrow> rrw_hi w = unat me"
proof -
  have "drop_bit 32 (thread_id_mask AND w) = drop_bit 32 w"
  proof -
    have m: "thread_id_mask = push_bit 32 (mask 32)"
      by (simp add: thread_id_mask_def mask_eq_exp_minus_1 push_bit_eq_mult)
    show ?thesis unfolding m by (intro bit_word_eqI) (auto simp: bit_simps dest: bit_imp_le_length)
  qed
  moreover have "unat (ucast (drop_bit 32 w) :: u32) = rrw_hi w"
  proof -
    have "unat (drop_bit 32 w) = rrw_hi w" by (simp only: rrw_hi_def unat_drop_bit_div)
    moreover have "rrw_hi w < 2 ^ 32"
      using unat_less_64 [of w] by (simp add: rrw_hi_def less_mult_imp_div_less)
    ultimately show ?thesis by (simp only: unsigned_ucast_eq) (simp add: take_bit_nat_eq_self_iff)
  qed
  ultimately show ?thesis by (metis rrw_owner_def word_unat_eq_iff)
qed

lemma rrw_writer_bits_iff: "rrw_writer_bits w \<longleftrightarrow> 2 ^ 20 \<le> rrw_lo w"
proof -
  have e: "exclusive_mask = push_bit 20 (mask 12)"
    by (simp add: exclusive_mask_def mask_eq_exp_minus_1 push_bit_eq_mult)
  have "(w AND exclusive_mask = 0) \<longleftrightarrow> unat w div 2 ^ 20 mod 2 ^ 12 = 0"
    unfolding e unat_eq_0 [symmetric] by (subst unat_and_shifted_mask) simp_all
  also have "unat w div 2 ^ 20 mod 2 ^ 12 = rrw_lo w div 2 ^ 20"
    using div_exp_mod_exp_eq [of "unat w" 20 12] by (simp add: rrw_lo_def)
  finally show ?thesis by (simp add: rrw_writer_bits_def div_eq_0_iff linorder_not_less)
qed

lemma rrw_asserts: "rrw_this_id me AND (exclusive_mask OR shared_mask) = 0"
proof -
  have "exclusive_mask OR shared_mask = mask 32"
    by (simp add: exclusive_mask_def shared_mask_def mask_eq_exp_minus_1)
  then show ?thesis by (intro bit_word_eqI) (auto simp: rrw_this_id_def bit_simps)
qed



section \<open>The invariant\<close>

fun rrw_stack :: "rrw_pc \<Rightarrow> mode list" where
  "rrw_stack (QReady st) = st"
| "rrw_stack (QsCheck st) = st" | "rrw_stack (QsAssert st) = st" | "rrw_stack (QsTry st) = st"
| "rrw_stack (QsUndo st) = st" | "rrw_stack (QsSpin st) = st" | "rrw_stack (QsTest st) = st"
| "rrw_stack (QsDec st) = st"
| "rrw_stack (QxCheck st) = st" | "rrw_stack (QxAssert st) = st" | "rrw_stack (QxInc st) = st"
| "rrw_stack (QxTry st) = st" | "rrw_stack (QxPublish st) = st" | "rrw_stack (QxDepth st) = st"
| "rrw_stack (QxUndo st) = st" | "rrw_stack (QxSpin st) = st"
| "rrw_stack (QxDec st) = st" | "rrw_stack (QxTest st) = st" | "rrw_stack (QxRetire st) = st"
| "rrw_stack (QxFree st) = st"
| "rrw_stack QAborted = []"

text \<open>The exclusive lock is held from the successful addition to the last subtraction; a thread
  reads while it has shared brackets and no exclusive one.\<close>

definition rrw_writing :: "rrw_pc \<Rightarrow> bool" where
  "rrw_writing p \<longleftrightarrow> Excl \<in> set (rrw_stack p) \<or> (case p of QxPublish _ \<Rightarrow> True | QxDepth _ \<Rightarrow> True | _ \<Rightarrow> False)"

definition rrw_reading :: "rrw_pc \<Rightarrow> bool" where
  "rrw_reading p \<longleftrightarrow> Excl \<notin> set (rrw_stack p) \<and> rrw_stack p \<noteq> []"

definition rrw_published :: "rrw_pc \<Rightarrow> bool" where
  "rrw_published p \<longleftrightarrow> (case p of QxFree _ \<Rightarrow> False | QxDepth _ \<Rightarrow> True | _ \<Rightarrow> Excl \<in> set (rrw_stack p))"

definition rrw_weight :: "rrw_pc \<Rightarrow> nat" where
  "rrw_weight p =
     (if rrw_writing p then 0x100000 else length (rrw_stack p))
     + (case p of QsUndo _ \<Rightarrow> 1 | QxUndo _ \<Rightarrow> 0x100000 | _ \<Rightarrow> 0)"

text \<open>What the depth must be when a writing thread is at \<open>p\<close>.\<close>

definition rrw_count :: "rrw_pc \<Rightarrow> nat" where
  "rrw_count p = (case p of QxTest st \<Rightarrow> count_list st Excl - 1 | QxRetire _ \<Rightarrow> 0 | QxFree _ \<Rightarrow> 0
     | _ \<Rightarrow> count_list (rrw_stack p) Excl)"

definition rrw_nested :: "mode list \<Rightarrow> bool" where
  "rrw_nested st \<longleftrightarrow> length st \<le> 255 \<and> (Excl \<in> set st \<longrightarrow> last st = Excl)"

fun rrw_local :: "rrw_pc \<Rightarrow> bool" where
  "rrw_local (QReady st) = rrw_nested st"
| "rrw_local (QsCheck st) = (rrw_nested st \<and> length st < 255)"
| "rrw_local (QxCheck st) = (rrw_nested st \<and> length st < 255)"
| "rrw_local (QsAssert st) = (rrw_nested st \<and> length st < 255 \<and> Excl \<in> set st)"
| "rrw_local (QxAssert st) = (rrw_nested st \<and> length st < 255 \<and> Excl \<in> set st)"
| "rrw_local (QxInc st) = (rrw_nested st \<and> length st < 255 \<and> Excl \<in> set st)"
| "rrw_local (QsTry st) = (length st < 255 \<and> Excl \<notin> set st)"
| "rrw_local (QsUndo st) = (length st < 255 \<and> Excl \<notin> set st)"
| "rrw_local (QsSpin st) = (length st < 255 \<and> Excl \<notin> set st)"
| "rrw_local (QxTry st) = (length st < 255 \<and> Excl \<notin> set st)"
| "rrw_local (QxUndo st) = (length st < 255 \<and> Excl \<notin> set st)"
| "rrw_local (QxSpin st) = (length st < 255 \<and> Excl \<notin> set st)"
| "rrw_local (QxPublish st) = (st = [])"
| "rrw_local (QxDepth st) = (st = [])"
| "rrw_local (QsTest st) = (rrw_nested st \<and> st \<noteq> [] \<and> hd st = Shrd)"
| "rrw_local (QsDec st) = (rrw_nested st \<and> st \<noteq> [] \<and> Excl \<notin> set st)"
| "rrw_local (QxDec st) = (rrw_nested st \<and> st \<noteq> [] \<and> hd st = Excl)"
| "rrw_local (QxTest st) = (rrw_nested st \<and> st \<noteq> [] \<and> hd st = Excl)"
| "rrw_local (QxRetire st) = (st = [Excl])"
| "rrw_local (QxFree st) = (st = [Excl])"
| "rrw_local QAborted = False"

definition rrw_inv :: "(nat \<Rightarrow> u32) \<Rightarrow> rrw_state \<Rightarrow> rrw_pc list \<Rightarrow> bool" where
  "rrw_inv tid s ps \<longleftrightarrow> length ps < 4096
     \<and> (\<forall>i < length ps. tid i \<noteq> 0 \<and> (\<forall>j < length ps. tid i = tid j \<longrightarrow> i = j))
     \<and> rrw_lo (rrw_word s) = weight_sum rrw_weight ps
     \<and> (\<forall>i < length ps. rrw_local (ps ! i)
          \<and> (rrw_published (ps ! i) \<longleftrightarrow> rrw_hi (rrw_word s) = unat (tid i))
          \<and> (rrw_writing (ps ! i) \<longrightarrow> rrw_depth s = of_nat (rrw_count (ps ! i))))
     \<and> rw_exclusive rrw_reading rrw_writing ps
     \<and> (rrw_hi (rrw_word s) = 0 \<or> (\<exists>i < length ps. rrw_published (ps ! i)))
     \<and> ((\<forall>i < length ps. \<not> rrw_writing (ps ! i)) \<longrightarrow> rrw_depth s = 0)"

lemma rrw_weight_bound: "rrw_local p \<Longrightarrow> rrw_weight p \<le> 0x1000ff"
  by (cases p) (auto simp: rrw_weight_def rrw_writing_def rrw_nested_def)

lemma rrw_invD:
  assumes "rrw_inv tid s ps" "i < length ps"
  shows "rrw_local (ps ! i)" "rrw_published (ps ! i) \<longleftrightarrow> rrw_hi (rrw_word s) = unat (tid i)"
    "rrw_writing (ps ! i) \<Longrightarrow> rrw_depth s = of_nat (rrw_count (ps ! i))"
    "rrw_weight (ps ! i) \<le> rrw_lo (rrw_word s)" "unat (tid i) \<noteq> 0"
  using assms weight_sum_member [OF assms(2), of rrw_weight] by (simp_all add: rrw_inv_def unat_eq_0)

lemma rrw_inv_excl:
  "rrw_inv tid s ps \<Longrightarrow> i < length ps \<Longrightarrow> j < length ps \<Longrightarrow> i \<noteq> j \<Longrightarrow> rrw_writing (ps ! i) \<Longrightarrow>
    \<not> rrw_writing (ps ! j) \<and> \<not> rrw_reading (ps ! j)"
  by (auto simp: rrw_inv_def dest: rw_exclusiveD)

lemma rrw_sum_bound:
  assumes "length ps < 4096" "\<forall>p \<in> set ps. rrw_local p"
  shows "weight_sum rrw_weight ps < 2 ^ 32"
proof -
  have "weight_sum rrw_weight ps \<le> length ps * 0x1000ff"
    using assms(2) unfolding weight_sum_def
  proof (induction ps)
    case (Cons p ps)
    then show ?case using rrw_weight_bound [of p] by simp
  qed simp
  with assms(1) show ?thesis by simp
qed

text \<open>A step of thread \<open>i\<close> keeps the invariant if it keeps the account of the word, changes
  the upper half only between free and its own identifier, changes the depth only as the writer,
  and becomes a reader or writer only when no conflicting holder is there.\<close>

lemma rrw_inv_update:
  assumes inv: "rrw_inv tid s ps" and i: "i < length ps"
    and lo: "rrw_lo (rrw_word s') + rrw_weight (ps ! i) = rrw_lo (rrw_word s) + rrw_weight p'"
    and hi: "rrw_hi (rrw_word s') = rrw_hi (rrw_word s) \<or>
      rrw_hi (rrw_word s) \<in> {0, unat (tid i)} \<and> rrw_hi (rrw_word s') \<in> {0, unat (tid i)}"
    and dep: "rrw_depth s' = rrw_depth s \<or> rrw_writing (ps ! i)"
    and loc: "rrw_local p'" "rrw_published p' \<longleftrightarrow> rrw_hi (rrw_word s') = unat (tid i)"
      "rrw_writing p' \<longrightarrow> rrw_depth s' = of_nat (rrw_count p')"
      "rrw_writing (ps ! i) \<longrightarrow> \<not> rrw_writing p' \<longrightarrow> rrw_depth s' = 0"
    and wr: "rrw_writing p' \<longrightarrow> rrw_writing (ps ! i) \<or>
      (\<forall>j < length ps. \<not> rrw_writing (ps ! j) \<and> \<not> rrw_reading (ps ! j))"
    and rd: "rrw_reading p' \<longrightarrow> rrw_reading (ps ! i) \<or> rrw_writing (ps ! i) \<or>
      (\<forall>j < length ps. \<not> rrw_writing (ps ! j))"
  shows "rrw_inv tid s' (ps[i := p'])"
proof -
  let ?h = "rrw_hi (rrw_word s)" and ?h' = "rrw_hi (rrw_word s')"
  note ex = rrw_inv_excl [OF inv]
  have tids: "unat (tid j) \<noteq> unat (tid i) \<and> unat (tid j) \<noteq> 0" if "j < length ps" "j \<noteq> i" for j
  proof -
    have "tid j \<noteq> tid i \<and> tid j \<noteq> 0" using inv i that by (auto simp: rrw_inv_def)
    then show ?thesis by (metis unat_eq_0 word_unat_eq_iff)
  qed
  have others: "rrw_local (ps ! j) \<and> (rrw_published (ps ! j) \<longleftrightarrow> ?h' = unat (tid j))
      \<and> (rrw_writing (ps ! j) \<longrightarrow> rrw_depth s' = of_nat (rrw_count (ps ! j)))"
    if j: "j < length ps" "j \<noteq> i" for j
    using hi dep rrw_invD(1-3) [OF inv j(1)] tids [OF j] ex [OF i j(1)] j(2) by auto
  have sum: "rrw_lo (rrw_word s') = weight_sum rrw_weight (ps[i := p'])"
    using lo inv weight_sum_update [OF i, of rrw_weight p'] by (simp add: rrw_inv_def)
  have excl: "rw_exclusive rrw_reading rrw_writing (ps[i := p'])"
  proof (rule rw_exclusive_update)
    show "rw_exclusive rrw_reading rrw_writing ps" using inv by (simp add: rrw_inv_def)
    show "\<forall>j < length ps. j \<noteq> i \<longrightarrow> \<not> rrw_writing (ps ! j)" if "rrw_reading p' \<or> rrw_writing p'"
      using that wr rd ex [OF i] ex [OF _ i] by blast
    show "\<forall>j < length ps. j \<noteq> i \<longrightarrow> \<not> rrw_reading (ps ! j)" if "rrw_writing p'"
      using that wr ex [OF i] by blast
  qed
  have pub: "?h' = 0 \<or> (\<exists>k < length ps. rrw_published (ps[i := p'] ! k))"
  proof (cases "?h' = unat (tid i)")
    case True
    with loc(2) i show ?thesis by (metis nth_list_update_eq)
  next
    case False
    show ?thesis
    proof (cases "?h' = 0")
      case nz: False
      with False hi have "?h' = ?h" by auto
      with nz inv obtain k where k: "k < length ps" "rrw_published (ps ! k)"
        by (auto simp: rrw_inv_def)
      with False \<open>?h' = ?h\<close> rrw_invD(2) [OF inv i] have "k \<noteq> i" by auto
      with k show ?thesis by auto
    qed simp
  qed
  have zero: "(\<forall>k < length ps. \<not> rrw_writing (ps[i := p'] ! k)) \<longrightarrow> rrw_depth s' = 0"
  proof
    assume a: "\<forall>k < length ps. \<not> rrw_writing (ps[i := p'] ! k)"
    then have p': "\<not> rrw_writing p'" using i by (metis nth_list_update_eq)
    show "rrw_depth s' = 0"
    proof (cases "rrw_writing (ps ! i)")
      case False
      with a have "\<forall>k < length ps. \<not> rrw_writing (ps ! k)" by (metis nth_list_update_neq)
      with inv dep False show ?thesis by (auto simp: rrw_inv_def)
    qed (use loc(4) p' in blast)
  qed
  show ?thesis
    using inv others loc i sum excl pub zero
    by (auto simp: rrw_inv_def nth_list_update)
qed



section \<open>Every step keeps the invariant\<close>

lemma rrw_count_zero:
  "length st \<le> 255 \<Longrightarrow> n \<le> count_list st Excl \<Longrightarrow>
    ((of_nat n :: u64) = 0) \<longleftrightarrow> n = 0"
  using of_nat_word_inj [where 'a = 64, of n 0] count_le_length [of st Excl] by simp

lemma rrw_nested_tl: "rrw_nested st \<Longrightarrow> st \<noteq> [] \<Longrightarrow> rrw_nested (tl st)"
  by (cases st) (auto simp: rrw_nested_def split: if_splits)

lemma rrw_nested_Excl_single:
  "rrw_nested (Excl # t) \<Longrightarrow> count_list t Excl = 0 \<longleftrightarrow> t = []"
  by (cases t rule: rev_cases) (auto simp: rrw_nested_def count_list_0_iff)

lemma rrw_nested_Excl_tl: "rrw_nested st \<Longrightarrow> Excl \<in> set st \<Longrightarrow> tl st \<noteq> [] \<Longrightarrow> Excl \<in> set (tl st)"
  by (metis last_in_set last_tl rrw_nested_def)

lemma rrw_room:
  assumes "rrw_inv tid s ps" "i < length ps" "rrw_local p'"
  shows "rrw_lo (rrw_word s) + rrw_weight p' < 2 ^ 32 + rrw_weight (ps ! i)"
proof -
  have "\<forall>p \<in> set (ps[i := p']). rrw_local p"
    using rrw_invD(1) [OF assms(1)] assms(2,3) by (auto simp: in_set_conv_nth nth_list_update)
  then have "weight_sum rrw_weight (ps[i := p']) < 2 ^ 32"
    using assms(1) by (intro rrw_sum_bound) (simp_all add: rrw_inv_def)
  then show ?thesis
    using weight_sum_update [OF assms(2), of rrw_weight p'] assms(1) by (simp add: rrw_inv_def)
qed

lemma rrw_no_writer:
  assumes "rrw_inv tid s ps" "i < length ps" "ps ! i = QsTry st" "\<not> rrw_writer_bits (rrw_word s + 1)"
  shows "\<forall>j < length ps. \<not> rrw_writing (ps ! j)"
proof (intro allI impI notI)
  fix j assume j: "j < length ps" "rrw_writing (ps ! j)"
  have l: "rrw_local (QReady (Shrd # st))"
    using rrw_invD(1) [OF assms(1,2)] assms(3) by (auto simp: rrw_nested_def)
  have "rrw_lo (rrw_word s) + 1 < 2 ^ 32"
    using rrw_room [OF assms(1,2) l] assms(3) rrw_invD(1) [OF assms(1,2)]
    by (simp add: rrw_weight_def rrw_writing_def)
  then have "rrw_lo (rrw_word s) < 2 ^ 20"
    using assms(4) rrw_lo_add(1) [of "rrw_word s" 1] by (simp add: rrw_writer_bits_iff)
  moreover have "0x100000 \<le> rrw_weight (ps ! j)" using j(2) by (simp add: rrw_weight_def)
  ultimately show False using rrw_invD(4) [OF assms(1) j(1)] by simp
qed

lemma rrw_no_holder:
  assumes "rrw_inv tid s ps" "rrw_word s + 0x100000 = 0x100000" "j < length ps"
  shows "\<not> rrw_writing (ps ! j) \<and> rrw_stack (ps ! j) = []"
proof -
  have "rrw_lo (rrw_word s) = 0" using assms(2) by (simp add: rrw_lo_def)
  then have "rrw_weight (ps ! j) = 0" using rrw_invD(4) [OF assms(1,3)] by simp
  then show ?thesis by (simp add: rrw_weight_def split: if_splits)
qed

lemma rrw_publish_free:
  assumes "rrw_inv tid s ps" "i < length ps" "ps ! i = QxPublish st"
  shows "rrw_hi (rrw_word s) = 0"
proof (rule ccontr)
  assume "rrw_hi (rrw_word s) \<noteq> 0"
  with assms(1) obtain k where k: "k < length ps" "rrw_published (ps ! k)"
    by (auto simp: rrw_inv_def)
  have "st = []" using rrw_invD(1) [OF assms(1,2)] assms(3) by simp
  with k assms(3) have "k \<noteq> i" by (auto simp: rrw_published_def)
  moreover have "rrw_writing (ps ! k)"
    using k(2) by (cases "ps ! k") (auto simp: rrw_published_def rrw_writing_def)
  moreover have "rrw_writing (ps ! i)" using assms(3) by (simp add: rrw_writing_def)
  ultimately show False using rrw_inv_excl [OF assms(1) assms(2) k(1)] by blast
qed

text \<open>A thread with only shared brackets finds the depth at zero.\<close>

lemma rrw_reader_depth:
  assumes "rrw_inv tid s ps" "i < length ps" "rrw_reading (ps ! i)" "\<not> rrw_writing (ps ! i)"
  shows "rrw_depth s = 0"
proof -
  have "\<forall>k < length ps. \<not> rrw_writing (ps ! k)"
    using assms rrw_inv_excl [OF assms(1) _ assms(2)] by blast
  with assms(1) show ?thesis by (simp add: rrw_inv_def)
qed

lemmas rrw_pc_defs = rrw_writing_def rrw_reading_def rrw_published_def rrw_weight_def rrw_count_def

text \<open>What the two tests of the depth find out about the brackets of the thread.\<close>

lemma rrw_shared_test:
  assumes "rrw_inv tid s ps" "i < length ps" "ps ! i = QsTest st"
  shows "rrw_depth s = 0 \<longleftrightarrow> Excl \<notin> set st" "rrw_nested (tl st)"
    "st = Shrd # tl st" "Excl \<in> set (tl st) \<longleftrightarrow> Excl \<in> set st"
proof -
  note d = rrw_invD(1,3) [OF assms(1,2)]
  show "rrw_depth s = 0 \<longleftrightarrow> Excl \<notin> set st"
    using d assms(3) rrw_count_zero [of st "count_list st Excl"] rrw_reader_depth [OF assms(1,2)]
    by (auto simp: rrw_pc_defs rrw_nested_def count_list_0_iff)
  show "rrw_nested (tl st)" using d assms(3) by (auto intro: rrw_nested_tl)
  show "st = Shrd # tl st" using d assms(3) by (cases st) auto
  then show "Excl \<in> set (tl st) \<longleftrightarrow> Excl \<in> set st" by (metis mode.distinct(1) set_ConsD list.set_intros(2))
qed

lemma rrw_exclusive_test:
  assumes "rrw_inv tid s ps" "i < length ps" "ps ! i = QxTest st"
  shows "rrw_depth s = 0 \<longleftrightarrow> st = [Excl]" "rrw_nested (tl st)" "st = Excl # tl st"
    "st \<noteq> [Excl] \<Longrightarrow> Excl \<in> set (tl st)" "rrw_depth s = of_nat (count_list (tl st) Excl)"
proof -
  note d = rrw_invD(1,3) [OF assms(1,2)]
  obtain t where t: "st = Excl # t" "rrw_nested st" using d(1) assms(3) by (cases st) auto
  then show "rrw_nested (tl st)" "st = Excl # tl st" using rrw_nested_tl [of st] by auto
  show c: "rrw_depth s = of_nat (count_list (tl st) Excl)"
    using d(2) assms(3) t(1) by (simp add: rrw_pc_defs)
  show "st \<noteq> [Excl] \<Longrightarrow> Excl \<in> set (tl st)"
    using t rrw_nested_Excl_tl [of st] by auto
  show "rrw_depth s = 0 \<longleftrightarrow> st = [Excl]"
    using c t rrw_count_zero [of t "count_list t Excl"] rrw_nested_Excl_single [of t]
    by (auto simp: rrw_nested_def)
qed

text \<open>One lemma per obligation of \<open>rrw_inv_update\<close>.\<close>


lemma rrw_step_local:
  assumes inv: "rrw_inv tid s ps" and i: "i < length ps"
    and st: "(p', s') \<in> set (rrw_step checks tid i (ps ! i) s)"
  shows "rrw_local p'"
proof -
  note d = rrw_invD [OF inv i]
  show ?thesis
  proof (cases "ps ! i")
    case (QReady st)
    with st d(1) show ?thesis
      by (auto simp: rrw_step_def rrw_calls_def split: if_splits list.splits mode.splits)
  next
    case (QsCheck st)
    with st d(1,2) show ?thesis
      by (auto simp: rrw_step_def rrw_owner_iff rrw_published_def split: if_splits)
  next
    case (QxCheck st)
    with st d(1,2) show ?thesis
      by (auto simp: rrw_step_def rrw_owner_iff rrw_published_def split: if_splits)
  next
    case (QsAssert st)
    with st d(1,3) rrw_count_zero [of st "count_list st Excl"] show ?thesis
      by (auto simp: rrw_step_def rrw_pc_defs rrw_nested_def count_list_0_iff split: if_splits)
  next
    case (QxAssert st)
    with st d(1,3) rrw_count_zero [of st "count_list st Excl"] show ?thesis
      by (auto simp: rrw_step_def rrw_pc_defs rrw_nested_def count_list_0_iff split: if_splits)
  next
    case (QxTry st)
    with st d(1) rrw_no_holder [OF inv _ i] show ?thesis
      by (auto simp: rrw_step_def split: if_splits)
  next
    case (QsTest xs)
    with st d(1) rrw_shared_test [OF inv i] show ?thesis
      by (auto simp: rrw_step_def split: if_splits)
  next
    case (QxTest xs)
    with st rrw_exclusive_test [OF inv i] show ?thesis
      by (auto simp: rrw_step_def split: if_splits)
  qed (use st d(1) rrw_asserts in \<open>auto simp: rrw_step_def rrw_nested_def dest: list.set_sel(2) split: if_splits\<close>)
qed

lemma rrw_step_lo:
  assumes inv: "rrw_inv tid s ps" and i: "i < length ps"
    and st: "(p', s') \<in> set (rrw_step checks tid i (ps ! i) s)"
  shows "rrw_lo (rrw_word s') + rrw_weight (ps ! i) = rrw_lo (rrw_word s) + rrw_weight p'"
proof -
  note d = rrw_invD [OF inv i] and loc = rrw_step_local [OF inv i st]
  note room = rrw_room [OF inv i loc]
  have add: "rrw_lo (rrw_word s + c) + rrw_weight (ps ! i) = rrw_lo (rrw_word s) + rrw_weight p'"
    if "rrw_weight p' = rrw_weight (ps ! i) + unat c" for c
    using room that rrw_lo_add(1) [of "rrw_word s" c] by simp
  have sub: "rrw_lo (rrw_word s - c) + rrw_weight (ps ! i) = rrw_lo (rrw_word s) + rrw_weight p'"
    if "rrw_weight (ps ! i) = rrw_weight p' + unat c" for c
    using d(4) that rrw_lo_sub(1) [of c "rrw_word s"] by simp
  show ?thesis
  proof (cases "ps ! i")
    case (QxRetire xs)
    with d(1,2) rrw_hi_sub(1) [of "rrw_word s" "tid i"] st show ?thesis
      by (auto simp: rrw_step_def rrw_pc_defs rrw_asserts split: if_splits)
  next
    case (QxPublish xs)
    with d(1) rrw_hi_add(1) [of "rrw_word s" "tid i"] rrw_publish_free [OF inv i] st show ?thesis
      by (auto simp: rrw_step_def rrw_pc_defs rrw_asserts split: if_splits)
  next
    case (QsDec xs)
    with d(1) st sub [of 1] show ?thesis
      by (cases xs) (auto simp: rrw_step_def rrw_pc_defs)
  next
    case (QxFree xs)
    with d(1) st sub [of "0x100000"] show ?thesis
      by (auto simp: rrw_step_def rrw_pc_defs)
  next
    case (QxTry xs)
    with d(1) st add [of "0x100000"] rrw_no_holder [OF inv _ i] show ?thesis
      by (auto simp: rrw_step_def rrw_pc_defs split: if_splits)
  next
    case (QsTest xs)
    with st rrw_shared_test [OF inv i QsTest] show ?thesis
      by (cases xs) (auto simp: rrw_step_def rrw_pc_defs split: if_splits)
  next
    case (QxTest xs)
    with st rrw_exclusive_test [OF inv i QxTest] show ?thesis
      by (cases xs) (auto simp: rrw_step_def rrw_pc_defs split: if_splits)
  qed (use st d(1) loc add [of 1] sub [of 1] add [of "0x100000"] sub [of "0x100000"] in
      \<open>auto simp: rrw_step_def rrw_calls_def rrw_pc_defs split: if_splits list.splits mode.splits\<close>)
qed

text \<open>Every other step adds or subtracts less than the lower half can hold.\<close>

lemma rrw_step_hi_same:
  assumes inv: "rrw_inv tid s ps" and i: "i < length ps"
    and st: "(p', s') \<in> set (rrw_step checks tid i (ps ! i) s)"
    and other: "\<And>xs. ps ! i \<noteq> QxRetire xs" "\<And>xs. ps ! i \<noteq> QxPublish xs"
  shows "rrw_hi (rrw_word s') = rrw_hi (rrw_word s)"
proof -
  note d = rrw_invD [OF inv i] and room = rrw_room [OF inv i rrw_step_local [OF inv i st]]
  have add: "rrw_hi (rrw_word s + c) = rrw_hi (rrw_word s)"
    if "rrw_weight p' = rrw_weight (ps ! i) + unat c" for c
    using room that rrw_lo_add(2) [of "rrw_word s" c] by simp
  have sub: "rrw_hi (rrw_word s - c) = rrw_hi (rrw_word s)"
    if "rrw_weight (ps ! i) = rrw_weight p' + unat c" for c
    using d(4) that rrw_lo_sub(2) [of c "rrw_word s"] by simp
  show ?thesis
  proof (cases "ps ! i")
    case (QsDec xs)
    with d(1) st sub [of 1] show ?thesis
      by (cases xs) (auto simp: rrw_step_def rrw_pc_defs)
  next
    case (QxFree xs)
    with d(1) st sub [of "0x100000"] show ?thesis
      by (auto simp: rrw_step_def rrw_pc_defs)
  next
    case (QxTry xs)
    with d(1) st add [of "0x100000"] rrw_no_holder [OF inv _ i] show ?thesis
      by (auto simp: rrw_step_def rrw_pc_defs split: if_splits)
  qed (use st d(1) other add [of 1] sub [of 1] sub [of "0x100000"] in
      \<open>auto simp: rrw_step_def rrw_pc_defs split: if_splits\<close>)
qed

lemma rrw_step_hi:
  assumes inv: "rrw_inv tid s ps" and i: "i < length ps"
    and st: "(p', s') \<in> set (rrw_step checks tid i (ps ! i) s)"
  shows "rrw_hi (rrw_word s') = rrw_hi (rrw_word s) \<or>
      rrw_hi (rrw_word s) \<in> {0, unat (tid i)} \<and> rrw_hi (rrw_word s') \<in> {0, unat (tid i)}"
    and "rrw_published p' \<longleftrightarrow> rrw_hi (rrw_word s') = unat (tid i)"
proof -
  note d = rrw_invD [OF inv i] and same = rrw_step_hi_same [OF inv i st]
  show "rrw_hi (rrw_word s') = rrw_hi (rrw_word s) \<or>
      rrw_hi (rrw_word s) \<in> {0, unat (tid i)} \<and> rrw_hi (rrw_word s') \<in> {0, unat (tid i)}"
  proof (cases "ps ! i")
    case (QxRetire xs)
    with d(1,2) rrw_hi_sub(2) [of "rrw_word s" "tid i"] st show ?thesis
      by (auto simp: rrw_step_def rrw_asserts rrw_pc_defs)
  next
    case (QxPublish xs)
    with rrw_hi_add(2) [of "rrw_word s" "tid i"] rrw_publish_free [OF inv i] st show ?thesis
      by (auto simp: rrw_step_def rrw_asserts)
  qed (use same in auto)
  show "rrw_published p' \<longleftrightarrow> rrw_hi (rrw_word s') = unat (tid i)"
  proof (cases "ps ! i")
    case (QxRetire xs)
    with d(1,2,5) rrw_hi_sub(2) [of "rrw_word s" "tid i"] st show ?thesis
      by (auto simp: rrw_step_def rrw_asserts rrw_pc_defs)
  next
    case (QxPublish xs)
    with rrw_hi_add(2) [of "rrw_word s" "tid i"] rrw_publish_free [OF inv i] st show ?thesis
      by (auto simp: rrw_step_def rrw_asserts rrw_pc_defs)
  next
    case (QxTest xs)
    with d(2) same st rrw_exclusive_test [OF inv i QxTest] show ?thesis
      by (cases xs) (auto simp: rrw_step_def rrw_pc_defs split: if_splits)
  next
    case (QsTest xs)
    with d(2) same st rrw_shared_test [OF inv i QsTest] show ?thesis
      by (cases xs) (auto simp: rrw_step_def rrw_pc_defs split: if_splits)
  next
    case (QsDec xs)
    with d same st show ?thesis
      by (cases xs) (auto simp: rrw_step_def rrw_pc_defs)
  next
    case (QxTry xs)
    with d same st rrw_no_holder [OF inv _ i] show ?thesis
      by (auto simp: rrw_step_def rrw_pc_defs split: if_splits)
  qed (use same d st rrw_step_local [OF inv i st] in \<open>auto simp: rrw_step_def rrw_calls_def rrw_pc_defs
        split: if_splits list.splits mode.splits\<close>)
qed

lemma rrw_step_depth:
  assumes inv: "rrw_inv tid s ps" and i: "i < length ps"
    and st: "(p', s') \<in> set (rrw_step checks tid i (ps ! i) s)"
  shows "rrw_depth s' = rrw_depth s \<or> rrw_writing (ps ! i)"
    and "rrw_writing p' \<longrightarrow> rrw_depth s' = of_nat (rrw_count p')"
    and "rrw_writing (ps ! i) \<longrightarrow> \<not> rrw_writing p' \<longrightarrow> rrw_depth s' = 0"
proof -
  note d = rrw_invD [OF inv i] and loc = rrw_step_local [OF inv i st]
  note shr = rrw_shared_test [OF inv i] and exc = rrw_exclusive_test [OF inv i]
  show "rrw_depth s' = rrw_depth s \<or> rrw_writing (ps ! i)"
    using st d(1) by (cases "ps ! i")
      (auto simp: rrw_step_def rrw_calls_def rrw_pc_defs hd_in_set split: if_splits list.splits mode.splits,
       metis hd_in_set)
  show "rrw_writing p' \<longrightarrow> rrw_depth s' = of_nat (rrw_count p')"
  proof (cases "ps ! i")
    case (QxDec xs)
    with st d show ?thesis by (cases xs) (auto simp: rrw_step_def rrw_pc_defs)
  next
    case (QxTest xs)
    with st exc show ?thesis by (auto simp: rrw_step_def rrw_pc_defs split: if_splits)
  next
    case (QsTest xs)
    with st shr d(3) show ?thesis by (cases xs) (auto simp: rrw_step_def rrw_pc_defs split: if_splits)
  next
    case (QxTry xs)
    have "rrw_depth s = 0" if "rrw_word s + 0x100000 = 0x100000"
      using inv rrw_no_holder [OF inv that] by (simp add: rrw_inv_def)
    with QxTry st d(1) rrw_no_holder [OF inv _ i] show ?thesis
      by (auto simp: rrw_step_def rrw_pc_defs split: if_splits)
  qed (use st d loc in \<open>auto simp: rrw_step_def rrw_calls_def rrw_pc_defs
        dest: list.set_sel(2) split: if_splits list.splits mode.splits\<close>)
  show "rrw_writing (ps ! i) \<longrightarrow> \<not> rrw_writing p' \<longrightarrow> rrw_depth s' = 0"
  proof (cases "ps ! i")
    case (QxDec xs)
    with st d show ?thesis by (cases xs) (auto simp: rrw_step_def rrw_pc_defs)
  next
    case (QxTest xs)
    with st exc show ?thesis by (auto simp: rrw_step_def rrw_pc_defs split: if_splits)
  next
    case (QsTest xs)
    with st shr show ?thesis by (auto simp: rrw_step_def rrw_pc_defs split: if_splits)
  qed (use st d loc in \<open>auto simp: rrw_step_def rrw_calls_def rrw_pc_defs
        split: if_splits list.splits mode.splits\<close>)
qed

lemma rrw_step_excl:
  assumes inv: "rrw_inv tid s ps" and i: "i < length ps"
    and st: "(p', s') \<in> set (rrw_step checks tid i (ps ! i) s)"
  shows "rrw_writing p' \<longrightarrow> rrw_writing (ps ! i) \<or>
      (\<forall>j < length ps. \<not> rrw_writing (ps ! j) \<and> \<not> rrw_reading (ps ! j))"
    and "rrw_reading p' \<longrightarrow> rrw_reading (ps ! i) \<or> rrw_writing (ps ! i) \<or>
      (\<forall>j < length ps. \<not> rrw_writing (ps ! j))"
proof -
  note d = rrw_invD(1) [OF inv i] and loc = rrw_step_local [OF inv i st]
  show "rrw_writing p' \<longrightarrow> rrw_writing (ps ! i) \<or>
      (\<forall>j < length ps. \<not> rrw_writing (ps ! j) \<and> \<not> rrw_reading (ps ! j))"
  proof (cases "ps ! i")
    case (QxTry xs)
    with st rrw_no_holder [OF inv] d show ?thesis
      by (auto simp: rrw_step_def rrw_reading_def rrw_writing_def split: if_splits)
  qed (use st d loc in \<open>auto simp: rrw_step_def rrw_calls_def rrw_pc_defs
        dest: list.set_sel(2) split: if_splits list.splits mode.splits\<close>)
  show "rrw_reading p' \<longrightarrow> rrw_reading (ps ! i) \<or> rrw_writing (ps ! i) \<or>
      (\<forall>j < length ps. \<not> rrw_writing (ps ! j))"
  proof (cases "ps ! i")
    case (QsTry xs)
    with st rrw_no_writer [OF inv i QsTry] show ?thesis
      by (auto simp: rrw_step_def rrw_reading_def rrw_writing_def split: if_splits)
  qed (use st d loc in \<open>auto simp: rrw_step_def rrw_calls_def rrw_pc_defs
        dest: list.set_sel(2) split: if_splits list.splits mode.splits\<close>)
qed

lemma rrw_step_inv:
  assumes "rrw_inv tid s ps" "i < length ps" "(p', s') \<in> set (rrw_step checks tid i (ps ! i) s)"
  shows "rrw_inv tid s' (ps[i := p'])"
  using assms(1,2) rrw_step_lo [OF assms] rrw_step_hi(1) [OF assms] rrw_step_depth(1) [OF assms]
    rrw_step_local [OF assms] rrw_step_hi(2) [OF assms] rrw_step_depth(2,3) [OF assms]
    rrw_step_excl [OF assms]
  by (rule rrw_inv_update)

interpretation rrw: rw_protocol "rrw_step checks tid" "rrw_start tid" "rrw_inv tid" rrw_reading rrw_writing
  for checks tid
proof
  fix s ps
  assume a: "rrw_start tid (s, ps)"
  then have "weight_sum rrw_weight ps = 0"
    by (auto simp: rrw_start_def weight_sum_zero rrw_pc_defs)
  with a show "rrw_inv tid s ps"
    by (auto simp: rrw_start_def rrw_inv_def rrw_init_def rrw_lo_def rrw_hi_def rrw_pc_defs
        rrw_nested_def all_nthD unat_eq_0 intro!: rw_exclusive_start)
next
  fix s ps i p' s'
  assume "rrw_inv tid s ps" "i < length ps" "(p', s') \<in> set (rrw_step checks tid i (ps ! i) s)"
  then show "rrw_inv tid s' (ps[i := p'])" by (rule rrw_step_inv)
next
  fix s ps i j
  assume "rrw_inv tid s ps" "i < length ps" "j < length ps" "i \<noteq> j" "rrw_writing (ps ! i)"
  then show "\<not> rrw_writing (ps ! j) \<and> \<not> rrw_reading (ps ! j)" by (rule rrw_inv_excl)
qed



section \<open>Properties\<close>

text \<open>C11. Exclusion of \<open>recursive_rw_spinlock\<close> for fewer than 4096 threads with different non-zero
  identifiers and at most 255 nested calls each: in no state has an \<open>assert\<close> of the class failed,
  and while one thread has an exclusive bracket open, no other thread has any bracket open.\<close>

theorem recursive_rw_spinlock_exclusion:
  assumes "reach (rrw_start tid) (interleave (rrw_step checks tid)) (s, ps)"
  shows "QAborted \<notin> set ps
    \<and> (\<forall>i < length ps. \<forall>j < length ps. \<forall>xs ys.
         ps ! i = QReady xs \<and> Excl \<in> set xs \<and> j \<noteq> i \<and> ps ! j = QReady ys \<longrightarrow> ys = [])"
proof -
  have inv: "rrw_inv tid s ps" using assms by (rule rrw.reach_inv)
  then have "QAborted \<notin> set ps" by (auto simp: rrw_inv_def in_set_conv_nth)
  moreover have "ys = []"
    if "i < length ps" "j < length ps" "ps ! i = QReady xs" "Excl \<in> set xs" "j \<noteq> i" "ps ! j = QReady ys" for i j xs ys
    using rrw.inv_writer [OF inv that(1), of j] that by (auto simp: rrw_pc_defs)
  ultimately show ?thesis by blast
qed

definition seq_tids :: "nat \<Rightarrow> u32" where
  "seq_tids i = of_nat (Suc i)"

lemma seq_tids_start:
  "rrw_start seq_tids (rrw_init, [QReady [], QReady []])"
  by (auto simp: rrw_start_def seq_tids_def less_Suc_eq numeral_2_eq_2)

lemma seq_tids_run:
  "reach (rrw_start seq_tids) (interleave (rrw_step True seq_tids))
     (\<lparr>rrw_word = 0x100100001, rrw_depth = 1\<rparr>, [QReady [Shrd, Excl], QsUndo []])"
  by (rule run_sched_reach_start [where start = "rrw_start seq_tids", OF seq_tids_start, where sched =
        "[(0, 1), (0, 0), (0, 0), (0, 0), (0, 0), (1, 0), (1, 0), (1, 0), (0, 0), (0, 0), (0, 0)]"])
    (simp add: rrw_init_def rrw_step_def rrw_calls_def rrw_owner_def rrw_writer_bits_def seq_tids_def
      thread_id_mask_def exclusive_mask_def shared_mask_def rrw_this_id_def push_bit_eq_mult
      drop_bit_eq_div)

theorem recursive_rw_spinlock_exclusion_witness:
  "QAborted \<notin> set [QReady [Shrd, Excl], QsUndo []]"
  using recursive_rw_spinlock_exclusion [OF seq_tids_run] by simp

text \<open>The nestings the class comment allows: a thread that holds the exclusive lock opens a
  further exclusive or shared bracket at once, in three or two accesses, without touching the
  word (it only counts exclusive brackets).\<close>

theorem recursive_rw_spinlock_nesting:
  assumes "reach (rrw_start tid) (interleave (rrw_step checks tid)) (s, ps)"
    and "i < length ps" "ps ! i = QReady xs" "Excl \<in> set xs"
  shows "run_alone (rrw_lock checks (tid i)) (\<lambda>p. p = QReady (Excl # xs)) 3 (QxCheck xs) s
      = Some (QReady (Excl # xs), s\<lparr>rrw_depth := rrw_depth s + 1\<rparr>)
    \<and> run_alone (rrw_lock_shared checks (tid i)) (\<lambda>p. p = QReady (Shrd # xs)) 2 (QsCheck xs) s
      = Some (QReady (Shrd # xs), s)
    \<and> unat (rrw_depth s) = count_list xs Excl"
proof -
  have inv: "rrw_inv tid s ps" using assms(1) by (rule rrw.reach_inv)
  note d = rrw_invD [OF inv assms(2), unfolded assms(3)]
  have o: "rrw_owner (rrw_word s) = tid i"
    using d(2) assms(4) by (simp add: rrw_owner_iff rrw_published_def)
  have l: "length xs \<le> 255" using d(1) by (simp add: rrw_nested_def)
  have c: "rrw_depth s = of_nat (count_list xs Excl)" using d(3) assms(4) by (simp add: rrw_pc_defs)
  have "count_list xs Excl \<noteq> 0" using assms(4) by (simp add: count_list_0_iff)
  with c rrw_count_zero [OF l order_refl] have "rrw_depth s \<noteq> 0" by metis
  moreover have "unat (rrw_depth s) = count_list xs Excl"
    unfolding c using l count_le_length [of xs Excl] by (intro unat_of_nat_64) simp
  ultimately show ?thesis using o by (simp add: run_alone_unfold)
qed

theorem recursive_rw_spinlock_nesting_witness:
  "run_alone (rrw_lock True 1) (\<lambda>p. p = QReady [Excl, Shrd, Excl]) 3 (QxCheck [Shrd, Excl])
      \<lparr>rrw_word = 0x100100001, rrw_depth = 1\<rparr>
   = Some (QReady [Excl, Shrd, Excl], \<lparr>rrw_word = 0x100100001, rrw_depth = 2\<rparr>)"
  using recursive_rw_spinlock_nesting [OF seq_tids_run, of 0 "[Shrd, Excl]"]
  by (simp add: seq_tids_def)

text \<open>What the class comment warns of: a thread that holds a shared bracket and asks for the
  exclusive lock waits for itself. Alone it never gets the lock, however long it runs.\<close>

theorem recursive_rw_spinlock_upgrade_deadlock:
  assumes "rrw_hi (rrw_word s) \<noteq> unat me" "rrw_word s \<noteq> 0"
  shows "run_alone (rrw_lock checks me) rrw_writing n (QxCheck [Shrd]) s = None"
proof -
  have loop: "run_alone (rrw_lock checks me) rrw_writing n p t = None"
    if "p \<in> {QxTry [Shrd], QxSpin [Shrd]} \<and> t = s
      \<or> p = QxUndo [Shrd] \<and> t = s\<lparr>rrw_word := rrw_word s + 0x100000\<rparr>" for n p t
    using that
  proof (induction n arbitrary: p t)
    case 0
    then show ?case by (auto simp: run_alone.simps rrw_writing_def)
  next
    case (Suc n)
    obtain q u where q: "rrw_lock checks me p t = (q, u)" by (cases "rrw_lock checks me p t")
    with Suc.prems assms(2)
    have "q \<in> {QxTry [Shrd], QxSpin [Shrd]} \<and> u = s
      \<or> q = QxUndo [Shrd] \<and> u = s\<lparr>rrw_word := rrw_word s + 0x100000\<rparr>"
      by (auto split: if_splits)
    with Suc.IH Suc.prems q show ?case by (auto simp: run_alone_Suc rrw_writing_def)
  qed
  show ?thesis
  proof (cases n)
    case 0
    then show ?thesis by (simp add: run_alone.simps rrw_writing_def)
  next
    case (Suc m)
    with assms(1) loop show ?thesis by (simp add: run_alone_Suc rrw_writing_def rrw_owner_iff)
  qed
qed

theorem recursive_rw_spinlock_upgrade_deadlock_witness:
  "run_alone (rrw_lock True 1) rrw_writing 1000 (QxCheck [Shrd]) \<lparr>rrw_word = 1, rrw_depth = 0\<rparr> = None"
  by (rule recursive_rw_spinlock_upgrade_deadlock) (simp_all add: rrw_hi_def)

text \<open>On Linux, where \<open>get_thread_id\<close> is 0, the class does not work: the word of a free
  lock names owner 0, so the first \<open>lock\<close> of a program fails its \<open>assert\<close>; with
  assertions compiled out, two threads hold the exclusive lock at once.\<close>

theorem recursive_rw_spinlock_linux:
  "run_sched (rrw_step True (\<lambda>i. thread_id32 Linux (native i))) [(0, 1), (0, 0), (0, 0)]
     (rrw_init, [QReady [], QReady []])
   = Some (rrw_init, [QAborted, QReady []])
   \<and> run_sched (rrw_step False (\<lambda>i. thread_id32 Linux (native i)))
     [(0, 1), (0, 0), (0, 0), (0, 0), (1, 1), (1, 0), (1, 0), (1, 0)] (rrw_init, [QReady [], QReady []])
   = Some (\<lparr>rrw_word = 0, rrw_depth = 2\<rparr>, [QReady [Excl], QReady [Excl]])"
  by (simp add: rrw_init_def rrw_step_def rrw_calls_def rrw_owner_iff rrw_hi_def)

end
