(* ===== verification/Hash_Storage.thy ===== *)
theory Hash_Storage
  imports Interfaces
begin

text \<open>
  The class \<open>hash_storage\<close> of \<open>containers/hashmap/hash_storage.h\<close>, on which
  \<open>hash_map\<close> and \<open>hash_set\<close> are built. The storage is an array of buckets with a lock each;
  a bucket is a vector of collision lists. The template parameters that are code are the fields
  of \<open>hs_traits\<close>.

  A section under the exclusive or the shared lock of a bucket is one step (the lock excludes all
  other writers, \<open>RW_Spinlock\<close>); everything \<open>resize\<close> does outside the lock is a step of its
  own, so that emplacing and removing threads come between its copy and its swap.
  \<open>vector::resize\<close> throws \<open>length_error\<close> beyond \<open>max_size()\<close>; running out of memory
  before that is not modelled.
\<close>

record ('v, 'k) hs_traits =
  hasher :: "'k \<Rightarrow> u64"                \<comment> \<open>\<open>THasher\<close>\<close>
  equal_keys :: "'k \<Rightarrow> 'k \<Rightarrow> bool"     \<comment> \<open>\<open>TEqual\<close> on two keys\<close>
  equal_value :: "'v \<Rightarrow> 'k \<Rightarrow> bool"    \<comment> \<open>\<open>TEqual\<close> on an element and a key\<close>
  extract_key :: "'v \<Rightarrow> 'k"           \<comment> \<open>\<open>TKeyTraits::extract_key\<close>\<close>
  assign_value :: "'v \<Rightarrow> 'v \<Rightarrow> 'v"    \<comment> \<open>\<open>TKeyTraits::assign_value\<close>: the element after the assignment\<close>
  buckets_count :: nat              \<comment> \<open>\<open>BucketsCount\<close>\<close>
  resize_factor :: u64              \<comment> \<open>\<open>ResizeFactor\<close>\<close>

record 'v lockable_bucket =
  bucket :: "'v list list"
  bucket_size :: u64
  capacity :: u64
  resizing :: bool
  changed_while_resize :: bool

record 'v hash_storage =
  hs_size :: u64
  hs_storage :: "'v lockable_bucket list"

definition bucket_init :: "'v lockable_bucket" where
  "bucket_init = \<lparr>bucket = [[]], bucket_size = 1, capacity = 1, resizing = False,
     changed_while_resize = True\<rparr>"

definition hs_init :: "('v, 'k) hs_traits \<Rightarrow> 'v hash_storage" where
  "hs_init T = \<lparr>hs_size = 0, hs_storage = replicate (buckets_count T) bucket_init\<rparr>"

text \<open>\<open>hash % BucketsCount\<close> and \<open>hash % bucket.size()\<close>.\<close>

definition hs_index :: "('v, 'k) hs_traits \<Rightarrow> 'k \<Rightarrow> nat" where
  "hs_index T k = unat (hasher T k) mod buckets_count T"

definition hs_sub :: "('v, 'k) hs_traits \<Rightarrow> 'k \<Rightarrow> nat \<Rightarrow> nat" where
  "hs_sub T k n = unat (hasher T k) mod n"

definition find_locked :: "('v, 'k) hs_traits \<Rightarrow> 'k \<Rightarrow> 'v list list \<Rightarrow> 'v option" where
  "find_locked T k bkt =
     find (\<lambda>c. equal_keys T (extract_key T c) k) (bkt ! hs_sub T k (length bkt))"

definition hs_bucket :: "('v, 'k) hs_traits \<Rightarrow> 'k \<Rightarrow> 'v hash_storage \<Rightarrow> 'v lockable_bucket" where
  "hs_bucket T k s = hs_storage s ! hs_index T k"

definition hs_set_bucket :: "nat \<Rightarrow> 'v lockable_bucket \<Rightarrow> 'v hash_storage \<Rightarrow> 'v hash_storage" where
  "hs_set_bucket i b s = s\<lparr>hs_storage := (hs_storage s)[i := b]\<rparr>"

definition hs_find :: "('v, 'k) hs_traits \<Rightarrow> 'k \<Rightarrow> 'v hash_storage \<Rightarrow> 'v option" where
  "hs_find T k s = find_locked T k (bucket (hs_bucket T k s))"

text \<open>\<open>obtain\<close>: the argument after the call, and the answer.\<close>

definition hs_obtain :: "('v, 'k) hs_traits \<Rightarrow> 'v \<Rightarrow> 'v hash_storage \<Rightarrow> 'v \<times> bool" where
  "hs_obtain T v s =
     (case hs_find T (extract_key T v) s of
        Some w \<Rightarrow> (assign_value T v w, True)
      | None \<Rightarrow> (v, False))"

text \<open>The assignment through the iterator that \<open>find_if\<close> returned.\<close>

fun update_first :: "('v \<Rightarrow> bool) \<Rightarrow> ('v \<Rightarrow> 'v) \<Rightarrow> 'v list \<Rightarrow> 'v list" where
  "update_first P f [] = []"
| "update_first P f (x # xs) = (if P x then f x # xs else x # update_first P f xs)"

definition push_collision :: "('v, 'k) hs_traits \<Rightarrow> 'v \<Rightarrow> 'v list list \<Rightarrow> 'v list list" where
  "push_collision T v bkt =
     (let j = hs_sub T (extract_key T v) (length bkt) in bkt[j := v # bkt ! j])"

definition assign_collision :: "('v, 'k) hs_traits \<Rightarrow> 'v \<Rightarrow> 'v list list \<Rightarrow> 'v list list" where
  "assign_collision T v bkt =
     (let j = hs_sub T (extract_key T v) (length bkt) in
      bkt[j := update_first (\<lambda>c. equal_keys T (extract_key T c) (extract_key T v))
                 (\<lambda>c. assign_value T c v) (bkt ! j)])"

definition remove_collision :: "('v, 'k) hs_traits \<Rightarrow> 'k \<Rightarrow> 'v list list \<Rightarrow> 'v list list" where
  "remove_collision T k bkt =
     (let j = hs_sub T k (length bkt) in bkt[j := filter (\<lambda>c. \<not> equal_value T c k) (bkt ! j)])"

text \<open>\<open>emplace\<close> under the lock: is the element new, has the bucket to be resized.\<close>

definition emplace_locked ::
  "('v, 'k) hs_traits \<Rightarrow> 'v \<Rightarrow> 'v hash_storage \<Rightarrow> bool \<times> bool \<times> 'v hash_storage"
where
  "emplace_locked T v s =
     (let k = extract_key T v; i = hs_index T k; b = hs_bucket T k s in
      if find_locked T k (bucket b) \<noteq> None
      then (False, False, hs_set_bucket i
              (b\<lparr>bucket := assign_collision T v (bucket b), changed_while_resize := True\<rparr>) s)
      else (True, capacity b < (bucket_size b + 1) * resize_factor T,
            hs_set_bucket i (b\<lparr>bucket := push_collision T v (bucket b),
                bucket_size := bucket_size b + 1, changed_while_resize := True\<rparr>)
              (s\<lparr>hs_size := hs_size s + 1\<rparr>)))"

definition hs_remove :: "('v, 'k) hs_traits \<Rightarrow> 'k \<Rightarrow> 'v hash_storage \<Rightarrow> 'v hash_storage" where
  "hs_remove T k s =
     (let b = hs_bucket T k s; j = hs_sub T k (length (bucket b));
          bkt = remove_collision T k (bucket b);
          s' = hs_set_bucket (hs_index T k) (b\<lparr>bucket := bkt, changed_while_resize := True\<rparr>) s in
      if length (bucket b ! j) \<noteq> length (bkt ! j) then s'\<lparr>hs_size := hs_size s - 1\<rparr> else s')"

text \<open>The copy that \<open>resize\<close> makes under the shared lock.\<close>

definition copy_buckets :: "('v, 'k) hs_traits \<Rightarrow> u64 \<Rightarrow> 'v list list \<Rightarrow> 'v list list" where
  "copy_buckets T cap bkt =
     fold (push_collision T) (concat bkt) (replicate (unat cap) [])"

text \<open>\<open>max_size()\<close> of a vector of lists: \<open>PTRDIFF_MAX\<close> over the 24 bytes of a list.\<close>

definition max_lists :: nat where
  "max_lists = (2 ^ 63 - 1) div 24"

datatype ('v, 'k) hs_pc =
  HsIdle
| HsEmplace 'v              \<comment> \<open>emplace: before the exclusive lock\<close>
| HsResize nat              \<comment> \<open>resize: before the compare_exchange on \<open>resizing\<close>\<close>
| HsCapacity nat            \<comment> \<open>resize: before the read of \<open>capacity\<close>\<close>
| HsCopy nat u64            \<comment> \<open>resize: before a round of the loop\<close>
| HsSwap nat u64 "'v list list"  \<comment> \<open>resize: before the exclusive lock, with the copy\<close>
| HsPublish nat u64         \<comment> \<open>resize: before the write of \<open>capacity\<close>\<close>
| HsRelease nat             \<comment> \<open>resize: before \<open>resizing\<close> is reset\<close>
| HsEmplaced bool           \<comment> \<open>emplace returned\<close>
| HsThrew                   \<comment> \<open>emplace threw \<open>length_error\<close>\<close>
| HsObtain 'k               \<comment> \<open>obtain, find: before the shared lock\<close>
| HsObtained "'v option"    \<comment> \<open>obtain, find: returned\<close>
| HsRemove 'k               \<comment> \<open>remove: before the exclusive lock\<close>
| HsRemoved                 \<comment> \<open>remove returned\<close>

fun resize_move :: "('v, 'k) hs_traits \<Rightarrow> ('v, 'k) hs_pc \<Rightarrow> 'v hash_storage \<Rightarrow> ('v, 'k) hs_pc \<times> 'v hash_storage" where
  "resize_move T (HsResize i) s =
     (if resizing (hs_storage s ! i) then (HsEmplaced True, s)
      else (HsCapacity i, hs_set_bucket i ((hs_storage s ! i)\<lparr>resizing := True\<rparr>) s))"
| "resize_move T (HsCapacity i) s = (HsCopy i (capacity (hs_storage s ! i) * resize_factor T), s)"
| "resize_move T (HsCopy i cap) s =
     (if max_lists < unat cap then (HsThrew, s)
      else (HsSwap i cap (copy_buckets T cap (bucket (hs_storage s ! i))),
            hs_set_bucket i ((hs_storage s ! i)\<lparr>changed_while_resize := False\<rparr>) s))"
| "resize_move T (HsSwap i cap nb) s =
     (if changed_while_resize (hs_storage s ! i) then (HsCopy i cap, s)
      else (HsPublish i cap, hs_set_bucket i ((hs_storage s ! i)\<lparr>bucket := nb\<rparr>) s))"
| "resize_move T (HsPublish i cap) s =
     (HsRelease i, hs_set_bucket i ((hs_storage s ! i)\<lparr>capacity := cap\<rparr>) s)"
| "resize_move T (HsRelease i) s =
     (HsEmplaced True, hs_set_bucket i ((hs_storage s ! i)\<lparr>resizing := False\<rparr>) s)"
| "resize_move T p s = (p, s)"

fun hs_move :: "('v, 'k) hs_traits \<Rightarrow> ('v, 'k) hs_pc \<Rightarrow> 'v hash_storage \<Rightarrow> ('v, 'k) hs_pc \<times> 'v hash_storage" where
  "hs_move T (HsEmplace v) s =
     (case emplace_locked T v s of (new, grow, s') \<Rightarrow>
        (if grow then HsResize (hs_index T (extract_key T v)) else HsEmplaced new, s'))"
| "hs_move T (HsObtain k) s = (HsObtained (hs_find T k s), s)"
| "hs_move T (HsRemove k) s = (HsRemoved, hs_remove T k s)"
| "hs_move T p s = resize_move T p s"

fun hs_done :: "('v, 'k) hs_pc \<Rightarrow> bool" where
  "hs_done (HsEmplaced b) = True"
| "hs_done HsThrew = True"
| "hs_done (HsObtained r) = True"
| "hs_done HsRemoved = True"
| "hs_done p = False"

datatype ('v, 'k) hs_call = CallEmplace 'v | CallObtain 'k | CallRemove 'k

fun hs_begin :: "('v, 'k) hs_call \<Rightarrow> ('v, 'k) hs_pc" where
  "hs_begin (CallEmplace v) = HsEmplace v"
| "hs_begin (CallObtain k) = HsObtain k"
| "hs_begin (CallRemove k) = HsRemove k"

definition hs_step :: "('v, 'k) hs_traits \<Rightarrow> (nat \<Rightarrow> ('v, 'k) hs_call list)
  \<Rightarrow> ('v hash_storage, ('v, 'k) hs_pc) thread_step"
where
  "hs_step T calls t p s =
     (if p = HsIdle then map (\<lambda>c. (hs_begin c, s)) (calls t)
      else if hs_done p then [(HsIdle, s)]
      else [hs_move T p s])"

definition hs_start :: "('v, 'k) hs_traits \<Rightarrow> ('v hash_storage, ('v, 'k) hs_pc) system \<Rightarrow> bool" where
  "hs_start T s \<longleftrightarrow> fst s = hs_init T \<and> (\<forall>p \<in> set (snd s). p = HsIdle)"


section \<open>Collision lists\<close>

definition elems :: "'v list list \<Rightarrow> 'v set" where
  "elems bkt = set (concat bkt)"

text \<open>Every element is in the one list where its hash puts it, and no key is there twice.\<close>

definition placed :: "('v, 'k) hs_traits \<Rightarrow> nat \<Rightarrow> 'v list list \<Rightarrow> bool" where
  "placed T i bkt \<longleftrightarrow> bkt \<noteq> [] \<and> (\<forall>j < length bkt. distinct (map (extract_key T) (bkt ! j))
     \<and> (\<forall>v \<in> set (bkt ! j). hs_index T (extract_key T v) = i
          \<and> hs_sub T (extract_key T v) (length bkt) = j))"

text \<open>What the code relies on in its template parameters.\<close>

locale hash_traits =
  fixes T :: "('v, 'k) hs_traits"
  assumes equal_keys [simp]: "equal_keys T a b \<longleftrightarrow> a = b"
    and equal_value [simp]: "equal_value T v k \<longleftrightarrow> extract_key T v = k"
    and assign_value: "extract_key T v = extract_key T w \<Longrightarrow> assign_value T v w = w"
    and buckets_pos [simp]: "0 < buckets_count T"
    and factor: "0 < unat (resize_factor T)" "unat (resize_factor T) \<le> 16"
begin

lemma index_less [simp]: "hs_index T k < buckets_count T"
  by (simp add: hs_index_def)

lemma sub_less: "bkt \<noteq> [] \<Longrightarrow> hs_sub T k (length bkt) < length bkt"
  by (simp add: hs_sub_def)

lemma placed_sub_less: "placed T i bkt \<Longrightarrow> hs_sub T k (length bkt) < length bkt"
  by (simp add: placed_def sub_less)

lemma mem_elems: "v \<in> elems bkt \<longleftrightarrow> (\<exists>j < length bkt. v \<in> set (bkt ! j))"
  by (simp add: elems_def) (metis in_set_conv_nth)

lemma placedD:
  "placed T i bkt \<Longrightarrow> j < length bkt \<Longrightarrow> v \<in> set (bkt ! j) \<Longrightarrow>
    hs_index T (extract_key T v) = i \<and> hs_sub T (extract_key T v) (length bkt) = j"
  by (simp add: placed_def)

lemma placed_elem:
  assumes pl: "placed T i bkt"
  shows "v \<in> elems bkt \<longleftrightarrow> v \<in> set (bkt ! hs_sub T (extract_key T v) (length bkt))"
  using placedD [OF pl, of _ v] placed_sub_less [OF pl, of "extract_key T v"]
  unfolding mem_elems by metis

lemma placed_index: "placed T i bkt \<Longrightarrow> v \<in> elems bkt \<Longrightarrow> hs_index T (extract_key T v) = i"
  by (auto simp: mem_elems placed_def)

lemma placed_unique:
  assumes "placed T i bkt" "v \<in> elems bkt" "w \<in> elems bkt" "extract_key T v = extract_key T w"
  shows "v = w"
proof -
  let ?j = "hs_sub T (extract_key T w) (length bkt)"
  have "v \<in> set (bkt ! ?j)" "w \<in> set (bkt ! ?j)"
    using assms placed_elem [OF assms(1)] by force+
  moreover have "distinct (map (extract_key T) (bkt ! ?j))"
    using assms(1) placed_sub_less [OF assms(1)] by (simp add: placed_def)
  ultimately show ?thesis using assms(4) by (auto simp: distinct_map dest: inj_onD)
qed

lemma find_placed:
  assumes "placed T i bkt"
  shows "find_locked T k bkt = Some v \<longleftrightarrow> v \<in> elems bkt \<and> extract_key T v = k"
proof
  assume "find_locked T k bkt = Some v"
  then have "v \<in> set (bkt ! hs_sub T k (length bkt))" "extract_key T v = k"
    by (auto simp: find_locked_def find_Some_iff)
  with assms show "v \<in> elems bkt \<and> extract_key T v = k"
    by (auto simp: placed_elem)
next
  assume v: "v \<in> elems bkt \<and> extract_key T v = k"
  with assms have "v \<in> set (bkt ! hs_sub T k (length bkt))" by (auto simp: placed_elem)
  with v have "find_locked T k bkt \<noteq> None" by (auto simp: find_locked_def find_None_iff)
  then obtain w where w: "find_locked T k bkt = Some w" by blast
  then have "w \<in> set (bkt ! hs_sub T k (length bkt))" "extract_key T w = k"
    by (auto simp: find_locked_def find_Some_iff)
  with assms v have "w = v" by (auto simp: placed_elem intro: placed_unique)
  with w show "find_locked T k bkt = Some v" by simp
qed

lemma find_placed_None:
  "placed T i bkt \<Longrightarrow> find_locked T k bkt = None \<longleftrightarrow> k \<notin> extract_key T ` elems bkt"
  using find_placed [of i bkt k] by (cases "find_locked T k bkt") force+

text \<open>Lookups depend on the set of elements only.\<close>

lemma find_elems:
  assumes "placed T i bkt" "placed T i bkt'" "elems bkt' = elems bkt"
  shows "find_locked T k bkt' = find_locked T k bkt"
proof -
  have "find_locked T k bkt' = Some v \<longleftrightarrow> find_locked T k bkt = Some v" for v
    using find_placed [OF assms(1)] find_placed [OF assms(2)] assms(3) by simp
  then show ?thesis by (metis option.exhaust)
qed

text \<open>An update of one list that keeps its elements in place.\<close>

lemma placed_update:
  assumes "placed T i bkt" and j: "j < length bkt"
    and "distinct (map (extract_key T) xs)"
    and "\<And>v. v \<in> set xs \<Longrightarrow> hs_index T (extract_key T v) = i \<and> hs_sub T (extract_key T v) (length bkt) = j"
  shows "placed T i (bkt[j := xs])"
  using assms by (auto simp: placed_def nth_list_update)

lemma elems_update:
  assumes "placed T i bkt" and j: "j < length bkt"
  shows "elems (bkt[j := xs]) = {v \<in> elems bkt. hs_sub T (extract_key T v) (length bkt) \<noteq> j} \<union> set xs"
proof (rule set_eqI)
  fix v
  show "v \<in> elems (bkt[j := xs])
      \<longleftrightarrow> v \<in> {v \<in> elems bkt. hs_sub T (extract_key T v) (length bkt) \<noteq> j} \<union> set xs"
    using assms unfolding placed_def mem_elems by (auto simp: nth_list_update)
qed

lemma elems_split:
  assumes "placed T i bkt" "j < length bkt"
  shows "elems bkt = {v \<in> elems bkt. hs_sub T (extract_key T v) (length bkt) \<noteq> j} \<union> set (bkt ! j)"
  using elems_update [OF assms, of "bkt ! j"] by simp

lemma nth_elems: "j < length bkt \<Longrightarrow> v \<in> set (bkt ! j) \<Longrightarrow> v \<in> elems bkt"
  by (auto simp: mem_elems)

lemma placed_distinct: "placed T i bkt \<Longrightarrow> j < length bkt \<Longrightarrow> distinct (map (extract_key T) (bkt ! j))"
  by (simp add: placed_def)

lemma push_placed:
  assumes pl: "placed T i bkt" and i: "hs_index T (extract_key T v) = i"
    and new: "extract_key T v \<notin> extract_key T ` elems bkt"
  shows "placed T i (push_collision T v bkt)"
    and "elems (push_collision T v bkt) = insert v (elems bkt)"
proof -
  let ?j = "hs_sub T (extract_key T v) (length bkt)"
  have j: "?j < length bkt" using pl by (rule placed_sub_less)
  have "extract_key T v \<notin> extract_key T ` set (bkt ! ?j)"
    using new nth_elems [OF j] by blast
  then show "placed T i (push_collision T v bkt)"
    unfolding push_collision_def Let_def using placed_distinct [OF pl j] i placedD [OF pl j]
    by (intro placed_update [OF pl j]) auto
  have "elems (push_collision T v bkt)
      = insert v ({w \<in> elems bkt. hs_sub T (extract_key T w) (length bkt) \<noteq> ?j} \<union> set (bkt ! ?j))"
    by (simp add: push_collision_def Let_def elems_update [OF pl j])
  then show "elems (push_collision T v bkt) = insert v (elems bkt)"
    by (simp only: elems_split [OF pl j, symmetric])
qed

lemma update_first_map:
  "(\<And>x. P x \<Longrightarrow> g (f x) = g x) \<Longrightarrow> map g (update_first P f xs) = map g xs"
  by (induction xs) auto

lemma update_first_set:
  "distinct (map (extract_key T) xs) \<Longrightarrow> w \<in> set xs \<Longrightarrow> extract_key T w = extract_key T v \<Longrightarrow>
    set (update_first (\<lambda>c. extract_key T c = extract_key T v) (\<lambda>c. assign_value T c v) xs)
      = insert v (set xs - {w})"
  by (induction xs) (auto simp: assign_value rev_image_eqI)

lemma assign_placed:
  assumes pl: "placed T i bkt" and w: "w \<in> elems bkt" "extract_key T w = extract_key T v"
  shows "placed T i (assign_collision T v bkt)"
    and "elems (assign_collision T v bkt) = insert v (elems bkt - {w})"
proof -
  let ?j = "hs_sub T (extract_key T v) (length bkt)"
  let ?xs = "update_first (\<lambda>c. extract_key T c = extract_key T v) (\<lambda>c. assign_value T c v) (bkt ! ?j)"
  have j: "?j < length bkt" using pl by (rule placed_sub_less)
  have wj: "w \<in> set (bkt ! ?j)" using placed_elem [OF pl, of w] w by simp
  have set: "set ?xs = insert v (set (bkt ! ?j) - {w})"
    by (rule update_first_set [OF placed_distinct [OF pl j] wj w(2)])
  have keys: "map (extract_key T) ?xs = map (extract_key T) (bkt ! ?j)"
    by (rule update_first_map) (simp add: assign_value)
  have iv: "hs_index T (extract_key T v) = i" using placed_index [OF pl w(1)] w(2) by simp
  show "placed T i (assign_collision T v bkt)"
    unfolding assign_collision_def Let_def equal_keys
  proof (rule placed_update [OF pl j])
    show "distinct (map (extract_key T) ?xs)" using keys placed_distinct [OF pl j] by simp
  next
    fix x
    assume "x \<in> set ?xs"
    then show "hs_index T (extract_key T x) = i \<and> hs_sub T (extract_key T x) (length bkt) = ?j"
      using set iv placedD [OF pl j] by auto
  qed
  have "elems (assign_collision T v bkt)
      = {x \<in> elems bkt. hs_sub T (extract_key T x) (length bkt) \<noteq> ?j} \<union> insert v (set (bkt ! ?j) - {w})"
    by (simp add: assign_collision_def Let_def elems_update [OF pl j] set)
  also have "\<dots> = insert v (({x \<in> elems bkt. hs_sub T (extract_key T x) (length bkt) \<noteq> ?j} \<union> set (bkt ! ?j)) - {w})"
    using w(2) by auto
  finally show "elems (assign_collision T v bkt) = insert v (elems bkt - {w})"
    by (simp only: elems_split [OF pl j, symmetric])
qed

lemma remove_placed:
  assumes pl: "placed T i bkt"
  shows "placed T i (remove_collision T k bkt)"
    and "elems (remove_collision T k bkt) = {v \<in> elems bkt. extract_key T v \<noteq> k}"
    and "length (bkt ! hs_sub T k (length bkt)) \<noteq> length (remove_collision T k bkt ! hs_sub T k (length bkt))
      \<longleftrightarrow> k \<in> extract_key T ` elems bkt"
proof -
  let ?j = "hs_sub T k (length bkt)"
  let ?xs = "filter (\<lambda>c. \<not> equal_value T c k) (bkt ! ?j)"
  have j: "?j < length bkt" using pl by (rule placed_sub_less)
  show "placed T i (remove_collision T k bkt)"
    unfolding remove_collision_def Let_def using placed_distinct [OF pl j] placedD [OF pl j]
    by (intro placed_update [OF pl j] distinct_map_filter) auto
  have "elems (remove_collision T k bkt)
      = {x \<in> elems bkt. hs_sub T (extract_key T x) (length bkt) \<noteq> ?j}
        \<union> {v \<in> set (bkt ! ?j). extract_key T v \<noteq> k}"
    by (simp add: remove_collision_def Let_def elems_update [OF pl j])
  also have "\<dots> = {v \<in> {x \<in> elems bkt. hs_sub T (extract_key T x) (length bkt) \<noteq> ?j} \<union> set (bkt ! ?j).
      extract_key T v \<noteq> k}"
    by auto
  finally show "elems (remove_collision T k bkt) = {v \<in> elems bkt. extract_key T v \<noteq> k}"
    by (simp only: elems_split [OF pl j, symmetric])
  have "length (bkt ! ?j) \<noteq> length ?xs \<longleftrightarrow> (\<exists>c \<in> set (bkt ! ?j). extract_key T c = k)"
    by (simp add: length_filter_neq)
  also have "\<dots> \<longleftrightarrow> k \<in> extract_key T ` elems bkt"
    using placed_elem [OF pl] nth_elems [OF j] by force
  finally show "length (bkt ! ?j) \<noteq> length (remove_collision T k bkt ! ?j)
      \<longleftrightarrow> k \<in> extract_key T ` elems bkt"
    using j by (simp add: remove_collision_def Let_def)
qed

lemma placed_fold:
  assumes "placed T i nb" "distinct (map (extract_key T) vs)"
    and "\<And>v. v \<in> set vs \<Longrightarrow> hs_index T (extract_key T v) = i"
    and "extract_key T ` elems nb \<inter> extract_key T ` set vs = {}"
  shows "placed T i (fold (push_collision T) vs nb)
    \<and> elems (fold (push_collision T) vs nb) = elems nb \<union> set vs
    \<and> length (fold (push_collision T) vs nb) = length nb"
  using assms
proof (induction vs arbitrary: nb)
  case Nil
  then show ?case by simp
next
  case (Cons v vs)
  have new: "extract_key T v \<notin> extract_key T ` elems nb" using Cons.prems(4) by auto
  have iv: "hs_index T (extract_key T v) = i" using Cons.prems(3) by simp
  note p = push_placed [OF Cons.prems(1) iv new]
  have "extract_key T ` elems (push_collision T v nb) \<inter> extract_key T ` set vs = {}"
    using Cons.prems(2,4) by (auto simp: p(2))
  with Cons.prems(2,3) have "placed T i (fold (push_collision T) vs (push_collision T v nb))
    \<and> elems (fold (push_collision T) vs (push_collision T v nb)) = elems (push_collision T v nb) \<union> set vs
    \<and> length (fold (push_collision T) vs (push_collision T v nb)) = length (push_collision T v nb)"
    by (intro Cons.IH [OF p(1)]) auto
  then show ?case by (simp add: p(2)) (simp add: push_collision_def Let_def)
qed

lemma placed_concat_distinct:
  assumes pl: "placed T i bkt"
  shows "distinct (map (extract_key T) (concat bkt))"
proof -
  have "n \<le> length bkt \<Longrightarrow> distinct (map (extract_key T) (concat (take n bkt)))" for n
  proof (induction n)
    case 0
    then show ?case by simp
  next
    case (Suc n)
    have "extract_key T ` set (concat (take n bkt)) \<inter> extract_key T ` set (bkt ! n) = {}"
    proof (rule ccontr)
      assume "\<not> ?thesis"
      then obtain m v w where "m < n" "v \<in> set (bkt ! m)" "w \<in> set (bkt ! n)"
        and e: "extract_key T v = extract_key T w"
        using Suc.prems by (auto simp: nth_image [symmetric])
      with placedD [OF pl, of m v] placedD [OF pl, of n w] Suc.prems show False by simp
    qed
    with Suc placed_distinct [OF pl, of n] show ?case
      by (simp add: take_Suc_conv_app_nth)
  qed
  from this [of "length bkt"] show ?thesis by simp
qed

lemma copy_placed:
  assumes pl: "placed T i bkt" and c: "0 < unat cap"
  shows "placed T i (copy_buckets T cap bkt)"
    and "elems (copy_buckets T cap bkt) = elems bkt"
    and "length (copy_buckets T cap bkt) = unat cap"
proof -
  have "placed T i (replicate (unat cap) [])" using c by (simp add: placed_def)
  moreover have "elems (replicate (unat cap) []) = {}" by (auto simp: mem_elems)
  ultimately have "placed T i (copy_buckets T cap bkt)
    \<and> elems (copy_buckets T cap bkt) = {} \<union> set (concat bkt)
    \<and> length (copy_buckets T cap bkt) = length (replicate (unat cap) [])"
    using placed_fold [OF _ placed_concat_distinct [OF pl], of i "replicate (unat cap) []"] placed_index [OF pl]
    by (simp add: copy_buckets_def elems_def)
  then show "placed T i (copy_buckets T cap bkt)" "elems (copy_buckets T cap bkt) = elems bkt"
    "length (copy_buckets T cap bkt) = unat cap"
    by (simp_all add: elems_def)
qed

end

end
