(* ===== verification/Hash_Concurrent.thy ===== *)
theory Hash_Concurrent
  imports Hash_Storage
begin

text \<open>
  \<open>hash_storage\<close> under any number of threads. Its abstract specification is the atomic map:
  every call takes effect in one step on a map from keys to elements. The proof that every
  execution of the code is one of the atomic map is the invariant that at most one thread resizes
  a bucket, and that a copy that may still be swapped in holds the elements of the bucket.
\<close>

section \<open>The atomic map\<close>

datatype ('v, 'k) am_pc =
  AmIdle | AmEmplace 'v | AmInserted | AmEmplaced bool | AmThrew
| AmObtain 'k | AmObtained "'v option" | AmRemove 'k | AmRemoved

fun am_begin :: "('v, 'k) hs_call \<Rightarrow> ('v, 'k) am_pc" where
  "am_begin (CallEmplace v) = AmEmplace v"
| "am_begin (CallObtain k) = AmObtain k"
| "am_begin (CallRemove k) = AmRemove k"

fun am_step :: "('v \<Rightarrow> 'k) \<Rightarrow> (nat \<Rightarrow> ('v, 'k) hs_call list) \<Rightarrow> ('k \<rightharpoonup> 'v, ('v, 'k) am_pc) thread_step" where
  "am_step key calls t AmIdle m = map (\<lambda>c. (am_begin c, m)) (calls t)"
| "am_step key calls t (AmEmplace v) m =
     (if m (key v) = None
      then [(AmInserted, m(key v \<mapsto> v)), (AmEmplaced True, m(key v \<mapsto> v))]
      else [(AmEmplaced False, m(key v \<mapsto> v))])"
| "am_step key calls t AmInserted m = [(AmEmplaced True, m), (AmThrew, m)]"
| "am_step key calls t (AmObtain k) m = [(AmObtained (m k), m)]"
| "am_step key calls t (AmRemove k) m = [(AmRemoved, m(k := None))]"
| "am_step key calls t p m = [(AmIdle, m)]"

definition am_start :: "('k \<rightharpoonup> 'v, ('v, 'k) am_pc) system \<Rightarrow> bool" where
  "am_start s \<longleftrightarrow> fst s = Map.empty \<and> (\<forall>p \<in> set (snd s). p = AmIdle)"


section \<open>The code as an atomic map\<close>

definition hs_abs :: "('v, 'k) hs_traits \<Rightarrow> 'v hash_storage \<Rightarrow> 'k \<rightharpoonup> 'v" where
  "hs_abs T s k = hs_find T k s"

fun hs_abs_pc :: "('v, 'k) hs_pc \<Rightarrow> ('v, 'k) am_pc" where
  "hs_abs_pc HsIdle = AmIdle"
| "hs_abs_pc (HsEmplace v) = AmEmplace v"
| "hs_abs_pc (HsEmplaced b) = AmEmplaced b"
| "hs_abs_pc HsThrew = AmThrew"
| "hs_abs_pc (HsObtain k) = AmObtain k"
| "hs_abs_pc (HsObtained r) = AmObtained r"
| "hs_abs_pc (HsRemove k) = AmRemove k"
| "hs_abs_pc HsRemoved = AmRemoved"
| "hs_abs_pc p = AmInserted"

text \<open>The thread that has won the flag \<open>resizing\<close> of bucket \<open>i\<close>.\<close>

fun hs_resizes :: "nat \<Rightarrow> ('v, 'k) hs_pc \<Rightarrow> bool" where
  "hs_resizes i (HsCapacity j) = (i = j)"
| "hs_resizes i (HsCopy j c) = (i = j)"
| "hs_resizes i (HsSwap j c nb) = (i = j)"
| "hs_resizes i (HsPublish j c) = (i = j)"
| "hs_resizes i (HsRelease j) = (i = j)"
| "hs_resizes i p = False"

definition bucket_ok :: "('v, 'k) hs_traits \<Rightarrow> nat \<Rightarrow> 'v lockable_bucket \<Rightarrow> bool" where
  "bucket_ok T i b \<longleftrightarrow> placed T i (bucket b) \<and> 0 < unat (capacity b) \<and> unat (capacity b) \<le> max_lists"

definition hs_mem :: "('v, 'k) hs_traits \<Rightarrow> 'v hash_storage \<Rightarrow> bool" where
  "hs_mem T s \<longleftrightarrow> length (hs_storage s) = buckets_count T
     \<and> (\<forall>i < buckets_count T. bucket_ok T i (hs_storage s ! i))
     \<and> hs_size s = of_nat (card (dom (hs_abs T s)))"

fun hs_pc_ok :: "('v, 'k) hs_traits \<Rightarrow> 'v hash_storage \<Rightarrow> ('v, 'k) hs_pc \<Rightarrow> bool" where
  "hs_pc_ok T s (HsResize i) = (i < buckets_count T)"
| "hs_pc_ok T s (HsCapacity i) = (i < buckets_count T)"
| "hs_pc_ok T s (HsCopy i cap) = (i < buckets_count T \<and> 0 < unat cap)"
| "hs_pc_ok T s (HsSwap i cap nb) = (i < buckets_count T \<and> 0 < unat cap \<and> unat cap \<le> max_lists
     \<and> placed T i nb
     \<and> (changed_while_resize (hs_storage s ! i) \<or> elems nb = elems (bucket (hs_storage s ! i))))"
| "hs_pc_ok T s (HsPublish i cap) = (i < buckets_count T \<and> 0 < unat cap \<and> unat cap \<le> max_lists)"
| "hs_pc_ok T s (HsRelease i) = (i < buckets_count T)"
| "hs_pc_ok T s p = True"

definition hs_inv :: "('v, 'k) hs_traits \<Rightarrow> 'v hash_storage \<Rightarrow> ('v, 'k) hs_pc list \<Rightarrow> bool" where
  [inv_defs]: "hs_inv T s ps \<longleftrightarrow> hs_mem T s
     \<and> (\<forall>i < buckets_count T. weight_sum (\<lambda>p. of_bool (hs_resizes i p)) ps
            \<le> of_bool (resizing (hs_storage s ! i)))
     \<and> (\<forall>p \<in> set ps. hs_pc_ok T s p)"

lemma hs_storage_set_bucket [simp]: "hs_storage (hs_set_bucket i b s) = (hs_storage s)[i := b]"
  by (simp add: hs_set_bucket_def)

lemma hs_size_set_bucket [simp]: "hs_size (hs_set_bucket i b s) = hs_size s"
  by (simp add: hs_set_bucket_def)

lemma hs_memD: "hs_mem T s \<Longrightarrow> i < buckets_count T \<Longrightarrow> bucket_ok T i (hs_storage s ! i)"
  by (simp add: hs_mem_def)

lemma hs_mem_size: "hs_mem T s \<Longrightarrow> hs_size s = of_nat (card (dom (hs_abs T s)))"
  by (simp add: hs_mem_def)

lemma hs_mem_length [simp]: "hs_mem T s \<Longrightarrow> length (hs_storage s) = buckets_count T"
  by (simp add: hs_mem_def)

lemma hs_abs_update:
  "hs_storage s' = (hs_storage s)[i := b'] \<Longrightarrow> i < length (hs_storage s) \<Longrightarrow>
    hs_abs T s' k = (if hs_index T k = i then find_locked T k (bucket b') else hs_abs T s k)"
  by (simp add: hs_abs_def hs_find_def hs_bucket_def nth_list_update)

context hash_traits
begin

lemma mem_placed: "hs_mem T s \<Longrightarrow> i < buckets_count T \<Longrightarrow> placed T i (bucket (hs_storage s ! i))"
  using hs_memD [of T s i] by (simp add: bucket_ok_def)

lemma abs_some:
  "hs_mem T s \<Longrightarrow> hs_abs T s k = Some v \<longleftrightarrow>
    v \<in> elems (bucket (hs_bucket T k s)) \<and> extract_key T v = k"
  unfolding hs_abs_def hs_find_def hs_bucket_def by (rule find_placed, rule mem_placed) simp_all

lemma abs_none:
  "hs_mem T s \<Longrightarrow> hs_abs T s k = None \<longleftrightarrow> k \<notin> extract_key T ` elems (bucket (hs_bucket T k s))"
  unfolding hs_abs_def hs_find_def hs_bucket_def by (rule find_placed_None, rule mem_placed) simp_all

lemma finite_dom: "hs_mem T s \<Longrightarrow> finite (dom (hs_abs T s))"
proof -
  assume m: "hs_mem T s"
  have "dom (hs_abs T s) \<subseteq> (\<Union>i < buckets_count T. extract_key T ` elems (bucket (hs_storage s ! i)))"
    using abs_some [OF m] by (fastforce simp: hs_bucket_def)
  then show ?thesis by (rule finite_subset) (simp add: elems_def)
qed

text \<open>An update of one bucket.\<close>

lemma mem_update:
  assumes "hs_mem T s" "i < buckets_count T" "bucket_ok T i b'"
    and "hs_storage s' = (hs_storage s)[i := b']"
    and "hs_size s' = of_nat (card (dom (hs_abs T s')))"
  shows "hs_mem T s'"
  unfolding hs_mem_def
proof (intro conjI allI impI)
  have len: "length (hs_storage s) = buckets_count T" using assms(1) by simp
  then show "length (hs_storage s') = buckets_count T" by (simp only: assms(4) length_list_update)
  show "bucket_ok T j (hs_storage s' ! j)" if "j < buckets_count T" for j
    unfolding assms(4) using assms(2,3) hs_memD [OF assms(1) that] len by (cases "j = i") simp_all
  show "hs_size s' = of_nat (card (dom (hs_abs T s')))" by (fact assms(5))
qed

lemma inv_update:
  assumes inv: "hs_inv T s ps" and t: "t < length ps" and i: "i < buckets_count T"
    and st: "hs_storage s' = (hs_storage s)[i := b']" and mem: "hs_mem T s'"
    and w: "of_bool (hs_resizes i p') + of_bool (resizing (hs_storage s ! i))
      \<le> of_bool (hs_resizes i (ps ! t)) + (of_bool (resizing b') :: nat)"
    and other: "\<And>j. j \<noteq> i \<Longrightarrow> hs_resizes j p' \<Longrightarrow> hs_resizes j (ps ! t)"
    and ok: "hs_pc_ok T s' p'"
    and keep: "changed_while_resize b' \<or> hs_resizes i (ps ! t) \<or>
      bucket b' = bucket (hs_storage s ! i) \<and> changed_while_resize b' = changed_while_resize (hs_storage s ! i)"
  shows "hs_inv T s' (ps[t := p'])"
  unfolding hs_inv_def
proof (intro conjI allI impI ballI)
  show "hs_mem T s'" by (fact mem)
next
  fix j
  assume j: "j < buckets_count T"
  have len: "length (hs_storage s) = buckets_count T" using inv by (simp add: hs_inv_def)
  let ?w = "\<lambda>p. of_bool (hs_resizes j p) :: nat"
  have upd: "weight_sum ?w (ps[t := p']) + ?w (ps ! t) = weight_sum ?w ps + ?w p'"
    using t by (rule weight_sum_update)
  have old: "weight_sum ?w ps \<le> of_bool (resizing (hs_storage s ! j))"
    using inv j by (simp add: hs_inv_def)
  show "weight_sum ?w (ps[t := p']) \<le> of_bool (resizing (hs_storage s' ! j))"
  proof (cases "j = i")
    case True
    with upd old w st i len show ?thesis by simp
  next
    case False
    with other have "?w p' \<le> ?w (ps ! t)" by simp
    moreover have "hs_storage s' ! j = hs_storage s ! j" using st False by simp
    ultimately show ?thesis using upd old by (simp only:)
  qed
next
  fix p
  assume "p \<in> set (ps[t := p'])"
  then obtain u where u: "u < length ps" "ps[t := p'] ! u = p" by (auto simp: in_set_conv_nth)
  show "hs_pc_ok T s' p"
  proof (cases "u = t")
    case True
    with u t ok show ?thesis by simp
  next
    case False
    then have p: "p = ps ! u" using u by simp
    with u inv have ok: "hs_pc_ok T s p" by (simp add: hs_inv_def)
    have len: "length (hs_storage s) = buckets_count T" using inv by (simp add: hs_inv_def)
    have alone: "\<not> hs_resizes i p" if "hs_resizes i (ps ! t)"
    proof -
      have "weight_sum (\<lambda>p. of_bool (hs_resizes i p)) ps \<le> (1::nat)"
        using inv i by (auto simp: hs_inv_def intro: order_trans)
      with weight_sum_members [OF u(1) t False, of "\<lambda>p. of_bool (hs_resizes i p)"] that p
      show ?thesis by auto
    qed
    show ?thesis
    proof (cases p)
      case (HsSwap j cap nb)
      show ?thesis
      proof (cases "j = i")
        case True
        then have "changed_while_resize b' \<or> bucket b' = bucket (hs_storage s ! i)
            \<and> changed_while_resize b' = changed_while_resize (hs_storage s ! i)"
          using alone keep HsSwap by (cases "hs_resizes i (ps ! t)") simp_all
        moreover have "hs_storage s' ! i = b'" using st len i by simp
        ultimately show ?thesis using ok HsSwap True by (elim disjE) simp_all
      next
        case False
        then have "hs_storage s' ! j = hs_storage s ! j" using st by simp
        with ok HsSwap show ?thesis by simp
      qed
    qed (use ok in simp_all)
  qed
qed

text \<open>A step that leaves the memory alone.\<close>

lemma inv_local:
  assumes inv: "hs_inv T s ps" and t: "t < length ps"
    and other: "\<And>j. hs_resizes j p' \<Longrightarrow> hs_resizes j (ps ! t)" and ok: "hs_pc_ok T s p'"
  shows "hs_inv T s (ps[t := p'])"
proof (rule inv_update [OF inv t buckets_pos])
  show "hs_storage s = (hs_storage s)[0 := hs_storage s ! 0]" by simp
  show "hs_mem T s" using inv by (simp add: hs_inv_def)
  show "of_bool (hs_resizes 0 p') + of_bool (resizing (hs_storage s ! 0))
      \<le> of_bool (hs_resizes 0 (ps ! t)) + (of_bool (resizing (hs_storage s ! 0)) :: nat)"
    using other [of 0] by simp
qed (use other ok in simp_all)

text \<open>A step on one bucket that keeps its elements.\<close>

lemma quiet_update:
  assumes mem: "hs_mem T s" and i: "i < buckets_count T"
    and pl: "placed T i (bucket b')" and el: "elems (bucket b') = elems (bucket (hs_storage s ! i))"
    and cap: "0 < unat (capacity b')" "unat (capacity b') \<le> max_lists"
  shows "hs_mem T (hs_set_bucket i b' s)" and "hs_abs T (hs_set_bucket i b' s) = hs_abs T s"
proof -
  have len: "i < length (hs_storage s)" using mem i by simp
  show abs: "hs_abs T (hs_set_bucket i b' s) = hs_abs T s"
  proof
    fix k
    have "find_locked T k (bucket b') = find_locked T k (bucket (hs_storage s ! i))"
      by (rule find_elems [OF mem_placed [OF mem i] pl el])
    then show "hs_abs T (hs_set_bucket i b' s) k = hs_abs T s k"
      using hs_abs_update [OF hs_storage_set_bucket len, of T b' k]
      by (simp add: hs_abs_def hs_find_def hs_bucket_def)
  qed
  show "hs_mem T (hs_set_bucket i b' s)"
    by (rule mem_update [OF mem i _ hs_storage_set_bucket])
      (use pl cap in \<open>simp_all add: bucket_ok_def abs hs_mem_size [OF mem]\<close>)
qed

lemma emplace_spec:
  assumes mem: "hs_mem T s" and e: "emplace_locked T v s = (new, grow, s')"
  shows "hs_abs T s' = (hs_abs T s)(extract_key T v \<mapsto> v)"
    and "hs_mem T s'"
    and "new \<longleftrightarrow> hs_abs T s (extract_key T v) = None" and "grow \<Longrightarrow> new"
    and "\<exists>b'. hs_storage s' = (hs_storage s)[hs_index T (extract_key T v) := b']
      \<and> changed_while_resize b' \<and> resizing b' = resizing (hs_bucket T (extract_key T v) s)"
proof -
  let ?k = "extract_key T v"
  let ?b = "hs_bucket T ?k s"
  let ?i = "hs_index T ?k"
  have len: "?i < length (hs_storage s)" using mem by simp
  have ok: "bucket_ok T ?i ?b" unfolding hs_bucket_def using mem by (rule hs_memD) simp
  then have pl: "placed T ?i (bucket ?b)" by (simp add: bucket_ok_def)
  have found: "find_locked T ?k (bucket ?b) = hs_abs T s ?k" by (simp add: hs_abs_def hs_find_def)
  show new: "new \<longleftrightarrow> hs_abs T s ?k = None" and "grow \<Longrightarrow> new"
    using e by (auto simp: emplace_locked_def Let_def found split: if_splits)
  show b': "\<exists>b'. hs_storage s' = (hs_storage s)[?i := b']
      \<and> changed_while_resize b' \<and> resizing b' = resizing ?b"
    using e by (auto simp: emplace_locked_def Let_def split: if_splits)
  define nb where "nb = (if new then push_collision T v (bucket ?b) else assign_collision T v (bucket ?b))"
  have st: "\<exists>b'. hs_storage s' = (hs_storage s)[?i := b'] \<and> bucket b' = nb \<and> capacity b' = capacity ?b"
    using e by (auto simp: emplace_locked_def Let_def nb_def split: if_splits)
  have nb: "placed T ?i nb" "elems nb = insert v {w \<in> elems (bucket ?b). extract_key T w \<noteq> ?k}"
  proof -
    have "placed T ?i nb \<and> elems nb = insert v {w \<in> elems (bucket ?b). extract_key T w \<noteq> ?k}"
    proof (cases new)
      case True
      then have n: "?k \<notin> extract_key T ` elems (bucket ?b)"
        using new abs_none [OF mem] by simp
      then have "{w \<in> elems (bucket ?b). extract_key T w \<noteq> ?k} = elems (bucket ?b)" by (auto simp: image_iff)
      with True push_placed [OF pl refl n] show ?thesis by (simp add: nb_def)
    next
      case False
      then obtain w where "hs_abs T s ?k = Some w" using new by auto
      then have w: "w \<in> elems (bucket ?b)" "extract_key T w = ?k" using abs_some [OF mem] by simp_all
      then have "{x \<in> elems (bucket ?b). extract_key T x \<noteq> ?k} = elems (bucket ?b) - {w}"
        using placed_unique [OF pl] by auto
      with False assign_placed [OF pl w] show ?thesis by (simp add: nb_def)
    qed
    then show "placed T ?i nb" "elems nb = insert v {w \<in> elems (bucket ?b). extract_key T w \<noteq> ?k}"
      by simp_all
  qed
  from st obtain b' where st: "hs_storage s' = (hs_storage s)[?i := b']" "bucket b' = nb"
    "capacity b' = capacity ?b" by blast
  show abs: "hs_abs T s' = (hs_abs T s)(?k \<mapsto> v)"
  proof
    fix k
    show "hs_abs T s' k = ((hs_abs T s)(?k \<mapsto> v)) k"
    proof (cases "hs_index T k = ?i")
      case True
      have "find_locked T k nb = ((hs_abs T s)(?k \<mapsto> v)) k"
      proof (cases "k = ?k")
        case True
        then show ?thesis using find_placed [OF nb(1), of k v] nb(2) by simp
      next
        case False
        have "hs_bucket T k s = ?b" using True by (simp add: hs_bucket_def)
        then have "find_locked T k nb = Some w \<longleftrightarrow> hs_abs T s k = Some w" for w
          using find_placed [OF nb(1), of k w] nb(2) abs_some [OF mem, of k w] False by auto
        with False show ?thesis by (metis fun_upd_other option.exhaust)
      qed
      with True st hs_abs_update [OF st(1) len, of T k] show ?thesis by simp
    next
      case False
      with hs_abs_update [OF st(1) len, of T k] show ?thesis by auto
    qed
  qed
  have size: "hs_size s' = hs_size s + of_bool new"
    using e by (auto simp: emplace_locked_def Let_def split: if_splits)
  have "hs_size s = of_nat (card (dom (hs_abs T s)))" using mem by (rule hs_mem_size)
  then have "hs_size s' = of_nat (card (dom (hs_abs T s')))"
    using size new finite_dom [OF mem] by (cases new) (auto simp: abs domIff insert_absorb)
  with ok st nb show "hs_mem T s'"
    by (intro mem_update [OF mem _ _ st(1)]) (simp_all add: bucket_ok_def)
qed

lemma remove_spec:
  assumes mem: "hs_mem T s"
  shows "hs_abs T (hs_remove T k s) = (hs_abs T s)(k := None)"
    and "hs_mem T (hs_remove T k s)"
    and "\<exists>b'. hs_storage (hs_remove T k s) = (hs_storage s)[hs_index T k := b']
      \<and> changed_while_resize b' \<and> resizing b' = resizing (hs_bucket T k s)"
proof -
  let ?b = "hs_bucket T k s"
  let ?i = "hs_index T k"
  let ?nb = "remove_collision T k (bucket ?b)"
  let ?s = "hs_remove T k s"
  have len: "?i < length (hs_storage s)" using mem by simp
  have ok: "bucket_ok T ?i ?b" unfolding hs_bucket_def using mem by (rule hs_memD) simp
  then have pl: "placed T ?i (bucket ?b)" by (simp add: bucket_ok_def)
  note rm = remove_placed [OF pl, of k]
  have st: "hs_storage ?s = (hs_storage s)[?i := ?b\<lparr>bucket := ?nb, changed_while_resize := True\<rparr>]"
    by (simp add: hs_remove_def Let_def)
  then show "\<exists>b'. hs_storage ?s = (hs_storage s)[?i := b']
      \<and> changed_while_resize b' \<and> resizing b' = resizing ?b"
    by (intro exI conjI) (assumption, simp_all)
  show abs: "hs_abs T ?s = (hs_abs T s)(k := None)"
  proof
    fix k'
    show "hs_abs T ?s k' = ((hs_abs T s)(k := None)) k'"
    proof (cases "hs_index T k' = ?i")
      case True
      have "hs_bucket T k' s = ?b" using True by (simp add: hs_bucket_def)
      then have "find_locked T k' ?nb = Some w \<longleftrightarrow> ((hs_abs T s)(k := None)) k' = Some w" for w
        using find_placed [OF rm(1), of k' w] rm(2) abs_some [OF mem, of k' w] by auto
      then have "find_locked T k' ?nb = ((hs_abs T s)(k := None)) k'" by (metis option.exhaust)
      with True hs_abs_update [OF st len, of T k'] show ?thesis by simp
    next
      case False
      with hs_abs_update [OF st len, of T k'] show ?thesis by auto
    qed
  qed
  have gone: "length (bucket ?b ! hs_sub T k (length (bucket ?b))) \<noteq> length (?nb ! hs_sub T k (length (bucket ?b)))
      \<longleftrightarrow> k \<in> dom (hs_abs T s)"
    unfolding rm(3) using abs_none [OF mem, of k] by (simp add: domIff)
  have size: "hs_size ?s = (if k \<in> dom (hs_abs T s) then hs_size s - 1 else hs_size s)"
    unfolding hs_remove_def Let_def gone by simp
  have m: "hs_size s = of_nat (card (dom (hs_abs T s)))" using mem by (rule hs_mem_size)
  have "hs_size ?s = of_nat (card (dom (hs_abs T ?s)))"
  proof (cases "k \<in> dom (hs_abs T s)")
    case True
    then have "0 < card (dom (hs_abs T s))" using finite_dom [OF mem] by (auto simp: card_gt_0_iff)
    then show ?thesis
      using size m True finite_dom [OF mem] by (simp add: abs of_nat_diff Suc_leI)
  next
    case False
    then show ?thesis using size m by (simp add: abs)
  qed
  with ok st rm(1) show "hs_mem T ?s"
    by (intro mem_update [OF mem _ _ st]) (simp_all add: bucket_ok_def)
qed

text \<open>The steps of \<open>resize\<close> keep the map.\<close>

lemma grown_pos:
  assumes "0 < unat c" "unat c \<le> max_lists"
  shows "0 < unat (c * resize_factor T)"
proof -
  have "unat c * unat (resize_factor T) \<le> max_lists * 16"
    using assms(2) factor(2) by (rule mult_le_mono)
  also have "\<dots> < 2 ^ LENGTH(64)" by (simp add: max_lists_def)
  finally have "unat (c * resize_factor T) = unat c * unat (resize_factor T)"
    by (rule unat_mult_no_wrap)
  then show ?thesis using assms(1) factor(1) by simp
qed

lemma quiet_step:
  assumes inv: "hs_inv T s ps" and t: "t < length ps" and i: "i < buckets_count T"
    and same: "bucket b' = bucket (hs_storage s ! i)" and cap: "0 < unat (capacity b')" "unat (capacity b') \<le> max_lists"
    and w: "of_bool (hs_resizes i p') + of_bool (resizing (hs_storage s ! i))
      \<le> of_bool (hs_resizes i (ps ! t)) + (of_bool (resizing b') :: nat)"
    and other: "\<And>j. j \<noteq> i \<Longrightarrow> hs_resizes j p' \<Longrightarrow> hs_resizes j (ps ! t)"
    and ok: "hs_pc_ok T (hs_set_bucket i b' s) p'"
    and keep: "hs_resizes i (ps ! t) \<or> changed_while_resize b' = changed_while_resize (hs_storage s ! i)"
  shows "hs_inv T (hs_set_bucket i b' s) (ps[t := p']) \<and> hs_abs T (hs_set_bucket i b' s) = hs_abs T s"
proof -
  have mem: "hs_mem T s" using inv by (simp add: hs_inv_def)
  have pl: "placed T i (bucket b')" using mem_placed [OF mem i] same by simp
  note q = quiet_update [OF mem i pl _ cap, unfolded same, OF refl]
  show ?thesis
    using inv_update [OF inv t i hs_storage_set_bucket q(1) w other ok] keep same q(2) by blast
qed

lemma resize_keeps:
  assumes inv: "hs_inv T s ps" and t: "t < length ps"
    and mv: "resize_move T (ps ! t) s = (p', s')"
  shows "hs_inv T s' (ps[t := p']) \<and> hs_abs T s' = hs_abs T s"
proof -
  have mem: "hs_mem T s" using inv by (simp add: hs_inv_def)
  have ok: "hs_pc_ok T s (ps ! t)" using inv t by (simp add: hs_inv_def)
  have cap: "0 < unat (capacity (hs_storage s ! i)) \<and> unat (capacity (hs_storage s ! i)) \<le> max_lists"
    if "i < buckets_count T" for i
    using hs_memD [OF mem that] by (simp add: bucket_ok_def)
  have stay: ?thesis if "s' = s" "p' = ps ! t"
    using that inv t by simp
  show ?thesis
  proof (cases "ps ! t")
    case (HsResize i)
    show ?thesis
    proof (cases "resizing (hs_storage s ! i)")
      case True
      then show ?thesis using mv HsResize inv_local [OF inv t, of "HsEmplaced True"] by auto
    next
      case False
      have i: "i < buckets_count T" using ok HsResize by simp
      show ?thesis using mv HsResize False i cap [OF i]
          quiet_step [OF inv t i, of "(hs_storage s ! i)\<lparr>resizing := True\<rparr>" "HsCapacity i"] by auto
    qed
  next
    case (HsCapacity i)
    have i: "i < buckets_count T" using ok HsCapacity by simp
    then show ?thesis
      using mv HsCapacity grown_pos cap [OF i]
        inv_local [OF inv t, of "HsCopy i (capacity (hs_storage s ! i) * resize_factor T)"] by auto
  next
    case (HsCopy i c)
    have i: "i < buckets_count T" and c: "0 < unat c" using ok HsCopy by simp_all
    show ?thesis
    proof (cases "max_lists < unat c")
      case True
      then show ?thesis using mv HsCopy inv_local [OF inv t, of HsThrew] by auto
    next
      case False
      have len: "i < length (hs_storage s)" using i mem by simp
      show ?thesis using mv HsCopy False c i len copy_placed [OF mem_placed [OF mem i] c] cap [OF i]
          quiet_step [OF inv t i, of "(hs_storage s ! i)\<lparr>changed_while_resize := False\<rparr>"
            "HsSwap i c (copy_buckets T c (bucket (hs_storage s ! i)))"] by auto
    qed
  next
    case (HsSwap i c nb)
    have i: "i < buckets_count T" and c: "0 < unat c" "unat c \<le> max_lists" and pl: "placed T i nb"
      and eq: "changed_while_resize (hs_storage s ! i) \<or> elems nb = elems (bucket (hs_storage s ! i))"
      using ok HsSwap by simp_all
    show ?thesis
    proof (cases "changed_while_resize (hs_storage s ! i)")
      case True
      then show ?thesis using mv HsSwap c i inv_local [OF inv t, of "HsCopy i c"] by auto
    next
      case False
      let ?b = "(hs_storage s ! i)\<lparr>bucket := nb\<rparr>"
      have s': "s' = hs_set_bucket i ?b s" "p' = HsPublish i c" using mv HsSwap False by auto
      have q: "hs_mem T (hs_set_bucket i ?b s) \<and> hs_abs T (hs_set_bucket i ?b s) = hs_abs T s"
        using quiet_update [OF mem i, of ?b] pl eq False cap [OF i] by simp
      show ?thesis unfolding s'
        using q inv_update [OF inv t i hs_storage_set_bucket, of ?b "HsPublish i c"] HsSwap c i by simp
    qed
  next
    case (HsPublish i c)
    have i: "i < buckets_count T" and c: "0 < unat c" "unat c \<le> max_lists"
      using ok HsPublish by simp_all
    show ?thesis using mv HsPublish i c
        quiet_step [OF inv t i, of "(hs_storage s ! i)\<lparr>capacity := c\<rparr>" "HsRelease i"] by auto
  next
    case (HsRelease i)
    have i: "i < buckets_count T" using ok HsRelease by simp
    show ?thesis using mv HsRelease i cap [OF i]
        quiet_step [OF inv t i, of "(hs_storage s ! i)\<lparr>resizing := False\<rparr>" "HsEmplaced True"] by auto
  qed (use mv stay in auto)
qed

text \<open>One step of a call, and what it is for the atomic map.\<close>

lemma move_spec:
  assumes inv: "hs_inv T s ps" and t: "t < length ps"
    and mv: "hs_move T (ps ! t) s = (p', s')"
  shows "hs_inv T s' (ps[t := p'])"
    and "\<not> hs_done (ps ! t) \<Longrightarrow> ps ! t \<noteq> HsIdle \<Longrightarrow>
      (hs_abs_pc p', hs_abs T s') = (hs_abs_pc (ps ! t), hs_abs T s)
      \<or> (hs_abs_pc p', hs_abs T s') \<in> set (am_step (extract_key T) calls t (hs_abs_pc (ps ! t)) (hs_abs T s))"
proof -
  have mem: "hs_mem T s" using inv by (simp add: hs_inv_def)
  have "hs_inv T s' (ps[t := p']) \<and> (\<not> hs_done (ps ! t) \<longrightarrow> ps ! t \<noteq> HsIdle \<longrightarrow>
      (hs_abs_pc p', hs_abs T s') = (hs_abs_pc (ps ! t), hs_abs T s)
      \<or> (hs_abs_pc p', hs_abs T s') \<in> set (am_step (extract_key T) calls t (hs_abs_pc (ps ! t)) (hs_abs T s)))"
  proof (cases "ps ! t")
    case (HsEmplace v)
    obtain new grow s1 where e: "emplace_locked T v s = (new, grow, s1)" by (cases "emplace_locked T v s")
    note em = emplace_spec [OF mem e]
    let ?i = "hs_index T (extract_key T v)"
    have p': "s' = s1" "p' = (if grow then HsResize ?i else HsEmplaced new)"
      using mv e HsEmplace by simp_all
    obtain b' where b': "hs_storage s' = (hs_storage s)[?i := b']" "changed_while_resize b'"
      "resizing b' = resizing (hs_storage s ! ?i)"
      using em(5) p'(1) by (auto simp: hs_bucket_def)
    have pc: "\<not> hs_resizes j p'" "hs_pc_ok T s' p'" for j using p'(2) by (cases grow; simp)+
    have "hs_inv T s' (ps[t := p'])"
      by (rule inv_update [OF inv t index_less b'(1)]) (use em(2) b' p'(1) pc HsEmplace in simp_all)
    moreover have "(hs_abs_pc p', hs_abs T s') \<in> set (am_step (extract_key T) calls t (hs_abs_pc (ps ! t)) (hs_abs T s))"
      using em(1,3,4) p' HsEmplace by auto
    ultimately show ?thesis by blast
  next
    case (HsObtain k)
    then show ?thesis using mv inv_local [OF inv t, of "HsObtained (hs_find T k s)"] by (auto simp: hs_abs_def)
  next
    case (HsRemove k)
    have s': "s' = hs_remove T k s" "p' = HsRemoved" using mv HsRemove by simp_all
    note rm = remove_spec [OF mem, of k, folded s'(1)]
    obtain b' where b': "hs_storage s' = (hs_storage s)[hs_index T k := b']" "changed_while_resize b'"
      "resizing b' = resizing (hs_storage s ! hs_index T k)"
      using rm(3) by (auto simp: hs_bucket_def)
    have "hs_inv T s' (ps[t := p'])"
      using inv_update [OF inv t index_less b'(1), of p'] rm(2) b' s' HsRemove by simp
    then show ?thesis using rm(1) s'(2) HsRemove by simp
  qed (use resize_keeps [OF inv t] mv in \<open>auto split: if_splits\<close>)
  then show "hs_inv T s' (ps[t := p'])"
    and "\<not> hs_done (ps ! t) \<Longrightarrow> ps ! t \<noteq> HsIdle \<Longrightarrow>
      (hs_abs_pc p', hs_abs T s') = (hs_abs_pc (ps ! t), hs_abs T s)
      \<or> (hs_abs_pc p', hs_abs T s') \<in> set (am_step (extract_key T) calls t (hs_abs_pc (ps ! t)) (hs_abs T s))"
    by simp_all
qed

lemma begin_pc: "\<not> hs_resizes j (hs_begin c)" "hs_pc_ok T s (hs_begin c)" "hs_abs_pc (hs_begin c) = am_begin c"
  by (cases c; simp)+

lemma step_spec:
  assumes inv: "hs_inv T s ps" and t: "t < length ps" and st: "(p', s') \<in> set (hs_step T calls t (ps ! t) s)"
  shows "hs_inv T s' (ps[t := p'])"
    and "(hs_abs_pc p', hs_abs T s') = (hs_abs_pc (ps ! t), hs_abs T s)
      \<or> (hs_abs_pc p', hs_abs T s') \<in> set (am_step (extract_key T) calls t (hs_abs_pc (ps ! t)) (hs_abs T s))"
proof -
  consider "ps ! t = HsIdle" | "ps ! t \<noteq> HsIdle" "hs_done (ps ! t)" | "ps ! t \<noteq> HsIdle" "\<not> hs_done (ps ! t)"
    by blast
  then have "hs_inv T s' (ps[t := p']) \<and> ((hs_abs_pc p', hs_abs T s') = (hs_abs_pc (ps ! t), hs_abs T s)
      \<or> (hs_abs_pc p', hs_abs T s') \<in> set (am_step (extract_key T) calls t (hs_abs_pc (ps ! t)) (hs_abs T s)))"
  proof cases
    case 1
    then obtain c where c: "c \<in> set (calls t)" "p' = hs_begin c" "s' = s"
      using st by (auto simp: hs_step_def)
    then show ?thesis using 1 inv_local [OF inv t, of p'] begin_pc by auto
  next
    case 2
    then have "p' = HsIdle" "s' = s" using st by (simp_all add: hs_step_def)
    then show ?thesis using 2 inv_local [OF inv t, of p'] by (cases "ps ! t") auto
  next
    case 3
    then have "hs_move T (ps ! t) s = (p', s')" using st by (simp add: hs_step_def)
    then show ?thesis using move_spec [OF inv t] 3 by blast
  qed
  then show "hs_inv T s' (ps[t := p'])"
    and "(hs_abs_pc p', hs_abs T s') = (hs_abs_pc (ps ! t), hs_abs T s)
      \<or> (hs_abs_pc p', hs_abs T s') \<in> set (am_step (extract_key T) calls t (hs_abs_pc (ps ! t)) (hs_abs T s))"
    by simp_all
qed

lemma init_abs: "hs_abs T (hs_init T) = Map.empty"
  by (rule ext)
    (simp add: hs_abs_def hs_find_def hs_bucket_def hs_init_def bucket_init_def find_locked_def hs_sub_def)

lemma init_mem: "hs_mem T (hs_init T)"
  unfolding hs_mem_def init_abs
  by (simp add: hs_init_def bucket_init_def bucket_ok_def placed_def max_lists_def)

lemma init_inv: "\<forall>p \<in> set ps. p = HsIdle \<Longrightarrow> hs_inv T (hs_init T) ps"
  by (auto simp: hs_inv_def init_mem weight_sum_zero)
    (metis (mono_tags, lifting) hs_resizes.simps(6) of_bool_eq(1) weight_sum_zero zero_le)

lemma code_is_atomic_map:
  "simulation (hs_step T calls) (hs_start T) (hs_inv T) (am_step (extract_key T) calls) am_start (hs_abs T) hs_abs_pc"
proof
  fix s ps
  assume "hs_start T (s, ps)"
  then show "hs_inv T s ps" and "am_start (hs_abs T s, map hs_abs_pc ps)"
    by (auto simp: hs_start_def am_start_def init_inv init_abs)
qed (fact step_spec)+

end


section \<open>Calls that do not overlap\<close>

text \<open>One call run alone: seven steps are enough, with a resize.\<close>

definition hs_alone :: "('v, 'k) hs_traits \<Rightarrow> ('v, 'k) hs_call \<Rightarrow> 'v hash_storage \<Rightarrow>
  (('v, 'k) hs_pc \<times> 'v hash_storage) option"
where
  "hs_alone T c s = run_alone (hs_move T) hs_done 7 (hs_begin c) s"

text \<open>No resize is under way, and the capacity follows the count of all elements ever inserted.\<close>

definition hs_rest :: "('v, 'k) hs_traits \<Rightarrow> 'v hash_storage \<Rightarrow> bool" where
  "hs_rest T s \<longleftrightarrow> hs_mem T s \<and> (\<forall>b \<in> set (hs_storage s). \<not> resizing b
     \<and> length (bucket b) = unat (capacity b)
     \<and> unat (capacity b) \<le> unat (bucket_size b) * unat (resize_factor T) * unat (resize_factor T))"

definition hs_load :: "'v hash_storage \<Rightarrow> nat" where
  "hs_load s = sum_list (map (\<lambda>b. unat (bucket_size b)) (hs_storage s))"

context hash_traits
begin

lemma rest_bucket:
  assumes "hs_rest T s" "i < buckets_count T"
  shows "\<not> resizing (hs_storage s ! i)
    \<and> length (bucket (hs_storage s ! i)) = unat (capacity (hs_storage s ! i))
    \<and> unat (capacity (hs_storage s ! i)) \<le> unat (bucket_size (hs_storage s ! i)) * unat (resize_factor T) * unat (resize_factor T)"
proof -
  have "hs_mem T s" using assms(1) by (simp add: hs_rest_def)
  then have "hs_storage s ! i \<in> set (hs_storage s)" using assms(2) by simp
  with assms(1) show ?thesis unfolding hs_rest_def by blast
qed

lemma load_bucket: "b \<in> set (hs_storage s) \<Longrightarrow> unat (bucket_size b) \<le> hs_load s"
  by (simp add: hs_load_def member_le_sum_list)

lemma load_update:
  "i < length (hs_storage s) \<Longrightarrow> hs_storage s' = (hs_storage s)[i := b'] \<Longrightarrow>
    hs_load s' + unat (bucket_size (hs_storage s ! i)) = hs_load s + unat (bucket_size b')"
proof -
  assume i: "i < length (hs_storage s)" and st: "hs_storage s' = (hs_storage s)[i := b']"
  have "unat (bucket_size (hs_storage s ! i)) \<le> hs_load s" using i by (intro load_bucket nth_mem)
  then show ?thesis using i st
    by (simp add: hs_load_def map_update sum_list_update)
qed

lemma rest_update:
  assumes "hs_rest T s" "hs_storage s' = (hs_storage s)[i := b']" "hs_mem T s'"
    and "\<not> resizing b'" "length (bucket b') = unat (capacity b')"
    and "unat (capacity b') \<le> unat (bucket_size b') * unat (resize_factor T) * unat (resize_factor T)"
  shows "hs_rest T s'"
proof -
  have "set (hs_storage s') \<subseteq> insert b' (set (hs_storage s))"
    using assms(2) by (simp add: set_update_subset_insert)
  with assms show ?thesis unfolding hs_rest_def by blast
qed

lemma resize_alone:
  assumes mem: "hs_mem T s" and i: "i < buckets_count T" and free: "\<not> resizing (hs_storage s ! i)"
    and c: "c = capacity (hs_storage s ! i) * resize_factor T" "unat c \<le> max_lists"
  shows "run_alone (hs_move T) hs_done 6 (HsResize i) s =
    Some (HsEmplaced True, hs_set_bucket i ((hs_storage s ! i)\<lparr>changed_while_resize := False,
      bucket := copy_buckets T c (bucket (hs_storage s ! i)), capacity := c, resizing := False\<rparr>) s)"
proof -
  have len: "i < length (hs_storage s)" using mem i by simp
  then show ?thesis using free c
    by (simp add: run_alone_unfold hs_set_bucket_def)
qed

text \<open>\<open>emplace\<close> without a resize, in terms of its bucket.\<close>

lemma emplace_bucket:
  assumes "emplace_locked T v s = (new, grow, s')"
  shows "\<exists>b'. hs_storage s' = (hs_storage s)[hs_index T (extract_key T v) := b']
    \<and> resizing b' = resizing (hs_bucket T (extract_key T v) s)
    \<and> capacity b' = capacity (hs_bucket T (extract_key T v) s)
    \<and> length (bucket b') = length (bucket (hs_bucket T (extract_key T v) s))
    \<and> bucket_size b' = bucket_size (hs_bucket T (extract_key T v) s) + of_bool new
    \<and> (grow \<longleftrightarrow> new \<and> capacity b' < bucket_size b' * resize_factor T)"
  using assms
  by (auto simp: emplace_locked_def Let_def push_collision_def assign_collision_def split: if_splits)

lemma emplace_alone:
  assumes rest: "hs_rest T s" and room: "hs_load s < 2 ^ 50"
  obtains s' where "hs_alone T (CallEmplace v) s = Some (HsEmplaced (hs_abs T s (extract_key T v) = None), s')"
    and "hs_rest T s'" "hs_abs T s' = (hs_abs T s)(extract_key T v \<mapsto> v)" "hs_load s' \<le> Suc (hs_load s)"
    and "hs_abs T s (extract_key T v) = None \<Longrightarrow>
      unat (bucket_size (hs_bucket T (extract_key T v) s')) = Suc (unat (bucket_size (hs_bucket T (extract_key T v) s)))
      \<and> unat (capacity (hs_bucket T (extract_key T v) s')) =
         (if unat (capacity (hs_bucket T (extract_key T v) s))
               < Suc (unat (bucket_size (hs_bucket T (extract_key T v) s))) * unat (resize_factor T)
          then unat (capacity (hs_bucket T (extract_key T v) s)) * unat (resize_factor T)
          else unat (capacity (hs_bucket T (extract_key T v) s)))"
proof -
  let ?k = "extract_key T v"
  let ?i = "hs_index T ?k"
  let ?b = "hs_bucket T ?k s"
  have mem: "hs_mem T s" using rest by (simp add: hs_rest_def)
  have len: "?i < length (hs_storage s)" using mem by simp
  obtain new grow s1 where e: "emplace_locked T v s = (new, grow, s1)" by (cases "emplace_locked T v s")
  note em = emplace_spec [OF mem e]
  obtain b1 where b1: "hs_storage s1 = (hs_storage s)[?i := b1]" "resizing b1 = resizing ?b"
    "capacity b1 = capacity ?b" "length (bucket b1) = length (bucket ?b)"
    "bucket_size b1 = bucket_size ?b + of_bool new" "grow \<longleftrightarrow> new \<and> capacity b1 < bucket_size b1 * resize_factor T"
    using emplace_bucket [OF e] by (elim exE conjE) (rule that)
  have old: "\<not> resizing ?b \<and> length (bucket ?b) = unat (capacity ?b)
      \<and> unat (capacity ?b) \<le> unat (bucket_size ?b) * unat (resize_factor T) * unat (resize_factor T)"
    using rest_bucket [OF rest index_less [of ?k]] by (simp add: hs_bucket_def)
  have sz: "unat (bucket_size ?b) < 2 ^ 50"
    using load_bucket [of ?b s] room len by (simp add: hs_bucket_def)
  then have sz1: "unat (bucket_size b1) = unat (bucket_size ?b) + of_bool new"
    using b1(5) by (cases new) (simp_all add: unat_add_no_wrap)
  have small: "unat (bucket_size b1) * unat (resize_factor T) \<le> 2 ^ 50 * 16"
    using sz sz1 factor(2) by (intro mult_le_mono) (cases new; simp)+
  then have wide: "unat (bucket_size b1 * resize_factor T) = unat (bucket_size b1) * unat (resize_factor T)"
    by (intro unat_mult_no_wrap) simp
  have load1: "hs_load s1 \<le> Suc (hs_load s)"
    using load_update [OF len b1(1)] sz1 by (cases new) (simp_all add: hs_bucket_def)
  have rest1: "hs_rest T s1"
  proof (rule rest_update [OF rest b1(1) em(2)])
    have "unat (capacity ?b) \<le> unat (bucket_size ?b) * unat (resize_factor T) * unat (resize_factor T)"
      using old by blast
    also have "\<dots> \<le> unat (bucket_size b1) * unat (resize_factor T) * unat (resize_factor T)"
      by (intro mult_le_mono) (simp_all add: sz1)
    finally show "unat (capacity b1) \<le> unat (bucket_size b1) * unat (resize_factor T) * unat (resize_factor T)"
      by (simp only: b1(3))
  qed (use old b1 in simp_all)
  have at1: "hs_storage s1 ! ?i = b1" using b1(1) len by simp
  have run: "hs_alone T (CallEmplace v) s = run_alone (hs_move T) hs_done 6 (if grow then HsResize ?i else HsEmplaced new) s1"
    by (simp add: hs_alone_def run_alone_numeral e)
  show thesis
  proof (cases grow)
    case False
    show thesis
    proof (rule that [OF _ rest1 em(1) load1])
      show "hs_alone T (CallEmplace v) s = Some (HsEmplaced (hs_abs T s ?k = None), s1)"
        using run False em(3) by simp
      assume "hs_abs T s ?k = None"
      then have new using em(3) by simp
      then have "\<not> unat (capacity ?b) < Suc (unat (bucket_size ?b)) * unat (resize_factor T)"
        using False b1(3,6) sz1 wide by (simp add: word_less_nat_alt)
      then show "unat (bucket_size (hs_bucket T ?k s1)) = Suc (unat (bucket_size ?b))
        \<and> unat (capacity (hs_bucket T ?k s1)) = (if unat (capacity ?b) < Suc (unat (bucket_size ?b)) * unat (resize_factor T)
          then unat (capacity ?b) * unat (resize_factor T) else unat (capacity ?b))"
        using \<open>new\<close> sz1 at1 b1(3) by (simp only: if_False) (simp add: hs_bucket_def)
    qed
  next
    case True
    then have new: "hs_abs T s ?k = None" "new" using em(3,4) by simp_all
    define c where "c = capacity b1 * resize_factor T"
    have lt: "unat (capacity b1) < unat (bucket_size b1) * unat (resize_factor T)"
      using True b1(6) wide by (simp add: word_less_nat_alt)
    then have le: "unat (capacity b1) * unat (resize_factor T)
        \<le> unat (bucket_size b1) * unat (resize_factor T) * unat (resize_factor T)"
      by (intro mult_le_mono) simp_all
    also have "\<dots> \<le> 2 ^ 50 * 16 * 16" by (rule mult_le_mono [OF small factor(2)])
    finally have bound: "unat (capacity b1) * unat (resize_factor T) \<le> 2 ^ 50 * 16 * 16" .
    then have c: "unat c = unat (capacity b1) * unat (resize_factor T)"
      unfolding c_def by (intro unat_mult_no_wrap) simp
    with bound have max: "unat c \<le> max_lists" by (simp add: max_lists_def)
    have pos: "0 < unat c"
      using hs_memD [OF em(2) index_less, of ?k] factor(1) c at1 by (simp add: bucket_ok_def)
    let ?b2 = "b1\<lparr>changed_while_resize := False, bucket := copy_buckets T c (bucket b1),
      capacity := c, resizing := False\<rparr>"
    let ?s2 = "hs_set_bucket ?i ?b2 s1"
    have ra: "hs_alone T (CallEmplace v) s = Some (HsEmplaced True, ?s2)"
      using run True resize_alone [OF em(2) index_less, of ?k c] rest_bucket [OF rest1 index_less, of ?k] at1 max
      by (simp add: c_def)
    note cp = copy_placed [OF mem_placed [OF em(2) index_less] pos, of ?k, unfolded at1]
    have q: "hs_mem T ?s2 \<and> hs_abs T ?s2 = hs_abs T s1"
      using quiet_update [OF em(2) index_less, of ?k ?b2] cp at1 pos max by simp
    have rest2: "hs_rest T ?s2"
      by (rule rest_update [OF rest1 hs_storage_set_bucket]) (use q cp(3) le c in simp_all)
    have len1: "?i < length (hs_storage s1)" using len b1(1) by simp
    have load2: "hs_load ?s2 \<le> Suc (hs_load s)"
      using load_update [OF len1 hs_storage_set_bucket, of ?b2] at1 load1 by simp
    have at2: "hs_bucket T ?k ?s2 = ?b2" using len1 by (simp add: hs_bucket_def)
    have abs2: "hs_abs T ?s2 = (hs_abs T s)(?k \<mapsto> v)" using q em(1) by simp
    show thesis
    proof (rule that [OF _ rest2 abs2 load2])
      show "hs_alone T (CallEmplace v) s = Some (HsEmplaced (hs_abs T s ?k = None), ?s2)"
        using ra new by simp
      show "unat (bucket_size (hs_bucket T ?k ?s2)) = Suc (unat (bucket_size ?b))
        \<and> unat (capacity (hs_bucket T ?k ?s2)) = (if unat (capacity ?b) < Suc (unat (bucket_size ?b)) * unat (resize_factor T)
          then unat (capacity ?b) * unat (resize_factor T) else unat (capacity ?b))"
        unfolding at2 using new sz1 lt c b1(3) by simp
    qed
  qed
qed

lemma remove_alone:
  assumes rest: "hs_rest T s"
  shows "hs_alone T (CallRemove k) s = Some (HsRemoved, hs_remove T k s)"
    and "hs_rest T (hs_remove T k s)" and "hs_load (hs_remove T k s) = hs_load s"
    and "bucket_size (hs_bucket T k (hs_remove T k s)) = bucket_size (hs_bucket T k s)"
    and "capacity (hs_bucket T k (hs_remove T k s)) = capacity (hs_bucket T k s)"
proof -
  let ?b = "hs_bucket T k s"
  let ?b' = "?b\<lparr>bucket := remove_collision T k (bucket ?b), changed_while_resize := True\<rparr>"
  have mem: "hs_mem T s" using rest by (simp add: hs_rest_def)
  have len: "hs_index T k < length (hs_storage s)" using mem by simp
  have st: "hs_storage (hs_remove T k s) = (hs_storage s)[hs_index T k := ?b']"
    by (simp add: hs_remove_def Let_def)
  show "hs_alone T (CallRemove k) s = Some (HsRemoved, hs_remove T k s)"
    by (simp add: hs_alone_def run_alone_numeral)
  show "hs_rest T (hs_remove T k s)"
    by (rule rest_update [OF rest st remove_spec(2) [OF mem]])
      (use rest_bucket [OF rest index_less, of k] in
        \<open>simp_all add: hs_bucket_def remove_collision_def Let_def\<close>)
  show "hs_load (hs_remove T k s) = hs_load s"
    using load_update [OF len st] by (simp add: hs_bucket_def)
  have at: "hs_bucket T k (hs_remove T k s) = ?b'" unfolding hs_bucket_def st using len by (simp add: hs_bucket_def)
  show "bucket_size (hs_bucket T k (hs_remove T k s)) = bucket_size ?b"
    "capacity (hs_bucket T k (hs_remove T k s)) = capacity ?b"
    unfolding at by simp_all
qed

lemma obtain_abs:
  assumes "hs_mem T s"
  shows "hs_obtain T v s =
    (case hs_abs T s (extract_key T v) of Some w \<Rightarrow> (w, True) | None \<Rightarrow> (v, False))"
proof -
  have f: "hs_find T k s = hs_abs T s k" for k by (simp add: hs_abs_def)
  show ?thesis
  proof (cases "hs_abs T s (extract_key T v)")
    case None
    then show ?thesis by (simp add: hs_obtain_def f)
  next
    case (Some w)
    then have "extract_key T v = extract_key T w" using abs_some [OF assms] by simp
    with Some show ?thesis by (simp add: hs_obtain_def f assign_value)
  qed
qed

lemma init_rest: "hs_rest T (hs_init T)"
  using factor(1) init_mem
  by (auto simp: hs_rest_def hs_init_def bucket_init_def)

lemma init_load: "hs_load (hs_init T) = buckets_count T"
  by (simp add: hs_load_def hs_init_def bucket_init_def sum_list_replicate)

end

end
