(* ===== verification/Hash_Map.thy ===== *)
theory Hash_Map
  imports Hash_Concurrent
begin

text \<open>
  \<open>hash_map\<close> (\<open>containers/hashmap/hash_map.h\<close>) and \<open>hash_set\<close>
  (\<open>containers/hashmap/hash_set.h\<close>): \<open>hash_storage\<close> with the traits of a map and of a set,
  eight buckets and the resize factor two, the defaults. The hash function is any function from
  keys to \<open>size_t\<close>. The equality of an element and a key, which \<open>remove\<close> asks for, is for
  a map the equality of the keys (the default \<open>trivial_equal_operator\<close> offers it for sets only).
\<close>

section \<open>The traits\<close>

record ('k, 'v) key_value =
  kv_key :: 'k
  kv_value :: 'v

definition map_traits :: "('k \<Rightarrow> u64) \<Rightarrow> (('k, 'v) key_value, 'k) hs_traits" where
  "map_traits h = \<lparr>hasher = h, equal_keys = (=), equal_value = (\<lambda>kv k. kv_key kv = k),
     extract_key = kv_key, assign_value = (\<lambda>lhs rhs. lhs\<lparr>kv_value := kv_value rhs\<rparr>),
     buckets_count = 8, resize_factor = 2\<rparr>"

definition set_traits :: "('k \<Rightarrow> u64) \<Rightarrow> ('k, 'k) hs_traits" where
  "set_traits h = \<lparr>hasher = h, equal_keys = (=), equal_value = (=), extract_key = (\<lambda>k. k),
     assign_value = (\<lambda>lhs rhs. lhs), buckets_count = 8, resize_factor = 2\<rparr>"

lemma map_traits_sel [simp]:
  "hasher (map_traits h) = h" "extract_key (map_traits h) = kv_key"
  "buckets_count (map_traits h) = 8" "resize_factor (map_traits h) = 2"
  by (simp_all add: map_traits_def)

lemma set_traits_sel [simp]:
  "hasher (set_traits h) = h" "extract_key (set_traits h) = (\<lambda>k. k)"
  "buckets_count (set_traits h) = 8" "resize_factor (set_traits h) = 2"
  by (simp_all add: set_traits_def)

interpretation hmap: hash_traits "map_traits h"
  by unfold_locales (simp_all add: map_traits_def)

interpretation hset: hash_traits "set_traits h"
  by unfold_locales (simp_all add: set_traits_def)

interpretation hmap_sim: simulation "hs_step (map_traits h) calls" "hs_start (map_traits h)"
  "hs_inv (map_traits h)" "am_step kv_key calls" am_start "hs_abs (map_traits h)" hs_abs_pc
  using hmap.code_is_atomic_map [of h calls] by simp

interpretation hset_sim: simulation "hs_step (set_traits h) calls" "hs_start (set_traits h)"
  "hs_inv (set_traits h)" "am_step (\<lambda>k. k) calls" am_start "hs_abs (set_traits h)" hs_abs_pc
  using hset.code_is_atomic_map [of h calls] by simp


text \<open>\<open>hash_set\<close> as a set that many threads use.\<close>

definition hash_set_ops :: "('k \<Rightarrow> u64) \<Rightarrow> ('k hash_storage, ('k, 'k) hs_pc, 'k) set_ops" where
  "hash_set_ops h = \<lparr>so_init = hs_init (set_traits h), so_idle = HsIdle, so_emplace = HsEmplace, so_find = HsObtain,
     so_move = hs_move (set_traits h), so_final = hs_done, so_threw = (\<lambda>p. p = HsThrew)\<rparr>"

definition hash_set_keys :: "('k \<Rightarrow> u64) \<Rightarrow> 'k hash_storage \<Rightarrow> 'k set" where
  "hash_set_keys h s = dom (hs_abs (set_traits h) s)"

fun hs_inserted :: "('v, 'k) hs_pc \<Rightarrow> bool" where
  "hs_inserted p = (hs_abs_pc p = AmInserted \<or> (\<exists>b. hs_abs_pc p = AmEmplaced b) \<or> hs_abs_pc p = AmThrew)"

definition hs_finding :: "('v, 'k) hs_pc \<Rightarrow> bool" where
  "hs_finding p \<longleftrightarrow> (\<exists>k. p = HsObtain k) \<or> (\<exists>r. p = HsObtained r)"

lemma hash_set_ops_sel [simp]:
  "so_init (hash_set_ops h) = hs_init (set_traits h)" "so_idle (hash_set_ops h) = HsIdle"
  "so_emplace (hash_set_ops h) = HsEmplace" "so_find (hash_set_ops h) = HsObtain"
  "so_move (hash_set_ops h) = hs_move (set_traits h)" "so_final (hash_set_ops h) = hs_done"
  "so_threw (hash_set_ops h) p = (p = HsThrew)"
  by (simp_all add: hash_set_ops_def)

text \<open>A step of \<open>hash_set\<close> on the atomic map.\<close>

lemma hash_set_step:
  assumes inv: "hs_inv (set_traits h) s ps" and i: "i < length ps" and st: "(p', s') \<in> set (hs_step (set_traits h) calls i (ps ! i) s)"
  shows "hs_inv (set_traits h) s' (ps[i := p'])"
    and "(hs_abs_pc p', hs_abs (set_traits h) s') = (hs_abs_pc (ps ! i), hs_abs (set_traits h) s)
      \<or> (hs_abs_pc p', hs_abs (set_traits h) s') \<in> set (am_step (\<lambda>k. k) calls i (hs_abs_pc (ps ! i)) (hs_abs (set_traits h) s))"
  using hset_sim.step_inv [OF inv i st] hset_sim.step_abs [OF inv i st] by blast+

lemma hs_step_move: "p \<noteq> HsIdle \<Longrightarrow> \<not> hs_done p \<Longrightarrow> hs_step T calls i p s = [hs_move T p s]"
  by (simp add: hs_step_def)

interpretation hset_set: concurrent_set "hash_set_ops h" "hs_inv (set_traits h)" "hash_set_keys h"
  "\<lambda>k p. p = HsEmplace k" hs_inserted hs_finding
proof
  show "hs_inv (set_traits h) (so_init (hash_set_ops h)) ps"
    if "\<forall>p \<in> set ps. p = so_idle (hash_set_ops h)" for ps
    using hset_sim.start_inv [of h "so_init (hash_set_ops h)" ps] that by (simp add: hs_start_def)
  show "hash_set_keys h (so_init (hash_set_ops h)) = {}"
    using hset.init_abs [of h] by (simp add: hash_set_keys_def)
next
  fix s ps i k assume inv: "hs_inv (set_traits h) s ps" and i: "i < length ps" and p: "ps ! i = so_idle (hash_set_ops h)"
  have "(HsEmplace k, s) \<in> set (hs_step (set_traits h) (\<lambda>i. [CallEmplace k, CallObtain k]) i (ps ! i) s)"
    "(HsObtain k, s) \<in> set (hs_step (set_traits h) (\<lambda>i. [CallEmplace k, CallObtain k]) i (ps ! i) s)"
    using p by (simp_all add: hs_step_def)
  from this [THEN hash_set_step(1) [OF inv i]]
  show "hs_inv (set_traits h) s (ps[i := so_emplace (hash_set_ops h) k]) \<and> hs_inv (set_traits h) s (ps[i := so_find (hash_set_ops h) k])"
    by simp
next
  fix s ps i assume inv: "hs_inv (set_traits h) s ps" and i: "i < length ps" and p: "so_final (hash_set_ops h) (ps ! i)"
  then have "(HsIdle, s) \<in> set (hs_step (set_traits h) (\<lambda>i. []) i (ps ! i) s)" by (cases "ps ! i") (simp_all add: hs_step_def)
  from hash_set_step(1) [OF inv i this] show "hs_inv (set_traits h) s (ps[i := so_idle (hash_set_ops h)])" by simp
next
  fix s ps i assume inv: "hs_inv (set_traits h) s ps" and i: "i < length ps"
    and p: "ps ! i \<noteq> so_idle (hash_set_ops h)" "\<not> so_final (hash_set_ops h) (ps ! i)"
  then have "hs_move (set_traits h) (ps ! i) s \<in> set (hs_step (set_traits h) (\<lambda>i. []) i (ps ! i) s)" by (simp add: hs_step_move)
  from hash_set_step(1) [OF inv i, of _ _ "\<lambda>i. []"] this
  show "hs_inv (set_traits h) (snd (so_move (hash_set_ops h) (ps ! i) s)) (ps[i := fst (so_move (hash_set_ops h) (ps ! i) s)])"
    by (metis hash_set_ops_sel(5) prod.collapse)
next
  fix s ps i k p' s' assume inv: "hs_inv (set_traits h) s ps" and i: "i < length ps" and mv: "so_move (hash_set_ops h) (ps ! i) s = (p', s')"
  have st: "(p', s') \<in> set (hs_step (set_traits h) (\<lambda>i. []) i (ps ! i) s)" if "ps ! i \<noteq> HsIdle" "\<not> hs_done (ps ! i)"
    using mv hs_step_move [OF that] by simp
  show "p' = HsEmplace k \<and> hash_set_keys h s' = hash_set_keys h s \<or> hs_inserted p' \<and> hash_set_keys h s' = insert k (hash_set_keys h s)"
    if "ps ! i = HsEmplace k"
  proof -
    from hash_set_step(2) [OF inv i st] that mv show ?thesis
      by (cases "hs_abs (set_traits h) s k") (auto simp: hash_set_keys_def split: prod.splits if_splits)
  qed
  show "hs_inserted p' \<and> hash_set_keys h s' = hash_set_keys h s"
    if "hs_inserted (ps ! i)" "\<not> so_final (hash_set_ops h) (ps ! i)"
  proof -
    from that have "hs_abs_pc (ps ! i) = AmInserted" by (cases "ps ! i") simp_all
    moreover from this have "ps ! i \<noteq> HsIdle" by auto
    ultimately show ?thesis using hash_set_step(2) [OF inv i st] that(2) by (auto simp: hash_set_keys_def)
  qed
  show "hs_finding p' \<and> hash_set_keys h s' = hash_set_keys h s" if "hs_finding (ps ! i)" "\<not> so_final (hash_set_ops h) (ps ! i)"
    using that mv by (auto simp: hs_finding_def)
qed (auto simp: hs_finding_def)


section \<open>The operations of a map\<close>

definition hm_init :: "('k, 'v) key_value hash_storage" where
  "hm_init = hs_init (map_traits (\<lambda>k. 0))"

definition hm_emplace :: "('k \<Rightarrow> u64) \<Rightarrow> 'k \<Rightarrow> 'v \<Rightarrow> ('k, 'v) key_value hash_storage
  \<Rightarrow> bool \<times> ('k, 'v) key_value hash_storage"
where
  "hm_emplace h k v s =
     (case hs_alone (map_traits h) (CallEmplace \<lparr>kv_key = k, kv_value = v\<rparr>) s of
        Some (HsEmplaced b, s') \<Rightarrow> (b, s')
      | _ \<Rightarrow> (False, s))"

text \<open>\<open>obtain\<close> and \<open>get\<close>; \<open>d\<close> is the value a \<open>key_value\<close> has that is made of a key only.\<close>

definition hm_obtain :: "('k \<Rightarrow> u64) \<Rightarrow> 'v \<Rightarrow> 'k \<Rightarrow> 'v \<Rightarrow> ('k, 'v) key_value hash_storage \<Rightarrow> 'v \<times> bool" where
  "hm_obtain h d k v s =
     (case hs_obtain (map_traits h) \<lparr>kv_key = k, kv_value = d\<rparr> s of
        (kv, obtained) \<Rightarrow> (if obtained then kv_value kv else v, obtained))"

definition hm_get :: "('k \<Rightarrow> u64) \<Rightarrow> 'v \<Rightarrow> 'k \<Rightarrow> ('k, 'v) key_value hash_storage \<Rightarrow> 'v option" where
  "hm_get h d k s =
     (case hs_obtain (map_traits h) \<lparr>kv_key = k, kv_value = d\<rparr> s of
        (kv, obtained) \<Rightarrow> (if obtained then Some (kv_value kv) else None))"

definition hm_remove :: "('k \<Rightarrow> u64) \<Rightarrow> 'k \<Rightarrow> ('k, 'v) key_value hash_storage \<Rightarrow> ('k, 'v) key_value hash_storage" where
  "hm_remove h k s = hs_remove (map_traits h) k s"

definition hm_contents :: "('k \<Rightarrow> u64) \<Rightarrow> ('k, 'v) key_value hash_storage \<Rightarrow> 'k \<rightharpoonup> 'v" where
  "hm_contents h s k = map_option kv_value (hs_abs (map_traits h) s k)"

text \<open>How many more elements the proof allows to be inserted: fewer than \<open>2 ^ 50\<close> in all.\<close>

definition hm_room :: "('k, 'v) key_value hash_storage \<Rightarrow> nat" where
  "hm_room s = 2 ^ 50 - hs_load s"

lemma hm_init_eq: "hm_init = hs_init (map_traits h)"
  by (simp add: hm_init_def hs_init_def)

lemma hm_get_contents: "hs_rest (map_traits h) s \<Longrightarrow> hm_get h d k s = hm_contents h s k"
proof -
  assume "hs_rest (map_traits h) s"
  then have "hs_mem (map_traits h) s" by (simp add: hs_rest_def)
  from hmap.obtain_abs [OF this] show ?thesis
    by (cases "hs_abs (map_traits h) s k") (simp_all add: hm_get_def hm_contents_def)
qed

lemma hm_obtain_contents: "hs_rest (map_traits h) s \<Longrightarrow>
    hm_obtain h d k v s = (case hm_contents h s k of Some w \<Rightarrow> (w, True) | None \<Rightarrow> (v, False))"
proof -
  assume "hs_rest (map_traits h) s"
  then have "hs_mem (map_traits h) s" by (simp add: hs_rest_def)
  from hmap.obtain_abs [OF this] show ?thesis
    by (cases "hs_abs (map_traits h) s k") (simp_all add: hm_obtain_def hm_contents_def)
qed

lemma hm_emplace_law:
  assumes rest: "hs_rest (map_traits h) s" and room: "0 < hm_room s" and e: "hm_emplace h k v s = (b, s')"
  shows "hs_rest (map_traits h) s' \<and> map_emplace k v (hm_contents h s) = (b, hm_contents h s')
    \<and> hm_room s \<le> Suc (hm_room s')"
proof -
  let ?kv = "\<lparr>kv_key = k, kv_value = v\<rparr>"
  have load: "hs_load s < 2 ^ 50" using room by (simp add: hm_room_def)
  obtain s1 where s1: "hs_alone (map_traits h) (CallEmplace ?kv) s = Some (HsEmplaced (hs_abs (map_traits h) s k = None), s1)"
    "hs_rest (map_traits h) s1" "hs_abs (map_traits h) s1 = (hs_abs (map_traits h) s)(k \<mapsto> ?kv)"
    "hs_load s1 \<le> Suc (hs_load s)"
  proof (rule hmap.emplace_alone [OF rest load, of ?kv])
    fix s'
    assume "hs_alone (map_traits h) (CallEmplace ?kv) s
        = Some (HsEmplaced (hs_abs (map_traits h) s (extract_key (map_traits h) ?kv) = None), s')"
      "hs_rest (map_traits h) s'"
      "hs_abs (map_traits h) s' = (hs_abs (map_traits h) s)(extract_key (map_traits h) ?kv \<mapsto> ?kv)"
      "hs_load s' \<le> Suc (hs_load s)"
    then show thesis by (intro that [of s']) simp_all
  qed
  have "b = (hs_abs (map_traits h) s k = None)" "s' = s1" using e s1(1) by (simp_all add: hm_emplace_def)
  moreover have "hm_contents h s1 = (hm_contents h s)(k \<mapsto> v)"
    using s1(3) by (auto simp: hm_contents_def)
  ultimately show ?thesis using s1(2,4) by (auto simp: map_emplace_def hm_room_def hm_contents_def)
qed

interpretation hm: dictionary "hm_emplace h" "hm_get h d" "hm_remove h" "hm_contents h"
  "hs_rest (map_traits h)" hm_room for h :: "'k \<Rightarrow> u64" and d :: 'v
proof
  fix s s' :: "('k, 'v) key_value hash_storage" and k v b
  assume "hs_rest (map_traits h) s" "0 < hm_room s" "hm_emplace h k v s = (b, s')"
  then show "hs_rest (map_traits h) s' \<and> map_emplace k v (hm_contents h s) = (b, hm_contents h s')
    \<and> hm_room s \<le> Suc (hm_room s')" by (rule hm_emplace_law)
next
  fix s :: "('k, 'v) key_value hash_storage" and k
  assume "hs_rest (map_traits h) s"
  then show "hm_get h d k s = map_get k (hm_contents h s)"
    by (simp add: hm_get_contents map_get_def)
next
  fix s :: "('k, 'v) key_value hash_storage" and k
  assume rest: "hs_rest (map_traits h) s"
  then have mem: "hs_mem (map_traits h) s" by (simp add: hs_rest_def)
  show "hs_rest (map_traits h) (hm_remove h k s) \<and> hm_contents h (hm_remove h k s) = map_remove k (hm_contents h s)
    \<and> hm_room s \<le> hm_room (hm_remove h k s)"
    using hmap.remove_alone(2,3) [OF rest, of k] hmap.remove_spec(1) [OF mem, of k]
    by (auto simp: hm_remove_def hm_contents_def map_remove_def hm_room_def)
qed


section \<open>Emplacing and removing the same key\<close>

fun hs_churn :: "('v, 'k) hs_traits \<Rightarrow> 'v \<Rightarrow> nat \<Rightarrow> 'v hash_storage \<Rightarrow> 'v hash_storage option" where
  "hs_churn T v 0 s = Some s"
| "hs_churn T v (Suc n) s =
     (case hs_alone T (CallEmplace v) s of
        Some (p, s1) \<Rightarrow>
          (case hs_alone T (CallRemove (extract_key T v)) s1 of
             Some (q, s2) \<Rightarrow> hs_churn T v n s2
           | None \<Rightarrow> None)
      | None \<Rightarrow> None)"

abbreviation lists_of :: "('k \<Rightarrow> u64) \<Rightarrow> 'k \<Rightarrow> 'k hash_storage \<Rightarrow> nat" where
  "lists_of h k s \<equiv> unat (capacity (hs_bucket (set_traits h) k s))"

abbreviation count_of :: "('k \<Rightarrow> u64) \<Rightarrow> 'k \<Rightarrow> 'k hash_storage \<Rightarrow> nat" where
  "count_of h k s \<equiv> unat (bucket_size (hs_bucket (set_traits h) k s))"

lemma churn_round:
  assumes rest: "hs_rest (set_traits h) s" and empty: "hs_abs (set_traits h) s = Map.empty"
    and load: "hs_load s < 2 ^ 50"
  obtains s' where "\<And>n. hs_churn (set_traits h) k (Suc n) s = hs_churn (set_traits h) k n s'"
    and "hs_rest (set_traits h) s'" "hs_abs (set_traits h) s' = Map.empty" "hs_load s' \<le> Suc (hs_load s)"
    and "count_of h k s' = Suc (count_of h k s)"
    and "lists_of h k s' = (if lists_of h k s < Suc (count_of h k s) * 2 then lists_of h k s * 2 else lists_of h k s)"
proof (rule hset.emplace_alone [OF rest load, of k])
  fix s1
  assume run: "hs_alone (set_traits h) (CallEmplace k) s
        = Some (HsEmplaced (hs_abs (set_traits h) s (extract_key (set_traits h) k) = None), s1)"
    and r1: "hs_rest (set_traits h) s1"
    and abs: "hs_abs (set_traits h) s1 = (hs_abs (set_traits h) s)(extract_key (set_traits h) k \<mapsto> k)"
    and l1: "hs_load s1 \<le> Suc (hs_load s)"
    and new: "hs_abs (set_traits h) s (extract_key (set_traits h) k) = None \<Longrightarrow>
      count_of h (extract_key (set_traits h) k) s1 = Suc (count_of h (extract_key (set_traits h) k) s)
      \<and> lists_of h (extract_key (set_traits h) k) s1 =
         (if lists_of h (extract_key (set_traits h) k) s < Suc (count_of h (extract_key (set_traits h) k) s) * unat (resize_factor (set_traits h))
          then lists_of h (extract_key (set_traits h) k) s * unat (resize_factor (set_traits h))
          else lists_of h (extract_key (set_traits h) k) s)"
  have grown: "count_of h k s1 = Suc (count_of h k s)
      \<and> lists_of h k s1 = (if lists_of h k s < Suc (count_of h k s) * 2 then lists_of h k s * 2 else lists_of h k s)"
    using new empty by simp
  note rm = hset.remove_alone [OF r1, of k]
  have mem: "hs_mem (set_traits h) s1" using r1 by (simp add: hs_rest_def)
  have "hs_abs (set_traits h) (hs_remove (set_traits h) k s1) = Map.empty"
    using hset.remove_spec(1) [OF mem, of k] abs empty by simp
  moreover have "hs_churn (set_traits h) k (Suc n) s = hs_churn (set_traits h) k n (hs_remove (set_traits h) k s1)" for n
    using run rm(1) by simp
  ultimately show thesis
    using that [of "hs_remove (set_traits h) k s1"] rm l1 grown by simp
qed

declare hs_churn.simps(2) [simp del]

lemma churn_round_of:
  assumes "hs_rest (set_traits h) s" "hs_abs (set_traits h) s = Map.empty" "hs_load s \<le> m" "m < 2 ^ 50"
    and "count_of h k s = c" "lists_of h k s = l"
  shows "\<exists>s'. (\<forall>n. hs_churn (set_traits h) k (Suc n) s = hs_churn (set_traits h) k n s')
    \<and> hs_rest (set_traits h) s' \<and> hs_abs (set_traits h) s' = Map.empty \<and> hs_load s' \<le> Suc m
    \<and> count_of h k s' = Suc c \<and> lists_of h k s' = (if l < Suc c * 2 then l * 2 else l)"
proof -
  have "hs_load s < 2 ^ 50" using assms(3,4) by simp
  then show ?thesis
  proof (rule churn_round [OF assms(1,2), of k])
    fix s'
    assume "\<And>n. hs_churn (set_traits h) k (Suc n) s = hs_churn (set_traits h) k n s'"
      "hs_rest (set_traits h) s'" "hs_abs (set_traits h) s' = Map.empty" "hs_load s' \<le> Suc (hs_load s)"
      "count_of h k s' = Suc (count_of h k s)"
      "lists_of h k s' = (if lists_of h k s < Suc (count_of h k s) * 2 then lists_of h k s * 2 else lists_of h k s)"
    then show ?thesis using assms(3,5,6) by (intro exI [of _ s']) simp
  qed
qed

lemma churn_grows:
  assumes "hs_rest (set_traits h) s" "hs_abs (set_traits h) s = Map.empty" "hs_load s + n \<le> 2 ^ 50"
    and "2 * count_of h k s \<le> lists_of h k s"
  shows "\<exists>s'. hs_churn (set_traits h) k n s = Some s' \<and> hs_rest (set_traits h) s'
    \<and> hs_abs (set_traits h) s' = Map.empty \<and> 2 * (count_of h k s + n) \<le> lists_of h k s'"
  using assms
proof (induction n arbitrary: s)
  case 0
  then show ?case by simp
next
  case (Suc n)
  then have "hs_load s < 2 ^ 50" by simp
  from churn_round [OF Suc.prems(1,2) this, of k]
  obtain s1 where s1: "hs_churn (set_traits h) k (Suc n) s = hs_churn (set_traits h) k n s1"
    "hs_rest (set_traits h) s1" "hs_abs (set_traits h) s1 = Map.empty" "hs_load s1 \<le> Suc (hs_load s)"
    "count_of h k s1 = Suc (count_of h k s)"
    "lists_of h k s1 = (if lists_of h k s < Suc (count_of h k s) * 2 then lists_of h k s * 2 else lists_of h k s)"
    by metis
  have double: "0 < l \<Longrightarrow> 2 * c \<le> l \<Longrightarrow> 2 * Suc c \<le> l * 2" for c l :: nat by presburger
  have "0 < lists_of h k s"
    using hs_memD [of "set_traits h" s "hs_index (set_traits h) k"] Suc.prems(1) hset.index_less [of h k]
    by (simp add: hs_rest_def bucket_ok_def hs_bucket_def)
  from double [OF this Suc.prems(4)] have "2 * count_of h k s1 \<le> lists_of h k s1"
    unfolding s1(5,6) using Suc.prems(4) by (simp split: if_split)
  with Suc.IH [OF s1(2,3)] s1(1,4,5) Suc.prems(3) show ?case by simp
qed


section \<open>Properties\<close>

text \<open>C1. \<open>hash_map\<close> is linearizable: every execution of any number of threads that emplace,
  look up and remove in any order, with their resizes, is an execution of the atomic map; and
  \<open>m_size\<close> is the number of its keys. No resize loses or brings back an element.\<close>

theorem hash_map_linearizable:
  assumes "reach (hs_start (map_traits h)) (interleave (hs_step (map_traits h) calls)) (s, ps)"
  shows "reach am_start (interleave (am_step kv_key calls)) (hs_abs (map_traits h) s, map hs_abs_pc ps)
    \<and> hs_size s = of_nat (card (dom (hs_abs (map_traits h) s)))"
proof
  show "reach am_start (interleave (am_step kv_key calls)) (hs_abs (map_traits h) s, map hs_abs_pc ps)"
    using hmap_sim.reach_abs [OF assms] by simp
  have "hs_inv (map_traits h) s ps" using assms by (rule hmap_sim.reach_inv)
  then show "hs_size s = of_nat (card (dom (hs_abs (map_traits h) s)))"
    by (simp add: hs_inv_def hs_mem_size)
qed

lemma replicate_numeral: "replicate (numeral k) x = x # replicate (pred_numeral k) x"
  by (simp add: numeral_eq_Suc)

lemmas run_defs = hs_step_def hs_init_def bucket_init_def emplace_locked_def hs_bucket_def hs_index_def
  hs_sub_def find_locked_def push_collision_def assign_collision_def copy_buckets_def hs_set_bucket_def
  map_traits_def set_traits_def max_lists_def Let_def replicate_numeral

text \<open>Two threads in one bucket: the second emplaces between the copy and the swap of the first.\<close>

theorem hash_map_linearizable_witness:
  "\<exists>s. run_sched (hs_step (map_traits (\<lambda>k. k)) (\<lambda>t. [CallEmplace \<lparr>kv_key = of_nat (8 * t), kv_value = t\<rparr>]))
      (map (\<lambda>t. (t, 0)) [0, 0, 0, 0, 0, 1, 1, 1, 0, 0, 0, 0, 0])
      (hs_init (map_traits (\<lambda>k. k)), [HsIdle, HsIdle]) = Some (s, [HsEmplaced True, HsEmplaced True])
    \<and> reach am_start (interleave (am_step kv_key (\<lambda>t. [CallEmplace \<lparr>kv_key = of_nat (8 * t), kv_value = t\<rparr>])))
        (hs_abs (map_traits (\<lambda>k. k)) s, [AmEmplaced True, AmEmplaced True])
    \<and> hs_size s = of_nat (card (dom (hs_abs (map_traits (\<lambda>k. k)) s)))"
proof -
  let ?T = "map_traits (\<lambda>k. k) :: ((u64, nat) key_value, u64) hs_traits"
  let ?calls = "\<lambda>t. [CallEmplace \<lparr>kv_key = of_nat (8 * t), kv_value = t\<rparr>]"
  let ?run = "run_sched (hs_step ?T ?calls) (map (\<lambda>t. (t, 0)) [0, 0, 0, 0, 0, 1, 1, 1, 0, 0, 0, 0, 0])
      (hs_init ?T, [HsIdle, HsIdle])"
  have "map_option snd ?run = Some [HsEmplaced True, HsEmplaced True]"
    by (simp add: run_defs)
  then obtain s where s: "?run = Some (s, [HsEmplaced True, HsEmplaced True])" by auto
  have "reach (hs_start ?T) (interleave (hs_step ?T ?calls)) (s, [HsEmplaced True, HsEmplaced True])"
    by (rule run_sched_reach_start [OF _ s]) (simp add: hs_start_def)
  from hash_map_linearizable [OF this] s show ?thesis by auto
qed

text \<open>C5. \<open>hash_set\<close> stays in order under any number of threads: \<open>size()\<close> is the number of
  keys that \<open>find\<close> finds, \<open>find\<close> returns the key it was asked for, and every key lies exactly
  once, in the bucket and the collision list that its hash names.\<close>

theorem hash_set_in_place:
  assumes "reach (hs_start (set_traits h)) (interleave (hs_step (set_traits h) calls)) (s, ps)"
  shows "hs_size s = of_nat (card {k. hs_find (set_traits h) k s \<noteq> None})
    \<and> (\<forall>k x. hs_find (set_traits h) k s = Some x \<longrightarrow> x = k)
    \<and> (\<forall>i < 8. \<forall>j < length (bucket (hs_storage s ! i)). distinct (bucket (hs_storage s ! i) ! j)
        \<and> (\<forall>x \<in> set (bucket (hs_storage s ! i) ! j).
             unat (h x) mod 8 = i \<and> unat (h x) mod length (bucket (hs_storage s ! i)) = j))"
proof (intro conjI allI impI)
  have mem: "hs_mem (set_traits h) s"
    using hset_sim.reach_inv [OF assms] by (simp add: hs_inv_def)
  then show "hs_size s = of_nat (card {k. hs_find (set_traits h) k s \<noteq> None})"
    using hs_mem_size [OF mem] by (simp add: dom_def hs_abs_def)
  show "x = k" if "hs_find (set_traits h) k s = Some x" for k x
    using that hset.abs_some [OF mem, of k x] by (simp add: hs_abs_def)
  fix i j :: nat
  assume i: "i < 8" and j: "j < length (bucket (hs_storage s ! i))"
  then have pl: "placed (set_traits h) i (bucket (hs_storage s ! i))"
    using hset.mem_placed [OF mem, of i] by simp
  show "distinct (bucket (hs_storage s ! i) ! j)"
    using hset.placed_distinct [OF pl j] by simp
  show "\<forall>x \<in> set (bucket (hs_storage s ! i) ! j).
      unat (h x) mod 8 = i \<and> unat (h x) mod length (bucket (hs_storage s ! i)) = j"
    using hset.placedD [OF pl j] by (simp add: hs_index_def hs_sub_def)
qed

text \<open>One thread emplaces 9, which resizes its bucket, and then 17; both hash to 0.\<close>

theorem hash_set_in_place_witness:
  "\<exists>s. bucket (hs_storage s ! 0) = [[17, 9], []]
    \<and> hs_size s = of_nat (card {k :: nat. hs_find (set_traits (\<lambda>k. 0)) k s \<noteq> None})"
proof -
  let ?T = "set_traits (\<lambda>k. 0) :: (nat, nat) hs_traits"
  let ?calls = "\<lambda>t. [CallEmplace 9, CallEmplace 17]"
  let ?run = "run_sched (hs_step ?T ?calls) (map (\<lambda>c. (0, c)) [0, 0, 0, 0, 0, 0, 0, 0, 0, 1, 0])
    (hs_init ?T, [HsIdle])"
  have "map_option (\<lambda>(s, ps). (bucket (hs_storage s ! 0), ps)) ?run = Some ([[17, 9], []], [HsResize 0])"
    by (simp add: run_defs)
  then obtain s where s: "?run = Some (s, [HsResize 0])" and b: "bucket (hs_storage s ! 0) = [[17, 9], []]"
    by auto
  have "reach (hs_start ?T) (interleave (hs_step ?T ?calls)) (s, [HsResize 0])"
    by (rule run_sched_reach_start [OF _ s]) (simp add: hs_start_def)
  from hash_set_in_place [OF this] b show ?thesis by (intro exI [of _ s] conjI) simp_all
qed

text \<open>C3. Calls on a \<open>hash_map\<close> that do not overlap are those of a map: from the constructor on,
  any sequence of fewer than \<open>2 ^ 50 - 8\<close> calls of \<open>emplace\<close>, \<open>get\<close> and \<open>remove\<close> gives
  the answers of the partial function they build, and leaves its contents.\<close>

theorem hash_map_is_a_map:
  fixes ops :: "('k, 'v) dict_op list" and h :: "'k \<Rightarrow> u64" and d :: 'v
  assumes "length ops \<le> 2 ^ 50 - 8"
  shows "dict_run map_emplace map_get map_remove ops Map.empty =
    (case dict_run (hm_emplace h) (hm_get h d) (hm_remove h) ops hm_init of
       (rs, s) \<Rightarrow> (rs, hm_contents h s))"
proof -
  obtain rs s where run: "dict_run (hm_emplace h) (hm_get h d) (hm_remove h) ops hm_init = (rs, s)"
    by (cases "dict_run (hm_emplace h) (hm_get h d) (hm_remove h) ops hm_init")
  have "hs_rest (map_traits h) (hm_init :: ('k, 'v) key_value hash_storage)" unfolding hm_init_eq [of h] by (rule hmap.init_rest)
  moreover have "length ops \<le> hm_room (hm_init :: ('k, 'v) key_value hash_storage)"
    using assms by (simp add: hm_room_def hm_init_eq [of h] hmap.init_load)
  moreover have "hm_contents h (hm_init :: ('k, 'v) key_value hash_storage) = Map.empty"
    by (rule ext) (simp add: hm_contents_def hm_init_eq [of h] hmap.init_abs)
  ultimately show ?thesis using hm.run_contents [of h hm_init ops d rs s] run by simp
qed

theorem hash_map_is_a_map_witness:
  "fst (dict_run (hm_emplace (\<lambda>k. k)) (hm_get (\<lambda>k. k) 0) (hm_remove (\<lambda>k. k))
      [DictEmplace 1 10, DictEmplace 9 (20::nat), DictEmplace 1 30, DictGet 1, DictRemove 9, DictGet 9] hm_init)
    = [DictNew True, DictNew True, DictNew False, DictGot (Some 30), DictRemoved, DictGot None]"
proof -
  let ?ops = "[DictEmplace 1 10, DictEmplace 9 (20::nat), DictEmplace 1 30, DictGet 1, DictRemove 9, DictGet (9::u64)]"
  have "length ?ops \<le> 2 ^ 50 - 8" by simp
  from hash_map_is_a_map [OF this, of "\<lambda>k. k" 0] show ?thesis
    by (auto simp: map_emplace_def map_get_def map_remove_def split: prod.splits)
qed

text \<open>The bucket and the collision list are chosen by the same low bits of the hash: in a
  \<open>hash_set\<close>, once a bucket has a multiple of eight collision lists, seven of eight of them are
  empty for ever, whatever the hash function.\<close>

theorem hash_set_lists_unused:
  assumes "reach (hs_start (set_traits h)) (interleave (hs_step (set_traits h) calls)) (s, ps)"
    and "i < 8" "8 dvd length (bucket (hs_storage s ! i))" "j < length (bucket (hs_storage s ! i))" "j mod 8 \<noteq> i"
  shows "bucket (hs_storage s ! i) ! j = []"
proof (rule ccontr)
  assume "bucket (hs_storage s ! i) ! j \<noteq> []"
  then obtain x where x: "x \<in> set (bucket (hs_storage s ! i) ! j)" by (cases "bucket (hs_storage s ! i) ! j") auto
  have mem: "hs_mem (set_traits h) s"
    using hset_sim.reach_inv [OF assms(1)] by (simp add: hs_inv_def)
  then have "placed (set_traits h) i (bucket (hs_storage s ! i))"
    using hset.mem_placed [OF mem, of i] assms(2) by simp
  from hset.placedD [OF this assms(4) x]
  have "unat (h x) mod 8 = i" "unat (h x) mod length (bucket (hs_storage s ! i)) = j"
    by (simp_all add: hs_index_def hs_sub_def)
  with assms(3,5) show False by (metis mod_mod_cancel)
qed

text \<open>Three keys with the hash 0 give their bucket eight lists.\<close>

theorem hash_set_lists_unused_witness:
  "\<exists>s :: nat hash_storage. length (bucket (hs_storage s ! 0)) = 8 \<and> bucket (hs_storage s ! 0) ! 0 = [17, 9, 1]
    \<and> bucket (hs_storage s ! 0) ! 2 = []"
proof -
  let ?T = "set_traits (\<lambda>k. 0) :: (nat, nat) hs_traits"
  let ?calls = "\<lambda>t. [CallEmplace 9, CallEmplace 17, CallEmplace 1]"
  let ?one = "\<lambda>c. [(0, c), (0, 0), (0, 0), (0, 0), (0, 0), (0, 0), (0, 0), (0, 0)] :: (nat \<times> nat) list"
  let ?run = "run_sched (hs_step ?T ?calls) (?one 0 @ (0, 0) # ?one 1 @ (0, 0) # ?one 2) (hs_init ?T, [HsIdle])"
  have "map_option (\<lambda>(s, ps). (bucket (hs_storage s ! 0), ps)) ?run
      = Some ([[17, 9, 1], [], [], [], [], [], [], []], [HsEmplaced True])"
    by (simp add: run_defs)
  then obtain s where s: "?run = Some (s, [HsEmplaced True])"
    and b: "bucket (hs_storage s ! 0) = [[17, 9, 1], [], [], [], [], [], [], []]"
    by auto
  have "reach (hs_start ?T) (interleave (hs_step ?T ?calls)) (s, [HsEmplaced True])"
    by (rule run_sched_reach_start [OF _ s]) (simp add: hs_start_def)
  from hash_set_lists_unused [OF this, of 0 2] b show ?thesis by (intro exI [of _ s] conjI) simp_all
qed

text \<open>\<open>remove\<close> does not count a bucket's elements down: a thread that emplaces and removes
  one key \<open>n\<close> times leaves an empty \<open>hash_set\<close> whose bucket has at least \<open>2 * (n + 1)\<close>
  collision lists.\<close>

theorem hash_set_churn_grows:
  assumes "3 \<le> n" "n < 2 ^ 49"
  shows "\<exists>s. hs_churn (set_traits h) k n (hs_init (set_traits h)) = Some s \<and> hs_size s = 0
    \<and> 2 * (n + 1) \<le> length (bucket (hs_bucket (set_traits h) k s))"
proof -
  let ?T = "set_traits h"
  let ?s = "hs_init ?T"
  have load0: "hs_load ?s = 8" using hset.init_load [of h] by simp
  have one: "count_of h k ?s = 1" "lists_of h k ?s = 1"
    using hset.index_less [of h k] by (simp_all add: hs_bucket_def hs_init_def bucket_init_def)
  obtain s1 where s1: "\<forall>n. hs_churn ?T k (Suc n) ?s = hs_churn ?T k n s1" "hs_rest ?T s1"
    "hs_abs ?T s1 = Map.empty" "hs_load s1 \<le> 9" "count_of h k s1 = 2" "lists_of h k s1 = 2"
    using churn_round_of [OF hset.init_rest hset.init_abs _ _ one, of 8] load0
    by (auto simp flip: numeral_2_eq_2)
  obtain s2 where s2: "\<forall>n. hs_churn ?T k (Suc n) s1 = hs_churn ?T k n s2" "hs_rest ?T s2"
    "hs_abs ?T s2 = Map.empty" "hs_load s2 \<le> 10" "count_of h k s2 = 3" "lists_of h k s2 = 4"
    using churn_round_of [OF s1(2,3,4) _ s1(5,6)] by auto
  obtain s3 where s3: "\<forall>n. hs_churn ?T k (Suc n) s2 = hs_churn ?T k n s3" "hs_rest ?T s3"
    "hs_abs ?T s3 = Map.empty" "hs_load s3 \<le> 11" "count_of h k s3 = 4" "lists_of h k s3 = 8"
    using churn_round_of [OF s2(2,3,4) _ s2(5,6)] by auto
  obtain m where "n = 3 + m" using assms(1) le_Suc_ex by blast
  then have m: "n = Suc (Suc (Suc m))" by simp
  have "hs_load s3 + m \<le> 2 ^ 50" using s3(4) assms(2) m by simp
  from churn_grows [OF s3(2,3) this, of k] s3(5,6)
  obtain s where s: "hs_churn ?T k m s3 = Some s" "hs_rest ?T s" "hs_abs ?T s = Map.empty" "2 * (4 + m) \<le> lists_of h k s"
    by auto
  have mem: "hs_mem ?T s" using s(2) by (simp add: hs_rest_def)
  have "length (bucket (hs_bucket ?T k s)) = lists_of h k s"
    using hset.rest_bucket [OF s(2) hset.index_less [of h k]] by (simp add: hs_bucket_def)
  moreover have "hs_size s = 0" using hs_mem_size [OF mem] s(3) by simp
  ultimately show ?thesis using s(1,4) s1(1) s2(1) s3(1) m by simp
qed

theorem hash_set_churn_grows_witness:
  "\<exists>s. hs_churn (set_traits (\<lambda>k. k)) 5 1000000 (hs_init (set_traits (\<lambda>k. k))) = Some s \<and> hs_size s = 0
    \<and> 2000002 \<le> length (bucket (hs_bucket (set_traits (\<lambda>k. k)) 5 s))"
  using hash_set_churn_grows [of 1000000 "\<lambda>k. k" 5] by simp

end
