(* ===== verification/Hash_Locks.thy ===== *)
theory Hash_Locks
  imports Hash_Map RW_Spinlock
begin

text \<open>
  The hash storage over its locks: the composition of the model of \<open>hash_storage\<close> with one
  \<open>rw_spinlock\<close> for each bucket, \<open>std::unique_lock\<close> and \<open>std::shared_lock\<close>. A section takes the
  lock of its bucket in single accesses, reads the collision lists, then writes its changes, and
  gives the lock back. The simulation shows that the sections may be taken as one step each, as
  \<open>Hash_Storage\<close> does.
\<close>

record 'v hl_state =
  hl_storage :: "'v hash_storage"
  hl_guards :: "u32 list"

datatype ('v, 'k) hl_pc =
  HlOut "('v, 'k) hs_pc"                       \<comment> \<open>outside the sections\<close>
| HlLock rw_pc "('v, 'k) hs_pc"                \<comment> \<open>in the constructor of the lock of a section\<close>
| HlIn "('v, 'k) hs_pc"                        \<comment> \<open>holds the lock, nothing read\<close>
| HlMid "('v, 'k) hs_pc" "'v list list"        \<comment> \<open>has read the collision lists\<close>
| HlDone "('v, 'k) hs_pc" "('v, 'k) hs_pc"     \<comment> \<open>before the destructor of the lock\<close>

text \<open>The bucket a section locks, and whether exclusively. \<open>new_bucket.resize\<close> throws before the
  shared lock is taken.\<close>

fun hl_section :: "('v, 'k) hs_traits \<Rightarrow> ('v, 'k) hs_pc \<Rightarrow> (nat \<times> bool) option" where
  "hl_section T (HsEmplace v) = Some (hs_index T (extract_key T v), True)"
| "hl_section T (HsObtain k) = Some (hs_index T k, False)"
| "hl_section T (HsRemove k) = Some (hs_index T k, True)"
| "hl_section T (HsCopy i cap) = (if max_lists < unat cap then None else Some (i, False))"
| "hl_section T (HsSwap i cap nb) = Some (i, True)"
| "hl_section T p = None"

text \<open>The rest of a section, from the lists \<open>b\<close> it has read; under the shared lock it does not
  write them.\<close>

definition hl_body :: "('v, 'k) hs_traits \<Rightarrow> nat \<Rightarrow> bool \<Rightarrow> ('v, 'k) hs_pc \<Rightarrow> 'v list list \<Rightarrow> 'v hash_storage \<Rightarrow>
  ('v, 'k) hs_pc \<times> 'v hash_storage"
where
  "hl_body T i exclusive p b s =
     (case hs_move T p (hs_set_bucket i ((hs_storage s ! i)\<lparr>bucket := b\<rparr>) s) of
        (p', s') \<Rightarrow> (p', if exclusive then s'
                         else hs_set_bucket i ((hs_storage s' ! i)\<lparr>bucket := bucket (hs_storage s ! i)\<rparr>) s'))"

fun hl_acquire :: "bool \<Rightarrow> rw_pc \<Rightarrow> u32 \<Rightarrow> rw_pc \<times> u32" where
  "hl_acquire exclusive p m = (if exclusive then rw_lock p m else rw_lock_shared p m)"

fun hl_release :: "bool \<Rightarrow> u32 \<Rightarrow> u32" where
  "hl_release exclusive m = (if exclusive then rw_unlock m else rw_unlock_shared m)"

definition hl_step :: "('v, 'k) hs_traits \<Rightarrow> (nat \<Rightarrow> ('v, 'k) hs_call list) \<Rightarrow> ('v hl_state, ('v, 'k) hl_pc) thread_step" where
  "hl_step T calls t p s =
     (case p of
        HlOut q \<Rightarrow>
          (case hl_section T q of
             Some (i, ex) \<Rightarrow> [(HlLock (if ex then WrTry else RdTry) q, s)]
           | None \<Rightarrow> map (\<lambda>(q', st). (HlOut q', s\<lparr>hl_storage := st\<rparr>)) (hs_step T calls t q (hl_storage s)))
      | HlLock l q \<Rightarrow>
          (case hl_section T q of
             Some (i, ex) \<Rightarrow>
               (case hl_acquire ex l (hl_guards s ! i) of (l', m) \<Rightarrow>
                  [(if l' = WrHeld \<or> l' = RdHeld then HlIn q else HlLock l' q, s\<lparr>hl_guards := (hl_guards s)[i := m]\<rparr>)])
           | None \<Rightarrow> [])
      | HlIn q \<Rightarrow>
          (case hl_section T q of
             Some (i, ex) \<Rightarrow> [(HlMid q (bucket (hs_storage (hl_storage s) ! i)), s)]
           | None \<Rightarrow> [])
      | HlMid q b \<Rightarrow>
          (case hl_section T q of
             Some (i, ex) \<Rightarrow>
               (case hl_body T i ex q b (hl_storage s) of (q', st) \<Rightarrow> [(HlDone q q', s\<lparr>hl_storage := st\<rparr>)])
           | None \<Rightarrow> [])
      | HlDone q q' \<Rightarrow>
          (case hl_section T q of
             Some (i, ex) \<Rightarrow>
               [(HlOut q', s\<lparr>hl_guards := (hl_guards s)[i := hl_release ex (hl_guards s ! i)]\<rparr>)]
           | None \<Rightarrow> []))"

definition hl_init :: "('v, 'k) hs_traits \<Rightarrow> 'v hl_state" where
  "hl_init T = \<lparr>hl_storage = hs_init T, hl_guards = replicate (buckets_count T) rw_init\<rparr>"

definition hl_start :: "('v, 'k) hs_traits \<Rightarrow> ('v hl_state, ('v, 'k) hl_pc) system \<Rightarrow> bool" where
  "hl_start T s \<longleftrightarrow> fst s = hl_init T \<and> length (snd s) < 4096 \<and> (\<forall>p \<in> set (snd s). p = HlOut HsIdle)"


section \<open>Simulation\<close>

fun hl_abs_pc :: "('v, 'k) hl_pc \<Rightarrow> ('v, 'k) hs_pc" where
  "hl_abs_pc (HlOut q) = q"
| "hl_abs_pc (HlLock l q) = q"
| "hl_abs_pc (HlIn q) = q"
| "hl_abs_pc (HlMid q b) = q"
| "hl_abs_pc (HlDone q q') = q'"

text \<open>The section a thread is in, from the constructor of its lock to the destructor.\<close>

fun hl_inside :: "('v, 'k) hl_pc \<Rightarrow> (rw_pc option \<times> ('v, 'k) hs_pc) option" where
  "hl_inside (HlOut q) = None"
| "hl_inside (HlLock l q) = Some (Some l, q)"
| "hl_inside (HlIn q) = Some (None, q)"
| "hl_inside (HlMid q b) = Some (None, q)"
| "hl_inside (HlDone q q') = Some (None, q)"

definition hl_lock_pc :: "('v, 'k) hs_traits \<Rightarrow> nat \<Rightarrow> ('v, 'k) hl_pc \<Rightarrow> rw_pc" where
  "hl_lock_pc T c p =
     (case hl_inside p of
        None \<Rightarrow> RwIdle
      | Some (l, q) \<Rightarrow>
          (case hl_section T q of
             None \<Rightarrow> RwIdle
           | Some (i, ex) \<Rightarrow>
               if i \<noteq> c then RwIdle else (case l of Some r \<Rightarrow> r | None \<Rightarrow> if ex then WrHeld else RdHeld)))"

definition hl_pc_ok :: "('v, 'k) hs_traits \<Rightarrow> 'v hash_storage \<Rightarrow> ('v, 'k) hl_pc \<Rightarrow> bool" where
  "hl_pc_ok T s p \<longleftrightarrow>
     (case hl_inside p of
        None \<Rightarrow> True
      | Some (l, q) \<Rightarrow>
          (case hl_section T q of
             None \<Rightarrow> False
           | Some (i, ex) \<Rightarrow> i < buckets_count T
               \<and> (\<forall>r. l = Some r \<longrightarrow> r \<in> (if ex then {WrTry, WrUndo, WrSpin} else {RdTry, RdUndo, RdSpin}))
               \<and> (\<forall>b. p = HlMid q b \<longrightarrow> b = bucket (hs_storage s ! i))))"

definition hl_inv :: "('v, 'k) hs_traits \<Rightarrow> 'v hl_state \<Rightarrow> ('v, 'k) hl_pc list \<Rightarrow> bool" where
  [inv_defs]: "hl_inv T s ps \<longleftrightarrow> hs_inv T (hl_storage s) (map hl_abs_pc ps)
     \<and> length (hl_guards s) = buckets_count T
     \<and> (\<forall>c < buckets_count T. rw_inv (hl_guards s ! c) (map (hl_lock_pc T c) ps))
     \<and> (\<forall>p \<in> set ps. hl_pc_ok T (hl_storage s) p)"

text \<open>From unchanged lists the rest of a section does what the section does.\<close>

lemma hs_move_bucket:
  assumes "hl_section T q = Some (i, False)" "i < length (hs_storage s)" "hs_move T q s = (q', s')"
  shows "bucket (hs_storage s' ! i) = bucket (hs_storage s ! i) \<and> length (hs_storage s') = length (hs_storage s)"
  using assms by (cases q) (auto split: if_splits)

lemma hs_set_bucket_id [simp]: "hs_set_bucket i (hs_storage s ! i) s = s"
  by (simp add: hs_set_bucket_def)

lemma hl_body_move:
  assumes "hl_section T q = Some (i, ex)" "i < length (hs_storage s)"
  shows "hl_body T i ex q (bucket (hs_storage s ! i)) s = hs_move T q s"
proof -
  obtain q' s' where m: "hs_move T q s = (q', s')" by (cases "hs_move T q s")
  have same: "(hs_storage t ! i)\<lparr>bucket := bucket (hs_storage t ! i)\<rparr> = hs_storage t ! i" for t :: "'a hash_storage"
    by simp
  show ?thesis
  proof (cases ex)
    case True
    with m show ?thesis by (simp add: hl_body_def same)
  next
    case False
    with hs_move_bucket [of T q i s q' s'] assms m have "bucket (hs_storage s' ! i) = bucket (hs_storage s ! i)" by simp
    then have "(hs_storage s' ! i)\<lparr>bucket := bucket (hs_storage s ! i)\<rparr> = hs_storage s' ! i"
      using same [of s'] by simp
    with m False show ?thesis by (simp add: hl_body_def same)
  qed
qed

text \<open>Outside the sections no collision list changes; inside an exclusive one, only its bucket.\<close>

lemma nth_update_same: "f y = f (xs ! i) \<Longrightarrow> f (xs[i := y] ! j) = f (xs ! j)"
  by (cases "i < length xs"; cases "i = j") (simp_all add: not_less list_update_beyond)

lemma hs_step_bucket:
  assumes "(q', s') \<in> set (hs_step T calls t q s)" "hl_section T q = None"
  shows "bucket (hs_storage s' ! j) = bucket (hs_storage s ! j)"
  using assms
  by (cases q) (auto simp: hs_step_def hs_set_bucket_def nth_update_same [of bucket] split: if_splits)

lemma hs_move_other:
  assumes "hl_section T q = Some (i, ex)" "hs_move T q s = (q', s')" "i \<noteq> j"
  shows "bucket (hs_storage s' ! j) = bucket (hs_storage s ! j)"
  using assms
  by (cases q)
    (auto simp: emplace_locked_def hs_remove_def hs_bucket_def Let_def hs_set_bucket_def split: if_splits)

lemma hl_section_step: "hl_section T q = Some x \<Longrightarrow> hs_step T calls t q s = [hs_move T q s]"
  by (cases q) (auto simp: hs_step_def split: if_splits)

text \<open>The four kinds of steps.\<close>

lemma hl_step_cases:
  assumes st: "(p', s') \<in> set (hl_step T calls t p s)" and ok: "hl_pc_ok T (hl_storage s) p"
    and len: "length (hs_storage (hl_storage s)) = buckets_count T"
    and bound: "\<And>i ex. hl_section T (hl_abs_pc p) = Some (i, ex) \<Longrightarrow> i < buckets_count T"
  obtains (out) q q' st' where "p = HlOut q" "p' = HlOut q'" "hl_section T q = None"
      "(q', st') \<in> set (hs_step T calls t q (hl_storage s))" "s' = s\<lparr>hl_storage := st'\<rparr>"
    | (lock) i m where "i < buckets_count T" "s' = s\<lparr>hl_guards := (hl_guards s)[i := m]\<rparr>"
      "hl_abs_pc p' = hl_abs_pc p" "\<nexists>q b. p' = HlMid q b"
      "(hl_lock_pc T i p', m) = (hl_lock_pc T i p, hl_guards s ! i)
        \<or> (hl_lock_pc T i p', m) \<in> set (rw_step t (hl_lock_pc T i p) (hl_guards s ! i))"
      "\<And>c. c \<noteq> i \<Longrightarrow> hl_lock_pc T c p' = hl_lock_pc T c p" "hl_pc_ok T (hl_storage s) p'"
    | (read) q i ex where "p = HlIn q" "hl_section T q = Some (i, ex)"
      "p' = HlMid q (bucket (hs_storage (hl_storage s) ! i))" "s' = s"
    | (body) q b i ex q' st' where "p = HlMid q b" "p' = HlDone q q'" "hl_section T q = Some (i, ex)"
      "hs_move T q (hl_storage s) = (q', st')" "s' = s\<lparr>hl_storage := st'\<rparr>"
proof (cases p)
  case (HlOut q)
  show thesis
  proof (cases "hl_section T q")
    case None
    with HlOut st out show thesis by (auto simp: hl_step_def)
  next
    case (Some x)
    obtain i ex where x: "x = (i, ex)" by (cases x)
    define r where "r = (if ex then WrTry else RdTry)"
    have p': "p' = HlLock r q" "s' = s" using HlOut st Some x by (simp_all add: hl_step_def r_def)
    show thesis
    proof (rule lock)
      show "i < buckets_count T" using bound HlOut Some x by simp
      show "s' = s\<lparr>hl_guards := (hl_guards s)[i := hl_guards s ! i]\<rparr>" using p' by simp
      show "(hl_lock_pc T i p', hl_guards s ! i) = (hl_lock_pc T i p, hl_guards s ! i)
        \<or> (hl_lock_pc T i p', hl_guards s ! i) \<in> set (rw_step t (hl_lock_pc T i p) (hl_guards s ! i))"
        using p' HlOut Some x by (simp add: hl_lock_pc_def rw_step_def r_def)
      show "hl_pc_ok T (hl_storage s) p'" using p' Some x bound HlOut by (simp add: hl_pc_ok_def r_def)
    qed (use p' HlOut Some x in \<open>simp_all add: hl_lock_pc_def\<close>)
  qed
next
  case (HlLock l q)
  with ok obtain i ex where i: "hl_section T q = Some (i, ex)" "i < buckets_count T"
    "l \<in> (if ex then {WrTry, WrUndo, WrSpin} else {RdTry, RdUndo, RdSpin})"
    by (auto simp: hl_pc_ok_def split: option.splits)
  obtain l' m where l': "hl_acquire ex l (hl_guards s ! i) = (l', m)"
    by (cases "hl_acquire ex l (hl_guards s ! i)")
  have p': "p' = (if l' = WrHeld \<or> l' = RdHeld then HlIn q else HlLock l' q)"
    "s' = s\<lparr>hl_guards := (hl_guards s)[i := m]\<rparr>"
    using st HlLock i(1) l' by (simp_all add: hl_step_def)
  have l: "if ex then l' \<in> {WrTry, WrUndo, WrSpin, WrHeld} else l' \<in> {RdTry, RdUndo, RdSpin, RdHeld}"
    "rw_step t l (hl_guards s ! i) = [(l', m)]"
    using i(3) l' by (auto simp: rw_step_def split: if_splits)
  show thesis
  proof (rule lock)
    show "(hl_lock_pc T i p', m) = (hl_lock_pc T i p, hl_guards s ! i)
        \<or> (hl_lock_pc T i p', m) \<in> set (rw_step t (hl_lock_pc T i p) (hl_guards s ! i))"
      using p' HlLock i(1) l by (auto simp: hl_lock_pc_def split: if_splits)
    show "hl_pc_ok T (hl_storage s) p'" using p' i l by (auto simp: hl_pc_ok_def)
  qed (use p' HlLock i in \<open>simp_all add: hl_lock_pc_def\<close>)
next
  case (HlIn q)
  with ok st read show thesis by (auto simp: hl_step_def hl_pc_ok_def split: option.splits)
next
  case (HlMid q b)
  with ok obtain i ex where i: "hl_section T q = Some (i, ex)" "i < buckets_count T"
    "b = bucket (hs_storage (hl_storage s) ! i)"
    by (auto simp: hl_pc_ok_def split: option.splits)
  obtain q' st' where m: "hs_move T q (hl_storage s) = (q', st')" by (cases "hs_move T q (hl_storage s)")
  have "hl_body T i ex q b (hl_storage s) = (q', st')" using hl_body_move [OF i(1)] i(2,3) len m by simp
  then have "p' = HlDone q q'" "s' = s\<lparr>hl_storage := st'\<rparr>" using HlMid st i(1) by (simp_all add: hl_step_def)
  with body HlMid i(1) m show thesis by blast
next
  case (HlDone q q')
  with ok obtain i ex where i: "hl_section T q = Some (i, ex)" "i < buckets_count T"
    by (auto simp: hl_pc_ok_def split: option.splits)
  have p': "p' = HlOut q'" "s' = s\<lparr>hl_guards := (hl_guards s)[i := hl_release ex (hl_guards s ! i)]\<rparr>"
    using st HlDone i(1) by (simp_all add: hl_step_def)
  show thesis
  proof (rule lock)
    show "(hl_lock_pc T i p', hl_release ex (hl_guards s ! i)) = (hl_lock_pc T i p, hl_guards s ! i)
        \<or> (hl_lock_pc T i p', hl_release ex (hl_guards s ! i)) \<in> set (rw_step t (hl_lock_pc T i p) (hl_guards s ! i))"
      using p' HlDone i(1) by (simp add: hl_lock_pc_def rw_step_def)
  qed (use p' HlDone i in \<open>simp_all add: hl_lock_pc_def hl_pc_ok_def\<close>)
qed

text \<open>A thread that has read its lists keeps them to itself: nobody else writes them.\<close>

lemma hl_pc_ok_keep:
  assumes "hl_pc_ok T s p" "\<And>q b i ex. p = HlMid q b \<Longrightarrow> hl_section T q = Some (i, ex) \<Longrightarrow>
      bucket (hs_storage s' ! i) = bucket (hs_storage s ! i)"
  shows "hl_pc_ok T s' p"
  using assms by (auto simp: hl_pc_ok_def split: option.splits)

lemma hs_pc_section:
  "hs_pc_ok T s q \<Longrightarrow> 0 < buckets_count T \<Longrightarrow> hl_section T q = Some (i, ex) \<Longrightarrow> i < buckets_count T"
  by (cases q) (auto simp: hs_index_def split: if_splits)

context hash_traits
begin

lemma code_over_locks:
  "simulation (hl_step T calls) (hl_start T) (hl_inv T) (hs_step T calls) (hs_start T) hl_storage hl_abs_pc"
proof
  fix s :: "'v hl_state" and ps
  assume st: "hl_start T (s, ps)"
  then show a: "hs_start T (hl_storage s, map hl_abs_pc ps)"
    by (auto simp: hl_start_def hs_start_def hl_init_def)
  have "hs_inv T (hl_storage s) (map hl_abs_pc ps)"
    using a by (auto simp: hs_start_def init_inv)
  moreover have "rw_inv rw_init (map (hl_lock_pc T c) ps)" for c
    using st by (intro rw.start_inv) (auto simp: rw_start_def hl_start_def hl_lock_pc_def)
  ultimately show "hl_inv T s ps"
    using st by (auto simp: hl_inv_def hl_start_def hl_init_def hl_pc_ok_def)
next
  fix s :: "'v hl_state" and ps t p' s'
  assume inv: "hl_inv T s ps" and t: "t < length ps" and st: "(p', s') \<in> set (hl_step T calls t (ps ! t) s)"
  have hs: "hs_inv T (hl_storage s) (map hl_abs_pc ps)" and len: "length (hl_guards s) = buckets_count T"
    and rw: "\<forall>c < buckets_count T. rw_inv (hl_guards s ! c) (map (hl_lock_pc T c) ps)"
    and oks: "\<forall>p \<in> set ps. hl_pc_ok T (hl_storage s) p"
    using inv by (simp_all add: hl_inv_def)
  have ok: "hl_pc_ok T (hl_storage s) (ps ! t)" using oks t by simp
  have slen: "length (hs_storage (hl_storage s)) = buckets_count T" using hs unfolding hs_inv_def hs_mem_def by blast
  have "hs_pc_ok T (hl_storage s) (hl_abs_pc (ps ! t))" using hs t by (simp add: hs_inv_def)
  then have bound: "i < buckets_count T" if "hl_section T (hl_abs_pc (ps ! t)) = Some (i, ex)" for i ex
    using that by (rule hs_pc_section [OF _ buckets_pos])
  have pcs: "\<forall>p \<in> set (ps[t := p']). hl_pc_ok T (hl_storage s') p"
    if new: "hl_pc_ok T (hl_storage s') p'"
      and others: "\<And>u q b i ex. u < length ps \<Longrightarrow> u \<noteq> t \<Longrightarrow> ps ! u = HlMid q b \<Longrightarrow> hl_section T q = Some (i, ex) \<Longrightarrow>
        i < buckets_count T \<Longrightarrow> bucket (hs_storage (hl_storage s') ! i) = bucket (hs_storage (hl_storage s) ! i)"
  proof
    fix p assume "p \<in> set (ps[t := p'])"
    then obtain u where u: "u < length ps" "ps[t := p'] ! u = p" by (auto simp: in_set_conv_nth)
    show "hl_pc_ok T (hl_storage s') p"
    proof (cases "u = t")
      case True
      with u new show ?thesis by simp
    next
      case False
      with u have p: "p = ps ! u" by simp
      have "hl_pc_ok T (hl_storage s) p" using oks u(1) p by simp
      then show ?thesis
      proof (rule hl_pc_ok_keep)
        fix q b i ex assume q: "p = HlMid q b" "hl_section T q = Some (i, ex)"
        then have "i < buckets_count T" using \<open>hl_pc_ok T (hl_storage s) p\<close> by (simp add: hl_pc_ok_def)
        with q p show "bucket (hs_storage (hl_storage s') ! i) = bucket (hs_storage (hl_storage s) ! i)"
          using others [OF u(1) False] by metis
      qed
    qed
  qed
  have all: "((hl_abs_pc p', hl_storage s') = (hl_abs_pc (ps ! t), hl_storage s)
        \<or> (hl_abs_pc p', hl_storage s') \<in> set (hs_step T calls t (hl_abs_pc (ps ! t)) (hl_storage s)))
      \<and> length (hl_guards s') = buckets_count T
      \<and> (\<forall>c < buckets_count T. rw_inv (hl_guards s' ! c) (map (hl_lock_pc T c) (ps[t := p'])))
      \<and> (\<forall>p \<in> set (ps[t := p']). hl_pc_ok T (hl_storage s') p)"
  proof (cases rule: hl_step_cases [OF st ok slen bound, consumes 0, case_names asm out lock read body])
    case (out q q' st')
    have "\<forall>c < buckets_count T. rw_inv ((hl_guards s)[0 := hl_guards s ! 0] ! c) (map (hl_lock_pc T c) (ps[t := p']))"
      by (rule rw_array_keeps [OF rw len t]) (use out in \<open>simp_all add: hl_lock_pc_def\<close>)
    moreover have "\<forall>p \<in> set (ps[t := p']). hl_pc_ok T (hl_storage s') p"
      by (rule pcs) (use out hs_step_bucket [OF out(4,3)] in \<open>simp_all add: hl_pc_ok_def\<close>)
    ultimately show ?thesis using out len by simp
  next
    case (lock i m)
    have "\<forall>c < buckets_count T. rw_inv ((hl_guards s)[i := m] ! c) (map (hl_lock_pc T c) (ps[t := p']))"
      by (rule rw_array_keeps [OF rw len t lock(5,6)])
    moreover have "\<forall>p \<in> set (ps[t := p']). hl_pc_ok T (hl_storage s') p"
      by (rule pcs) (use lock in simp_all)
    ultimately show ?thesis using lock len by simp
  next
    case (read q i ex)
    have "\<forall>c < buckets_count T. rw_inv ((hl_guards s)[i := hl_guards s ! i] ! c) (map (hl_lock_pc T c) (ps[t := p']))"
      by (rule rw_array_keeps [OF rw len t]) (use read in \<open>simp_all add: hl_lock_pc_def\<close>)
    moreover have "\<forall>p \<in> set (ps[t := p']). hl_pc_ok T (hl_storage s') p"
      by (rule pcs) (use read ok in \<open>simp_all add: hl_pc_ok_def\<close>)
    ultimately show ?thesis using read len by simp
  next
    case (body q b i ex q' st')
    have i: "i < buckets_count T" using bound body(1,3) by simp
    have "\<forall>c < buckets_count T. rw_inv ((hl_guards s)[i := hl_guards s ! i] ! c) (map (hl_lock_pc T c) (ps[t := p']))"
      by (rule rw_array_keeps [OF rw len t]) (use body in \<open>simp_all add: hl_lock_pc_def\<close>)
    moreover have "\<forall>p \<in> set (ps[t := p']). hl_pc_ok T (hl_storage s') p"
    proof (rule pcs)
      show "hl_pc_ok T (hl_storage s') p'" using body i by (simp add: hl_pc_ok_def)
      fix u q2 b2 j ex2
      assume u: "u < length ps" "u \<noteq> t" "ps ! u = HlMid q2 b2" "hl_section T q2 = Some (j, ex2)" "j < buckets_count T"
      show "bucket (hs_storage (hl_storage s') ! j) = bucket (hs_storage (hl_storage s) ! j)"
      proof (cases "i = j")
        case False
        with hs_move_other [OF body(3,4)] body(5) show ?thesis by simp
      next
        case True
        have "\<not> ex"
        proof
          assume ex
          then have "rw_writing (map (hl_lock_pc T i) ps ! t)" using t body(1,3) by (simp add: hl_lock_pc_def)
          from rw.inv_writer [OF rw [rule_format, OF i], of t u, OF _ _ _ this] t u True
          show False by (auto simp: hl_lock_pc_def split: if_splits)
        qed
        with hs_move_bucket [of T q i "hl_storage s" q' st'] body i slen True show ?thesis by simp
      qed
    qed
    moreover have "(q', st') \<in> set (hs_step T calls t q (hl_storage s))"
      using hl_section_step [OF body(3), of calls t "hl_storage s"] body(4) by simp
    ultimately show ?thesis using body len by simp
  qed
  note sim = code_is_atomic_map [of calls]
  have "hs_inv T (hl_storage s') (map hl_abs_pc (ps[t := p']))"
    by (rule protocol.keeps_inside [OF simulation.axioms(1) [OF sim] hs t]) (use all in blast)
  with all show "hl_inv T s' (ps[t := p'])" by (simp add: hl_inv_def)
  show "(hl_abs_pc p', hl_storage s') = (hl_abs_pc (ps ! t), hl_storage s)
        \<or> (hl_abs_pc p', hl_storage s') \<in> set (hs_step T calls t (hl_abs_pc (ps ! t)) (hl_storage s))"
    using all by blast
qed

end

interpretation hmap_locks: simulation "hl_step (map_traits h) calls" "hl_start (map_traits h)"
  "hl_inv (map_traits h)" "hs_step (map_traits h) calls" "hs_start (map_traits h)" hl_storage hl_abs_pc
  by (rule hmap.code_over_locks)

interpretation hset_locks: simulation "hl_step (set_traits h) calls" "hl_start (set_traits h)"
  "hl_inv (set_traits h)" "hs_step (set_traits h) calls" "hs_start (set_traits h)" hl_storage hl_abs_pc
  by (rule hset.code_over_locks)


section \<open>Properties\<close>

text \<open>C2. \<open>hash_map\<close> over its \<open>rw_spinlock\<close>s, with fewer than 4096 threads: every execution,
  access by access, of the locks and of the sections is one in which a section is a single step, and
  so one of the atomic map; and while a thread is between reading the lists of a bucket and
  writing them, no other thread is inside a section of that bucket.\<close>

theorem hash_map_over_locks:
  assumes "reach (hl_start (map_traits h)) (interleave (hl_step (map_traits h) calls)) (s, ps)"
  shows "reach (hs_start (map_traits h)) (interleave (hs_step (map_traits h) calls)) (hl_storage s, map hl_abs_pc ps)
    \<and> reach am_start (interleave (am_step kv_key calls))
        (hs_abs (map_traits h) (hl_storage s), map hs_abs_pc (map hl_abs_pc ps))
    \<and> (\<forall>t < length ps. \<forall>u < length ps. \<forall>q b i q' b' ex. ps ! t = HlMid q b \<and> hl_section (map_traits h) q = Some (i, True)
        \<and> ps ! u = HlMid q' b' \<and> hl_section (map_traits h) q' = Some (i, ex) \<longrightarrow> t = u)"
proof (intro conjI allI impI)
  show r: "reach (hs_start (map_traits h)) (interleave (hs_step (map_traits h) calls)) (hl_storage s, map hl_abs_pc ps)"
    using hmap_locks.reach_abs [OF assms] by simp
  show "reach am_start (interleave (am_step kv_key calls))
        (hs_abs (map_traits h) (hl_storage s), map hs_abs_pc (map hl_abs_pc ps))"
    using hmap_sim.reach_abs [OF r] by simp
  fix t u q b i q' b' ex
  assume tu: "t < length ps" "u < length ps" and *: "ps ! t = HlMid q b \<and> hl_section (map_traits h) q = Some (i, True)
        \<and> ps ! u = HlMid q' b' \<and> hl_section (map_traits h) q' = Some (i, ex)"
  note inv = hmap_locks.reach_inv [OF assms]
  have "hl_pc_ok (map_traits h) (hl_storage s) (ps ! t)" using inv tu(1) by (simp add: hl_inv_def)
  then have "i < buckets_count (map_traits h)" using * by (simp add: hl_pc_ok_def)
  then have "rw_inv (hl_guards s ! i) (map (hl_lock_pc (map_traits h) i) ps)" using inv unfolding hl_inv_def by blast
  from rw.inv_writer [OF this, of t u] tu * show "t = u"
    by (cases ex) (auto simp: hl_lock_pc_def)
qed

text \<open>Two threads emplace into one bucket; the second one's attempt to lock fails meanwhile.\<close>

theorem hash_map_over_locks_witness:
  "\<exists>s. run_sched (hl_step (map_traits (\<lambda>k. k)) (\<lambda>t. [CallEmplace \<lparr>kv_key = of_nat (8 * t), kv_value = t\<rparr>]))
      (map (\<lambda>t. (t, 0)) [0, 0, 0, 1, 1, 1, 0, 0, 1, 0]) (hl_init (map_traits (\<lambda>k. k)), [HlOut HsIdle, HlOut HsIdle])
      = Some (s, [HlOut (HsResize 0), HlLock WrSpin (HsEmplace \<lparr>kv_key = 8, kv_value = 1\<rparr>)])
    \<and> reach am_start (interleave (am_step kv_key (\<lambda>t. [CallEmplace \<lparr>kv_key = of_nat (8 * t), kv_value = t\<rparr>])))
        (hs_abs (map_traits (\<lambda>k. k)) (hl_storage s), [AmInserted, AmEmplace \<lparr>kv_key = 8, kv_value = 1\<rparr>])"
proof -
  let ?T = "map_traits (\<lambda>k. k) :: ((u64, nat) key_value, u64) hs_traits"
  let ?calls = "\<lambda>t. [CallEmplace \<lparr>kv_key = of_nat (8 * t), kv_value = t\<rparr>]"
  let ?ps = "[HlOut (HsResize 0), HlLock WrSpin (HsEmplace \<lparr>kv_key = 8, kv_value = 1\<rparr>)]"
  let ?run = "run_sched (hl_step ?T ?calls) (map (\<lambda>t. (t, 0)) [0, 0, 0, 1, 1, 1, 0, 0, 1, 0])
      (hl_init ?T, [HlOut HsIdle, HlOut HsIdle])"
  have "map_option snd ?run = Some ?ps"
    by (simp add: run_defs hl_step_def hl_init_def hl_body_def rw_init_def rw_writer_bits_def rw_unlock_def)
  then obtain s where s: "?run = Some (s, ?ps)" by auto
  have "reach (hl_start ?T) (interleave (hl_step ?T ?calls)) (s, ?ps)"
    by (rule run_sched_reach_start [OF _ s]) (simp add: hl_start_def)
  from hash_map_over_locks [OF this] s show ?thesis by auto
qed

end
