(* ===== verification/Event.thy ===== *)
theory Event
  imports Prelude
begin

text \<open>
  \<open>synchronization/event.h\<close>, both platforms: on Windows an event of the system that resets itself
  when a wait ends, elsewhere a condition variable with nothing to remember a \<open>set\<close>. One thread
  waits. \<open>waiting_time\<close> is in milliseconds; \<open>expired\<close> says that it has run out and
  \<open>spurious\<close> that a condition variable wakes up by itself.
\<close>

datatype event_kind = Condition_Variable | Windows_Event

record event =
  ev_signalled :: bool    \<comment> \<open>Windows: the event is set\<close>
  ev_waiting :: bool      \<comment> \<open>condition variable: its thread is blocked in \<open>m_cv\<close>\<close>

definition event_init :: event where
  "event_init = \<lparr>ev_signalled = False, ev_waiting = False\<rparr>"

fun event_set :: "event_kind \<Rightarrow> event \<Rightarrow> event" where
  "event_set Condition_Variable e = e\<lparr>ev_waiting := False\<rparr>"
| "event_set Windows_Event e = e\<lparr>ev_signalled := True\<rparr>"

text \<open>\<open>reset\<close>, which only the Windows class has.\<close>

definition event_reset :: "event \<Rightarrow> event" where
  "event_reset e = e\<lparr>ev_signalled := False\<rparr>"

text \<open>The default of \<open>waiting_time\<close>, and whether a wait with it can time out: \<open>wait_for\<close> is called
  when it is positive; \<open>WaitForSingleObject\<close> waits for ever for \<open>INFINITE\<close>, all bits set.\<close>

fun default_waiting_time :: "event_kind \<Rightarrow> int" where
  "default_waiting_time Condition_Variable = - 1"
| "default_waiting_time Windows_Event = 2 ^ 31 - 1"

fun event_timed :: "event_kind \<Rightarrow> int \<Rightarrow> bool" where
  "event_timed Condition_Variable waiting_time = (0 < waiting_time)"
| "event_timed Windows_Event waiting_time = ((of_int waiting_time :: u32) \<noteq> - 1)"

text \<open>Entering \<open>wait\<close>.\<close>

fun event_wait :: "event_kind \<Rightarrow> event \<Rightarrow> event" where
  "event_wait Condition_Variable e = e\<lparr>ev_waiting := True\<rparr>"
| "event_wait Windows_Event e = e"

text \<open>Leaving \<open>wait\<close>, with what it returns.\<close>

fun event_leave :: "event_kind \<Rightarrow> int \<Rightarrow> bool \<Rightarrow> bool \<Rightarrow> event \<Rightarrow> (bool \<times> event) list" where
  "event_leave Condition_Variable waiting_time expired spurious e =
     (if ev_waiting e \<and> \<not> spurious \<and> \<not> (expired \<and> event_timed Condition_Variable waiting_time) then []
      else [(True, e\<lparr>ev_waiting := False\<rparr>)])"
| "event_leave Windows_Event waiting_time expired spurious e =
     (if ev_signalled e then [(True, e\<lparr>ev_signalled := False\<rparr>)]
      else if expired \<and> event_timed Windows_Event waiting_time then [(False, e)] else [])"

lemma event_default_timed: "event_timed k (default_waiting_time k) \<longleftrightarrow> k = Windows_Event"
  by (cases k) simp_all


section \<open>Properties\<close>

text \<open>A sequence of calls of \<open>set\<close> and \<open>reset\<close> by other threads.\<close>

fun event_calls :: "event_kind \<Rightarrow> bool list \<Rightarrow> event \<Rightarrow> event" where
  "event_calls k [] e = e"
| "event_calls k (True # cs) e = event_calls k cs (event_set k e)"
| "event_calls k (False # cs) e = event_calls k cs (event_reset e)"

lemma event_calls_windows:
  "event_calls Windows_Event cs e = e\<lparr>ev_signalled := last (ev_signalled e # cs)\<rparr>"
proof (induction cs arbitrary: e)
  case (Cons c cs)
  then show ?case by (cases c) (auto simp: event_reset_def)
qed simp

lemma event_calls_waiting:
  "ev_waiting (event_calls Condition_Variable cs e) \<longleftrightarrow> ev_waiting e \<and> True \<notin> set cs"
proof (induction cs arbitrary: e)
  case (Cons c cs)
  then show ?case by (cases c) (auto simp: event_reset_def)
qed simp

text \<open>What ends a wait. On Windows: the last of the calls of \<open>set\<close> and \<open>reset\<close>, before the
  wait or during it, decides; the wait then returns true and uses the event up, and the next one
  waits. With the condition variable a \<open>set\<close> during the wait ends it, and one before it is lost.
  A time-out makes \<open>wait\<close> return false on Windows and true with the condition variable, as after a
  \<open>set\<close>.\<close>

theorem event_wakes:
  "event_leave Windows_Event w False sp (event_calls Windows_Event cs (event_wait Windows_Event (event_calls Windows_Event cs' e)))
      = (if last (ev_signalled e # cs' @ cs) then [(True, e\<lparr>ev_signalled := False\<rparr>)] else [])
    \<and> event_leave Windows_Event w False sp (e\<lparr>ev_signalled := False\<rparr>) = []
    \<and> event_leave Condition_Variable w False False
        (event_calls Condition_Variable cs (event_wait Condition_Variable (event_calls Condition_Variable cs' e)))
      = (if True \<in> set cs
         then [(True, event_calls Condition_Variable cs (event_wait Condition_Variable (event_calls Condition_Variable cs' e)))]
         else [])
    \<and> event_leave k w True False (event_wait k event_init)
      = (if event_timed k w then [(k = Condition_Variable, event_init)] else [])"
proof (intro conjI)
  let ?e = "event_calls Condition_Variable cs (event_wait Condition_Variable (event_calls Condition_Variable cs' e))"
  have "ev_waiting ?e \<longleftrightarrow> True \<notin> set cs" by (simp add: event_calls_waiting)
  moreover from this have "?e\<lparr>ev_waiting := False\<rparr> = ?e" if "True \<in> set cs" using that by (cases ?e) simp
  ultimately show "event_leave Condition_Variable w False False ?e = (if True \<in> set cs then [(True, ?e)] else [])" by simp
  show "event_leave k w True False (event_wait k event_init) = (if event_timed k w then [(k = Condition_Variable, event_init)] else [])"
    by (cases k) (simp_all add: event_init_def)
qed (auto simp: event_calls_windows)

end
