(* ===== verification/Thread_Pool.thy ===== *)
theory Thread_Pool
  imports Interfaces Event "HOL-Library.Multiset"
begin

text \<open>
  \<open>runtime/threadpool.h\<close>, over the events of \<open>Event\<close>. The threads \<open>0, ..., n - 1\<close> are the
  \<open>queued_thread\<close>s of a \<open>thread_pool\<close> of \<open>n\<close> threads, the others are clients in
  \<open>add_work\<close>, and client \<open>n\<close> may call \<open>destroy\<close> once. A section under \<open>m_queue_guard\<close> (a
  \<open>spinlock\<close>) is one step; \<open>tp_locked\<close> says that \<open>destroy\<close> holds the guard while it deletes the
  threads. A \<open>work_wrapper\<close> is an address, \<open>work_impl\<close> maps it to its function, and
  \<open>tp_done\<close> lists the functions called, \<open>tp_added\<close> those that were put into a wrapper. The
  pool of wrappers is a bounded queue on lists, which is what the model of \<open>mpmc_bounded_queue\<close>
  is for calls that do not overlap; with \<open>spurious\<close> it is also what that queue is for calls that
  do: they may fail, and take the values in another order; and a wait may end by itself, by a spurious
  wake-up of the condition variable or, on Windows, when the default waiting time has run out.
\<close>

section \<open>The pool\<close>

record 'a tp_state =
  work_wrapper_pool :: "nat list"
  work_impl :: "nat \<Rightarrow> 'a option"
  tp_fresh :: nat
  tp_queued_work :: "nat list"
  free_threads :: "nat list"
  all_threads :: "nat list"
  tp_locked :: bool
  time_to_die :: bool
  thread_work :: "nat \<Rightarrow> nat option"     \<comment> \<open>\<open>m_queued_work\<close> of each thread\<close>
  wait_event :: "nat \<Rightarrow> event"
  thread_time_to_die :: "nat \<Rightarrow> bool"
  thread_exited :: "nat \<Rightarrow> bool"
  tp_done :: "'a list"
  tp_added :: "'a list"

datatype 'a tp_pc =
  QTop                  \<comment> \<open>run: before \<open>m_time_to_die.load\<close>\<close>
| QLoad                 \<comment> \<open>run: before \<open>m_queued_work.load\<close>\<close>
| QClear "nat option"   \<comment> \<open>run: before \<open>m_queued_work = nullptr\<close>\<close>
| QExec nat             \<comment> \<open>run: before \<open>current_work->work_impl()\<close>\<close>
| QReturn nat           \<comment> \<open>run: before \<open>return_wrapper_to_pool\<close>\<close>
| QAsk                  \<comment> \<open>run: before \<open>return_or_get\<close>\<close>
| QWait                 \<comment> \<open>run: before \<open>m_wait_event.wait\<close>\<close>
| QBlocked              \<comment> \<open>run: in \<open>m_wait_event.wait\<close>\<close>
| QExit
| QAssert
| CIdle
| CAdd 'a               \<comment> \<open>add_work: before \<open>m_time_to_die.load\<close>\<close>
| CWrapper 'a           \<comment> \<open>add_work: before \<open>try_dequeue\<close> of the pool of wrappers\<close>
| CFill nat 'a          \<comment> \<open>add_work: before \<open>work_impl\<close> is set\<close>
| CPlace nat            \<comment> \<open>add_work: before the section under the guard\<close>
| CStore nat nat        \<comment> \<open>perform: before \<open>m_queued_work.store\<close>\<close>
| CSet nat              \<comment> \<open>perform: before \<open>m_wait_event.set\<close>\<close>
| DsClear               \<comment> \<open>destroy: before its first section\<close>
| DsTest                \<comment> \<open>destroy: before the comparison of the sizes\<close>
| DsLock                \<comment> \<open>destroy: before it takes the guard for good\<close>
| DsDelete "nat list"   \<comment> \<open>destroy: the threads still to delete\<close>
| DsSet "nat list"      \<comment> \<open>shutdown: before \<open>m_wait_event.set\<close>\<close>
| DsJoin "nat list"
| DsWrappers            \<comment> \<open>destroy: before \<open>try_dequeue\<close> of the pool of wrappers\<close>
| DsDrop nat            \<comment> \<open>destroy: before \<open>delete w\<close>\<close>
| DsEnd

definition tp_init :: "nat \<Rightarrow> 'a tp_state" where
  "tp_init n = \<lparr>work_wrapper_pool = [], work_impl = Map.empty, tp_fresh = 0, tp_queued_work = [],
     free_threads = [0..<n], all_threads = [0..<n], tp_locked = False, time_to_die = False,
     thread_work = (\<lambda>t. None), wait_event = (\<lambda>t. event_init), thread_time_to_die = (\<lambda>t. False),
     thread_exited = (\<lambda>t. False), tp_done = [], tp_added = []\<rparr>"

definition wrapper_pool_size :: nat where
  "wrapper_pool_size = 1024"

text \<open>\<open>try_dequeue\<close> and \<open>try_enqueue\<close> of the pool of wrappers.\<close>

definition wrapper_deq :: "bool \<Rightarrow> nat list \<Rightarrow> (nat option \<times> nat list) list" where
  "wrapper_deq sp ws = spec_deq ws #
     (if sp then (None, ws) # map (\<lambda>j. (Some (ws ! j), take j ws @ drop (Suc j) ws)) [0..<length ws] else [])"

definition wrapper_enq :: "bool \<Rightarrow> nat \<Rightarrow> nat list \<Rightarrow> (bool \<times> nat list) list" where
  "wrapper_enq sp w ws = spec_enq wrapper_pool_size w ws # (if sp then [(False, ws)] else [])"

definition return_wrapper_to_pool :: "bool \<Rightarrow> nat \<Rightarrow> 'a tp_state \<Rightarrow> (bool \<times> 'a tp_state) list" where
  "return_wrapper_to_pool sp w s =
     map (\<lambda>(ok, ws). (ok, s\<lparr>work_wrapper_pool := ws\<rparr>)) (wrapper_enq sp w (work_wrapper_pool s))"

definition return_or_get :: "nat \<Rightarrow> 'a tp_state \<Rightarrow> nat option \<times> 'a tp_state" where
  "return_or_get this s =
     (case tp_queued_work s of
        w # ws \<Rightarrow> (Some w, s\<lparr>tp_queued_work := ws\<rparr>)
      | [] \<Rightarrow> (None, s\<lparr>free_threads := free_threads s @ [this]\<rparr>))"

text \<open>\<open>queued_thread::run\<close> of the thread \<open>this\<close>.\<close>

fun qt_run :: "event_kind \<Rightarrow> bool \<Rightarrow> nat \<Rightarrow> 'a tp_pc \<Rightarrow> 'a tp_state \<Rightarrow> ('a tp_pc \<times> 'a tp_state) list" where
  "qt_run k sp this QTop s =
     (if thread_time_to_die s this then [(QExit, s\<lparr>thread_exited := (thread_exited s)(this := True)\<rparr>)]
      else [(QLoad, s)])"
| "qt_run k sp this QLoad s = [(QClear (thread_work s this), s)]"
| "qt_run k sp this (QClear cur) s =
     [(case cur of None \<Rightarrow> QWait | Some w \<Rightarrow> QExec w, s\<lparr>thread_work := (thread_work s)(this := None)\<rparr>)]"
| "qt_run k sp this (QExec w) s =
     [(QReturn w, s\<lparr>tp_done := tp_done s @ (case work_impl s w of None \<Rightarrow> [] | Some f \<Rightarrow> [f])\<rparr>)]"
| "qt_run k sp this (QReturn w) s =
     map (\<lambda>(ok, s'). (if ok then QAsk else QAssert, s')) (return_wrapper_to_pool sp w s)"
| "qt_run k sp this QAsk s =
     (if tp_locked s then []
      else case return_or_get this s of (cur, s') \<Rightarrow> [(case cur of None \<Rightarrow> QWait | Some w \<Rightarrow> QExec w, s')])"
| "qt_run k sp this QWait s =
     [(QBlocked, s\<lparr>wait_event := (wait_event s)(this := event_wait k (wait_event s this))\<rparr>)]"
| "qt_run k sp this QBlocked s =
     map (\<lambda>(r, e). (QTop, s\<lparr>wait_event := (wait_event s)(this := e)\<rparr>))
       (event_leave k (default_waiting_time k) sp sp (wait_event s this))"
| "qt_run k sp this p s = []"

definition tp_set :: "event_kind \<Rightarrow> nat \<Rightarrow> 'a tp_state \<Rightarrow> 'a tp_state" where
  "tp_set k t s = s\<lparr>wait_event := (wait_event s)(t := event_set k (wait_event s t))\<rparr>"

text \<open>\<open>queued_thread::perform\<close>.\<close>

fun qt_perform :: "event_kind \<Rightarrow> 'a tp_pc \<Rightarrow> 'a tp_state \<Rightarrow> ('a tp_pc \<times> 'a tp_state) list" where
  "qt_perform k (CStore t w) s = [(CSet t, s\<lparr>thread_work := (thread_work s)(t := Some w)\<rparr>)]"
| "qt_perform k (CSet t) s = [(CIdle, tp_set k t s)]"
| "qt_perform k p s = []"

fun tp_add_work :: "event_kind \<Rightarrow> bool \<Rightarrow> 'a tp_pc \<Rightarrow> 'a tp_state \<Rightarrow> ('a tp_pc \<times> 'a tp_state) list" where
  "tp_add_work k sp (CAdd f) s = [(if time_to_die s then CIdle else CWrapper f, s)]"
| "tp_add_work k sp (CWrapper f) s =
     map (\<lambda>(r, ws). case r of
           Some w \<Rightarrow> (CFill w f, s\<lparr>work_wrapper_pool := ws\<rparr>)
         | None \<Rightarrow> (CFill (tp_fresh s) f, s\<lparr>tp_fresh := tp_fresh s + 1\<rparr>))
       (wrapper_deq sp (work_wrapper_pool s))"
| "tp_add_work k sp (CFill w f) s = [(CPlace w, s\<lparr>work_impl := (work_impl s)(w := Some f), tp_added := tp_added s @ [f]\<rparr>)]"
| "tp_add_work k sp (CPlace w) s =
     (if tp_locked s then []
      else if free_threads s = [] then [(CIdle, s\<lparr>tp_queued_work := tp_queued_work s @ [w]\<rparr>)]
      else [(CStore (last (free_threads s)) w, s\<lparr>free_threads := butlast (free_threads s)\<rparr>)])"
| "tp_add_work k sp p s = qt_perform k p s"

text \<open>\<open>queued_thread::shutdown\<close>, called by \<open>delete\<close> on the first of the threads.\<close>

fun qt_shutdown :: "event_kind \<Rightarrow> 'a tp_pc \<Rightarrow> 'a tp_state \<Rightarrow> ('a tp_pc \<times> 'a tp_state) list" where
  "qt_shutdown k (DsDelete (t # ts)) s =
     (if thread_time_to_die s t then [(DsDelete ts, s)]
      else [(DsSet (t # ts), s\<lparr>thread_time_to_die := (thread_time_to_die s)(t := True)\<rparr>)])"
| "qt_shutdown k (DsSet (t # ts)) s = [(DsJoin (t # ts), tp_set k t s)]"
| "qt_shutdown k (DsJoin (t # ts)) s = (if thread_exited s t then [(DsDelete ts, s)] else [])"
| "qt_shutdown k p s = []"

fun tp_destroy :: "event_kind \<Rightarrow> bool \<Rightarrow> 'a tp_pc \<Rightarrow> 'a tp_state \<Rightarrow> ('a tp_pc \<times> 'a tp_state) list" where
  "tp_destroy k sp DsClear s = [(DsTest, s\<lparr>time_to_die := True, tp_queued_work := []\<rparr>)]"
| "tp_destroy k sp DsTest s =
     [(if length (all_threads s) = length (free_threads s) then DsLock else DsTest, s)]"
| "tp_destroy k sp DsLock s = [(DsDelete (all_threads s), s\<lparr>tp_locked := True\<rparr>)]"
| "tp_destroy k sp (DsDelete []) s = [(DsWrappers, s)]"
| "tp_destroy k sp DsWrappers s =
     map (\<lambda>(r, ws). case r of
           Some w \<Rightarrow> (DsDrop w, s\<lparr>work_wrapper_pool := ws\<rparr>)
         | None \<Rightarrow> (DsEnd, s\<lparr>free_threads := [], all_threads := [], tp_locked := False\<rparr>))
       (wrapper_deq sp (work_wrapper_pool s))"
| "tp_destroy k sp (DsDrop w) s = [(DsWrappers, s\<lparr>work_impl := (work_impl s)(w := None)\<rparr>)]"
| "tp_destroy k sp p s = qt_shutdown k p s"

definition tp_step :: "event_kind \<Rightarrow> bool \<Rightarrow> nat \<Rightarrow> (nat \<Rightarrow> 'a list) \<Rightarrow> ('a tp_state, 'a tp_pc) thread_step" where
  "tp_step k sp n works i p s =
     (if i < n then qt_run k sp i p s
      else if p = CIdle then map (\<lambda>f. (CAdd f, s)) (works i) @ (if i = n then [(DsClear, s)] else [])
      else tp_add_work k sp p s @ tp_destroy k sp p s)"

definition tp_start :: "nat \<Rightarrow> ('a tp_state, 'a tp_pc) system \<Rightarrow> bool" where
  "tp_start n t \<longleftrightarrow> fst t = tp_init n \<and> n \<le> length (snd t) \<and> (\<forall>i < n. snd t ! i = QTop)
     \<and> (\<forall>i < length (snd t). n \<le> i \<longrightarrow> snd t ! i = CIdle)"

section \<open>Who has a thread\<close>

fun qt_pc :: "'a tp_pc \<Rightarrow> bool" where
  "qt_pc QTop = True"
| "qt_pc QLoad = True"
| "qt_pc (QClear c) = True"
| "qt_pc (QExec w) = True"
| "qt_pc (QReturn w) = True"
| "qt_pc QAsk = True"
| "qt_pc QWait = True"
| "qt_pc QBlocked = True"
| "qt_pc QExit = True"
| "qt_pc QAssert = True"
| "qt_pc p = False"

text \<open>A thread between taking a work and putting itself back into \<open>m_free_threads\<close>; when it has
  cleared its \<open>m_queued_work\<close> it is \<open>qt_working\<close>.\<close>

fun qt_working :: "'a tp_pc \<Rightarrow> bool" where
  "qt_working (QExec w) = True"
| "qt_working (QReturn w) = True"
| "qt_working QAsk = True"
| "qt_working p = False"

fun qt_busy :: "'a tp_pc \<Rightarrow> bool" where
  "qt_busy (QClear c) = (c \<noteq> None)"
| "qt_busy QAssert = True"
| "qt_busy p = qt_working p"

text \<open>The thread a client has taken out of \<open>m_free_threads\<close> and not given its work yet.\<close>

fun tp_target :: "'a tp_pc \<Rightarrow> nat set" where
  "tp_target (CStore t w) = {t}"
| "tp_target p = {}"

definition tp_inv :: "nat \<Rightarrow> 'a tp_state \<Rightarrow> 'a tp_pc list \<Rightarrow> bool" where
  [inv_defs]: "tp_inv n s ps \<longleftrightarrow> n \<le> length ps \<and> (\<forall>i < length ps. qt_pc (ps ! i) \<longleftrightarrow> i < n)
     \<and> distinct (free_threads s) \<and> set (free_threads s) \<union> claims tp_target ps \<subseteq> {..<n}
     \<and> claims_disjoint tp_target ps \<and> claims tp_target ps \<inter> set (free_threads s) = {}
     \<and> (\<forall>i \<in> set (free_threads s) \<union> claims tp_target ps. thread_work s i = None \<and> \<not> qt_busy (ps ! i))
     \<and> (\<forall>i < n. qt_working (ps ! i) \<longrightarrow> thread_work s i = None)"

lemma tp_invI:
  assumes "n \<le> length ps" "\<forall>i < length ps. qt_pc (ps ! i) \<longleftrightarrow> i < n"
    and "distinct (free_threads s)" "set (free_threads s) \<union> claims tp_target ps \<subseteq> {..<n}"
    and "claims_disjoint tp_target ps" "claims tp_target ps \<inter> set (free_threads s) = {}"
    and "\<And>i. i \<in> set (free_threads s) \<union> claims tp_target ps \<Longrightarrow> thread_work s i = None \<and> \<not> qt_busy (ps ! i)"
    and "\<And>i. i < n \<Longrightarrow> qt_working (ps ! i) \<Longrightarrow> thread_work s i = None"
  shows "tp_inv n s ps"
  using assms unfolding tp_inv_def by blast

lemma tp_invD:
  assumes "tp_inv n s ps"
  shows "n \<le> length ps" "i < length ps \<Longrightarrow> qt_pc (ps ! i) \<longleftrightarrow> i < n"
    and "distinct (free_threads s)" "set (free_threads s) \<union> claims tp_target ps \<subseteq> {..<n}"
    and "claims_disjoint tp_target ps" "claims tp_target ps \<inter> set (free_threads s) = {}"
    and "i \<in> set (free_threads s) \<union> claims tp_target ps \<Longrightarrow> thread_work s i = None \<and> \<not> qt_busy (ps ! i)"
    and "i < n \<Longrightarrow> qt_working (ps ! i) \<Longrightarrow> thread_work s i = None"
  using assms unfolding tp_inv_def by blast+

text \<open>A step of a pool thread: it stays one, writes only its own \<open>m_queued_work\<close>, and puts itself
  into \<open>m_free_threads\<close> only at the end of its work.\<close>

lemma qt_run_step:
  assumes "(p', s') \<in> set (qt_run k sp i p s)" "qt_pc p"
  shows "qt_pc p' \<and> tp_target p' = {} \<and> tp_target p = {}"
    and "j \<noteq> i \<Longrightarrow> thread_work s' j = thread_work s j"
    and "free_threads s' = free_threads s \<or> qt_working p \<and> \<not> qt_busy p' \<and> thread_work s' i = thread_work s i
      \<and> free_threads s' = free_threads s @ [i]"
    and "\<not> qt_busy p \<Longrightarrow> thread_work s i = None \<Longrightarrow> \<not> qt_busy p' \<and> thread_work s' i = None"
    and "(qt_working p \<Longrightarrow> thread_work s i = None) \<Longrightarrow> qt_working p' \<Longrightarrow> thread_work s' i = None"
  using assms
  by (cases p; auto simp: return_wrapper_to_pool_def return_or_get_def split: if_splits list.splits option.splits prod.splits)+

lemma qt_working_busy: "qt_working p \<Longrightarrow> qt_busy p"
  by (cases p) simp_all

lemma qt_run_inv:
  assumes inv: "tp_inv n s ps" and i: "i < n" and st: "(p', s') \<in> set (qt_run k sp i (ps ! i) s)"
  shows "tp_inv n s' (ps[i := p'])"
proof -
  have len: "i < length ps" using i tp_invD(1) [OF inv] by simp
  have q: "qt_pc (ps ! i)" using tp_invD(2) [OF inv len] i by simp
  note step = qt_run_step [OF st q]
  have cl: "claims tp_target (ps[i := p']) = claims tp_target ps"
    using claims_update [OF tp_invD(5) [OF inv] len, of p'] step(1) by simp
  have dis: "claims_disjoint tp_target (ps[i := p'])"
    by (rule claims_disjoint_update [OF tp_invD(5) [OF inv] len]) (simp add: step(1))
  have w: "qt_working (ps ! i) \<Longrightarrow> thread_work s i = None" using tp_invD(8) [OF inv i] .
  show ?thesis
  proof (cases "free_threads s' = free_threads s")
    case True
    show ?thesis
    proof (rule tp_invI, unfold cl True)
      fix j assume j: "j \<in> set (free_threads s) \<union> claims tp_target ps"
      note old = tp_invD(7) [OF inv j]
      show "thread_work s' j = None \<and> \<not> qt_busy (ps[i := p'] ! j)"
        using old step(2) [of j] step(4) len by (cases "j = i") auto
    next
      fix j assume j: "j < n" "qt_working (ps[i := p'] ! j)"
      then show "thread_work s' j = None"
        using step(2) [of j] step(5) w tp_invD(8) [OF inv j(1)] len by (cases "j = i") auto
    qed (use tp_invD(1-6) [OF inv] dis step(1) i in \<open>simp_all add: nth_list_update\<close>)
  next
    case False
    with step(3) have app: "qt_working (ps ! i)" "\<not> qt_busy p'" "thread_work s' i = thread_work s i"
      "free_threads s' = free_threads s @ [i]" by auto
    have out: "i \<notin> set (free_threads s) \<union> claims tp_target ps"
      using tp_invD(7) [OF inv, of i] qt_working_busy [OF app(1)] by blast
    show ?thesis
    proof (rule tp_invI, unfold cl app(4))
      fix j assume j: "j \<in> set (free_threads s @ [i]) \<union> claims tp_target ps"
      show "thread_work s' j = None \<and> \<not> qt_busy (ps[i := p'] ! j)"
        using j app w step(2) [of j] tp_invD(7) [OF inv, of j] len by (cases "j = i") auto
    next
      fix j assume j: "j < n" "qt_working (ps[i := p'] ! j)"
      then show "thread_work s' j = None"
        using app step(2) [of j] w tp_invD(8) [OF inv j(1)] len by (cases "j = i") auto
    qed (use tp_invD(1-6) [OF inv] dis step(1) i out in \<open>auto simp: nth_list_update\<close>)
  qed
qed

text \<open>A step of a client.\<close>

lemma qt_shutdown_free:
  "(p', s') \<in> set (qt_shutdown k p s) \<Longrightarrow> tp_target p' = {} \<and> tp_target p = {} \<and> \<not> qt_pc p'
     \<and> thread_work s' = thread_work s \<and> free_threads s' = free_threads s"
  by (induction k p s rule: qt_shutdown.induct) (auto simp: tp_set_def split: if_splits)

lemma tp_destroy_free:
  "(p', s') \<in> set (tp_destroy k sp p s) \<Longrightarrow> tp_target p' = {} \<and> tp_target p = {} \<and> \<not> qt_pc p'
     \<and> thread_work s' = thread_work s \<and> (free_threads s' = free_threads s \<or> free_threads s' = [])"
proof (induction k sp p s rule: tp_destroy.induct)
  case (5 k sp s)
  then show ?case by (auto split: option.splits)
qed (auto dest: qt_shutdown_free split: if_splits)

lemma tp_add_work_free:
  assumes "(p', s') \<in> set (tp_add_work k sp p s)"
  obtains (same) "tp_target p' = {}" "tp_target p = {}" "thread_work s' = thread_work s" "free_threads s' = free_threads s"
      "\<not> qt_pc p'"
    | (pop) w where "p' = CStore (last (free_threads s)) w" "tp_target p = {}" "free_threads s \<noteq> []"
      "free_threads s' = butlast (free_threads s)" "thread_work s' = thread_work s"
    | (store) t w where "p = CStore t w" "p' = CSet t" "thread_work s' = (thread_work s)(t := Some w)"
      "free_threads s' = free_threads s"
proof (cases p)
  case (CWrapper f)
  with assms same show thesis by (auto split: option.splits)
next
  case (CPlace w)
  with assms same pop show thesis by (auto split: if_splits)
next
  case (CStore t w)
  with assms store show thesis by auto
qed (use assms same in \<open>auto simp: tp_set_def split: if_splits\<close>)

lemma tp_client_inv:
  assumes inv: "tp_inv n s ps" and i: "i < length ps" "\<not> i < n"
    and st: "(p', s') \<in> set (tp_step k sp n works i (ps ! i) s)"
  shows "tp_inv n s' (ps[i := p'])"
proof -
  have cl: "claims tp_target (ps[i := p']) = claims tp_target ps - tp_target (ps ! i) \<union> tp_target p'"
    by (rule claims_update [OF tp_invD(5) [OF inv] i(1)])
  have sub: "tp_target (ps ! i) \<subseteq> claims tp_target ps" by (rule claims_nth [OF i(1)])
  have old: "ps[i := p'] ! j = ps ! j" if "j < n" for j using that i(2) by (cases "j = i") auto
  have rest: "tp_inv n s' (ps[i := p'])"
    if t: "tp_target p' = {}" "tp_target (ps ! i) = {}" and q: "\<not> qt_pc p'" and w: "thread_work s' = thread_work s"
      and f: "free_threads s' = free_threads s \<or> free_threads s' = []"
  proof (rule tp_invI)
    have cl': "claims tp_target (ps[i := p']) = claims tp_target ps" using cl t by simp
    show "claims_disjoint tp_target (ps[i := p'])"
      by (rule claims_disjoint_update [OF tp_invD(5) [OF inv] i(1)]) (simp add: t)
    fix j
    show "thread_work s' j = None \<and> \<not> qt_busy (ps[i := p'] ! j)"
      if j: "j \<in> set (free_threads s') \<union> claims tp_target (ps[i := p'])"
    proof -
      have "j \<in> set (free_threads s) \<union> claims tp_target ps" using j f unfolding cl' by auto
      with tp_invD(7) [OF inv this] tp_invD(4) [OF inv] w old [of j] show ?thesis by auto
    qed
    show "thread_work s' j = None" if "j < n" "qt_working (ps[i := p'] ! j)"
      using that tp_invD(8) [OF inv] w old by simp
    show "set (free_threads s') \<union> claims tp_target (ps[i := p']) \<subseteq> {..<n}"
      "claims tp_target (ps[i := p']) \<inter> set (free_threads s') = {}" "distinct (free_threads s')"
      using tp_invD(3,4,6) [OF inv] f unfolding cl' by auto
  qed (use tp_invD(1,2) [OF inv] q i in \<open>auto simp: nth_list_update\<close>)
  from st i(2) consider
    (idle) "ps ! i = CIdle" "s' = s" "tp_target p' = {}" "\<not> qt_pc p'"
    | (add) "(p', s') \<in> set (tp_add_work k sp (ps ! i) s)"
    | (des) "(p', s') \<in> set (tp_destroy k sp (ps ! i) s)"
    by (auto simp: tp_step_def split: if_splits)
  then show ?thesis
  proof cases
    case idle
    then show ?thesis by (intro rest) simp_all
  next
    case des
    then show ?thesis using tp_destroy_free [OF des] by (intro rest) simp_all
  next
    case add
    then show ?thesis
    proof (cases rule: tp_add_work_free)
      case same
      then show ?thesis by (intro rest) simp_all
    next
      case (pop w)
      define t where "t = last (free_threads s)"
      define fs where "fs = butlast (free_threads s)"
      have fr: "free_threads s = fs @ [t]" using pop(3) by (simp add: t_def fs_def)
      have p': "p' = CStore t w" using pop(1) by (simp only: t_def)
      have out: "t \<notin> claims tp_target ps" using tp_invD(6) [OF inv] unfolding fr by auto
      have cl': "claims tp_target (ps[i := p']) = insert t (claims tp_target ps)"
        using cl p' pop(2) by simp
      show ?thesis
      proof (rule tp_invI, unfold cl' pop(4,5) fs_def [symmetric])
        show "claims_disjoint tp_target (ps[i := p'])"
          by (rule claims_disjoint_update [OF tp_invD(5) [OF inv] i(1)]) (simp add: p' out)
        fix j
        show "thread_work s j = None \<and> \<not> qt_busy (ps[i := p'] ! j)" if "j \<in> set fs \<union> insert t (claims tp_target ps)"
        proof -
          have "j \<in> set (free_threads s) \<union> claims tp_target ps" using that fr by auto
          with tp_invD(7) [OF inv this] tp_invD(4) [OF inv] old [of j] show ?thesis by auto
        qed
        show "thread_work s j = None" if "j < n" "qt_working (ps[i := p'] ! j)"
          using that tp_invD(8) [OF inv] old by simp
      qed (use tp_invD(1-4,6) [OF inv] fr p' i in \<open>auto simp: nth_list_update\<close>)
    next
      case (store t w)
      have cl': "claims tp_target (ps[i := p']) = claims tp_target ps - {t}" using cl store(1,2) by simp
      have t: "t \<in> claims tp_target ps" using sub store(1) by simp
      note at = tp_invD(7) [OF inv, of t]
      show ?thesis
      proof (rule tp_invI, unfold cl' store(3,4))
        show "claims_disjoint tp_target (ps[i := p'])"
          by (rule claims_disjoint_update [OF tp_invD(5) [OF inv] i(1)]) (simp add: store(2))
        fix j
        show "((thread_work s)(t := Some w)) j = None \<and> \<not> qt_busy (ps[i := p'] ! j)"
          if j: "j \<in> set (free_threads s) \<union> (claims tp_target ps - {t})"
        proof -
          have "j \<noteq> t" using j t tp_invD(6) [OF inv] by auto
          with j tp_invD(7) [OF inv, of j] tp_invD(4) [OF inv] old [of j] show ?thesis by auto
        qed
        show "((thread_work s)(t := Some w)) j = None" if "j < n" "qt_working (ps[i := p'] ! j)"
          using that tp_invD(8) [OF inv] old at t qt_working_busy by (cases "j = t") auto
      qed (use tp_invD(1-4,6) [OF inv] store(2) i in \<open>auto simp: nth_list_update\<close>)
    qed
  qed
qed

interpretation tp: protocol "tp_step k sp n works" "tp_start n" "tp_inv n"
proof
  fix s :: "'a tp_state" and ps
  assume st: "tp_start n (s, ps)"
  have pc: "ps ! i = (if i < n then QTop else CIdle)" if "i < length ps" for i
    using st that by (simp add: tp_start_def)
  then have "\<forall>p \<in> set ps. tp_target p = {}" by (auto simp: in_set_conv_nth split: if_splits)
  then have "claims tp_target ps = {} \<and> claims_disjoint tp_target ps" by (rule claims_start)
  with st pc show "tp_inv n s ps" by (auto simp: tp_inv_def tp_start_def tp_init_def)
next
  fix s :: "'a tp_state" and ps i p' s'
  assume "tp_inv n s ps" "i < length ps" "(p', s') \<in> set (tp_step k sp n works i (ps ! i) s)"
  then show "tp_inv n s' (ps[i := p'])"
    by (cases "i < n") (auto simp: tp_step_def intro: qt_run_inv tp_client_inv [unfolded tp_step_def])
qed

section \<open>Properties\<close>

text \<open>C21. In every execution of a \<open>thread_pool\<close>: a thread that is in \<open>m_free_threads\<close>, or
  taken out of it by \<open>add_work\<close> and not given its work yet, has no work, so \<open>perform\<close> never
  overwrites one; no two clients have the same thread; and when \<open>destroy\<close> finds as many free
  threads as there are, no thread has any work.\<close>

theorem thread_pool_free_threads:
  assumes "reach (tp_start n) (interleave (tp_step k spurious n works)) (s, ps)"
  shows "distinct (free_threads s)
    \<and> (\<forall>t \<in> set (free_threads s). t < n \<and> thread_work s t = None \<and> \<not> qt_busy (ps ! t))
    \<and> (\<forall>i < length ps. \<forall>t w. ps ! i = CStore t w \<longrightarrow> t < n \<and> t \<notin> set (free_threads s)
        \<and> thread_work s t = None \<and> \<not> qt_busy (ps ! t) \<and> (\<forall>j < length ps. \<forall>w'. ps ! j = CStore t w' \<longrightarrow> j = i))
    \<and> (length (free_threads s) = n \<longrightarrow> (\<forall>t < n. thread_work s t = None \<and> \<not> qt_busy (ps ! t)))"
proof (intro conjI allI impI ballI)
  note inv = tp.reach_inv [OF assms]
  show dist: "distinct (free_threads s)" by (rule tp_invD(3) [OF inv])
  show "t < n" "thread_work s t = None" "\<not> qt_busy (ps ! t)" if "t \<in> set (free_threads s)" for t
    using tp_invD(4,7) [OF inv] that by auto
  fix i t w assume i: "i < length ps" "ps ! i = CStore t w"
  then have t: "t \<in> claims tp_target ps" by (auto simp: claims_iff)
  then show "t < n" "t \<notin> set (free_threads s)" using tp_invD(4,6) [OF inv] by auto
  show "thread_work s t = None" "\<not> qt_busy (ps ! t)" using tp_invD(7) [OF inv, of t] t by auto
  fix j w' assume "j < length ps" "ps ! j = CStore t w'"
  then show "j = i" using tp_invD(5) [OF inv] i by (fastforce simp: claims_disjoint_def)
next
  note inv = tp.reach_inv [OF assms]
  fix t assume "length (free_threads s) = n" and t: "t < n"
  then have "card (set (free_threads s)) = card {..<n}" using tp_invD(3) [OF inv] by (simp add: distinct_card)
  then have "set (free_threads s) = {..<n}" using tp_invD(4) [OF inv] by (intro card_subset_eq) auto
  with t show "thread_work s t = None" "\<not> qt_busy (ps ! t)" using tp_invD(7) [OF inv, of t] by auto
qed

lemmas tp_run = wrapper_deq_def wrapper_enq_def tp_step_def tp_init_def event_init_def tp_set_def return_or_get_def return_wrapper_to_pool_def
  spec_enq_def wrapper_pool_size_def

text \<open>A pool of one thread, asleep and free, with one wrapper or none.\<close>

definition tp_asleep :: "event_kind \<Rightarrow> 'a list \<Rightarrow> 'a tp_state \<Rightarrow> bool" where
  "tp_asleep k fs s \<longleftrightarrow> (work_wrapper_pool s = [] \<and> tp_fresh s = 0 \<or> work_wrapper_pool s = [0] \<and> tp_fresh s = 1)
     \<and> tp_queued_work s = [] \<and> free_threads s = [0] \<and> \<not> tp_locked s \<and> \<not> time_to_die s
     \<and> thread_work s 0 = None \<and> \<not> thread_time_to_die s 0 \<and> tp_done s = fs
     \<and> ev_waiting (wait_event s 0) = (k = Condition_Variable) \<and> \<not> ev_signalled (wait_event s 0)"

lemma tp_one_work:
  assumes "tp_asleep k gs s" "j < length fs" "n = 1"
  shows "\<exists>s'. run_sched (tp_step k False n (\<lambda>i. fs)) ((1, j) # replicate 6 (1, 0) @ replicate 8 (0, 0)) (s, [QBlocked, CIdle])
      = Some (s', [QBlocked, CIdle]) \<and> tp_asleep k (gs @ [fs ! j]) s'"
  using assms by (cases k) (auto simp: tp_run tp_asleep_def nth_append numeral_nat)

text \<open>Works that a client adds one after another to a pool of one thread, each while the
  thread is asleep, are all called, in order and once, and one wrapper is allocated for all of
  them; afterwards the thread is free and asleep again.\<close>

theorem thread_pool_one_after_another:
  "\<exists>s. run_sched (tp_step k False 1 (\<lambda>i. fs))
      (replicate 4 (0, 0) @ concat (map (\<lambda>j. (1, j) # replicate 6 (1, 0) @ replicate 8 (0, 0)) [0..<length fs]))
      (tp_init 1, [QTop, CIdle]) = Some (s, [QBlocked, CIdle])
    \<and> tp_done s = fs \<and> free_threads s = [0] \<and> tp_fresh s \<le> 1"
proof -
  let ?round = "\<lambda>j. (1, j) # replicate 6 (1, 0) @ replicate 8 (0::nat, 0::nat)"
  have start: "\<exists>s. run_sched (tp_step k False 1 (\<lambda>i. fs)) (replicate 4 (0, 0)) (tp_init 1, [QTop, CIdle])
      = Some (s, [QBlocked, CIdle]) \<and> tp_asleep k [] s"
    by (cases k) (simp_all add: tp_run tp_asleep_def numeral_nat)
  have "\<exists>s. run_sched (tp_step k False 1 (\<lambda>i. fs)) (replicate 4 (0, 0) @ concat (map ?round [0..<m]))
      (tp_init 1, [QTop, CIdle]) = Some (s, [QBlocked, CIdle]) \<and> tp_asleep k (take m fs) s"
    if "m \<le> length fs" for m
    using that
  proof (induction m)
    case 0
    then show ?case using start by simp
  next
    case (Suc m)
    then obtain s where s: "run_sched (tp_step k False 1 (\<lambda>i. fs)) (replicate 4 (0, 0) @ concat (map ?round [0..<m]))
      (tp_init 1, [QTop, CIdle]) = Some (s, [QBlocked, CIdle])" "tp_asleep k (take m fs) s" by auto
    have e: "replicate 4 (0, 0) @ concat (map ?round [0..<Suc m])
        = (replicate 4 (0, 0) @ concat (map ?round [0..<m])) @ ?round m" by simp
    from tp_one_work [OF s(2), of m fs 1] Suc.prems s(1) show ?case
      unfolding e run_sched_append [of _ "_ @ _" "_ # _"] by (simp add: take_Suc_conv_app_nth)
  qed
  from this [of "length fs"] show ?thesis by (auto simp: tp_asleep_def)
qed

text \<open>Two runs in which a work is lost. When \<open>add_work\<close> runs between a new thread's load of its
  \<open>m_queued_work\<close> and its \<open>m_queued_work = nullptr\<close>, the work is overwritten, and the thread goes to
  sleep, with either kind of event (\<open>Thread_Pool_Work\<close> shows that this is for ever). And with a
  condition variable an \<open>add_work\<close> that runs before the thread enters \<open>wait\<close> notifies nobody:
  the thread sleeps with a work in its hands.\<close>

lemma thread_pool_lost_runs:
  "(\<forall>k. \<exists>s. run_sched (tp_step k False 1 (\<lambda>i. ''f''))
        (replicate 2 (0, 0) @ replicate 7 (1, 0) @ replicate (if k = Windows_Event then 7 else 2) (0, 0))
        (tp_init 1, [QTop, CIdle]) = Some (s, [QBlocked, CIdle])
      \<and> tp_step k False 1 (\<lambda>i. ''f'') 0 QBlocked s = [] \<and> tp_done s = [] \<and> thread_work s 0 = None
      \<and> tp_queued_work s = [] \<and> free_threads s = []
      \<and> tp_destroy k False DsTest s = [(DsTest, s)])
   \<and> (\<exists>s. run_sched (tp_step Condition_Variable False 1 (\<lambda>i. ''f''))
        (replicate 3 (0, 0) @ replicate 7 (1, 0) @ [(0, 0)]) (tp_init 1, [QTop, CIdle]) = Some (s, [QBlocked, CIdle])
      \<and> tp_step Condition_Variable False 1 (\<lambda>i. ''f'') 0 QBlocked s = [] \<and> thread_work s 0 = Some 0 \<and> tp_done s = [])"
proof (intro conjI allI)
  fix k
  show "\<exists>s. run_sched (tp_step k False 1 (\<lambda>i. ''f''))
        (replicate 2 (0, 0) @ replicate 7 (1, 0) @ replicate (if k = Windows_Event then 7 else 2) (0, 0))
        (tp_init 1, [QTop, CIdle]) = Some (s, [QBlocked, CIdle])
      \<and> tp_step k False 1 (\<lambda>i. ''f'') 0 QBlocked s = [] \<and> tp_done s = [] \<and> thread_work s 0 = None
      \<and> tp_queued_work s = [] \<and> free_threads s = []
      \<and> tp_destroy k False DsTest s = [(DsTest, s)]"
    by (cases k) (simp_all add: tp_run numeral_nat)
qed (simp add: tp_run numeral_nat)

text \<open>A pool of two threads and two clients, one of which has popped a thread.\<close>

theorem thread_pool_free_threads_witness:
  "\<exists>s :: char tp_state. free_threads s = [0] \<and> thread_work s 1 = None"
proof -
  have "\<exists>s. run_sched (tp_step Condition_Variable True 2 (\<lambda>i. ''f'')) (replicate 3 (0, 0) @ replicate 5 (2, 0))
      (tp_init 2, [QTop, QTop, CIdle, CIdle]) = Some (s, [QWait, QTop, CStore 1 0, CIdle])
      \<and> free_threads s = [0]"
    by (simp add: tp_run numeral_nat)
  then obtain s where s: "run_sched (tp_step Condition_Variable True 2 (\<lambda>i. ''f'')) (replicate 3 (0, 0) @ replicate 5 (2, 0))
      (tp_init 2, [QTop, QTop, CIdle, CIdle]) = Some (s, [QWait, QTop, CStore 1 0, CIdle])"
    "free_threads s = [0]" by (elim exE conjE) (rule that)
  have "reach (tp_start 2) (interleave (tp_step Condition_Variable True 2 (\<lambda>i. ''f''))) (s, [QWait, QTop, CStore 1 0, CIdle])"
    by (rule run_sched_reach_start [OF _ s(1)]) (auto simp: tp_start_def less_Suc_eq numeral_nat)
  from thread_pool_free_threads [OF this] s(2) show ?thesis
    by (intro exI [of _ s]) (auto simp: less_Suc_eq numeral_nat)
qed

end
