(* ===== verification/Thread_Pool_Work.thy ===== *)
theory Thread_Pool_Work
  imports Thread_Pool
begin

text \<open>
  Where the wrappers and the works of a \<open>thread_pool\<close> are. A wrapper is in the pool, in the queue
  of works, in \<open>m_queued_work\<close> of a thread, or in the hands of one thread, and in one place only;
  so no work is called twice, and none that was not added. At the end, the state from which a work
  is lost: the invariant \<open>tp_lost\<close> of all that follows it.
\<close>

section \<open>Sums\<close>

lemma sum_fun_update:
  fixes f :: "'a \<Rightarrow> 'b::comm_monoid_add" and t n :: nat
  assumes "t < n"
  obtains R where "(\<Sum>j<n. f (g j)) = R + f (g t)" and "\<And>x. (\<Sum>j<n. f ((g(t := x)) j)) = R + f x"
proof
  let ?R = "\<Sum>j\<in>{..<n} - {t}. f (g j)"
  show "(\<Sum>j<n. f (g j)) = ?R + f (g t)"
    using assms by (subst sum.remove [of _ t]) (auto simp: add.commute)
  fix x
  have "(\<Sum>j\<in>{..<n} - {t}. f ((g(t := x)) j)) = ?R" by (rule sum.cong) simp_all
  then show "(\<Sum>j<n. f ((g(t := x)) j)) = ?R + f x"
    using assms by (subst sum.remove [of _ t]) (auto simp: add.commute)
qed


section \<open>Places\<close>

text \<open>The wrapper in the hands of a thread, and the one with a work that was not called yet. What a
  pool thread has loaded stays in its \<open>m_queued_work\<close> until it is cleared.\<close>

fun tp_holds :: "'a tp_pc \<Rightarrow> nat multiset" where
  "tp_holds (QExec w) = {#w#}"
| "tp_holds (QReturn w) = {#w#}"
| "tp_holds (CFill w f) = {#w#}"
| "tp_holds (CPlace w) = {#w#}"
| "tp_holds (CStore t w) = {#w#}"
| "tp_holds (DsDrop w) = {#w#}"
| "tp_holds p = {#}"

fun tp_loads :: "'a tp_pc \<Rightarrow> nat multiset" where
  "tp_loads (QExec w) = {#w#}"
| "tp_loads (CPlace w) = {#w#}"
| "tp_loads (CStore t w) = {#w#}"
| "tp_loads p = {#}"

definition opt_mset :: "'a option \<Rightarrow> 'a multiset" where
  "opt_mset x = (case x of None \<Rightarrow> {#} | Some w \<Rightarrow> {#w#})"

lemma opt_mset_simps [simp]: "opt_mset None = {#}" "opt_mset (Some w) = {#w#}"
  by (simp_all add: opt_mset_def)

definition tp_slots :: "nat \<Rightarrow> 'a tp_state \<Rightarrow> nat multiset" where
  "tp_slots n s = (\<Sum>t<n. opt_mset (thread_work s t))"

definition tp_places :: "nat \<Rightarrow> 'a tp_state \<Rightarrow> 'a tp_pc list \<Rightarrow> nat multiset" where
  "tp_places n s ps = mset (work_wrapper_pool s) + mset (tp_queued_work s) + tp_slots n s
     + (\<Sum>i<length ps. tp_holds (ps ! i))"

definition tp_loaded :: "nat \<Rightarrow> 'a tp_state \<Rightarrow> 'a tp_pc list \<Rightarrow> nat multiset" where
  "tp_loaded n s ps = mset (tp_queued_work s) + tp_slots n s + (\<Sum>i<length ps. tp_loads (ps ! i))"

definition tp_pending :: "nat \<Rightarrow> 'a tp_state \<Rightarrow> 'a tp_pc list \<Rightarrow> 'a multiset" where
  "tp_pending n s ps = image_mset (\<lambda>w. the (work_impl s w)) (tp_loaded n s ps)"

text \<open>A step moves one wrapper, drops one, makes a new one, or works on the one in its hands.\<close>

definition tp_moves :: "nat \<Rightarrow> 'a tp_pc \<Rightarrow> 'a tp_state \<Rightarrow> 'a tp_pc \<Rightarrow> 'a tp_state \<Rightarrow> bool" where
  "tp_moves n p s p' s' \<longleftrightarrow>
     mset (work_wrapper_pool s') + mset (tp_queued_work s') + tp_slots n s' + tp_holds p'
       \<subseteq># mset (work_wrapper_pool s) + mset (tp_queued_work s) + tp_slots n s + tp_holds p
     \<and> mset (tp_queued_work s') + tp_slots n s' + tp_loads p' \<subseteq># mset (tp_queued_work s) + tp_slots n s + tp_loads p
     \<and> tp_fresh s' = tp_fresh s \<and> work_impl s' = work_impl s \<and> tp_done s' = tp_done s \<and> tp_added s' = tp_added s"

lemma slots_same: "thread_work s' = thread_work s \<Longrightarrow> tp_slots n s' = tp_slots n s"
  by (simp add: tp_slots_def)

lemma slots_update:
  assumes "t < n" "thread_work s' = (thread_work s)(t := x)"
  obtains R where "tp_slots n s = R + opt_mset (thread_work s t)" "tp_slots n s' = R + opt_mset x"
  using sum_fun_update [OF assms(1), of opt_mset "thread_work s"] assms(2) unfolding tp_slots_def by metis

lemma wrapper_deq_mset:
  assumes "(r, ws') \<in> set (wrapper_deq sp ws)"
  shows "mset ws' + opt_mset r = mset ws"
proof -
  from assms consider "(r, ws') = spec_deq ws" | "r = None" "ws' = ws"
    | j where "j < length ws" "r = Some (ws ! j)" "ws' = take j ws @ drop (Suc j) ws"
    by (auto simp: wrapper_deq_def split: if_splits)
  then show ?thesis
  proof cases
    case 1
    then show ?thesis by (cases ws) auto
  next
    case (3 j)
    have "mset ws = mset (take j ws @ ws ! j # drop (Suc j) ws)" using id_take_nth_drop [OF 3(1)] by simp
    with 3 show ?thesis by simp
  qed simp
qed

lemma wrapper_enq_mset:
  "(ok, ws') \<in> set (wrapper_enq sp w ws) \<Longrightarrow> mset ws' = mset ws + (if ok then {#w#} else {#})"
  by (auto simp: wrapper_enq_def spec_enq_def split: if_splits)

lemma qt_run_moves:
  assumes st: "(p', s') \<in> set (qt_run k sp i p s)" and q: "qt_pc p" and i: "i < n"
    and cur: "\<And>w. p = QClear (Some w) \<Longrightarrow> thread_work s i = Some w"
  shows "tp_moves n p s p' s' \<or> (\<exists>w. p = QExec w \<and> p' = QReturn w
      \<and> s' = s\<lparr>tp_done := tp_done s @ (case work_impl s w of None \<Rightarrow> [] | Some f \<Rightarrow> [f])\<rparr>)"
proof (cases p)
  case (QClear c)
  with st have p': "p' = (case c of None \<Rightarrow> QWait | Some w \<Rightarrow> QExec w)"
    and s': "s' = s\<lparr>thread_work := (thread_work s)(i := None)\<rparr>" by simp_all
  obtain R where R: "tp_slots n s = R + opt_mset (thread_work s i)" "tp_slots n s' = R + opt_mset None"
    by (rule slots_update [OF i, of s' s None]) (simp_all add: s')
  show ?thesis
    using R cur p' QClear unfolding tp_moves_def by (cases c) (auto simp: s')
next
  case (QReturn w)
  with st obtain ok ws where *: "(ok, ws) \<in> set (wrapper_enq sp w (work_wrapper_pool s))"
    "p' = (if ok then QAsk else QAssert)" "s' = s\<lparr>work_wrapper_pool := ws\<rparr>"
    by (auto simp: return_wrapper_to_pool_def)
  from wrapper_enq_mset [OF *(1)] * QReturn show ?thesis
    by (cases ok) (auto simp: tp_moves_def tp_slots_def)
next
  case QAsk
  with st show ?thesis
    by (auto simp: return_or_get_def tp_moves_def tp_slots_def split: if_splits list.splits)
qed (use st q in \<open>auto simp: tp_moves_def tp_slots_def split: if_splits\<close>)

lemma qt_shutdown_moves:
  "(p', s') \<in> set (qt_shutdown k p s) \<Longrightarrow> tp_moves n p s p' s'"
  by (induction k p s rule: qt_shutdown.induct) (auto simp: tp_set_def tp_moves_def tp_slots_def split: if_splits)

lemma tp_destroy_moves:
  assumes "(p', s') \<in> set (tp_destroy k sp p s)"
  shows "tp_moves n p s p' s' \<or> (\<exists>w. p = DsDrop w \<and> p' = DsWrappers
      \<and> s' = s\<lparr>work_impl := (work_impl s)(w := None)\<rparr>)"
proof (cases "p = DsWrappers")
  case True
  with assms obtain r ws where *: "(r, ws) \<in> set (wrapper_deq sp (work_wrapper_pool s))"
    "(p', s') = (case r of Some w \<Rightarrow> (DsDrop w, s\<lparr>work_wrapper_pool := ws\<rparr>)
         | None \<Rightarrow> (DsEnd, s\<lparr>free_threads := [], all_threads := [], tp_locked := False\<rparr>))" by auto
  from wrapper_deq_mset [OF *(1)] * True show ?thesis
    by (cases r) (auto simp: tp_moves_def tp_slots_def)
next
  case False
  with assms have "(p', s') \<in> set (qt_shutdown k p s) \<or> tp_moves n p s p' s'
      \<or> (\<exists>w. p = DsDrop w \<and> p' = DsWrappers \<and> s' = s\<lparr>work_impl := (work_impl s)(w := None)\<rparr>)"
    by (induction k sp p s rule: tp_destroy.induct) (auto simp: tp_moves_def tp_slots_def split: if_splits)
  then show ?thesis using qt_shutdown_moves by blast
qed

lemma tp_add_work_moves:
  assumes st: "(p', s') \<in> set (tp_add_work k sp p s)"
    and target: "\<forall>t w. p = CStore t w \<longrightarrow> t < n \<and> thread_work s t = None"
  shows "tp_moves n p s p' s'
    \<or> (\<exists>f. p = CWrapper f \<and> p' = CFill (tp_fresh s) f \<and> s' = s\<lparr>tp_fresh := tp_fresh s + 1\<rparr>)
    \<or> (\<exists>w f. p = CFill w f \<and> p' = CPlace w
         \<and> s' = s\<lparr>work_impl := (work_impl s)(w := Some f), tp_added := tp_added s @ [f]\<rparr>)"
proof (cases p)
  case (CWrapper f)
  with st obtain r ws where *: "(r, ws) \<in> set (wrapper_deq sp (work_wrapper_pool s))"
    "(p', s') = (case r of Some w \<Rightarrow> (CFill w f, s\<lparr>work_wrapper_pool := ws\<rparr>)
         | None \<Rightarrow> (CFill (tp_fresh s) f, s\<lparr>tp_fresh := tp_fresh s + 1\<rparr>))" by auto
  from wrapper_deq_mset [OF *(1)] * CWrapper show ?thesis
    by (cases r) (auto simp: tp_moves_def tp_slots_def)
next
  case (CStore t w)
  with st have s': "p' = CSet t" "s' = s\<lparr>thread_work := (thread_work s)(t := Some w)\<rparr>" by simp_all
  have t: "t < n" "thread_work s t = None" using target CStore by blast+
  obtain R where R: "tp_slots n s = R + opt_mset (thread_work s t)" "tp_slots n s' = R + opt_mset (Some w)"
    by (rule slots_update [OF t(1), of s' s "Some w"]) (simp_all add: s')
  show ?thesis using R t(2) CStore s' by (simp add: tp_moves_def)
next
  case (CPlace w)
  with st show ?thesis by (auto simp: tp_moves_def tp_slots_def split: if_splits)
qed (use st in \<open>auto simp: tp_moves_def tp_slots_def tp_set_def\<close>)


section \<open>The invariant\<close>

definition tw_inv :: "nat \<Rightarrow> 'a tp_state \<Rightarrow> 'a tp_pc list \<Rightarrow> bool" where
  "tw_inv n s ps \<longleftrightarrow> tp_inv n s ps
     \<and> (\<forall>t < n. \<forall>w. ps ! t = QClear (Some w) \<longrightarrow> thread_work s t = Some w)
     \<and> (\<forall>w. count (tp_places n s ps) w \<le> (if w < tp_fresh s then 1 else 0))
     \<and> (\<forall>w \<in># tp_loaded n s ps. work_impl s w \<noteq> None)
     \<and> mset (tp_done s) + tp_pending n s ps \<subseteq># mset (tp_added s)"

lemma tw_invD:
  assumes "tw_inv n s ps"
  shows "tp_inv n s ps" "t < n \<Longrightarrow> ps ! t = QClear (Some w) \<Longrightarrow> thread_work s t = Some w"
    "count (tp_places n s ps) w \<le> (if w < tp_fresh s then 1 else 0)"
    "w \<in># tp_loaded n s ps \<Longrightarrow> work_impl s w \<noteq> None"
    "mset (tp_done s) + tp_pending n s ps \<subseteq># mset (tp_added s)"
  using assms by (auto simp: tw_inv_def)

text \<open>What is loaded, seen from one thread: \<open>R\<close> and \<open>L\<close> are what the other threads hold.\<close>

lemma tp_split:
  assumes "i < length ps"
  obtains R L where
    "\<And>s. tp_places n s ps = R + (mset (work_wrapper_pool s) + mset (tp_queued_work s) + tp_slots n s + tp_holds (ps ! i))"
    "\<And>s p. tp_places n s (ps[i := p]) = R + (mset (work_wrapper_pool s) + mset (tp_queued_work s) + tp_slots n s + tp_holds p)"
    "\<And>s. tp_loaded n s ps = L + (mset (tp_queued_work s) + tp_slots n s + tp_loads (ps ! i))"
    "\<And>s p. tp_loaded n s (ps[i := p]) = L + (mset (tp_queued_work s) + tp_slots n s + tp_loads p)"
    "L \<subseteq># R"
proof (rule that)
  let ?h = "\<lambda>f :: 'a tp_pc \<Rightarrow> nat multiset. \<Sum>j\<in>{..<length ps} - {i}. f (ps ! j)"
  have same: "(\<Sum>j<length (ps[i := p]). f (ps[i := p] ! j)) = ?h f + f p" for f :: "'a tp_pc \<Rightarrow> nat multiset" and p
  proof -
    have "(\<Sum>j\<in>{..<length ps} - {i}. f (ps[i := p] ! j)) = ?h f" by (rule sum.cong) simp_all
    then show ?thesis using assms by (subst sum.remove [of _ i]) (simp_all add: add.commute)
  qed
  note self = same [of _ "ps ! i", unfolded list_update_id]
  show "tp_places n s ps = ?h tp_holds + (mset (work_wrapper_pool s) + mset (tp_queued_work s) + tp_slots n s + tp_holds (ps ! i))"
    "tp_loaded n s ps = ?h tp_loads + (mset (tp_queued_work s) + tp_slots n s + tp_loads (ps ! i))" for s
    unfolding tp_places_def tp_loaded_def self by (simp_all add: ac_simps)
  show "tp_places n s (ps[i := p]) = ?h tp_holds + (mset (work_wrapper_pool s) + mset (tp_queued_work s) + tp_slots n s + tp_holds p)"
    "tp_loaded n s (ps[i := p]) = ?h tp_loads + (mset (tp_queued_work s) + tp_slots n s + tp_loads p)" for s p
    unfolding tp_places_def tp_loaded_def same by (simp_all add: ac_simps)
  have sub: "tp_loads p \<subseteq># tp_holds p" for p :: "'a tp_pc" by (cases p) simp_all
  show "?h tp_loads \<subseteq># ?h tp_holds"
    by (rule mset_subset_eqI) (auto simp: count_sum intro!: sum_mono mset_subset_eq_count sub)
qed


lemma tw_cases:
  assumes inv: "tw_inv n s ps" and i: "i < length ps"
    and st: "(p', s') \<in> set (tp_step k sp n works i (ps ! i) s)"
  obtains (moves) "tp_moves n (ps ! i) s p' s'"
    | (fresh) f where "ps ! i = CWrapper f" "p' = CFill (tp_fresh s) f" "s' = s\<lparr>tp_fresh := tp_fresh s + 1\<rparr>"
    | (fill) w f where "ps ! i = CFill w f" "p' = CPlace w"
        "s' = s\<lparr>work_impl := (work_impl s)(w := Some f), tp_added := tp_added s @ [f]\<rparr>"
    | (exec) w where "ps ! i = QExec w" "p' = QReturn w"
        "s' = s\<lparr>tp_done := tp_done s @ (case work_impl s w of None \<Rightarrow> [] | Some f \<Rightarrow> [f])\<rparr>"
    | (delete) w where "ps ! i = DsDrop w" "p' = DsWrappers" "s' = s\<lparr>work_impl := (work_impl s)(w := None)\<rparr>"
proof -
  note ti = tw_invD(1) [OF inv]
  show thesis
  proof (cases "i < n")
    case True
    then have "(p', s') \<in> set (qt_run k sp i (ps ! i) s)" using st by (simp add: tp_step_def)
    moreover have "qt_pc (ps ! i)" using tp_invD(2) [OF ti i] True by simp
    ultimately show thesis using qt_run_moves [OF _ _ True] tw_invD(2) [OF inv True] moves exec by blast
  next
    case False
    with st consider "ps ! i = CIdle" "s' = s" "tp_holds p' = {#}" "tp_loads p' = {#}"
      | (add) "(p', s') \<in> set (tp_add_work k sp (ps ! i) s)"
      | (des) "(p', s') \<in> set (tp_destroy k sp (ps ! i) s)"
      by (auto simp: tp_step_def split: if_splits)
    then show thesis
    proof cases
      case 1
      then show thesis by (intro moves) (simp add: tp_moves_def)
    next
      case add
      have "\<forall>t w. ps ! i = CStore t w \<longrightarrow> t < n \<and> thread_work s t = None"
      proof (intro allI impI)
        fix t w assume "ps ! i = CStore t w"
        then have "t \<in> claims tp_target ps" using i by (auto simp: claims_iff)
        then show "t < n \<and> thread_work s t = None" using tp_invD(4) [OF ti] tp_invD(7) [OF ti, of t] by auto
      qed
      from tp_add_work_moves [OF add this] show thesis using moves fresh fill by blast
    next
      case des
      from tp_destroy_moves [OF des] show thesis using moves delete by blast
    qed
  qed
qed

lemma qt_run_clear:
  "(QClear (Some w), s') \<in> set (qt_run k sp i p s) \<Longrightarrow> thread_work s i = Some w \<and> s' = s"
  by (cases p) (auto simp: return_or_get_def split: if_splits option.splits list.splits)

text \<open>What a thread has loaded is what is still in its \<open>m_queued_work\<close>.\<close>

lemma tw_clear:
  assumes inv: "tw_inv n s ps" and i: "i < length ps"
    and st: "(p', s') \<in> set (tp_step k sp n works i (ps ! i) s)"
    and t: "t < n" "ps[i := p'] ! t = QClear (Some w)"
  shows "thread_work s' t = Some w"
proof (cases "i < n")
  case True
  then have run: "(p', s') \<in> set (qt_run k sp i (ps ! i) s)" using st by (simp add: tp_step_def)
  have q: "qt_pc (ps ! i)" using tp_invD(2) [OF tw_invD(1) [OF inv] i] True by simp
  show ?thesis
  proof (cases "t = i")
    case True
    with t i run qt_run_clear [of w s' k sp i "ps ! i" s] show ?thesis by auto
  next
    case False
    with t qt_run_step(2) [OF run q False] tw_invD(2) [OF inv t(1)] show ?thesis by simp
  qed
next
  case False
  with t have pc: "ps ! t = QClear (Some w)" by (cases "t = i") simp_all
  note old = tw_invD(2) [OF inv t(1) pc]
  from st False consider "thread_work s' = thread_work s" | (add) "(p', s') \<in> set (tp_add_work k sp (ps ! i) s)"
    by (auto simp: tp_step_def dest: tp_destroy_free split: if_splits)
  then show ?thesis
  proof cases
    case add
    then show ?thesis
    proof (cases rule: tp_add_work_free)
      case (store t' w')
      then have "t' \<in> claims tp_target ps" using i by (auto simp: claims_iff)
      then have "\<not> qt_busy (ps ! t')" using tp_invD(7) [OF tw_invD(1) [OF inv], of t'] by blast
      with pc have "t' \<noteq> t" by auto
      with store old show ?thesis by simp
    qed (simp_all add: old)
  qed (simp add: old)
qed


lemma tw_step_inv:
  assumes inv: "tw_inv n s ps" and i: "i < length ps"
    and st: "(p', s') \<in> set (tp_step k sp n works i (ps ! i) s)"
  shows "tw_inv n s' (ps[i := p'])"
proof -
  obtain R L where split:
    "\<And>s. tp_places n s ps = R + (mset (work_wrapper_pool s) + mset (tp_queued_work s) + tp_slots n s + tp_holds (ps ! i))"
    "\<And>s p. tp_places n s (ps[i := p]) = R + (mset (work_wrapper_pool s) + mset (tp_queued_work s) + tp_slots n s + tp_holds p)"
    "\<And>s. tp_loaded n s ps = L + (mset (tp_queued_work s) + tp_slots n s + tp_loads (ps ! i))"
    "\<And>s p. tp_loaded n s (ps[i := p]) = L + (mset (tp_queued_work s) + tp_slots n s + tp_loads p)"
    "L \<subseteq># R" by (rule tp_split [OF i, where n = n]) blast
  note one = tw_invD(3) [OF inv] and loaded = tw_invD(4) [OF inv] and dn = tw_invD(5) [OF inv]
  have LR: "count L w \<le> count R w" for w using split(5) by (rule mset_subset_eq_count)
  have go: "tw_inv n s' (ps[i := p'])"
    if "\<And>w. count (tp_places n s' (ps[i := p'])) w \<le> (if w < tp_fresh s' then 1 else 0)"
      and "\<And>w. w \<in># tp_loaded n s' (ps[i := p']) \<Longrightarrow> work_impl s' w \<noteq> None"
      and "mset (tp_done s') + tp_pending n s' (ps[i := p']) \<subseteq># mset (tp_added s')"
    using that tp.step_inv [OF tw_invD(1) [OF inv] i st] tw_clear [OF inv i st] unfolding tw_inv_def by blast
  show ?thesis
    using inv i st
  proof (cases rule: tw_cases)
    case moves
    then have sub: "tp_places n s' (ps[i := p']) \<subseteq># tp_places n s ps" "tp_loaded n s' (ps[i := p']) \<subseteq># tp_loaded n s ps"
      unfolding split tp_moves_def by simp_all
    from moves have same: "tp_fresh s' = tp_fresh s" "work_impl s' = work_impl s" "tp_done s' = tp_done s" "tp_added s' = tp_added s"
      by (simp_all add: tp_moves_def)
    show ?thesis
    proof (rule go, unfold same)
      show "count (tp_places n s' (ps[i := p'])) w \<le> (if w < tp_fresh s then 1 else 0)" for w
        using mset_subset_eq_count [OF sub(1)] one by (rule order_trans)
      show "work_impl s w \<noteq> None" if "w \<in># tp_loaded n s' (ps[i := p'])" for w
        using that loaded mset_subset_eqD [OF sub(2)] by blast
      have "tp_pending n s' (ps[i := p']) \<subseteq># tp_pending n s ps"
        unfolding tp_pending_def same by (rule image_mset_subseteq_mono [OF sub(2)])
      then show "mset (tp_done s) + tp_pending n s' (ps[i := p']) \<subseteq># mset (tp_added s)"
        using dn by (meson subset_mset.add_left_mono subset_mset.order_trans)
    qed
  next
    case (fresh f)
    have e: "tp_places n s' (ps[i := p']) = tp_places n s ps + {#tp_fresh s#}"
      "tp_loaded n s' (ps[i := p']) = tp_loaded n s ps"
      unfolding split fresh by (simp_all add: tp_slots_def)
    show ?thesis
    proof (rule go)
      show "count (tp_places n s' (ps[i := p'])) w \<le> (if w < tp_fresh s' then 1 else 0)" for w
        unfolding e using one [of w] by (auto simp: fresh(3) split: if_splits)
      show "work_impl s' w \<noteq> None" if "w \<in># tp_loaded n s' (ps[i := p'])" for w
        using that loaded unfolding e by (simp add: fresh(3))
      show "mset (tp_done s') + tp_pending n s' (ps[i := p']) \<subseteq># mset (tp_added s')"
        using dn unfolding tp_pending_def e by (simp add: fresh(3))
    qed
  next
    case (fill w f)
    have e: "tp_places n s' (ps[i := p']) = tp_places n s ps" "tp_loaded n s' (ps[i := p']) = tp_loaded n s ps + {#w#}"
      unfolding split fill by (simp_all add: tp_slots_def)
    have out: "w \<notin># tp_loaded n s ps"
      using one [of w] LR [of w] unfolding split fill by (auto simp: not_in_iff split: if_splits)
    then have "image_mset (\<lambda>v. the (work_impl s' v)) (tp_loaded n s ps) = tp_pending n s ps"
      unfolding tp_pending_def by (intro image_mset_cong) (auto simp: fill(3))
    then have p: "tp_pending n s' (ps[i := p']) = tp_pending n s ps + {#f#}"
      unfolding tp_pending_def e by (simp add: fill(3))
    show ?thesis
    proof (rule go)
      show "count (tp_places n s' (ps[i := p'])) v \<le> (if v < tp_fresh s' then 1 else 0)" for v
        unfolding e using one [of v] by (simp add: fill(3))
      show "work_impl s' v \<noteq> None" if "v \<in># tp_loaded n s' (ps[i := p'])" for v
        using that loaded [of v] unfolding e by (auto simp: fill(3))
      show "mset (tp_done s') + tp_pending n s' (ps[i := p']) \<subseteq># mset (tp_added s')"
        unfolding p using dn by (simp add: fill(3))
    qed
  next
    case (exec w)
    have e: "tp_places n s' (ps[i := p']) = tp_places n s ps" "tp_loaded n s ps = tp_loaded n s' (ps[i := p']) + {#w#}"
      unfolding split exec by (simp_all add: tp_slots_def)
    then obtain f where f: "work_impl s w = Some f" using loaded [of w] by auto
    have p: "tp_pending n s ps = tp_pending n s' (ps[i := p']) + {#f#}"
      unfolding tp_pending_def e(2) by (simp add: f exec(3))
    show ?thesis
    proof (rule go)
      show "count (tp_places n s' (ps[i := p'])) v \<le> (if v < tp_fresh s' then 1 else 0)" for v
        unfolding e using one [of v] by (simp add: exec(3))
      show "work_impl s' v \<noteq> None" if "v \<in># tp_loaded n s' (ps[i := p'])" for v
        using that loaded [of v] unfolding e(2) by (auto simp: exec(3))
      show "mset (tp_done s') + tp_pending n s' (ps[i := p']) \<subseteq># mset (tp_added s')"
        using dn unfolding p by (simp add: exec(3) f)
    qed
  next
    case (delete w)
    have e: "tp_places n s ps = tp_places n s' (ps[i := p']) + {#w#}" "tp_loaded n s' (ps[i := p']) = tp_loaded n s ps"
      unfolding split delete by (simp_all add: tp_slots_def)
    have out: "w \<notin># tp_loaded n s ps"
      using one [of w] LR [of w] unfolding split delete(1) by (auto simp: not_in_iff split: if_splits)
    then have p: "tp_pending n s' (ps[i := p']) = tp_pending n s ps"
      unfolding tp_pending_def e by (intro image_mset_cong) (auto simp: delete(3))
    show ?thesis
    proof (rule go)
      show "count (tp_places n s' (ps[i := p'])) v \<le> (if v < tp_fresh s' then 1 else 0)" for v
        using one [of v] unfolding e(1) by (simp add: delete(3) split: if_splits)
      show "work_impl s' v \<noteq> None" if "v \<in># tp_loaded n s' (ps[i := p'])" for v
        using that loaded [of v] out unfolding e(2) by (auto simp: delete(3))
      show "mset (tp_done s') + tp_pending n s' (ps[i := p']) \<subseteq># mset (tp_added s')"
        unfolding p using dn by (simp add: delete(3))
    qed
  qed
qed


interpretation tw: protocol "tp_step k sp n works" "tp_start n" "tw_inv n"
proof
  fix s :: "'a tp_state" and ps
  assume st: "tp_start n (s, ps)"
  have pc: "ps ! i = (if i < n then QTop else CIdle)" if "i < length ps" for i
    using st that by (simp add: tp_start_def)
  have "tp_places n s ps = {#}" "tp_loaded n s ps = {#}"
    using st by (auto simp: tp_places_def tp_loaded_def tp_slots_def tp_start_def tp_init_def pc intro!: sum.neutral)
  moreover have "n \<le> length ps" using st by (simp add: tp_start_def)
  ultimately show "tw_inv n s ps"
    using tp.start_inv [OF st] pc st unfolding tw_inv_def by (simp add: tp_pending_def tp_start_def tp_init_def)
qed (rule tw_step_inv)

lemma distinct_countI:
  assumes "\<And>w. count (mset xs) w \<le> 1"
  shows "distinct xs"
  unfolding distinct_count_atmost_1
proof
  fix w
  have "w \<in> set xs \<Longrightarrow> 0 < count (mset xs) w" "w \<notin> set xs \<Longrightarrow> count (mset xs) w = 0"
    by (simp_all add: count_eq_zero_iff)
  moreover have "count (mset xs) w \<le> 1" by (rule assms)
  ultimately show "count (mset xs) w = (if w \<in> set xs then 1 else 0)" unfolding One_nat_def by (metis le_SucE le_zero_eq less_irrefl)
qed

lemma count_sum_member:
  assumes "i < length ps"
  shows "count (f (ps ! i)) w \<le> count (\<Sum>l<length ps. f (ps ! l)) w"
  unfolding count_sum using assms by (intro member_le_sum) auto

lemma count_sum_two:
  assumes "i < length ps" "j < length ps" "i \<noteq> j"
  shows "count (f (ps ! i)) w + count (f (ps ! j)) w \<le> count (\<Sum>l<length ps. f (ps ! l)) w"
proof -
  have "(\<Sum>l\<in>{i, j}. count (f (ps ! l)) w) \<le> (\<Sum>l<length ps. count (f (ps ! l)) w)"
    by (rule sum_mono2) (use assms in auto)
  with assms(3) show ?thesis by (simp add: count_sum)
qed


text \<open>What the invariant says.\<close>

lemma tw_once:
  assumes inv: "tw_inv n s ps"
  shows "mset (tp_done s) \<subseteq># mset (tp_added s)
    \<and> distinct (work_wrapper_pool s @ tp_queued_work s)
    \<and> (\<forall>i < length ps. \<forall>w \<in># tp_holds (ps ! i). w \<notin> set (work_wrapper_pool s) \<and> w \<notin> set (tp_queued_work s)
        \<and> (\<forall>j < length ps. w \<in># tp_holds (ps ! j) \<longrightarrow> j = i))
    \<and> (\<forall>i < length ps. \<forall>w. ps ! i = QExec w \<longrightarrow> (\<exists>f \<in> set (tp_added s). work_impl s w = Some f))"
proof (intro conjI allI impI ballI)
  have one: "count (tp_places n s ps) w \<le> 1" for w using tw_invD(3) [OF inv, of w] by (simp split: if_splits)
  show "mset (tp_done s) \<subseteq># mset (tp_added s)"
    using tw_invD(5) [OF inv] by (rule subset_mset.order_trans [OF mset_subset_eq_add_left])
  have "count (mset (work_wrapper_pool s @ tp_queued_work s)) w \<le> 1" for w
    using one [of w] by (simp add: tp_places_def)
  then show "distinct (work_wrapper_pool s @ tp_queued_work s)"
    by (rule distinct_countI)
  fix i assume i: "i < length ps"
  show "w \<notin> set (work_wrapper_pool s)" "w \<notin> set (tp_queued_work s)" if "w \<in># tp_holds (ps ! i)" for w
  proof -
    have h: "0 < count (tp_holds (ps ! i)) w" using that by simp
    have "count (mset (work_wrapper_pool s)) w + count (mset (tp_queued_work s)) w
        + count (\<Sum>l<length ps. tp_holds (ps ! l)) w \<le> 1" using one [of w] unfolding tp_places_def by simp
    with h count_sum_member [OF i, of tp_holds w]
    have "count (mset (work_wrapper_pool s)) w = 0" "count (mset (tp_queued_work s)) w = 0" by linarith+
    then show "w \<notin> set (work_wrapper_pool s)" "w \<notin> set (tp_queued_work s)" by (simp_all add: count_eq_zero_iff)
  qed
  show "j = i" if "w \<in># tp_holds (ps ! i)" "j < length ps" "w \<in># tp_holds (ps ! j)" for w j
  proof (rule ccontr)
    assume "j \<noteq> i"
    moreover have "0 < count (tp_holds (ps ! i)) w" "0 < count (tp_holds (ps ! j)) w" using that by simp_all
    moreover have "count (\<Sum>l<length ps. tp_holds (ps ! l)) w \<le> 1" using one [of w] unfolding tp_places_def by simp
    ultimately show False using count_sum_two [OF i that(2), of tp_holds w] by linarith
  qed
  fix w assume pc: "ps ! i = QExec w"
  have "tp_loads (ps ! i) \<subseteq># (\<Sum>l<length ps. tp_loads (ps ! l))"
    by (rule mset_subset_eqI) (rule count_sum_member [OF i])
  then have "w \<in># tp_loaded n s ps" using pc unfolding tp_loaded_def by (auto dest: mset_subset_eqD)
  moreover from this obtain f where f: "work_impl s w = Some f" using tw_invD(4) [OF inv] by auto
  ultimately have "f \<in># tp_pending n s ps" by (force simp: tp_pending_def)
  then have "f \<in># mset (tp_added s)" using mset_subset_eqD [OF tw_invD(5) [OF inv]] by auto
  with f show "\<exists>f \<in> set (tp_added s). work_impl s w = Some f" by auto
qed

section \<open>Properties\<close>

text \<open>In every execution of a \<open>thread_pool\<close>, whatever the pool of wrappers does to calls
  that overlap, up to and after \<open>destroy\<close>: no work is called more often than it was added; no
  two threads have the same wrapper in their hands, none is in the pool or in the queue twice, or
  there and in the hands of a thread; and the wrapper a thread is about to call is alive and holds
  a work that was added.\<close>

theorem thread_pool_at_most_once:
  assumes "reach (tp_start n) (interleave (tp_step k spurious n works)) (s, ps)"
  shows "mset (tp_done s) \<subseteq># mset (tp_added s)
    \<and> distinct (work_wrapper_pool s @ tp_queued_work s)
    \<and> (\<forall>i < length ps. \<forall>w \<in># tp_holds (ps ! i). w \<notin> set (work_wrapper_pool s) \<and> w \<notin> set (tp_queued_work s)
        \<and> (\<forall>j < length ps. w \<in># tp_holds (ps ! j) \<longrightarrow> j = i))
    \<and> (\<forall>i < length ps. \<forall>w. ps ! i = QExec w \<longrightarrow> (\<exists>f \<in> set (tp_added s). work_impl s w = Some f))"
  by (rule tw_once [OF tw.reach_inv [OF assms]])

text \<open>A pool of one thread, which has called one work and is about to call another.\<close>

theorem thread_pool_at_most_once_witness:
  "\<exists>s :: char tp_state. tp_done s = ''f'' \<and> mset ''f'' \<subseteq># mset (tp_added s)
     \<and> distinct (work_wrapper_pool s @ tp_queued_work s) \<and> (\<exists>w. \<exists>f \<in> set (tp_added s). work_impl s w = Some f)"
proof -
  let ?sched = "replicate 4 (0, 0) @ replicate 7 (1, 0) @ replicate 8 (0, 0) @ (1, 1) # replicate 6 (1, 0) @ replicate 4 (0, 0)"
  have "\<exists>s. run_sched (tp_step Condition_Variable False 1 (\<lambda>i. ''fg'')) ?sched
      (tp_init 1, [QTop, CIdle]) = Some (s, [QExec 0, CIdle]) \<and> tp_done s = ''f''"
    by (simp add: tp_run numeral_nat)
  then obtain s where s: "run_sched (tp_step Condition_Variable False 1 (\<lambda>i. ''fg'')) ?sched
      (tp_init 1, [QTop, CIdle]) = Some (s, [QExec 0, CIdle])" "tp_done s = ''f''" by (elim exE conjE) (rule that)
  have "reach (tp_start 1) (interleave (tp_step Condition_Variable False 1 (\<lambda>i. ''fg''))) (s, [QExec 0, CIdle])"
    by (rule run_sched_reach_start [OF _ s(1)]) (auto simp: tp_start_def less_Suc_eq numeral_nat)
  from thread_pool_at_most_once [OF this] s(2) show ?thesis
    by (intro exI [of _ s]) (auto simp: less_Suc_eq numeral_nat)
qed


section \<open>A work that is lost\<close>

text \<open>The threads are those of the constructor until \<open>destroy\<close>, which one client calls, has ended.\<close>

fun ds_pc :: "'a tp_pc \<Rightarrow> bool" where
  "ds_pc DsClear = True"
| "ds_pc DsTest = True"
| "ds_pc DsLock = True"
| "ds_pc (DsDelete ts) = True"
| "ds_pc (DsSet ts) = True"
| "ds_pc (DsJoin ts) = True"
| "ds_pc DsWrappers = True"
| "ds_pc (DsDrop w) = True"
| "ds_pc DsEnd = True"
| "ds_pc p = False"

definition ds_inv :: "nat \<Rightarrow> 'a tp_state \<Rightarrow> 'a tp_pc list \<Rightarrow> bool" where
  "ds_inv n s ps \<longleftrightarrow> (\<forall>i < length ps. ds_pc (ps ! i) \<longrightarrow> i = n) \<and> (DsEnd \<in> set ps \<or> all_threads s = [0..<n])"

lemma qt_run_threads: "(p', s') \<in> set (qt_run k sp i p s) \<Longrightarrow> \<not> ds_pc p' \<and> p \<noteq> DsEnd \<and> all_threads s' = all_threads s"
  by (cases p) (auto simp: return_wrapper_to_pool_def return_or_get_def split: if_splits list.splits option.splits)

lemma tp_add_work_threads:
  "(p', s') \<in> set (tp_add_work k sp p s) \<Longrightarrow> \<not> ds_pc p' \<and> p \<noteq> DsEnd \<and> all_threads s' = all_threads s"
  by (cases p) (auto simp: tp_set_def split: if_splits option.splits)

lemma qt_shutdown_threads:
  "(p', s') \<in> set (qt_shutdown k p s) \<Longrightarrow> ds_pc p \<and> p \<noteq> DsEnd \<and> all_threads s' = all_threads s"
  by (induction k p s rule: qt_shutdown.induct) (auto simp: tp_set_def split: if_splits)

lemma tp_destroy_threads:
  "(p', s') \<in> set (tp_destroy k sp p s) \<Longrightarrow> ds_pc p \<and> p \<noteq> DsEnd \<and> (p' = DsEnd \<or> all_threads s' = all_threads s)"
proof (induction k sp p s rule: tp_destroy.induct)
  case (5 k sp s)
  then show ?case by (auto split: option.splits)
qed (auto dest: qt_shutdown_threads split: if_splits)

lemma tp_step_threads:
  assumes "(p', s') \<in> set (tp_step k sp n works i p s)"
  shows "(ds_pc p' \<longrightarrow> i = n \<or> ds_pc p) \<and> (p' = DsEnd \<or> all_threads s' = all_threads s) \<and> p \<noteq> DsEnd"
  using assms by (auto simp: tp_step_def dest: qt_run_threads tp_add_work_threads tp_destroy_threads split: if_splits)

interpretation ds: protocol "tp_step k sp n works" "tp_start n" "ds_inv n"
proof
  fix s :: "'a tp_state" and ps
  assume st: "tp_start n (s, ps)"
  then have "ps ! i = (if i < n then QTop else CIdle)" if "i < length ps" for i
    using that by (simp add: tp_start_def)
  with st show "ds_inv n s ps" by (simp add: ds_inv_def tp_start_def tp_init_def)
next
  fix s :: "'a tp_state" and ps i p' s'
  assume inv: "ds_inv n s ps" and i: "i < length ps" and st: "(p', s') \<in> set (tp_step k sp n works i (ps ! i) s)"
  note step = tp_step_threads [OF st]
  have "DsEnd \<in> set (ps[i := p'])" if e: "DsEnd \<in> set ps"
  proof -
    obtain j where j: "j < length ps" "ps ! j = DsEnd" using e by (auto simp: in_set_conv_nth)
    with step have "j \<noteq> i" by auto
    with j show ?thesis by (metis length_list_update nth_list_update_neq nth_mem)
  qed
  with inv i step show "ds_inv n s' (ps[i := p'])"
    by (auto simp: ds_inv_def nth_list_update set_update_memI)
qed

text \<open>A thread whose work was overwritten: it has none, nobody will give it one, and it does not
  come to the end of a work; the wrapper is nowhere.\<close>

fun qt_idle :: "'a tp_pc \<Rightarrow> bool" where
  "qt_idle QTop = True"
| "qt_idle QLoad = True"
| "qt_idle (QClear c) = (c = None)"
| "qt_idle QWait = True"
| "qt_idle QBlocked = True"
| "qt_idle QExit = True"
| "qt_idle p = False"

definition tp_lost :: "nat \<Rightarrow> nat \<Rightarrow> nat \<Rightarrow> 'a tp_state \<Rightarrow> 'a tp_pc list \<Rightarrow> bool" where
  "tp_lost n t w s ps \<longleftrightarrow> tw_inv n s ps \<and> ds_inv n s ps \<and> t < n
     \<and> t \<notin> set (free_threads s) \<union> claims tp_target ps \<and> thread_work s t = None \<and> qt_idle (ps ! t)
     \<and> w < tp_fresh s \<and> w \<notin># tp_places n s ps"

lemma qt_run_idle:
  "(p', s') \<in> set (qt_run k sp t p s) \<Longrightarrow> qt_idle p \<Longrightarrow> thread_work s t = None \<Longrightarrow>
    qt_idle p' \<and> thread_work s' t = None \<and> free_threads s' = free_threads s"
  by (cases p) (auto split: if_splits)

lemma tp_places_lost:
  assumes inv: "tw_inv n s ps" and i: "i < length ps" and st: "(p', s') \<in> set (tp_step k sp n works i (ps ! i) s)"
    and w: "w < tp_fresh s" "w \<notin># tp_places n s ps"
  shows "w < tp_fresh s' \<and> w \<notin># tp_places n s' (ps[i := p'])"
proof -
  obtain R L where split:
    "\<And>s. tp_places n s ps = R + (mset (work_wrapper_pool s) + mset (tp_queued_work s) + tp_slots n s + tp_holds (ps ! i))"
    "\<And>s p. tp_places n s (ps[i := p]) = R + (mset (work_wrapper_pool s) + mset (tp_queued_work s) + tp_slots n s + tp_holds p)"
    by (rule tp_split [OF i, where n = n]) blast
  from inv i st show ?thesis
  proof (cases rule: tw_cases)
    case moves
    then have "tp_places n s' (ps[i := p']) \<subseteq># tp_places n s ps" "tp_fresh s' = tp_fresh s"
      unfolding split tp_moves_def by simp_all
    with w show ?thesis by (auto dest: mset_subset_eqD)
  qed (use w in \<open>auto simp: split tp_slots_def\<close>)
qed

lemma tp_step_lost:
  assumes inv: "tp_inv n s ps" and i: "i < length ps" and st: "(p', s') \<in> set (tp_step k sp n works i (ps ! i) s)"
    and t: "t < n" "t \<notin> set (free_threads s) \<union> claims tp_target ps" "thread_work s t = None" "qt_idle (ps ! t)"
  shows "t \<notin> set (free_threads s') \<union> claims tp_target (ps[i := p']) \<and> thread_work s' t = None \<and> qt_idle (ps[i := p'] ! t)"
proof -
  note cl = claims_update [OF tp_invD(5) [OF inv] i, of p']
  show ?thesis
  proof (cases "i < n")
    case True
    then have run: "(p', s') \<in> set (qt_run k sp i (ps ! i) s)" using st by (simp add: tp_step_def)
    have q: "qt_pc (ps ! i)" using tp_invD(2) [OF inv i] True by simp
    note step = qt_run_step [OF run q]
    show ?thesis
    proof (cases "i = t")
      case True
      with qt_run_idle [of p' s' k sp t "ps ! i" s] run t i cl step(1) show ?thesis by simp
    next
      case False
      then have "thread_work s' t = None" using step(2) [of t] t(3) by simp
      moreover have "t \<notin> set (free_threads s')" using step(3) t(2) False by auto
      ultimately show ?thesis using t(2,4) cl step(1) False by simp
    qed
  next
    case False
    with t(1) have pc: "ps[i := p'] ! t = ps ! t" by (cases "i = t") simp_all
    from st False consider
      (rest) "tp_target p' = {}" "thread_work s' = thread_work s" "set (free_threads s') \<subseteq> set (free_threads s)"
      | (add) "(p', s') \<in> set (tp_add_work k sp (ps ! i) s)"
      by (auto simp: tp_step_def dest: tp_destroy_free split: if_splits)
    then show ?thesis
    proof cases
      case rest
      with t cl show ?thesis unfolding pc by auto
    next
      case add
      then show ?thesis
      proof (cases rule: tp_add_work_free)
        case (pop v)
        then have "last (free_threads s) \<noteq> t" using t(2) last_in_set by blast
        with pop t cl show ?thesis unfolding pc by (auto dest: in_set_butlastD)
      next
        case (store u v)
        then have "u \<in> claims tp_target ps" using i by (auto simp: claims_iff)
        then have "u \<noteq> t" using t(2) by blast
        with store t cl show ?thesis unfolding pc by simp
      qed (use t cl in \<open>simp_all add: pc\<close>)
    qed
  qed
qed

interpretation lost: protocol "tp_step k sp n works" "\<lambda>x. tp_lost n t w (fst x) (snd x)" "tp_lost n t w"
proof
  fix s :: "'a tp_state" and ps i p' s'
  assume l: "tp_lost n t w s ps" and i: "i < length ps" and st: "(p', s') \<in> set (tp_step k sp n works i (ps ! i) s)"
  then have inv: "tw_inv n s ps" "ds_inv n s ps" "w < tp_fresh s" "w \<notin># tp_places n s ps" by (simp_all add: tp_lost_def)
  from l tp_step_lost [OF tw_invD(1) [OF inv(1)] i st, of t] tw.step_inv [OF inv(1) i st] ds.step_inv [OF inv(2) i st]
    tp_places_lost [OF inv(1) i st inv(3,4)]
  show "tp_lost n t w s' (ps[i := p'])" by (simp add: tp_lost_def)
qed simp

text \<open>What a lost work means: it is in nobody's hands, its thread is never free, and the comparison of
  \<open>destroy\<close> fails.\<close>

lemma tp_lost_never:
  assumes l: "tp_lost n t w s ps"
  shows "QExec w \<notin> set ps \<and> t \<notin> set (free_threads s)
    \<and> (DsTest \<in> set ps \<longrightarrow> tp_destroy k sp DsTest s = [(DsTest, s)])"
proof (intro conjI impI)
  have inv: "tp_inv n s ps" "ds_inv n s ps" and t: "t < n" "t \<notin> set (free_threads s)"
    and w: "w \<notin># tp_places n s ps" using l by (auto simp: tp_lost_def tw_inv_def)
  show "t \<notin> set (free_threads s)" by (rule t(2))
  show "QExec w \<notin> set ps"
  proof
    assume "QExec w \<in> set ps"
    then obtain i where i: "i < length ps" "ps ! i = QExec w" by (auto simp: in_set_conv_nth)
    have "count (tp_holds (ps ! i)) w \<le> count (tp_places n s ps) w"
      using count_sum_member [OF i(1), of tp_holds w] by (simp add: tp_places_def)
    with w i(2) show False by (simp add: not_in_iff)
  qed
  assume "DsTest \<in> set ps"
  then obtain i where i: "i < length ps" "ps ! i = DsTest" by (auto simp: in_set_conv_nth)
  have ds: "j = n" if "j < length ps" "ds_pc (ps ! j)" for j using inv(2) that by (simp add: ds_inv_def)
  have pn: "ps ! n = DsTest" using ds [of i] i by simp
  have "DsEnd \<notin> set ps"
  proof
    assume "DsEnd \<in> set ps"
    then obtain j where "j < length ps" "ps ! j = DsEnd" by (auto simp: in_set_conv_nth)
    with ds [of j] pn show False by simp
  qed
  then have "length (all_threads s) = n" using inv(2) by (simp add: ds_inv_def)
  moreover have "length (free_threads s) < n"
  proof -
    have "set (free_threads s) \<subset> {..<n}" using tp_invD(4) [OF inv(1)] t by auto
    then have "card (set (free_threads s)) < card {..<n}" by (intro psubset_card_mono) simp_all
    then show ?thesis using tp_invD(3) [OF inv(1)] by (simp add: distinct_card)
  qed
  ultimately show "tp_destroy k sp DsTest s = [(DsTest, s)]" by simp
qed

text \<open>The two stores, one after the other, make that state.\<close>

lemma tp_overwrite_lost:
  assumes inv: "tw_inv n s ps" "ds_inv n s ps"
    and t: "t < n" "ps ! t = QClear None" and i: "i < length ps" "ps ! i = CStore t w"
  obtains s' where "run_sched (tp_step k sp n works) [(i, 0), (t, 0)] (s, ps) = Some (s', ps[i := CSet t, t := QWait])"
    and "tp_lost n t w s' (ps[i := CSet t, t := QWait])"
proof (rule that)
  note ti = tw_invD(1) [OF inv(1)]
  have "\<not> qt_pc (ps ! i)" using i(2) by simp
  then have ni: "\<not> i < n" "i \<noteq> t" and len: "t < length ps" using tp_invD(1,2) [OF ti] t(1) i(1) by auto
  let ?sa = "s\<lparr>thread_work := (thread_work s)(t := Some w)\<rparr>" and ?pa = "ps[i := CSet t]"
  let ?sb = "?sa\<lparr>thread_work := (thread_work ?sa)(t := None)\<rparr>" and ?pb = "?pa[t := QWait]"
  have pt: "?pa ! t = QClear None" and la: "t < length ?pa" using t(2) ni len by simp_all
  have sta: "(CSet t, ?sa) \<in> set (tp_step k sp n works i (ps ! i) s)" using ni i(2) by (simp add: tp_step_def)
  have stb: "(QWait, ?sb) \<in> set (tp_step k sp n works t (?pa ! t) ?sa)"
    unfolding pt using t(1) by (simp add: tp_step_def)
  show "run_sched (tp_step k sp n works) [(i, 0), (t, 0)] (s, ps) = Some (?sb, ?pb)"
    using t i ni len by (simp add: tp_step_def)
  note a = tw.step_inv [OF inv(1) i(1) sta] ds.step_inv [OF inv(2) i(1) sta]
  note b = tw.step_inv [OF a(1) la stb] ds.step_inv [OF a(2) la stb]
  have "claims tp_target ?pb = claims tp_target ps - {t}"
    using claims_update [OF tp_invD(5) [OF ti] i(1), of "CSet t"]
      claims_update [OF tp_invD(5) [OF tw_invD(1) [OF a(1)]] la, of QWait] pt i(2) by simp
  moreover have "t \<in> claims tp_target ps" using i by (auto simp: claims_iff)
  ultimately have free: "t \<notin> set (free_threads ?sb) \<union> claims tp_target ?pb" using tp_invD(6) [OF ti] by auto
  have "count (tp_holds (ps ! i)) w \<le> count (tp_places n s ps) w"
    using count_sum_member [OF i(1), of tp_holds w] by (simp add: tp_places_def)
  then have "0 < count (tp_places n s ps) w" using i(2) by simp
  moreover have "count (tp_places n s ps) w \<le> 0" if "\<not> w < tp_fresh s"
    using tw_invD(3) [OF inv(1), of w] unfolding if_not_P [OF that] .
  ultimately have fresh: "w < tp_fresh s" by linarith
  obtain R where R: "tp_slots n ?sa = R + opt_mset (thread_work ?sa t)" "tp_slots n ?sb = R + opt_mset None"
    by (rule slots_update [OF t(1), of ?sb ?sa None]) simp_all
  obtain Q L where Q:
    "\<And>s. tp_places n s ?pa = Q + (mset (work_wrapper_pool s) + mset (tp_queued_work s) + tp_slots n s + tp_holds (?pa ! t))"
    "\<And>s p. tp_places n s (?pa[t := p]) = Q + (mset (work_wrapper_pool s) + mset (tp_queued_work s) + tp_slots n s + tp_holds p)"
    by (rule tp_split [OF la, where n = n]) blast
  have "tp_places n ?sa ?pa = add_mset w (tp_places n ?sb ?pb)" unfolding Q R pt by simp
  moreover have "count (tp_places n ?sa ?pa) w \<le> 1" using tw_invD(3) [OF a(1), of w] by (simp split: if_splits)
  ultimately have "w \<notin># tp_places n ?sb ?pb" by (simp add: not_in_iff)
  then show "tp_lost n t w ?sb ?pb" using b t(1) free fresh len unfolding tp_lost_def by simp
qed

text \<open>C38. A work can be lost for ever. In any state of a pool in which a thread is between the load
  of its \<open>m_queued_work\<close>, which gave null, and the store \<open>m_queued_work = nullptr\<close>, and a client is
  about to give it a wrapper: if the client's store comes first, then from there on, whatever
  happens, no thread calls the work in that wrapper, the thread never is in \<open>m_free_threads\<close>
  again, and the comparison on which \<open>destroy\<close> waits always fails.\<close>

theorem thread_pool_loses_work:
  assumes "reach (tp_start n) (interleave (tp_step k spurious n works)) (s, ps)"
    and "t < n" "ps ! t = QClear None" "i < length ps" "ps ! i = CStore t w"
  shows "\<exists>s1 ps1. run_sched (tp_step k spurious n works) [(i, 0), (t, 0)] (s, ps) = Some (s1, ps1)
    \<and> (\<forall>s2 ps2. reach (\<lambda>x. x = (s1, ps1)) (interleave (tp_step k spurious n works)) (s2, ps2) \<longrightarrow>
         QExec w \<notin> set ps2 \<and> t \<notin> set (free_threads s2)
         \<and> (DsTest \<in> set ps2 \<longrightarrow> tp_destroy k spurious DsTest s2 = [(DsTest, s2)]))"
proof -
  obtain s1 where run: "run_sched (tp_step k spurious n works) [(i, 0), (t, 0)] (s, ps) = Some (s1, ps[i := CSet t, t := QWait])"
    and lost: "tp_lost n t w s1 (ps[i := CSet t, t := QWait])"
    by (rule tp_overwrite_lost [OF tw.reach_inv [OF assms(1)] ds.reach_inv [OF assms(1)] assms(2-5)])
  have "tp_lost n t w s2 ps2"
    if "reach (\<lambda>x. x = (s1, ps[i := CSet t, t := QWait])) (interleave (tp_step k spurious n works)) (s2, ps2)" for s2 ps2
    by (rule lost.reach_inv, rule reach_mono [OF _ that]) (use lost in simp)
  with run tp_lost_never [of n t w _ _ k spurious] show ?thesis by blast
qed

text \<open>A pool of one thread and one client, both about to store.\<close>

theorem thread_pool_loses_work_witness:
  "\<exists>s1 s2 :: char tp_state. \<exists>ps1. run_sched (tp_step Windows_Event False 1 (\<lambda>i. ''f'')) [(1, 0), (0, 0)]
       (s1, [QClear None, CStore 0 0]) = Some (s2, ps1) \<and> QExec 0 \<notin> set ps1 \<and> 0 \<notin> set (free_threads s2)"
proof -
  have "\<exists>s. run_sched (tp_step Windows_Event False 1 (\<lambda>i. ''f'')) (replicate 2 (0, 0) @ replicate 5 (1, 0))
      (tp_init 1, [QTop, CIdle]) = Some (s, [QClear None, CStore 0 0])"
    by (simp add: tp_run numeral_nat)
  then obtain s where s: "run_sched (tp_step Windows_Event False 1 (\<lambda>i. ''f'')) (replicate 2 (0, 0) @ replicate 5 (1, 0))
      (tp_init 1, [QTop, CIdle]) = Some (s, [QClear None, CStore 0 0])" by (rule exE)
  have "reach (tp_start 1) (interleave (tp_step Windows_Event False 1 (\<lambda>i. ''f''))) (s, [QClear None, CStore 0 0])"
    by (rule run_sched_reach_start [OF _ s]) (auto simp: tp_start_def less_Suc_eq)
  from thread_pool_loses_work [OF this, of 0 1 0] obtain s1 ps1
    where run: "run_sched (tp_step Windows_Event False 1 (\<lambda>i. ''f'')) [(1, 0), (0, 0)] (s, [QClear None, CStore 0 0]) = Some (s1, ps1)"
      and "\<forall>s2 ps2. reach (\<lambda>x. x = (s1, ps1)) (interleave (tp_step Windows_Event False 1 (\<lambda>i. ''f''))) (s2, ps2) \<longrightarrow>
        QExec 0 \<notin> set ps2 \<and> 0 \<notin> set (free_threads s2)" by auto
  then have "QExec 0 \<notin> set ps1 \<and> 0 \<notin> set (free_threads s1)" by (blast intro: reach_start)
  with run show ?thesis by blast
qed

end
