(* ===== verification/Mpmc_Tickets.thy ===== *)
theory Mpmc_Tickets
  imports Interfaces "HOL-Library.Multiset"
begin

text \<open>
  The abstract specification of \<open>mpmc_bounded_queue\<close>: the protocol of tickets, with natural
  numbers for positions and sequence numbers, so that nothing wraps. A producer that advances the
  enqueue position takes the next ticket and owns the slot \<open>t mod n\<close> until it publishes; a
  consumer that advances the dequeue position takes the next ticket there and owns the slot until
  it frees it for ticket \<open>t + n\<close>.

  Two histories that no thread reads record what happened: \<open>tk_log\<close> is the list of the values
  by ticket, and \<open>tk_got\<close> the list of the deliveries, each with its ticket. The theory
  \<open>Mpmc_Bounded\<close> has the code and shows that it follows this protocol.
\<close>

datatype ('a, 'p) mq_pc =
  MqIdle
| EnqPos 'a        \<comment> \<open>try_enqueue: before the load of the position\<close>
| EnqSeq 'a 'p     \<comment> \<open>before the load of the sequence number of the cell\<close>
| EnqCas 'a 'p     \<comment> \<open>before the compare-exchange\<close>
| EnqData 'a 'p    \<comment> \<open>ticket taken, before the data is assigned\<close>
| EnqPub 'a 'p     \<comment> \<open>before the sequence number is stored\<close>
| EnqDone bool     \<comment> \<open>what try_enqueue returned\<close>
| DeqPos           \<comment> \<open>try_dequeue: before the load of the position\<close>
| DeqSeq 'p
| DeqCas 'p
| DeqData 'p       \<comment> \<open>ticket taken, before the data is moved out\<close>
| DeqFree 'p 'a    \<comment> \<open>before the sequence number is stored\<close>
| DeqDone "'a option"  \<comment> \<open>what try_dequeue returned\<close>
| MqUndefined      \<comment> \<open>the code only: a signed subtraction has overflowed\<close>

record 'a tk_state =
  tk_seq :: "nat \<Rightarrow> nat"
  tk_data :: "nat \<Rightarrow> 'a"
  tk_enq :: nat
  tk_deq :: nat
  tk_log :: "'a list"
  tk_got :: "(nat \<times> 'a) list"

fun tk_move :: "nat \<Rightarrow> ('a, nat) mq_pc \<Rightarrow> 'a tk_state \<Rightarrow> ('a, nat) mq_pc \<times> 'a tk_state" where
  "tk_move n MqIdle s = (MqIdle, s)"
| "tk_move n (EnqPos v) s = (EnqSeq v (tk_enq s), s)"
| "tk_move n (EnqSeq v t) s =
     (if tk_seq s (t mod n) = t then EnqCas v t
      else if tk_seq s (t mod n) < t then EnqDone False else EnqPos v, s)"
| "tk_move n (EnqCas v t) s =
     (if tk_enq s = t then (EnqData v t, s\<lparr>tk_enq := Suc t, tk_log := tk_log s @ [v]\<rparr>)
      else (EnqSeq v (tk_enq s), s))"
| "tk_move n (EnqData v t) s = (EnqPub v t, s\<lparr>tk_data := (tk_data s)(t mod n := v)\<rparr>)"
| "tk_move n (EnqPub v t) s = (EnqDone True, s\<lparr>tk_seq := (tk_seq s)(t mod n := Suc t)\<rparr>)"
| "tk_move n (EnqDone b) s = (MqIdle, s)"
| "tk_move n DeqPos s = (DeqSeq (tk_deq s), s)"
| "tk_move n (DeqSeq t) s =
     (if tk_seq s (t mod n) = Suc t then DeqCas t
      else if tk_seq s (t mod n) < Suc t then DeqDone None else DeqPos, s)"
| "tk_move n (DeqCas t) s =
     (if tk_deq s = t then (DeqData t, s\<lparr>tk_deq := Suc t\<rparr>) else (DeqSeq (tk_deq s), s))"
| "tk_move n (DeqData t) s =
     (DeqFree t (tk_data s (t mod n)), s\<lparr>tk_got := tk_got s @ [(t, tk_data s (t mod n))]\<rparr>)"
| "tk_move n (DeqFree t x) s = (DeqDone (Some x), s\<lparr>tk_seq := (tk_seq s)(t mod n := t + n)\<rparr>)"
| "tk_move n (DeqDone r) s = (MqIdle, s)"
| "tk_move n MqUndefined s = (MqUndefined, s)"

text \<open>Thread \<open>i\<close> may push any of the values \<open>vals i\<close>.\<close>

definition mq_calls :: "'a list \<Rightarrow> ('a, 'p) mq_pc list" where
  "mq_calls vs = map EnqPos vs @ [DeqPos]"

definition tk_step :: "nat \<Rightarrow> (nat \<Rightarrow> 'a list) \<Rightarrow> ('a tk_state, ('a, nat) mq_pc) thread_step" where
  "tk_step n vals i p s =
     (if p = MqIdle then map (\<lambda>q. (q, s)) (mq_calls (vals i)) else [tk_move n p s])"


section \<open>The invariant\<close>

text \<open>A ticket a thread has taken and not yet given up: as a producer or as a consumer.\<close>

fun tk_claim :: "('a, 'p) mq_pc \<Rightarrow> (bool \<times> 'p) option" where
  "tk_claim (EnqData v t) = Some (True, t)"
| "tk_claim (EnqPub v t) = Some (True, t)"
| "tk_claim (DeqData t) = Some (False, t)"
| "tk_claim (DeqFree t x) = Some (False, t)"
| "tk_claim p = None"

fun tk_reads :: "('a, 'p) mq_pc \<Rightarrow> 'p option" where
  "tk_reads (DeqData t) = Some t"
| "tk_reads p = None"

definition tk_free :: "nat \<Rightarrow> 'a tk_state \<Rightarrow> nat \<Rightarrow> bool" where
  "tk_free n s t \<longleftrightarrow> tk_seq s (t mod n) = t \<and> tk_deq s \<le> t \<and> t < tk_deq s + n"

definition tk_full :: "nat \<Rightarrow> 'a tk_state \<Rightarrow> nat \<Rightarrow> bool" where
  "tk_full n s t \<longleftrightarrow> tk_seq s (t mod n) = Suc t \<and> t < tk_enq s \<and> tk_enq s \<le> t + n
     \<and> tk_data s (t mod n) = tk_log s ! t"

fun tk_ok :: "nat \<Rightarrow> 'a tk_state \<Rightarrow> ('a, nat) mq_pc \<Rightarrow> bool" where
  "tk_ok n s (EnqSeq v t) = (t \<le> tk_enq s)"
| "tk_ok n s (EnqCas v t) = (t \<le> tk_enq s \<and> (t = tk_enq s \<longrightarrow> tk_seq s (t mod n) = t))"
| "tk_ok n s (EnqData v t) = (t < tk_enq s \<and> tk_seq s (t mod n) = t \<and> tk_log s ! t = v)"
| "tk_ok n s (EnqPub v t) =
     (t < tk_enq s \<and> tk_seq s (t mod n) = t \<and> tk_log s ! t = v \<and> tk_data s (t mod n) = v)"
| "tk_ok n s (DeqSeq t) = (t \<le> tk_deq s)"
| "tk_ok n s (DeqCas t) = (t \<le> tk_deq s \<and> (t = tk_deq s \<longrightarrow> tk_seq s (t mod n) = Suc t))"
| "tk_ok n s (DeqData t) = (t < tk_deq s \<and> tk_seq s (t mod n) = Suc t \<and> t \<notin> fst ` set (tk_got s))"
| "tk_ok n s (DeqFree t x) = (t < tk_deq s \<and> tk_seq s (t mod n) = Suc t \<and> x = tk_log s ! t)"
| "tk_ok n s MqUndefined = False"
| "tk_ok n s p = True"

definition tk_slots :: "nat \<Rightarrow> 'a tk_state \<Rightarrow> bool" where
  "tk_slots n s \<longleftrightarrow> (\<forall>k < n. \<exists>t. t mod n = k \<and> (tk_free n s t \<or> tk_full n s t))"

definition tk_mem :: "nat \<Rightarrow> 'a tk_state \<Rightarrow> bool" where
  "tk_mem n s \<longleftrightarrow> 1 < n \<and> length (tk_log s) = tk_enq s \<and> tk_deq s \<le> tk_enq s \<and> tk_enq s \<le> tk_deq s + n
     \<and> tk_slots n s \<and> distinct (map fst (tk_got s)) \<and> (\<forall>(t, x) \<in> set (tk_got s). t < tk_deq s \<and> x = tk_log s ! t)"

definition tk_unique :: "('a, nat) mq_pc list \<Rightarrow> bool" where
  "tk_unique ps \<longleftrightarrow> (\<forall>i < length ps. \<forall>j < length ps. i \<noteq> j \<longrightarrow> tk_claim (ps ! i) \<noteq> None \<longrightarrow>
     tk_claim (ps ! i) \<noteq> tk_claim (ps ! j))"

definition tk_has :: "('pc \<Rightarrow> 'c option) \<Rightarrow> 'c \<Rightarrow> 'pc list \<Rightarrow> bool" where
  "tk_has f c ps \<longleftrightarrow> (\<exists>p \<in> set ps. f p = Some c)"

text \<open>Nothing is stuck without an owner: a slot taken but not published or not freed has a
  thread working on it, and every consumed ticket is delivered or about to be read.\<close>

definition tk_owned :: "nat \<Rightarrow> 'a tk_state \<Rightarrow> ('a, nat) mq_pc list \<Rightarrow> bool" where
  "tk_owned n s ps \<longleftrightarrow>
     (\<forall>t < tk_enq s. tk_seq s (t mod n) = t \<longrightarrow> tk_has tk_claim (True, t) ps)
     \<and> (\<forall>t < tk_deq s. tk_seq s (t mod n) = Suc t \<longrightarrow> tk_has tk_claim (False, t) ps)
     \<and> (\<forall>t < tk_deq s. t \<in> fst ` set (tk_got s) \<or> tk_has tk_reads t ps)"

definition tk_inv :: "nat \<Rightarrow> 'a tk_state \<Rightarrow> ('a, nat) mq_pc list \<Rightarrow> bool" where
  [inv_defs]: "tk_inv n s ps \<longleftrightarrow> tk_mem n s \<and> (\<forall>i < length ps. tk_ok n s (ps ! i)) \<and> tk_unique ps
     \<and> tk_owned n s ps"

lemma tk_invD:
  assumes "tk_inv n s ps"
  shows "tk_mem n s" "i < length ps \<Longrightarrow> tk_ok n s (ps ! i)" "tk_unique ps" "tk_owned n s ps"
  using assms by (auto simp: tk_inv_def)

lemma tk_uniqueD:
  "tk_unique ps \<Longrightarrow> i < length ps \<Longrightarrow> j < length ps \<Longrightarrow> tk_claim (ps ! i) = Some c \<Longrightarrow>
    tk_claim (ps ! j) = Some c \<Longrightarrow> i = j"
  unfolding tk_unique_def by (metis option.distinct(1))

lemma tk_unique_update:
  assumes "tk_unique ps" "i < length ps"
    and "tk_claim p \<noteq> None \<Longrightarrow> \<forall>j < length ps. j \<noteq> i \<longrightarrow> tk_claim (ps ! j) \<noteq> tk_claim p"
  shows "tk_unique (ps[i := p])"
  unfolding tk_unique_def length_list_update
proof (intro allI impI)
  fix a b assume ab: "a < length ps" "b < length ps" "a \<noteq> b" "tk_claim (ps[i := p] ! a) \<noteq> None"
  show "tk_claim (ps[i := p] ! a) \<noteq> tk_claim (ps[i := p] ! b)"
  proof (cases "a = i \<or> b = i")
    case False
    with ab assms(1) show ?thesis by (simp add: tk_unique_def)
  next
    case True
    with ab assms(2,3) show ?thesis by (cases "a = i") (metis nth_list_update_eq nth_list_update_neq)+
  qed
qed

text \<open>What a slot can be, from what its sequence number is.\<close>

lemma tk_memD:
  assumes "tk_mem n s"
  shows "1 < n" "length (tk_log s) = tk_enq s" "tk_deq s \<le> tk_enq s" "tk_enq s \<le> tk_deq s + n"
    and "tk_slots n s" "distinct (map fst (tk_got s))"
    and "(t, x) \<in> set (tk_got s) \<Longrightarrow> t < tk_deq s \<and> x = tk_log s ! t"
  using assms by (auto simp: tk_mem_def)

lemma tk_mem_slot:
  assumes "tk_mem n s"
  obtains u where "u mod n = t mod n" "tk_free n s u \<or> tk_full n s u"
proof -
  have "t mod n < n" using tk_memD(1) [OF assms] by simp
  with tk_memD(5) [OF assms] that show ?thesis unfolding tk_slots_def by blast
qed

lemma tk_seq_free:
  assumes "tk_mem n s" "tk_seq s (t mod n) = t"
  shows "tk_free n s t"
proof -
  obtain u where u: "u mod n = t mod n" "tk_free n s u \<or> tk_full n s u"
    using assms(1) by (rule tk_mem_slot)
  have "\<not> tk_full n s u"
  proof
    assume "tk_full n s u"
    with u(1) assms(2) have "t = Suc u" unfolding tk_full_def by metis
    with u(1) mod_Suc_neq [OF tk_memD(1) [OF assms(1)], of u] show False by simp
  qed
  with u(2) have f: "tk_free n s u" by blast
  then have "u = t" using u(1) assms(2) unfolding tk_free_def by metis
  with f show ?thesis by blast
qed

lemma tk_seq_full:
  assumes "tk_mem n s" "tk_seq s (t mod n) = Suc t"
  shows "tk_full n s t"
proof -
  obtain u where u: "u mod n = t mod n" "tk_free n s u \<or> tk_full n s u"
    using assms(1) by (rule tk_mem_slot)
  have "\<not> tk_free n s u"
  proof
    assume "tk_free n s u"
    with u(1) assms(2) have "u = Suc t" unfolding tk_free_def by metis
    with u(1) mod_Suc_neq [OF tk_memD(1) [OF assms(1)], of t] show False by simp
  qed
  with u(2) have f: "tk_full n s u" by blast
  then have "u = t" using u(1) assms(2) unfolding tk_full_def by (metis nat.inject)
  with f show ?thesis by blast
qed


section \<open>Every move keeps the invariant\<close>

lemma tk_slots_keep:
  assumes "tk_slots n s" "\<And>u. tk_free n s u \<Longrightarrow> tk_free n s' u" "\<And>u. tk_full n s u \<Longrightarrow> tk_full n s' u"
  shows "tk_slots n s'"
  using assms unfolding tk_slots_def by metis

text \<open>A slot changes from \<open>t\<close> to \<open>u\<close>; the others stay.\<close>

lemma tk_slots_change:
  assumes "tk_slots n s" "u mod n = t mod n" "tk_free n s' u \<or> tk_full n s' u"
    and "\<And>u. u mod n \<noteq> t mod n \<Longrightarrow> tk_free n s u \<Longrightarrow> tk_free n s' u"
    and "\<And>u. u mod n \<noteq> t mod n \<Longrightarrow> tk_full n s u \<Longrightarrow> tk_full n s' u"
  shows "tk_slots n s'"
  using assms unfolding tk_slots_def by metis

text \<open>Two tickets of one slot whose sequence number says different things.\<close>

lemma tk_slot_clash:
  assumes "tk_mem n s" "tk_seq s (t mod n) = t" "tk_seq s (u mod n) = Suc u"
  shows "t mod n \<noteq> u mod n"
proof
  assume e: "t mod n = u mod n"
  with assms(2,3) have "t = Suc u" by metis
  with e mod_Suc_neq [OF tk_memD(1) [OF assms(1)], of u] show False by simp
qed

lemma tk_has_keep:
  assumes "i < length ps" "f (ps ! i) \<noteq> Some c" "tk_has f c ps"
  shows "tk_has f c (ps[i := p])"
proof -
  from assms(3) obtain j where j: "j < length ps" "f (ps ! j) = Some c"
    by (auto simp: tk_has_def in_set_conv_nth)
  with assms(2) have "ps[i := p] ! j = ps ! j" by (cases "i = j") auto
  with j show ?thesis unfolding tk_has_def by (metis length_list_update nth_mem)
qed

lemma tk_has_new: "i < length ps \<Longrightarrow> f p = Some c \<Longrightarrow> tk_has f c (ps[i := p])"
  by (auto simp: tk_has_def set_update_memI)

lemma tk_owned_update:
  assumes "tk_owned n s ps" and i: "i < length ps"
    and "\<And>t. t < tk_enq s' \<Longrightarrow> tk_seq s' (t mod n) = t \<Longrightarrow> tk_claim p = Some (True, t)
      \<or> t < tk_enq s \<and> tk_seq s (t mod n) = t \<and> tk_claim (ps ! i) \<noteq> Some (True, t)"
    and "\<And>t. t < tk_deq s' \<Longrightarrow> tk_seq s' (t mod n) = Suc t \<Longrightarrow> tk_claim p = Some (False, t)
      \<or> t < tk_deq s \<and> tk_seq s (t mod n) = Suc t \<and> tk_claim (ps ! i) \<noteq> Some (False, t)"
    and "\<And>t. t < tk_deq s' \<Longrightarrow> t \<in> fst ` set (tk_got s') \<or> tk_reads p = Some t
      \<or> t < tk_deq s \<and> tk_reads (ps ! i) \<noteq> Some t \<and> t \<notin> fst ` set (tk_got s)
      \<or> t < tk_deq s \<and> tk_reads (ps ! i) \<noteq> Some t \<and> set (tk_got s) \<subseteq> set (tk_got s')"
  shows "tk_owned n s' (ps[i := p])"
  unfolding tk_owned_def
proof (intro conjI allI impI)
  fix t assume t: "t < tk_enq s'" "tk_seq s' (t mod n) = t"
  show "tk_has tk_claim (True, t) (ps[i := p])"
    using assms(3) [OF t] assms(1) i unfolding tk_owned_def by (blast intro: tk_has_keep tk_has_new)
next
  fix t assume t: "t < tk_deq s'" "tk_seq s' (t mod n) = Suc t"
  show "tk_has tk_claim (False, t) (ps[i := p])"
    using assms(4) [OF t] assms(1) i unfolding tk_owned_def by (blast intro: tk_has_keep tk_has_new)
next
  fix t assume t: "t < tk_deq s'"
  show "t \<in> fst ` set (tk_got s') \<or> tk_has tk_reads t (ps[i := p])"
    using assms(5) [OF t] assms(1) i unfolding tk_owned_def by (blast intro: tk_has_keep tk_has_new)
qed

lemma tk_ok_update:
  assumes "\<And>j. j < length ps \<Longrightarrow> j \<noteq> i \<Longrightarrow> tk_ok n s (ps ! j)" "tk_ok n s p"
  shows "\<forall>j < length ps. tk_ok n s (ps[i := p] ! j)"
  using assms by (metis nth_list_update_eq nth_list_update_neq length_list_update)

text \<open>A move that does not touch the memory and neither takes nor gives up a ticket.\<close>

lemma tk_inv_quiet:
  assumes inv: "tk_inv n s ps" and i: "i < length ps"
    and c: "tk_claim (ps ! i) = None" "tk_claim p = None" and ok: "tk_ok n s p"
  shows "tk_inv n s (ps[i := p])"
proof -
  have r: "tk_reads (ps ! i) = None" using c(1) by (cases "ps ! i") auto
  have "tk_unique (ps[i := p])"
    by (rule tk_unique_update [OF tk_invD(3) [OF inv] i]) (use c(2) in simp)
  moreover have "\<forall>j < length ps. tk_ok n s (ps[i := p] ! j)"
    by (rule tk_ok_update) (use tk_invD(2) [OF inv] ok in blast)+
  moreover have "tk_owned n s (ps[i := p])"
    by (rule tk_owned_update [OF tk_invD(4) [OF inv] i]) (auto simp: c r)
  ultimately show ?thesis using tk_invD(1) [OF inv] by (simp add: tk_inv_def)
qed

text \<open>A producer takes the next ticket.\<close>

lemma tk_inv_take_enq:
  assumes inv: "tk_inv n s ps" and i: "i < length ps" and p: "ps ! i = EnqCas v (tk_enq s)"
  shows "tk_inv n (s\<lparr>tk_enq := Suc (tk_enq s), tk_log := tk_log s @ [v]\<rparr>) (ps[i := EnqData v (tk_enq s)])"
    (is "tk_inv n ?s _")
proof -
  note m = tk_memD [OF tk_invD(1) [OF inv]]
  have seq: "tk_seq s (tk_enq s mod n) = tk_enq s" using tk_invD(2) [OF inv i] p by simp
  have fr: "tk_free n s (tk_enq s)" using tk_invD(1) [OF inv] seq by (rule tk_seq_free)
  have free: "tk_free n ?s u" if "tk_free n s u" for u using that by (simp add: tk_free_def)
  have full: "tk_full n ?s u" if f: "tk_full n s u" for u
  proof -
    have "tk_enq s \<noteq> u + n"
    proof
      assume "tk_enq s = u + n"
      then have "tk_enq s mod n = u mod n" by simp
      with tk_slot_clash [OF tk_invD(1) [OF inv] seq, of u] f show False by (simp add: tk_full_def)
    qed
    with f m(2) show ?thesis by (simp add: tk_full_def nth_append)
  qed
  have "tk_mem n ?s"
    using m fr tk_slots_keep [OF m(5) free full]
    by (auto simp: tk_mem_def tk_free_def nth_append dest!: m(7))
  moreover have "\<forall>j < length ps. tk_ok n ?s (ps[i := EnqData v (tk_enq s)] ! j)"
  proof (rule tk_ok_update)
    fix j assume "j < length ps" "j \<noteq> i"
    then show "tk_ok n ?s (ps ! j)"
      using tk_invD(2) [OF inv, of j] m(2,3) by (cases "ps ! j") (auto simp: nth_append)
  qed (simp add: seq m(2) nth_append)
  moreover have "tk_unique (ps[i := EnqData v (tk_enq s)])"
  proof (rule tk_unique_update [OF tk_invD(3) [OF inv] i], intro allI impI notI)
    fix j assume "j < length ps" "tk_claim (ps ! j) = tk_claim (EnqData v (tk_enq s))"
    with tk_invD(2) [OF inv, of j] show False by (cases "ps ! j") auto
  qed
  moreover have "tk_owned n ?s (ps[i := EnqData v (tk_enq s)])"
    by (rule tk_owned_update [OF tk_invD(4) [OF inv] i]) (auto simp: p)
  ultimately show ?thesis by (simp add: tk_inv_def)
qed

text \<open>A producer that has a ticket writes the data.\<close>

lemma tk_inv_data:
  assumes inv: "tk_inv n s ps" and i: "i < length ps" and p: "ps ! i = EnqData v t"
  shows "tk_inv n (s\<lparr>tk_data := (tk_data s)(t mod n := v)\<rparr>) (ps[i := EnqPub v t])" (is "tk_inv n ?s _")
proof -
  have t: "t < tk_enq s" "tk_seq s (t mod n) = t" "tk_log s ! t = v" using tk_invD(2) [OF inv i] p by auto
  have free: "tk_free n ?s u" if "tk_free n s u" for u using that by (simp add: tk_free_def)
  have full: "tk_full n ?s u" if "tk_full n s u" for u
    using that tk_slot_clash [OF tk_invD(1) [OF inv] t(2), of u] by (simp add: tk_full_def)
  have "tk_mem n ?s"
    using tk_invD(1) [OF inv] tk_slots_keep [OF tk_memD(5) [OF tk_invD(1) [OF inv]] free full]
    by (simp add: tk_mem_def)
  moreover have "\<forall>j < length ps. tk_ok n ?s (ps[i := EnqPub v t] ! j)"
  proof (rule tk_ok_update)
    fix j assume j: "j < length ps" "j \<noteq> i"
    then have "tk_claim (ps ! j) \<noteq> Some (True, t)"
      using tk_uniqueD [OF tk_invD(3) [OF inv] j(1) i, of "(True, t)"] p by auto
    then have "x mod n \<noteq> t mod n" if "ps ! j = EnqPub w x" for w x
      using that tk_invD(2) [OF inv j(1)] t(2) by auto
    then show "tk_ok n ?s (ps ! j)"
      using tk_invD(2) [OF inv j(1)] by (cases "ps ! j") auto
  qed (simp add: t)
  moreover have "tk_unique (ps[i := EnqPub v t])"
  proof (rule tk_unique_update [OF tk_invD(3) [OF inv] i], intro allI impI notI)
    fix j assume "j < length ps" "j \<noteq> i" "tk_claim (ps ! j) = tk_claim (EnqPub v t)"
    with tk_uniqueD [OF tk_invD(3) [OF inv] _ i, of j "(True, t)"] p show False by auto
  qed
  moreover have "tk_owned n ?s (ps[i := EnqPub v t])"
    by (rule tk_owned_update [OF tk_invD(4) [OF inv] i]) (auto simp: p)
  ultimately show ?thesis by (simp add: tk_inv_def)
qed

text \<open>A producer that has a ticket publishes it.\<close>

lemma tk_inv_publish:
  assumes inv: "tk_inv n s ps" and i: "i < length ps" and p: "ps ! i = EnqPub v t"
  shows "tk_inv n (s\<lparr>tk_seq := (tk_seq s)(t mod n := Suc t)\<rparr>) (ps[i := EnqDone True])" (is "tk_inv n ?s _")
proof -
  note mem = tk_invD(1) [OF inv]
  note m = tk_memD [OF mem]
  have t: "t < tk_enq s" "tk_seq s (t mod n) = t" "tk_log s ! t = v" "tk_data s (t mod n) = v"
    using tk_invD(2) [OF inv i] p by auto
  have fr: "tk_deq s \<le> t" "t < tk_deq s + n" using tk_seq_free [OF mem t(2)] by (simp_all add: tk_free_def)
  have other: "u mod n \<noteq> t mod n" if "tk_seq s (u mod n) = Suc u" for u
    using tk_slot_clash [OF mem t(2) that] by simp
  have same: "u = t" if "tk_seq s (u mod n) = u" "u mod n = t mod n" for u
    using that t(2) by metis
  have "tk_slots n ?s"
  proof (rule tk_slots_change [OF m(5), of t t])
    show "tk_free n ?s t \<or> tk_full n ?s t"
      using t fr m(4) by (simp add: tk_full_def)
  qed (simp_all add: tk_free_def tk_full_def)
  then have "tk_mem n ?s" using mem by (simp add: tk_mem_def)
  moreover have "\<forall>j < length ps. tk_ok n ?s (ps[i := EnqDone True] ! j)"
  proof (rule tk_ok_update)
    fix j assume j: "j < length ps" "j \<noteq> i"
    then have c: "tk_claim (ps ! j) \<noteq> Some (True, t)"
      using tk_uniqueD [OF tk_invD(3) [OF inv] j(1) i, of "(True, t)"] p by auto
    show "tk_ok n ?s (ps ! j)"
      using tk_invD(2) [OF inv j(1)] c t(1) other same by (cases "ps ! j") auto
  qed simp
  moreover have "tk_unique (ps[i := EnqDone True])"
    by (rule tk_unique_update [OF tk_invD(3) [OF inv] i]) simp
  moreover have "tk_owned n ?s (ps[i := EnqDone True])"
  proof (rule tk_owned_update [OF tk_invD(4) [OF inv] i])
    fix u assume "u < tk_enq ?s" "tk_seq ?s (u mod n) = u"
    then show "tk_claim (EnqDone True) = Some (True, u)
      \<or> u < tk_enq s \<and> tk_seq s (u mod n) = u \<and> tk_claim (ps ! i) \<noteq> Some (True, u)"
      using mod_Suc_neq [OF m(1), of t] p by (auto split: if_splits)
  next
    fix u assume "u < tk_deq ?s" "tk_seq ?s (u mod n) = Suc u"
    then show "tk_claim (EnqDone True) = Some (False, u)
      \<or> u < tk_deq s \<and> tk_seq s (u mod n) = Suc u \<and> tk_claim (ps ! i) \<noteq> Some (False, u)"
      using fr p by (auto split: if_splits)
  qed (simp add: p)
  ultimately show ?thesis by (simp add: tk_inv_def)
qed

text \<open>A consumer takes the next ticket.\<close>

lemma tk_inv_take_deq:
  assumes inv: "tk_inv n s ps" and i: "i < length ps" and p: "ps ! i = DeqCas (tk_deq s)"
  shows "tk_inv n (s\<lparr>tk_deq := Suc (tk_deq s)\<rparr>) (ps[i := DeqData (tk_deq s)])" (is "tk_inv n ?s _")
proof -
  note mem = tk_invD(1) [OF inv]
  note m = tk_memD [OF mem]
  have seq: "tk_seq s (tk_deq s mod n) = Suc (tk_deq s)" using tk_invD(2) [OF inv i] p by simp
  then have lt: "tk_deq s < tk_enq s" using tk_seq_full [OF mem] by (simp add: tk_full_def)
  have free: "tk_free n ?s u" if f: "tk_free n s u" for u
  proof -
    have "tk_seq s (u mod n) = u" using f by (simp add: tk_free_def)
    with seq have "u \<noteq> tk_deq s" by auto
    with f show ?thesis by (simp add: tk_free_def)
  qed
  have "tk_slots n ?s" by (rule tk_slots_keep [OF m(5) free]) (simp_all add: tk_full_def)
  then have "tk_mem n ?s" using m lt by (auto simp: tk_mem_def dest: m(7))
  moreover have "\<forall>j < length ps. tk_ok n ?s (ps[i := DeqData (tk_deq s)] ! j)"
  proof (rule tk_ok_update)
    fix j assume "j < length ps" "j \<noteq> i"
    then show "tk_ok n ?s (ps ! j)"
      using tk_invD(2) [OF inv, of j] by (cases "ps ! j") auto
  qed (use seq in \<open>auto dest: m(7)\<close>)
  moreover have "tk_unique (ps[i := DeqData (tk_deq s)])"
  proof (rule tk_unique_update [OF tk_invD(3) [OF inv] i], intro allI impI notI)
    fix j assume "j < length ps" "tk_claim (ps ! j) = tk_claim (DeqData (tk_deq s))"
    with tk_invD(2) [OF inv, of j] show False by (cases "ps ! j") auto
  qed
  moreover have "tk_owned n ?s (ps[i := DeqData (tk_deq s)])"
    by (rule tk_owned_update [OF tk_invD(4) [OF inv] i]) (auto simp: p)
  ultimately show ?thesis by (simp add: tk_inv_def)
qed

text \<open>A consumer that has a ticket moves the data out: the delivery.\<close>

lemma tk_inv_read:
  assumes inv: "tk_inv n s ps" and i: "i < length ps" and p: "ps ! i = DeqData t"
  shows "tk_inv n (s\<lparr>tk_got := tk_got s @ [(t, tk_data s (t mod n))]\<rparr>)
      (ps[i := DeqFree t (tk_data s (t mod n))])" (is "tk_inv n ?s (ps[i := ?p])")
proof -
  note mem = tk_invD(1) [OF inv]
  note m = tk_memD [OF mem]
  have t: "t < tk_deq s" "tk_seq s (t mod n) = Suc t" "t \<notin> fst ` set (tk_got s)"
    using tk_invD(2) [OF inv i] p by auto
  have x: "tk_data s (t mod n) = tk_log s ! t" using tk_seq_full [OF mem t(2)] by (simp add: tk_full_def)
  have "tk_slots n ?s" by (rule tk_slots_keep [OF m(5)]) (simp_all add: tk_full_def tk_free_def)
  then have "tk_mem n ?s" using m t x by (auto simp: tk_mem_def dest: m(7))
  moreover have "\<forall>j < length ps. tk_ok n ?s (ps[i := ?p] ! j)"
  proof (rule tk_ok_update)
    fix j assume j: "j < length ps" "j \<noteq> i"
    then have c: "tk_claim (ps ! j) \<noteq> Some (False, t)"
      using tk_uniqueD [OF tk_invD(3) [OF inv] j(1) i, of "(False, t)"] p by auto
    then show "tk_ok n ?s (ps ! j)"
      using tk_invD(2) [OF inv j(1)] by (cases "ps ! j") auto
  qed (use t x in simp)
  moreover have "tk_unique (ps[i := ?p])"
  proof (rule tk_unique_update [OF tk_invD(3) [OF inv] i], intro allI impI notI)
    fix j assume "j < length ps" "j \<noteq> i" "tk_claim (ps ! j) = tk_claim ?p"
    with tk_uniqueD [OF tk_invD(3) [OF inv] _ i, of j "(False, t)"] p show False by auto
  qed
  moreover have "tk_owned n ?s (ps[i := ?p])"
    by (rule tk_owned_update [OF tk_invD(4) [OF inv] i]) (auto simp: p)
  ultimately show ?thesis by (simp add: tk_inv_def)
qed

text \<open>A consumer frees its slot for the next round.\<close>

lemma tk_inv_free:
  assumes inv: "tk_inv n s ps" and i: "i < length ps" and p: "ps ! i = DeqFree t x"
  shows "tk_inv n (s\<lparr>tk_seq := (tk_seq s)(t mod n := t + n)\<rparr>) (ps[i := DeqDone (Some x)])"
    (is "tk_inv n ?s _")
proof -
  note mem = tk_invD(1) [OF inv]
  note m = tk_memD [OF mem]
  have t: "t < tk_deq s" "tk_seq s (t mod n) = Suc t"
    using tk_invD(2) [OF inv i] p by auto
  have fu: "tk_enq s \<le> t + n" using tk_seq_full [OF mem t(2)] by (simp add: tk_full_def)
  have other: "u mod n \<noteq> t mod n" if "tk_seq s (u mod n) = u" for u
    using tk_slot_clash [OF mem that t(2)] .
  have same: "u = t" if "tk_seq s (u mod n) = Suc u" "u mod n = t mod n" for u
    using that t(2) by (metis nat.inject)
  have "tk_slots n ?s"
  proof (rule tk_slots_change [OF m(5), of "t + n" t])
    show "tk_free n ?s (t + n) \<or> tk_full n ?s (t + n)"
      using t fu m(3) by (simp add: tk_free_def)
  qed (simp_all add: tk_free_def tk_full_def)
  then have "tk_mem n ?s" using mem by (simp add: tk_mem_def)
  moreover have "\<forall>j < length ps. tk_ok n ?s (ps[i := DeqDone (Some x)] ! j)"
  proof (rule tk_ok_update)
    fix j assume j: "j < length ps" "j \<noteq> i"
    then have c: "tk_claim (ps ! j) \<noteq> Some (False, t)"
      using tk_uniqueD [OF tk_invD(3) [OF inv] j(1) i, of "(False, t)"] p by auto
    show "tk_ok n ?s (ps ! j)"
      using tk_invD(2) [OF inv j(1)] c t(1) other same by (cases "ps ! j") auto
  qed simp
  moreover have "tk_unique (ps[i := DeqDone (Some x)])"
    by (rule tk_unique_update [OF tk_invD(3) [OF inv] i]) simp
  moreover have "tk_owned n ?s (ps[i := DeqDone (Some x)])"
  proof (rule tk_owned_update [OF tk_invD(4) [OF inv] i])
    fix u assume "u < tk_enq ?s" "tk_seq ?s (u mod n) = u"
    then show "tk_claim (DeqDone (Some x)) = Some (True, u)
      \<or> u < tk_enq s \<and> tk_seq s (u mod n) = u \<and> tk_claim (ps ! i) \<noteq> Some (True, u)"
      using fu p by (auto split: if_splits)
  next
    fix u assume u: "u < tk_deq ?s" "tk_seq ?s (u mod n) = Suc u"
    have "u mod n \<noteq> t mod n"
    proof
      assume e: "u mod n = t mod n"
      with u(2) have "Suc u = t + n" by simp
      then have "Suc u mod n = u mod n" using e by simp
      with mod_Suc_neq [OF m(1)] show False by blast
    qed
    with u show "tk_claim (DeqDone (Some x)) = Some (False, u)
      \<or> u < tk_deq s \<and> tk_seq s (u mod n) = Suc u \<and> tk_claim (ps ! i) \<noteq> Some (False, u)"
      using p by auto
  qed (simp add: p)
  ultimately show ?thesis by (simp add: tk_inv_def)
qed

lemma tk_move_inv:
  assumes inv: "tk_inv n s ps" and i: "i < length ps" and st: "tk_move n (ps ! i) s = (p', s')"
  shows "tk_inv n s' (ps[i := p'])"
proof (cases "ps ! i")
  case (EnqSeq v t)
  with st tk_invD(2) [OF inv i] have "tk_ok n s p'" "s' = s" "tk_claim p' = None"
    by (auto split: if_splits)
  with EnqSeq tk_inv_quiet [OF inv i] show ?thesis by simp
next
  case (DeqSeq t)
  with st tk_invD(2) [OF inv i] have "tk_ok n s p'" "s' = s" "tk_claim p' = None"
    by (auto split: if_splits)
  with DeqSeq tk_inv_quiet [OF inv i] show ?thesis by simp
next
  case (EnqCas v t)
  with st show ?thesis
    using tk_inv_take_enq [OF inv i, of v] tk_inv_quiet [OF inv i, of "EnqSeq v (tk_enq s)"]
    by (auto split: if_splits)
next
  case (EnqData v t)
  with st show ?thesis using tk_inv_data [OF inv i] by auto
next
  case (EnqPub v t)
  with st show ?thesis using tk_inv_publish [OF inv i] by auto
next
  case (DeqCas t)
  with st show ?thesis
    using tk_inv_take_deq [OF inv i] tk_inv_quiet [OF inv i, of "DeqSeq (tk_deq s)"]
    by (auto split: if_splits)
next
  case (DeqData t)
  with st show ?thesis using tk_inv_read [OF inv i] by auto
next
  case (DeqFree t x)
  with st show ?thesis using tk_inv_free [OF inv i] by auto
qed (use st tk_inv_quiet [OF inv i] tk_invD(2) [OF inv i] in \<open>auto split: if_splits\<close>)

lemma tk_step_inv:
  assumes inv: "tk_inv n s ps" and i: "i < length ps" and st: "(p', s') \<in> set (tk_step n vals i (ps ! i) s)"
  shows "tk_inv n s' (ps[i := p'])"
proof (cases "ps ! i = MqIdle")
  case True
  with st have "s' = s" "p' \<in> set (mq_calls (vals i))" by (auto simp: tk_step_def)
  with True tk_inv_quiet [OF inv i, of p'] show ?thesis by (auto simp: mq_calls_def)
next
  case False
  with st tk_move_inv [OF inv i, of p' s'] show ?thesis by (simp add: tk_step_def)
qed

definition tk_start :: "nat \<Rightarrow> ('a tk_state, ('a, nat) mq_pc) system \<Rightarrow> bool" where
  "tk_start n t \<longleftrightarrow> 1 < n \<and> (\<forall>k < n. tk_seq (fst t) k = k) \<and> tk_enq (fst t) = 0 \<and> tk_deq (fst t) = 0
     \<and> tk_log (fst t) = [] \<and> tk_got (fst t) = [] \<and> (\<forall>p \<in> set (snd t). p = MqIdle)"

lemma tk_start_inv: "tk_start n (s, ps) \<Longrightarrow> tk_inv n s ps"
proof -
  assume a: "tk_start n (s, ps)"
  have "tk_slots n s"
    unfolding tk_slots_def
  proof (intro allI impI)
    fix k assume "k < n"
    with a have "k mod n = k \<and> (tk_free n s k \<or> tk_full n s k)" by (simp add: tk_start_def tk_free_def)
    then show "\<exists>t. t mod n = k \<and> (tk_free n s t \<or> tk_full n s t)" by blast
  qed
  moreover have idle: "ps ! i = MqIdle" if "i < length ps" for i
    using a that by (auto simp: tk_start_def)
  ultimately show ?thesis
    using a by (auto simp: tk_start_def tk_inv_def tk_mem_def tk_owned_def tk_unique_def idle)
qed

interpretation tk: protocol "tk_step n vals" "tk_start n" "tk_inv n"
  by unfold_locales (fact tk_start_inv, fact tk_step_inv)


section \<open>What the invariant says of the histories\<close>

text \<open>Every sequence number is below the next round.\<close>

lemma tk_seq_bound:
  assumes "tk_mem n s"
  shows "tk_seq s (t mod n) \<le> tk_enq s + n"
proof -
  obtain u where u: "u mod n = t mod n" "tk_free n s u \<or> tk_full n s u"
    using assms by (rule tk_mem_slot)
  then have "tk_seq s (t mod n) = u \<and> u < tk_deq s + n \<or> tk_seq s (t mod n) = Suc u \<and> u < tk_enq s"
    unfolding tk_free_def tk_full_def by metis
  with tk_memD(3) [OF assms] show ?thesis by linarith
qed

text \<open>When no thread holds a ticket, the consumed tickets have been delivered and the others are
  in their slots.\<close>

lemma tk_rest_full:
  assumes inv: "tk_inv n s ps" and rest: "\<forall>p \<in> set ps. tk_claim p = None"
    and t: "tk_deq s \<le> t" "t < tk_enq s"
  shows "tk_full n s t"
proof -
  note mem = tk_invD(1) [OF inv]
  note m = tk_memD [OF mem]
  have no: "\<not> tk_has tk_claim c ps" for c using rest by (auto simp: tk_has_def)
  obtain u where u: "u mod n = t mod n" "tk_free n s u \<or> tk_full n s u"
    using mem by (rule tk_mem_slot)
  from u(2) show ?thesis
  proof
    assume f: "tk_free n s u"
    then have "tk_enq s \<le> u"
      using tk_invD(4) [OF inv] no unfolding tk_owned_def tk_free_def by (meson not_le)
    with f t u(1) mod_eq_near [of t n u] show ?thesis unfolding tk_free_def by linarith
  next
    assume f: "tk_full n s u"
    then have "tk_deq s \<le> u"
      using tk_invD(4) [OF inv] no unfolding tk_owned_def tk_full_def by (meson not_le)
    then have "u = t"
      using f t u(1) m(4) mod_eq_near [of t n u] mod_eq_near [of u n t] unfolding tk_full_def by linarith
    with f show ?thesis by simp
  qed
qed

lemma tk_rest_got:
  assumes inv: "tk_inv n s ps" and rest: "\<forall>p \<in> set ps. tk_claim p = None"
  shows "mset (tk_got s) = mset (map (\<lambda>t. (t, tk_log s ! t)) [0..<tk_deq s])"
proof -
  note m = tk_memD [OF tk_invD(1) [OF inv]]
  have "tk_reads p = None" if "p \<in> set ps" for p using rest that by (cases p) auto
  then have no: "\<not> tk_has tk_reads t ps" for t by (auto simp: tk_has_def)
  have "set (tk_got s) = set (map (\<lambda>t. (t, tk_log s ! t)) [0..<tk_deq s])"
  proof (intro equalityI subsetI)
    fix e assume "e \<in> set (tk_got s)"
    moreover obtain t x where e: "e = (t, x)" by (cases e)
    ultimately have "t < tk_deq s" "x = tk_log s ! t" using m(7) by blast+
    with e show "e \<in> set (map (\<lambda>t. (t, tk_log s ! t)) [0..<tk_deq s])" by auto
  next
    fix e assume "e \<in> set (map (\<lambda>t. (t, tk_log s ! t)) [0..<tk_deq s])"
    then obtain t where t: "t < tk_deq s" "e = (t, tk_log s ! t)" by auto
    then have "t \<in> fst ` set (tk_got s)" using tk_invD(4) [OF inv] no by (auto simp: tk_owned_def)
    then obtain x where "(t, x) \<in> set (tk_got s)" by force
    with m(7) t(2) show "e \<in> set (tk_got s)" by fastforce
  qed
  moreover have "distinct (tk_got s)" using m(6) by (simp add: distinct_map)
  moreover have "distinct (map (\<lambda>t. (t, tk_log s ! t)) [0..<tk_deq s])"
    by (simp add: distinct_map inj_on_def)
  ultimately show ?thesis using set_eq_iff_mset_eq_distinct by blast
qed

end
