(* ===== verification/Mpmc_Bounded.thy ===== *)
theory Mpmc_Bounded
  imports Mpmc_Tickets
begin

text \<open>
  The class \<open>mpmc_bounded_queue\<close> of \<open>containers/queue/mpmc_bounded_queue.h\<close>, called by any
  number of threads at once. The program counters are those of \<open>Mpmc_Tickets\<close> with 64-bit
  positions. Beside the memory of the queue the state of a program has the two histories, which
  only record: the values in the order of their tickets, and the deliveries.

  \<open>mq_refines\<close>: as long as fewer than \<open>2 ^ 63\<close> values have been pushed, the code makes exactly
  the moves of the ticket protocol.
\<close>

unbundle bit_operations_syntax

record 'a mq_cell =
  cell_seq :: u64
  cell_data :: 'a

record 'a mq_state =
  mq_buffer :: "'a mq_cell list"
  mq_mask :: u64
  mq_enq_pos :: u64
  mq_deq_pos :: u64

text \<open>The constructor; \<open>None\<close> when its \<open>assert\<close> fails. A cell's data starts as \<open>d0\<close>.\<close>

definition mq_init :: "'a \<Rightarrow> u64 \<Rightarrow> 'a mq_state option" where
  "mq_init d0 sz =
     (if 1 < sz \<and> sz AND (sz - 1) = 0
      then Some \<lparr>mq_buffer = map (\<lambda>i. \<lparr>cell_seq = of_nat i, cell_data = d0\<rparr>) [0..<unat sz],
                 mq_mask = sz - 1, mq_enq_pos = 0, mq_deq_pos = 0\<rparr>
      else None)"

definition mq_index :: "'a mq_state \<Rightarrow> u64 \<Rightarrow> nat" where
  "mq_index s pos = unat (pos AND mq_mask s)"

text \<open>\<open>(intptr_t)seq - (intptr_t)pos\<close>: no value when the subtraction of the two signed numbers
  overflows, which C++ leaves undefined; a call then ends in \<open>MqUndefined\<close>.\<close>

definition mq_dif :: "u64 \<Rightarrow> u64 \<Rightarrow> int option" where
  "mq_dif seq pos =
     (let d = sint seq - sint pos in if - (2 ^ 63) \<le> d \<and> d < 2 ^ 63 then Some d else None)"

definition mq_set_seq :: "'a mq_state \<Rightarrow> u64 \<Rightarrow> u64 \<Rightarrow> 'a mq_state" where
  "mq_set_seq s pos q =
     s\<lparr>mq_buffer := (mq_buffer s)[mq_index s pos := (mq_buffer s ! mq_index s pos)\<lparr>cell_seq := q\<rparr>]\<rparr>"

definition mq_set_data :: "'a mq_state \<Rightarrow> u64 \<Rightarrow> 'a \<Rightarrow> 'a mq_state" where
  "mq_set_data s pos v =
     s\<lparr>mq_buffer := (mq_buffer s)[mq_index s pos := (mq_buffer s ! mq_index s pos)\<lparr>cell_data := v\<rparr>]\<rparr>"

fun mq_try_enqueue :: "('a, u64) mq_pc \<Rightarrow> 'a mq_state \<Rightarrow> ('a, u64) mq_pc \<times> 'a mq_state" where
  "mq_try_enqueue (EnqPos v) s = (EnqSeq v (mq_enq_pos s), s)"
| "mq_try_enqueue (EnqSeq v pos) s =
     (case mq_dif (cell_seq (mq_buffer s ! mq_index s pos)) pos of
        None \<Rightarrow> MqUndefined
      | Some dif \<Rightarrow> if dif = 0 then EnqCas v pos else if dif < 0 then EnqDone False else EnqPos v, s)"
| "mq_try_enqueue (EnqCas v pos) s =
     (if mq_enq_pos s = pos then (EnqData v pos, s\<lparr>mq_enq_pos := pos + 1\<rparr>)
      else (EnqSeq v (mq_enq_pos s), s))"
| "mq_try_enqueue (EnqData v pos) s = (EnqPub v pos, mq_set_data s pos v)"
| "mq_try_enqueue (EnqPub v pos) s = (EnqDone True, mq_set_seq s pos (pos + 1))"
| "mq_try_enqueue p s = (p, s)"

fun mq_try_dequeue :: "('a, u64) mq_pc \<Rightarrow> 'a mq_state \<Rightarrow> ('a, u64) mq_pc \<times> 'a mq_state" where
  "mq_try_dequeue DeqPos s = (DeqSeq (mq_deq_pos s), s)"
| "mq_try_dequeue (DeqSeq pos) s =
     (case mq_dif (cell_seq (mq_buffer s ! mq_index s pos)) (pos + 1) of
        None \<Rightarrow> MqUndefined
      | Some dif \<Rightarrow> if dif = 0 then DeqCas pos else if dif < 0 then DeqDone None else DeqPos, s)"
| "mq_try_dequeue (DeqCas pos) s =
     (if mq_deq_pos s = pos then (DeqData pos, s\<lparr>mq_deq_pos := pos + 1\<rparr>)
      else (DeqSeq (mq_deq_pos s), s))"
| "mq_try_dequeue (DeqData pos) s = (DeqFree pos (cell_data (mq_buffer s ! mq_index s pos)), s)"
| "mq_try_dequeue (DeqFree pos x) s = (DeqDone (Some x), mq_set_seq s pos (pos + mq_mask s + 1))"
| "mq_try_dequeue p s = (p, s)"

text \<open>The state of a program: the queue and the histories, and how a move extends them.\<close>

type_synonym 'a mq_hist = "'a list \<times> (nat \<times> 'a) list"

fun mq_record :: "('a, u64) mq_pc \<Rightarrow> ('a, u64) mq_pc \<Rightarrow> 'a mq_hist \<Rightarrow> 'a mq_hist" where
  "mq_record (EnqCas v pos) (EnqData w q) (log, got) = (log @ [v], got)"
| "mq_record (DeqData pos) (DeqFree q x) (log, got) = (log, got @ [(unat pos, x)])"
| "mq_record p q h = h"

fun mq_is_enq :: "('a, 'p) mq_pc \<Rightarrow> bool" where
  "mq_is_enq (EnqPos v) = True"
| "mq_is_enq (EnqSeq v pos) = True"
| "mq_is_enq (EnqCas v pos) = True"
| "mq_is_enq (EnqData v pos) = True"
| "mq_is_enq (EnqPub v pos) = True"
| "mq_is_enq p = False"

fun mq_is_done :: "('a, 'p) mq_pc \<Rightarrow> bool" where
  "mq_is_done (EnqDone b) = True"
| "mq_is_done (DeqDone r) = True"
| "mq_is_done p = False"

definition mq_step :: "(nat \<Rightarrow> 'a list) \<Rightarrow> ('a mq_state \<times> 'a mq_hist, ('a, u64) mq_pc) thread_step" where
  "mq_step vals i p w =
     (if p = MqIdle then map (\<lambda>q. (q, w)) (mq_calls (vals i))
      else if mq_is_done p then [(MqIdle, w)]
      else if p = MqUndefined then []
      else (case (if mq_is_enq p then mq_try_enqueue else mq_try_dequeue) p (fst w) of
              (p', s') \<Rightarrow> [(p', s', mq_record p p' (snd w))]))"

definition mq_start :: "'a \<Rightarrow> u64 \<Rightarrow> ('a mq_state \<times> 'a mq_hist, ('a, u64) mq_pc) system \<Rightarrow> bool" where
  "mq_start d0 sz t \<longleftrightarrow> mq_init d0 sz = Some (fst (fst t)) \<and> snd (fst t) = ([], [])
     \<and> (\<forall>p \<in> set (snd t). p = MqIdle)"


section \<open>The words\<close>

lemma sint_neg_64: "sint x < 0 \<longleftrightarrow> 2 ^ 63 \<le> unat x" for x :: u64
proof -
  have "sint x < 0 \<longleftrightarrow> bit (uint x) 63" by (simp add: sint_uint)
  also have "\<dots> \<longleftrightarrow> odd (unat x div 2 ^ 63)"
  proof -
    have "bit (uint x) 63 \<longleftrightarrow> bit (unat x) 63" by (simp add: bit_unsigned_iff)
    then show ?thesis by (simp only: bit_iff_odd)
  qed
  also have "\<dots> \<longleftrightarrow> 2 ^ 63 \<le> unat x"
  proof -
    have "unat x div 2 ^ 63 < 2" using unat_less_64 [of x] by (simp add: less_mult_imp_div_less)
    then have "odd (unat x div 2 ^ 63) \<longleftrightarrow> unat x div 2 ^ 63 \<noteq> 0" by (auto simp: less_2_cases_iff)
    then show ?thesis by (simp add: div_eq_0_iff linorder_not_less)
  qed
  finally show ?thesis .
qed

text \<open>The signed value of a position in either half of the range.\<close>

lemma sint_64: "sint x = (if unat x < 2 ^ 63 then int (unat x) else int (unat x) - 2 ^ 64)" for x :: u64
proof -
  have range: "0 \<le> uint x" "uint x < 2 ^ 64" using uint_bounded [of x] by simp_all
  then have "take_bit 64 (uint x) = uint x" by (rule take_bit_int_eq_self)
  then have "sint x = uint x - 2 ^ 64 * of_bool (bit (uint x) 63)"
    by (simp add: sint_uint signed_take_bit_eq_take_bit_minus)
  then show ?thesis using range sint_neg_64 [of x] by (cases "bit (uint x) 63") auto
qed

text \<open>The difference of two positions in the lower half decides like the numbers.\<close>

lemma mq_dif_small:
  assumes "unat a < 2 ^ 63" "unat b < 2 ^ 63"
  obtains d where "mq_dif a b = Some d" "d = 0 \<longleftrightarrow> unat a = unat b" "d < 0 \<longleftrightarrow> unat a < unat b"
proof (rule that)
  have "int (unat a) < 2 ^ 63" "int (unat b) < 2 ^ 63"
    using assms by (simp_all del: of_nat_unat add: of_nat_less_numeral_iff)
  then show "mq_dif a b = Some (int (unat a) - int (unat b))"
    using assms unfolding mq_dif_def Let_def sint_64 by (simp del: of_nat_unat)
qed linarith+

lemma mq_dif_same [simp]: "mq_dif a a = Some 0"
  by (simp add: mq_dif_def)

section \<open>The code follows the ticket protocol\<close>

definition mq_abs :: "'a mq_state \<times> 'a mq_hist \<Rightarrow> 'a tk_state" where
  "mq_abs w = \<lparr>tk_seq = \<lambda>k. unat (cell_seq (mq_buffer (fst w) ! k)),
     tk_data = \<lambda>k. cell_data (mq_buffer (fst w) ! k),
     tk_enq = unat (mq_enq_pos (fst w)), tk_deq = unat (mq_deq_pos (fst w)),
     tk_log = fst (snd w), tk_got = snd (snd w)\<rparr>"

abbreviation mq_abs_pc :: "('a, u64) mq_pc \<Rightarrow> ('a, nat) mq_pc" where
  "mq_abs_pc \<equiv> map_mq_pc id unat"

definition mq_geom :: "nat \<Rightarrow> 'a mq_state \<Rightarrow> bool" where
  "mq_geom b s \<longleftrightarrow> 0 < b \<and> b < 64 \<and> mq_mask s = mask b \<and> length (mq_buffer s) = 2 ^ b"

lemma mq_index_mod: "mq_geom b s \<Longrightarrow> mq_index s pos = unat pos mod 2 ^ b"
  by (simp add: mq_index_def mq_geom_def unat_and_mask)

lemma mq_index_in: "mq_geom b s \<Longrightarrow> mq_index s pos < length (mq_buffer s)"
  by (simp add: mq_index_mod) (simp add: mq_geom_def)

lemma mq_geom_set [simp]:
  "mq_geom b (mq_set_seq s pos q) = mq_geom b s" "mq_geom b (mq_set_data s pos v) = mq_geom b s"
  "mq_geom b (mq_enq_pos_update f s) = mq_geom b s" "mq_geom b (mq_deq_pos_update f s) = mq_geom b s"
  by (simp_all add: mq_geom_def mq_set_seq_def mq_set_data_def)

lemma mq_abs_set:
  assumes "mq_geom b s"
  shows "mq_abs (mq_set_seq s pos q, h) =
      (mq_abs (s, h))\<lparr>tk_seq := (tk_seq (mq_abs (s, h)))(unat pos mod 2 ^ b := unat q)\<rparr>"
    and "mq_abs (mq_set_data s pos v, h) =
      (mq_abs (s, h))\<lparr>tk_data := (tk_data (mq_abs (s, h)))(unat pos mod 2 ^ b := v)\<rparr>"
  using mq_index_in [OF assms, of pos] mq_index_mod [OF assms, of pos]
  by (auto simp: mq_abs_def mq_set_seq_def mq_set_data_def fun_eq_iff nth_list_update)

lemma mq_geom_mask: "mq_geom b s \<Longrightarrow> unat (mq_mask s) = 2 ^ b - 1"
  by (simp add: mq_geom_def unat_mask_64)

definition mq_total :: "'a mq_hist \<Rightarrow> nat" where
  "mq_total h = length (fst h)"

lemma mq_record_total: "mq_total h \<le> mq_total (mq_record p p' h)"
  by (cases "(p, p', h)" rule: mq_record.cases) (auto simp: mq_total_def)

text \<open>The simulation, move by move.\<close>

lemma mq_enq_refines:
  assumes g: "mq_geom b s" and mem: "tk_mem (2 ^ b) (mq_abs (s, h))"
    and ok: "tk_ok (2 ^ b) (mq_abs (s, h)) (mq_abs_pc p)"
    and e: "mq_is_enq p" "mq_try_enqueue p s = (p', s')"
    and small: "mq_total h + 2 ^ b < 2 ^ 63"
  shows "tk_move (2 ^ b) (mq_abs_pc p) (mq_abs (s, h)) = (mq_abs_pc p', mq_abs (s', mq_record p p' h))
    \<and> mq_geom b s'"
proof -
  let ?E = "unat (mq_enq_pos s)"
  have E: "?E + 2 ^ b < 2 ^ 63"
    using tk_memD(2) [OF mem] small by (simp add: mq_abs_def mq_total_def)
  have sq: "unat (cell_seq (mq_buffer s ! (unat pos mod 2 ^ b))) < 2 ^ 63" for pos :: u64
    using tk_seq_bound [OF mem, of "unat pos"] E by (simp add: mq_abs_def)
  obtain log got where h: "h = (log, got)" by (cases h)
  show ?thesis
  proof (cases p)
    case (EnqSeq v pos)
    then have "unat pos < 2 ^ 63" using ok E by (simp add: mq_abs_def)
    then obtain d where "mq_dif (cell_seq (mq_buffer s ! (unat pos mod 2 ^ b))) pos = Some d"
      "d = 0 \<longleftrightarrow> unat (cell_seq (mq_buffer s ! (unat pos mod 2 ^ b))) = unat pos"
      "d < 0 \<longleftrightarrow> unat (cell_seq (mq_buffer s ! (unat pos mod 2 ^ b))) < unat pos"
      by (rule mq_dif_small [OF sq [of pos]])
    then show ?thesis
      using EnqSeq e g by (auto simp: mq_index_mod mq_abs_def h split: if_splits)
  next
    case (EnqCas v pos)
    show ?thesis
    proof (cases "mq_enq_pos s = pos")
      case True
      then have "unat (pos + 1) = Suc ?E" using E by (simp add: unat_add_no_wrap)
      with True EnqCas e g show ?thesis by (auto simp: mq_abs_def h)
    next
      case False
      then have "?E \<noteq> unat pos" by (metis word_unat_eq_iff)
      with False EnqCas e g show ?thesis by (auto simp: mq_abs_def h)
    qed
  next
    case (EnqData v pos)
    with e g show ?thesis by (auto simp: mq_abs_set [OF g] h)
  next
    case (EnqPub v pos)
    then have "unat pos < ?E" using ok by (simp add: mq_abs_def)
    then have "unat (pos + 1) = Suc (unat pos)" using E by (simp add: unat_add_no_wrap)
    with EnqPub e g show ?thesis by (auto simp: mq_abs_set [OF g] h)
  qed (use e g in \<open>auto simp: mq_abs_def h\<close>)
qed

lemma mq_deq_refines:
  assumes g: "mq_geom b s" and mem: "tk_mem (2 ^ b) (mq_abs (s, h))"
    and ok: "tk_ok (2 ^ b) (mq_abs (s, h)) (mq_abs_pc p)"
    and e: "\<not> mq_is_enq p" "\<not> mq_is_done p" "p \<noteq> MqIdle" "mq_try_dequeue p s = (p', s')"
    and small: "mq_total h + 2 ^ b < 2 ^ 63"
  shows "tk_move (2 ^ b) (mq_abs_pc p) (mq_abs (s, h)) = (mq_abs_pc p', mq_abs (s', mq_record p p' h))
    \<and> mq_geom b s'"
proof -
  let ?D = "unat (mq_deq_pos s)"
  have D: "?D + 2 ^ b < 2 ^ 63"
    using tk_memD(2,3) [OF mem] small by (simp add: mq_abs_def mq_total_def)
  have sq: "unat (cell_seq (mq_buffer s ! (unat pos mod 2 ^ b))) < 2 ^ 63" for pos :: u64
    using tk_seq_bound [OF mem, of "unat pos"] tk_memD(2) [OF mem] small
    by (simp add: mq_abs_def mq_total_def)
  have two: "(1::nat) < 2 ^ b" using g unfolding mq_geom_def by (intro one_less_power) auto
  obtain log got where h: "h = (log, got)" by (cases h)
  show ?thesis
  proof (cases p)
    case (DeqSeq pos)
    then have "unat pos \<le> ?D" using ok by (simp add: mq_abs_def)
    then have "unat pos + 1 < 2 ^ 63" using D two by linarith
    then have pos: "unat (pos + 1) = Suc (unat pos)" "unat (pos + 1) < 2 ^ 63"
      by (simp_all add: unat_add_no_wrap)
    let ?c = "cell_seq (mq_buffer s ! (unat pos mod 2 ^ b))"
    obtain d where "mq_dif ?c (pos + 1) = Some d" "d = 0 \<longleftrightarrow> unat ?c = Suc (unat pos)"
      "d < 0 \<longleftrightarrow> unat ?c < Suc (unat pos)"
      using mq_dif_small [OF sq [of pos] pos(2)] unfolding pos(1) .
    then show ?thesis
      using DeqSeq e g by (auto simp: mq_index_mod mq_abs_def h split: if_splits)
  next
    case (DeqCas pos)
    show ?thesis
    proof (cases "mq_deq_pos s = pos")
      case True
      then have "unat (pos + 1) = Suc ?D" using D by (simp add: unat_add_no_wrap)
      with True DeqCas e g show ?thesis by (auto simp: mq_abs_def h)
    next
      case False
      then have "?D \<noteq> unat pos" by (metis word_unat_eq_iff)
      with False DeqCas e g show ?thesis by (auto simp: mq_abs_def h)
    qed
  next
    case (DeqData pos)
    with e g show ?thesis by (auto simp: mq_abs_def mq_index_mod h)
  next
    case (DeqFree pos x)
    then have lt: "unat pos < ?D" using ok by (simp add: mq_abs_def)
    have "unat (pos + mq_mask s) = unat pos + (2 ^ b - 1)"
      using lt D mq_geom_mask [OF g] by (simp add: unat_add_no_wrap)
    then have "unat (pos + mq_mask s + 1) = unat pos + 2 ^ b"
      using lt D two by (simp add: unat_add_no_wrap)
    with DeqFree e g show ?thesis by (auto simp: mq_abs_set [OF g] h)
  qed (use e g in \<open>auto simp: mq_abs_def h\<close>)
qed


text \<open>A move of the code, of any kind, is a move of the protocol.\<close>

lemma mq_step_geom:
  "mq_geom b (fst w) \<Longrightarrow> (p', w') \<in> set (mq_step vals i p w) \<Longrightarrow>
    mq_geom b (fst w') \<and> mq_total (snd w) \<le> mq_total (snd w')"
  by (cases p) (auto simp: mq_step_def mq_record_total Let_def split: if_splits)

lemma mq_step_refines:
  assumes g: "mq_geom b (fst w)" and inv: "tk_inv (2 ^ b) (mq_abs w) (map mq_abs_pc ps)"
    and i: "i < length ps" and st: "(p', w') \<in> set (mq_step vals i (ps ! i) w)"
    and small: "mq_total (snd w) + 2 ^ b < 2 ^ 63"
  shows "(mq_abs_pc p', mq_abs w') \<in> set (tk_step (2 ^ b) vals i (mq_abs_pc (ps ! i)) (mq_abs w))"
proof -
  have mem: "tk_mem (2 ^ b) (mq_abs (fst w, snd w))" using tk_invD(1) [OF inv] by simp
  have ok: "tk_ok (2 ^ b) (mq_abs (fst w, snd w)) (mq_abs_pc (ps ! i))"
    using tk_invD(2) [OF inv, of i] i by simp
  consider "ps ! i = MqIdle" | "mq_is_done (ps ! i)" "ps ! i \<noteq> MqIdle"
    | "mq_is_enq (ps ! i)" | "\<not> mq_is_enq (ps ! i)" "\<not> mq_is_done (ps ! i)" "ps ! i \<noteq> MqIdle"
    by blast
  then show ?thesis
  proof cases
    case 1
    with st show ?thesis by (auto simp: mq_step_def tk_step_def mq_calls_def)
  next
    case 2
    with st show ?thesis by (cases "ps ! i") (auto simp: mq_step_def tk_step_def)
  next
    case 3
    then have n: "ps ! i \<noteq> MqIdle" "ps ! i \<noteq> MqUndefined" "\<not> mq_is_done (ps ! i)" "mq_abs_pc (ps ! i) \<noteq> MqIdle"
      by (cases "ps ! i"; simp)+
    with 3 st obtain s' where "mq_try_enqueue (ps ! i) (fst w) = (p', s')"
      and "w' = (s', mq_record (ps ! i) p' (snd w))"
      by (cases "mq_try_enqueue (ps ! i) (fst w)") (auto simp: mq_step_def)
    with mq_enq_refines [OF g mem ok 3 _ small, of p' s'] n show ?thesis by (simp add: tk_step_def)
  next
    case 4
    then have n: "mq_abs_pc (ps ! i) \<noteq> MqIdle" by (cases "ps ! i"; simp)
    have "ps ! i \<noteq> MqUndefined" using ok by auto
    with 4 st obtain s' where "mq_try_dequeue (ps ! i) (fst w) = (p', s')"
      and "w' = (s', mq_record (ps ! i) p' (snd w))"
      by (cases "mq_try_dequeue (ps ! i) (fst w)") (auto simp: mq_step_def)
    with mq_deq_refines [OF g mem ok 4 _ small, of p' s'] n show ?thesis by (simp add: tk_step_def)
  qed
qed

text \<open>The bound: fewer than \<open>2 ^ 63\<close> values and slots.\<close>

definition mq_small :: "u64 \<Rightarrow> 'a mq_hist \<Rightarrow> bool" where
  "mq_small sz h \<longleftrightarrow> mq_total h + unat sz < 2 ^ 63"

definition mq_inv :: "u64 \<Rightarrow> (nat \<Rightarrow> 'a list) \<Rightarrow> 'a mq_state \<times> 'a mq_hist \<Rightarrow> ('a, u64) mq_pc list \<Rightarrow> bool" where
  [inv_defs]: "mq_inv sz vals w ps \<longleftrightarrow> (\<exists>b. unat sz = 2 ^ b \<and> mq_geom b (fst w)) \<and>
     (mq_small sz (snd w) \<longrightarrow>
       reach (tk_start (unat sz)) (interleave (tk_step (unat sz) vals)) (mq_abs w, map mq_abs_pc ps))"

lemma mq_start_inv:
  assumes "mq_start d0 sz (w, ps)"
  shows "mq_inv sz vals w ps"
proof -
  from assms have sz: "1 < sz" "sz AND (sz - 1) = 0" and w: "snd w = ([], [])"
    and idle: "\<forall>p \<in> set ps. p = MqIdle"
    and s: "fst w = \<lparr>mq_buffer = map (\<lambda>i. \<lparr>cell_seq = of_nat i, cell_data = d0\<rparr>) [0..<unat sz],
      mq_mask = sz - 1, mq_enq_pos = 0, mq_deq_pos = 0\<rparr>"
    by (auto simp: mq_start_def mq_init_def split: if_splits)
  obtain b where b: "0 < b" "b < 64" "unat sz = 2 ^ b" "sz - 1 = mask b"
    using sz by (rule power_of_two_64)
  have "tk_start (unat sz) (mq_abs w, map mq_abs_pc ps)"
    using idle w s sz(1) unat_less_64 [of sz]
    by (auto simp: tk_start_def mq_abs_def word_less_nat_alt)
  moreover have "mq_geom b (fst w)" using b s by (simp add: mq_geom_def)
  ultimately show ?thesis using b(3) by (auto simp: mq_inv_def intro: reach_start)
qed

lemma mq_step_inv:
  assumes inv: "mq_inv sz vals w ps" and i: "i < length ps"
    and st: "(p', w') \<in> set (mq_step vals i (ps ! i) w)"
  shows "mq_inv sz vals w' (ps[i := p'])"
proof -
  obtain b where b: "unat sz = 2 ^ b" and g: "mq_geom b (fst w)" using inv by (auto simp: mq_inv_def)
  note g' = mq_step_geom [OF g st]
  have "reach (tk_start (unat sz)) (interleave (tk_step (unat sz) vals)) (mq_abs w', map mq_abs_pc (ps[i := p']))"
    if small: "mq_small sz (snd w')"
  proof -
    have small: "mq_small sz (snd w)" using small g' by (simp add: mq_small_def)
    then have r: "reach (tk_start (2 ^ b)) (interleave (tk_step (2 ^ b) vals)) (mq_abs w, map mq_abs_pc ps)"
      using inv b by (simp add: mq_inv_def)
    have "(mq_abs_pc p', mq_abs w') \<in> set (tk_step (2 ^ b) vals i (map mq_abs_pc ps ! i) (mq_abs w))"
      using mq_step_refines [OF g tk.reach_inv [OF r] i st] small b i by (simp add: mq_small_def)
    then have "interleave (tk_step (2 ^ b) vals) (mq_abs w, map mq_abs_pc ps)
        (mq_abs w', (map mq_abs_pc ps)[i := mq_abs_pc p'])"
      using i by (intro interleaveI) simp_all
    with r show ?thesis unfolding b by (auto simp: map_update intro: reach_step)
  qed
  with b g' show ?thesis by (auto simp: mq_inv_def)
qed

interpretation mq: protocol "mq_step vals" "mq_start d0 sz" "mq_inv sz vals"
  by unfold_locales (fact mq_start_inv, fact mq_step_inv)

lemma mq_reach_tk_inv:
  assumes "reach (mq_start d0 sz) (interleave (mq_step vals)) (w, ps)" "mq_small sz (snd w)"
  shows "tk_inv (unat sz) (mq_abs w) (map mq_abs_pc ps)"
  using mq.reach_inv [OF assms(1)] assms(2) by (auto simp: mq_inv_def dest: tk.reach_inv)


section \<open>Properties\<close>

text \<open>C4. Refinement: as long as fewer than \<open>2 ^ 63\<close> values and slots are in play, every state
  that the code of \<open>mpmc_bounded_queue\<close> reaches, under any schedule of any number of threads,
  is a state that the ticket protocol reaches: positions and sequence numbers never wrap, the mask
  is the remainder, and the signed difference decides like the comparison of tickets.\<close>

theorem mpmc_follows_tickets:
  assumes "reach (mq_start d0 sz) (interleave (mq_step vals)) (w, ps)" "mq_small sz (snd w)"
  shows "reach (tk_start (unat sz)) (interleave (tk_step (unat sz) vals)) (mq_abs w, map mq_abs_pc ps)"
  using mq.reach_inv [OF assms(1)] assms(2) by (simp add: mq_inv_def)

text \<open>No duplicate, no invention: every delivery carries a ticket of its own, below the
  dequeue position, and the value that was pushed with that ticket; so values leave in the order of
  their tickets, each at most once. The queue never holds more than its size.\<close>

theorem mpmc_deliveries:
  assumes "reach (mq_start d0 sz) (interleave (mq_step vals)) ((s, log, got), ps)"
    and "mq_small sz (log, got)"
  shows "distinct (map fst got)
    \<and> (\<forall>(t, x) \<in> set got. t < unat (mq_deq_pos s) \<and> x = log ! t)
    \<and> unat (mq_deq_pos s) \<le> length log \<and> length log \<le> unat (mq_deq_pos s) + unat sz"
proof -
  have "tk_inv (unat sz) (mq_abs (s, log, got)) (map mq_abs_pc ps)"
    using mq_reach_tk_inv [OF assms(1)] assms(2) by simp
  then have "tk_mem (unat sz) (mq_abs (s, log, got))" by (rule tk_invD)
  then show ?thesis by (auto simp: tk_mem_def mq_abs_def)
qed

text \<open>No loss: whenever no thread is between taking a ticket and returning, the deliveries are
  exactly the first values by ticket, one each, and every other pushed value is in its cell,
  published. So the queue holds the values between the two positions.\<close>

theorem mpmc_at_rest:
  assumes "reach (mq_start d0 sz) (interleave (mq_step vals)) ((s, log, got), ps)"
    and "mq_small sz (log, got)" and "\<forall>p \<in> set ps. tk_claim p = None"
  shows "mset got = mset (map (\<lambda>t. (t, log ! t)) [0..<unat (mq_deq_pos s)])
    \<and> (\<forall>t. unat (mq_deq_pos s) \<le> t \<and> t < length log \<longrightarrow>
          cell_data (mq_buffer s ! (t mod unat sz)) = log ! t
          \<and> unat (cell_seq (mq_buffer s ! (t mod unat sz))) = Suc t)"
proof -
  have inv: "tk_inv (unat sz) (mq_abs (s, log, got)) (map mq_abs_pc ps)"
    using mq_reach_tk_inv [OF assms(1)] assms(2) by simp
  have "tk_claim (mq_abs_pc p) = None" if "p \<in> set ps" for p
    using assms(3) that by (cases p) auto
  then have rest: "\<forall>p \<in> set (map mq_abs_pc ps). tk_claim p = None" by auto
  have "length log = unat (mq_enq_pos s)"
    using tk_memD(2) [OF tk_invD(1) [OF inv]] by (simp add: mq_abs_def)
  then show ?thesis
    using tk_rest_got [OF inv rest] tk_rest_full [OF inv rest]
    by (auto simp: mq_abs_def tk_full_def)
qed

text \<open>A concrete run: thread 0 pushes 7 into a queue of two cells, thread 1 pops it.\<close>

lemma mq_init_two:
  "mq_init d0 2 = Some \<lparr>mq_buffer = [\<lparr>cell_seq = 0, cell_data = d0\<rparr>, \<lparr>cell_seq = 1, cell_data = d0\<rparr>],
     mq_mask = 1, mq_enq_pos = 0, mq_deq_pos = 0\<rparr>"
  by (simp add: mq_init_def upt_rec)

definition mq_after_one :: "nat mq_state" where
  "mq_after_one = \<lparr>mq_buffer = [\<lparr>cell_seq = 2, cell_data = 7\<rparr>, \<lparr>cell_seq = 1, cell_data = 0\<rparr>],
     mq_mask = 1, mq_enq_pos = 1, mq_deq_pos = 1\<rparr>"

lemma mq_one_run:
  "reach (mq_start 0 2) (interleave (mq_step (\<lambda>i. [7 :: nat])))
     ((mq_after_one, [7], [(0, 7)]), [EnqDone True, DeqDone (Some 7)])"
  by (rule run_sched_reach_start [where s = "((the (mq_init 0 2), [], []), [MqIdle, MqIdle])"
        and sched = "[(0, 0), (0, 0), (0, 0), (0, 0), (1, 1), (1, 0), (0, 0), (0, 0),
          (1, 0), (1, 0), (1, 0), (1, 0)]"])
    (simp_all add: mq_start_def mq_init_two mq_step_def mq_calls_def mq_index_def mq_dif_def
      mq_set_seq_def mq_set_data_def mq_after_one_def)

lemma mq_one_small: "mq_small 2 ([7 :: nat], [(0, 7)])"
  by (simp add: mq_small_def mq_total_def)

theorem mpmc_follows_tickets_witness:
  "reach (tk_start 2) (interleave (tk_step 2 (\<lambda>i. [7 :: nat])))
     (mq_abs (mq_after_one, [7], [(0, 7)]), [EnqDone True, DeqDone (Some 7)])"
  using mpmc_follows_tickets [OF mq_one_run] mq_one_small by simp

theorem mpmc_deliveries_witness:
  "distinct (map fst [(0 :: nat, 7 :: nat)]) \<and> unat (mq_deq_pos mq_after_one) \<le> 1"
  using mpmc_deliveries [OF mq_one_run] mq_one_small by simp

theorem mpmc_at_rest_witness:
  "mset [(0 :: nat, 7 :: nat)] = mset (map (\<lambda>t. (t, [7] ! t)) [0..<unat (mq_deq_pos mq_after_one)])"
  using mpmc_at_rest [OF mq_one_run] mq_one_small by simp

end
