(* ===== verification/Mpmc_Bag.thy ===== *)
theory Mpmc_Bag
  imports Mpmc_Bounded
begin

text \<open>
  What the calls of \<open>mpmc_bounded_queue\<close> that overlap do to the values inside it. A value is in
  the queue from the store of its sequence number until a consumer has advanced the dequeue
  position over it. Seen so, a \<open>try_enqueue\<close> adds its value or fails, a \<open>try_dequeue\<close> takes one
  of the values or fails, each in one of its steps, and no other step changes the values.
\<close>

definition tk_inside :: "nat \<Rightarrow> 'a tk_state \<Rightarrow> nat set" where
  "tk_inside n s = {t. tk_deq s \<le> t \<and> t < tk_enq s \<and> tk_seq s (t mod n) = Suc t}"

definition tk_bag :: "nat \<Rightarrow> 'a tk_state \<Rightarrow> 'a multiset" where
  "tk_bag n s = image_mset (\<lambda>t. tk_log s ! t) (mset_set (tk_inside n s))"

lemma tk_inside_finite: "finite (tk_inside n s)"
  by (rule finite_subset [of _ "{..<tk_enq s}"]) (auto simp: tk_inside_def)

lemma tk_inside_seq:
  "tk_inside n (s\<lparr>tk_seq := f\<rparr>) = {t. tk_deq s \<le> t \<and> t < tk_enq s \<and> f (t mod n) = Suc t}"
  by (simp add: tk_inside_def)

lemma tk_inside_in: "t \<in> tk_inside n s \<Longrightarrow> tk_log s ! t \<in># tk_bag n s"
  using tk_inside_finite [of n s] by (auto simp: tk_bag_def)

text \<open>The tickets inside, move by move.\<close>

lemma tk_inside_publish:
  assumes mem: "tk_mem n s" and ok: "tk_ok n s (EnqPub v t)"
  shows "tk_inside n (s\<lparr>tk_seq := (tk_seq s)(t mod n := Suc t)\<rparr>) = insert t (tk_inside n s)"
    and "t \<notin> tk_inside n s" "tk_deq s \<le> t"
proof -
  have t: "t < tk_enq s" "tk_seq s (t mod n) = t" using ok by simp_all
  show le: "tk_deq s \<le> t" using tk_seq_free [OF mem t(2)] by (simp add: tk_free_def)
  have other: "u mod n \<noteq> t mod n" if "tk_seq s (u mod n) = Suc u" for u
    using tk_slot_clash [OF mem t(2) that] by simp
  then show "t \<notin> tk_inside n s" by (auto simp: tk_inside_def)
  show "tk_inside n (s\<lparr>tk_seq := (tk_seq s)(t mod n := Suc t)\<rparr>) = insert t (tk_inside n s)"
    using t le other by (auto simp: tk_inside_def)
qed

lemma tk_inside_free:
  assumes mem: "tk_mem n s" and ok: "tk_ok n s (DeqFree t x)"
  shows "tk_inside n (s\<lparr>tk_seq := (tk_seq s)(t mod n := t + n)\<rparr>) = tk_inside n s"
proof -
  have t: "t < tk_deq s" "tk_seq s (t mod n) = Suc t" using ok by simp_all
  have new: "u mod n \<noteq> t mod n" if "t + n = Suc u" for u
  proof
    assume "u mod n = t mod n"
    then have "Suc u mod n = u mod n" using that by (metis mod_add_self2)
    with mod_Suc_neq [OF tk_memD(1) [OF mem]] show False by simp
  qed
  have old: "u mod n \<noteq> t mod n" if "tk_deq s \<le> u" "tk_seq s (u mod n) = Suc u" for u
  proof
    assume "u mod n = t mod n"
    then have "Suc u = Suc t" using that(2) t(2) by metis
    with that(1) t(1) show False by simp
  qed
  have key: "tk_deq s \<le> u \<and> ((tk_seq s)(t mod n := t + n)) (u mod n) = Suc u
      \<longleftrightarrow> tk_deq s \<le> u \<and> tk_seq s (u mod n) = Suc u" for u
  proof (cases "u mod n = t mod n")
    case True
    then have "t + n \<noteq> Suc u" "\<not> (tk_deq s \<le> u \<and> tk_seq s (u mod n) = Suc u)" using new old by blast+
    then show ?thesis unfolding fun_upd_apply if_P [OF True] by blast
  qed simp
  show ?thesis
    unfolding tk_inside_seq unfolding tk_inside_def
  proof (rule Collect_cong)
    fix u
    show "(tk_deq s \<le> u \<and> u < tk_enq s \<and> ((tk_seq s)(t mod n := t + n)) (u mod n) = Suc u)
      \<longleftrightarrow> (tk_deq s \<le> u \<and> u < tk_enq s \<and> tk_seq s (u mod n) = Suc u)"
      using key [of u] by blast
  qed
qed

lemma tk_inside_take:
  assumes ok: "tk_ok n s (EnqCas v t)" and e: "tk_enq s = t"
  shows "tk_inside n (s\<lparr>tk_enq := Suc t, tk_log := log\<rparr>) = tk_inside n s"
  using assms by (auto simp: tk_inside_def less_Suc_eq)

lemma tk_inside_move:
  assumes mem: "tk_mem n s" and ok: "tk_ok n s p" and st: "tk_move n p s = (p', s')"
  shows "tk_inside n s' = (case p of EnqPub v t \<Rightarrow> insert t (tk_inside n s)
      | DeqCas t \<Rightarrow> if tk_deq s = t then tk_inside n s - {t} else tk_inside n s | _ \<Rightarrow> tk_inside n s)"
proof (cases p)
  case (EnqPub v t)
  with st tk_inside_publish(1) [OF mem ok [unfolded EnqPub]] show ?thesis by auto
next
  case (DeqFree t x)
  with st tk_inside_free [OF mem ok [unfolded DeqFree]] show ?thesis by auto
next
  case (EnqCas v t)
  with st tk_inside_take [OF ok [unfolded EnqCas]] show ?thesis by (auto split: if_splits)
next
  case (DeqCas t)
  with st show ?thesis by (auto simp: tk_inside_def split: if_splits)
qed (use st in \<open>auto simp: tk_inside_def split: if_splits\<close>)

lemma tk_log_move:
  assumes "tk_mem n s" "tk_move n p s = (p', s')" "t < tk_enq s"
  shows "tk_log s' ! t = tk_log s ! t"
  using assms tk_memD(2) [OF assms(1)] by (cases p) (auto simp: nth_append split: if_splits)

lemma tk_inside_head:
  assumes "tk_mem n s" "tk_ok n s (DeqCas t)" "tk_deq s = t"
  shows "t \<in> tk_inside n s"
  using assms tk_seq_full [OF assms(1), of t] by (simp add: tk_inside_def tk_full_def)

text \<open>A producer about to publish finds room.\<close>

lemma tk_bag_room:
  assumes mem: "tk_mem n s" and ok: "tk_ok n s (EnqPub v t)"
  shows "size (tk_bag n s) < n"
proof -
  note pub = tk_inside_publish(2,3) [OF mem ok]
  have t: "t < tk_enq s" using ok by simp
  have "card (insert t (tk_inside n s)) \<le> card {tk_deq s..<tk_enq s}"
    by (rule card_mono) (use pub(2) t in \<open>auto simp: tk_inside_def\<close>)
  also have "\<dots> \<le> n" using tk_memD(4) [OF mem] by simp
  finally show ?thesis using pub(1) tk_inside_finite [of n s] by (simp add: tk_bag_def)
qed

text \<open>The values inside, move by move.\<close>

lemma tk_bag_move:
  assumes mem: "tk_mem n s" and ok: "tk_ok n s p" and st: "tk_move n p s = (p', s')"
  shows "tk_bag n s' = (case p of EnqPub v t \<Rightarrow> add_mset v (tk_bag n s)
      | DeqCas t \<Rightarrow> if tk_deq s = t then tk_bag n s - {#tk_log s ! t#} else tk_bag n s | _ \<Rightarrow> tk_bag n s)"
proof -
  have log: "image_mset (\<lambda>t. tk_log s' ! t) (mset_set A) = image_mset (\<lambda>t. tk_log s ! t) (mset_set A)"
    if "A \<subseteq> {..<tk_enq s}" for A
    using that tk_log_move [OF mem st] finite_subset [OF that] by (intro image_mset_cong) auto
  have sub: "tk_inside n s \<subseteq> {..<tk_enq s}" by (auto simp: tk_inside_def)
  have same: "tk_bag n s' = tk_bag n s" if "tk_inside n s' = tk_inside n s"
    unfolding tk_bag_def that by (rule log [OF sub])
  note ins = tk_inside_move [OF mem ok st]
  show ?thesis
  proof (cases p)
    case (EnqPub v t)
    note pub = tk_inside_publish(2) [OF mem ok [unfolded EnqPub]]
    have t: "t < tk_enq s" "tk_log s ! t = v" using ok EnqPub by simp_all
    have "tk_bag n s' = image_mset (\<lambda>t. tk_log s ! t) (mset_set (insert t (tk_inside n s)))"
      unfolding tk_bag_def ins EnqPub mq_pc.case by (rule log) (use sub t in auto)
    then show ?thesis using pub t(2) tk_inside_finite [of n s] by (simp add: EnqPub tk_bag_def)
  next
    case (DeqCas t)
    show ?thesis
    proof (cases "tk_deq s = t")
      case True
      have "tk_bag n s' = image_mset (\<lambda>t. tk_log s ! t) (mset_set (tk_inside n s - {t}))"
        unfolding tk_bag_def ins DeqCas mq_pc.case if_P [OF True] by (rule log) (use sub in auto)
      moreover have "t \<in> tk_inside n s" by (rule tk_inside_head [OF mem ok [unfolded DeqCas] True])
      ultimately show ?thesis
        using True tk_inside_finite [of n s] DeqCas by (simp add: tk_bag_def mset_set_Diff image_mset_Diff)
    qed (use DeqCas ins same in simp)
  qed (use ins same in simp_all)
qed


section \<open>The calls of the code\<close>

text \<open>Where a thread can be in \<open>try_enqueue\<close> of \<open>v\<close>, and in \<open>try_dequeue\<close>.\<close>

fun mq_enqueues :: "'a \<Rightarrow> ('a, 'p) mq_pc \<Rightarrow> bool" where
  "mq_enqueues v (EnqPos w) = (w = v)"
| "mq_enqueues v (EnqSeq w pos) = (w = v)"
| "mq_enqueues v (EnqCas w pos) = (w = v)"
| "mq_enqueues v (EnqData w pos) = (w = v)"
| "mq_enqueues v (EnqPub w pos) = (w = v)"
| "mq_enqueues v (EnqDone ok) = True"
| "mq_enqueues v c = False"

fun mq_dequeues :: "('a, 'p) mq_pc \<Rightarrow> bool" where
  "mq_dequeues DeqPos = True"
| "mq_dequeues (DeqSeq pos) = True"
| "mq_dequeues (DeqCas pos) = True"
| "mq_dequeues (DeqData pos) = True"
| "mq_dequeues (DeqFree pos x) = True"
| "mq_dequeues (DeqDone r) = True"
| "mq_dequeues c = False"

text \<open>The value a \<open>try_dequeue\<close> has taken: by its ticket, or read already.\<close>

fun mq_taken :: "'a list \<Rightarrow> ('a, u64) mq_pc \<Rightarrow> 'a option" where
  "mq_taken log (DeqData pos) = Some (log ! unat pos)"
| "mq_taken log (DeqFree pos x) = Some x"
| "mq_taken log (DeqDone r) = r"
| "mq_taken log c = None"

definition mq_bag :: "nat \<Rightarrow> 'a mq_state \<times> 'a mq_hist \<Rightarrow> 'a multiset" where
  "mq_bag n w = tk_bag n (mq_abs w)"

text \<open>A step inside a call is a move of the protocol, whoever makes it.\<close>

lemma mq_step_vals: "c \<noteq> MqIdle \<Longrightarrow> mq_step vals i c w = mq_step vals' j c w"
  by (simp add: mq_step_def)

lemma mq_step_move:
  assumes g: "mq_geom b (fst w)" and inv: "tk_inv (2 ^ b) (mq_abs w) (map mq_abs_pc cs)"
    and i: "i < length cs" and c: "cs ! i \<noteq> MqIdle" and st: "(c', w') \<in> set (mq_step vals l (cs ! i) w)"
    and small: "mq_total (snd w) + 2 ^ b < 2 ^ 63"
  shows "tk_move (2 ^ b) (mq_abs_pc (cs ! i)) (mq_abs w) = (mq_abs_pc c', mq_abs w')"
    and "tk_mem (2 ^ b) (mq_abs w)" "tk_ok (2 ^ b) (mq_abs w) (mq_abs_pc (cs ! i))"
proof -
  have "mq_abs_pc (cs ! i) \<noteq> MqIdle" using c by (cases "cs ! i") simp_all
  with mq_step_refines [OF g inv i st [unfolded mq_step_vals [OF c, of vals l w vals i]] small]
  show "tk_move (2 ^ b) (mq_abs_pc (cs ! i)) (mq_abs w) = (mq_abs_pc c', mq_abs w')"
    by (simp add: tk_step_def)
  show "tk_mem (2 ^ b) (mq_abs w)" by (rule tk_invD [OF inv])
  show "tk_ok (2 ^ b) (mq_abs w) (mq_abs_pc (cs ! i))" using tk_invD(2) [OF inv, of i] i by simp
qed

text \<open>The protocol never has a subtraction that overflows.\<close>

lemma tk_move_defined: "tk_ok n s p \<Longrightarrow> fst (tk_move n p s) \<noteq> MqUndefined"
  by (cases p) simp_all

lemma mq_abs_pc_defined: "mq_abs_pc c \<noteq> MqUndefined \<Longrightarrow> c \<noteq> MqUndefined"
  by auto

lemma mq_enqueue_bag:
  assumes g: "mq_geom b (fst w)" and inv: "tk_inv (2 ^ b) (mq_abs w) (map mq_abs_pc cs)"
    and i: "i < length cs" and c: "mq_enqueues v (cs ! i)" "\<not> mq_is_done (cs ! i)"
    and st: "(c', w') \<in> set (mq_step vals l (cs ! i) w)" and small: "mq_total (snd w) + 2 ^ b < 2 ^ 63"
  shows "mq_enqueues v c'"
    and "if c' = EnqDone True then mq_bag (2 ^ b) w' = add_mset v (mq_bag (2 ^ b) w) \<and> size (mq_bag (2 ^ b) w) < 2 ^ b
      else mq_bag (2 ^ b) w' = mq_bag (2 ^ b) w"
proof -
  have "cs ! i \<noteq> MqIdle" using c(1) by auto
  note mv = mq_step_move [OF g inv i this st small]
  note bag = tk_bag_move [OF mv(2,3,1), folded mq_bag_def]
  have "c' \<noteq> MqUndefined" using tk_move_defined [OF mv(3)] mv(1) by (intro mq_abs_pc_defined) simp
  with c show "mq_enqueues v c'"
    using st by (cases "cs ! i") (auto simp: mq_step_def split: if_splits option.splits)
  show "if c' = EnqDone True then mq_bag (2 ^ b) w' = add_mset v (mq_bag (2 ^ b) w) \<and> size (mq_bag (2 ^ b) w) < 2 ^ b
      else mq_bag (2 ^ b) w' = mq_bag (2 ^ b) w"
  proof (cases "cs ! i")
    case (EnqPub u pos)
    with c have "u = v" by simp
    with EnqPub st bag tk_bag_room [OF mv(2), of v "unat pos", folded mq_bag_def] mv(3) show ?thesis
      by (auto simp: mq_step_def)
  qed (use c st bag in \<open>auto simp: mq_step_def split: if_splits option.splits\<close>)
qed

lemma mq_dequeue_bag:
  assumes g: "mq_geom b (fst w)" and inv: "tk_inv (2 ^ b) (mq_abs w) (map mq_abs_pc cs)"
    and i: "i < length cs" and c: "mq_dequeues (cs ! i)" "\<not> mq_is_done (cs ! i)"
    and st: "(c', w') \<in> set (mq_step vals l (cs ! i) w)" and small: "mq_total (snd w) + 2 ^ b < 2 ^ 63"
  shows "mq_dequeues c'"
    and "mq_taken (fst (snd w')) c' = mq_taken (fst (snd w)) (cs ! i) \<and> mq_bag (2 ^ b) w' = mq_bag (2 ^ b) w
      \<or> (\<exists>x. mq_taken (fst (snd w)) (cs ! i) = None \<and> mq_taken (fst (snd w')) c' = Some x
           \<and> x \<in># mq_bag (2 ^ b) w \<and> mq_bag (2 ^ b) w' = mq_bag (2 ^ b) w - {#x#})"
proof -
  have "cs ! i \<noteq> MqIdle" using c(1) by auto
  note mv = mq_step_move [OF g inv i this st small]
  note bag = tk_bag_move [OF mv(2,3,1), folded mq_bag_def]
  have "c' \<noteq> MqUndefined" using tk_move_defined [OF mv(3)] mv(1) by (intro mq_abs_pc_defined) simp
  with c show "mq_dequeues c'"
    using st by (cases "cs ! i") (auto simp: mq_step_def split: if_splits option.splits)
  obtain s h where w: "w = (s, h)" by (cases w)
  obtain log got where h: "h = (log, got)" by (cases h)
  show "mq_taken (fst (snd w')) c' = mq_taken (fst (snd w)) (cs ! i) \<and> mq_bag (2 ^ b) w' = mq_bag (2 ^ b) w
      \<or> (\<exists>x. mq_taken (fst (snd w)) (cs ! i) = None \<and> mq_taken (fst (snd w')) c' = Some x
           \<and> x \<in># mq_bag (2 ^ b) w \<and> mq_bag (2 ^ b) w' = mq_bag (2 ^ b) w - {#x#})"
  proof (cases "cs ! i")
    case (DeqCas pos)
    show ?thesis
    proof (cases "mq_deq_pos s = pos")
      case True
      then have d: "tk_deq (mq_abs w) = unat pos" by (simp add: mq_abs_def w)
      have "unat pos \<in> tk_inside (2 ^ b) (mq_abs w)"
        by (rule tk_inside_head [OF mv(2) _ d]) (use mv(3) DeqCas in simp)
      then have "log ! unat pos \<in># mq_bag (2 ^ b) w"
        using tk_inside_in [of "unat pos" "2 ^ b" "mq_abs w"] by (simp add: mq_bag_def) (simp add: mq_abs_def w h)
      moreover have "mq_bag (2 ^ b) w' = mq_bag (2 ^ b) w - {#log ! unat pos#}"
        using bag d DeqCas by (simp add: mq_abs_def [of w]) (simp add: w h)
      moreover have "c' = DeqData pos" "snd w' = (log, got)"
        using st DeqCas True by (auto simp: mq_step_def w h)
      ultimately show ?thesis using DeqCas by (auto simp: w h)
    next
      case False
      then have "unat (mq_deq_pos s) \<noteq> unat pos" by (metis word_unat_eq_iff)
      then have "tk_deq (mq_abs w) \<noteq> unat pos" by (simp add: mq_abs_def w)
      with bag DeqCas have "mq_bag (2 ^ b) w' = mq_bag (2 ^ b) w" by simp
      with False st DeqCas show ?thesis by (auto simp: mq_step_def w h)
    qed
  next
    case (DeqData pos)
    have full: "tk_full (2 ^ b) (mq_abs w) (unat pos)"
      by (rule tk_seq_full [OF mv(2)]) (use mv(3) DeqData in simp)
    from st DeqData have c': "c' = DeqFree pos (cell_data (mq_buffer s ! mq_index s pos))"
      by (auto simp: mq_step_def w h)
    then have "cell_data (mq_buffer s ! mq_index s pos) = log ! unat pos"
      using full mq_index_mod [of b s pos] g by (simp add: tk_full_def mq_abs_def w h)
    with c' bag DeqData show ?thesis by (simp add: w h)
  qed (use c st bag in \<open>auto simp: mq_step_def w h split: if_splits option.splits\<close>)
qed

end
