(* ===== verification/Thread_Pool_Queue.thy ===== *)
theory Thread_Pool_Queue
  imports Thread_Pool_Work Mpmc_Bag
begin

text \<open>
  The composition of \<open>thread_pool\<close> with its \<open>mpmc_bounded_queue\<close> of wrappers: a call of
  \<open>try_enqueue\<close> or \<open>try_dequeue\<close> on \<open>m_work_wrapper_pool\<close> is made in the single accesses of
  \<open>Mpmc_Bounded\<close>, so calls of the threads, of the clients and of \<open>destroy\<close> overlap. The state is
  that of the pool, whose component \<open>work_wrapper_pool\<close> stays empty, with the queue and its
  histories. The theory shows that every execution is one of \<open>Thread_Pool\<close> with \<open>spurious\<close>.
\<close>

type_synonym 'a pq_state = "'a tp_state \<times> nat mq_state \<times> nat mq_hist"

datatype 'a pq_pc =
  PqRun "'a tp_pc"
| PqReturn nat "(nat, u64) mq_pc"   \<comment> \<open>return_wrapper_to_pool: in \<open>try_enqueue\<close>\<close>
| PqTake 'a "(nat, u64) mq_pc"      \<comment> \<open>add_work: in \<open>try_dequeue\<close>\<close>
| PqDrain "(nat, u64) mq_pc"        \<comment> \<open>destroy: in \<open>try_dequeue\<close>\<close>

definition pq_call :: "((nat, u64) mq_pc \<Rightarrow> 'a pq_pc) \<Rightarrow> (nat, u64) mq_pc \<Rightarrow> 'a pq_state \<Rightarrow> ('a pq_pc \<times> 'a pq_state) list" where
  "pq_call at c s = map (\<lambda>(c', q). (at c', fst s, q)) (mq_step (\<lambda>i. []) 0 c (snd s))"

text \<open>\<open>return_wrapper_to_pool\<close>, the first lines of \<open>add_work\<close>, the last of \<open>destroy\<close>.\<close>

fun pq_return :: "nat \<Rightarrow> (nat, u64) mq_pc \<Rightarrow> 'a pq_state \<Rightarrow> ('a pq_pc \<times> 'a pq_state) list" where
  "pq_return w (EnqDone success) s = [(PqRun (if success then QAsk else QAssert), s)]"
| "pq_return w c s = pq_call (PqReturn w) c s"

fun pq_take :: "'a \<Rightarrow> (nat, u64) mq_pc \<Rightarrow> 'a pq_state \<Rightarrow> ('a pq_pc \<times> 'a pq_state) list" where
  "pq_take f (DeqDone (Some w)) s = [(PqRun (CFill w f), s)]"
| "pq_take f (DeqDone None) (t, q) = [(PqRun (CFill (tp_fresh t) f), t\<lparr>tp_fresh := tp_fresh t + 1\<rparr>, q)]"
| "pq_take f c s = pq_call (PqTake f) c s"

fun pq_drain :: "(nat, u64) mq_pc \<Rightarrow> 'a pq_state \<Rightarrow> ('a pq_pc \<times> 'a pq_state) list" where
  "pq_drain (DeqDone (Some w)) s = [(PqRun (DsDrop w), s)]"
| "pq_drain (DeqDone None) (t, q) =
     [(PqRun DsEnd, t\<lparr>free_threads := [], all_threads := [], tp_locked := False\<rparr>, q)]"
| "pq_drain c s = pq_call PqDrain c s"

fun pq_step :: "event_kind \<Rightarrow> nat \<Rightarrow> (nat \<Rightarrow> 'a list) \<Rightarrow> ('a pq_state, 'a pq_pc) thread_step" where
  "pq_step k n works i (PqRun (QReturn w)) s = [(PqReturn w (EnqPos w), s)]"
| "pq_step k n works i (PqRun (CWrapper f)) s = [(PqTake f DeqPos, s)]"
| "pq_step k n works i (PqRun DsWrappers) s = [(PqDrain DeqPos, s)]"
| "pq_step k n works i (PqRun p) s =
     map (\<lambda>(p', t). (PqRun p', t, snd s)) (tp_step k True n works i p (fst s))"
| "pq_step k n works i (PqReturn w c) s = pq_return w c s"
| "pq_step k n works i (PqTake f c) s = pq_take f c s"
| "pq_step k n works i (PqDrain c) s = pq_drain c s"

definition pq_start :: "nat \<Rightarrow> ('a pq_state, 'a pq_pc) system \<Rightarrow> bool" where
  "pq_start n t \<longleftrightarrow> (\<exists>ps d0. snd t = map PqRun ps \<and> tp_start n (fst (fst t), ps)
     \<and> mq_init d0 (of_nat wrapper_pool_size) = Some (fst (snd (fst t))) \<and> snd (snd (fst t)) = ([], []))"


section \<open>The two components inside\<close>

fun pq_queue_pc :: "'a pq_pc \<Rightarrow> (nat, u64) mq_pc" where
  "pq_queue_pc (PqRun p) = MqIdle"
| "pq_queue_pc (PqReturn w c) = c"
| "pq_queue_pc (PqTake f c) = c"
| "pq_queue_pc (PqDrain c) = c"

fun pq_wf :: "'a pq_pc \<Rightarrow> bool" where
  "pq_wf (PqRun p) = True"
| "pq_wf (PqReturn w c) = mq_enqueues w c"
| "pq_wf (PqTake f c) = mq_dequeues c"
| "pq_wf (PqDrain c) = mq_dequeues c"

text \<open>Where the thread is in \<open>Thread_Pool\<close>.\<close>

fun pq_pool_pc :: "nat list \<Rightarrow> 'a pq_pc \<Rightarrow> 'a tp_pc" where
  "pq_pool_pc log (PqRun p) = p"
| "pq_pool_pc log (PqReturn w c) = (case c of EnqDone ok \<Rightarrow> if ok then QAsk else QAssert | _ \<Rightarrow> QReturn w)"
| "pq_pool_pc log (PqTake f c) = (case mq_taken log c of None \<Rightarrow> CWrapper f | Some w \<Rightarrow> CFill w f)"
| "pq_pool_pc log (PqDrain c) = (case mq_taken log c of None \<Rightarrow> DsWrappers | Some w \<Rightarrow> DsDrop w)"

abbreviation pq_abs_pc :: "'a pq_pc \<Rightarrow> (nat, nat) mq_pc" where
  "pq_abs_pc p \<equiv> mq_abs_pc (pq_queue_pc p)"

definition pq_view :: "nat list \<Rightarrow> 'a pq_pc \<Rightarrow> 'a pq_state \<Rightarrow> 'a tp_pc \<times> 'a tp_state" where
  "pq_view ws p s = (pq_pool_pc (fst (snd (snd s))) p, (fst s)\<lparr>work_wrapper_pool := ws\<rparr>)"

text \<open>A step is answered by a step of \<open>Thread_Pool\<close>, or by none; the wrappers in the queue, in any
  order, are the pool of wrappers.\<close>

definition pq_answer :: "event_kind \<Rightarrow> nat \<Rightarrow> (nat \<Rightarrow> 'a list) \<Rightarrow> nat \<Rightarrow> 'a pq_pc \<Rightarrow> 'a pq_state \<Rightarrow> 'a pq_pc \<Rightarrow> 'a pq_state \<Rightarrow> bool" where
  "pq_answer k n works i p s p' s' \<longleftrightarrow> pq_wf p' \<and>
     (\<forall>ws. mset ws = mq_bag wrapper_pool_size (snd s) \<longrightarrow>
       (\<exists>ws'. mset ws' = mq_bag wrapper_pool_size (snd s') \<and> (pq_view ws' p' s' = pq_view ws p s
          \<or> pq_view ws' p' s' \<in> set (case pq_view ws p s of (q, t) \<Rightarrow> tp_step k True n works i q t))))"

lemma pq_answer_quiet:
  "pq_wf p' \<Longrightarrow> snd s' = snd s \<Longrightarrow> (\<And>ws. pq_view ws p' s' = pq_view ws p s) \<Longrightarrow> pq_answer k n works i p s p' s'"
  by (auto simp: pq_answer_def)

lemma pq_answer_step:
  assumes "pq_wf p'" "snd s' = snd s"
    and "\<And>ws. pq_view ws p' s' \<in> set (case pq_view ws p s of (q, t) \<Rightarrow> tp_step k True n works i q t)"
  shows "pq_answer k n works i p s p' s'"
  using assms unfolding pq_answer_def by metis

section \<open>Every step is answered\<close>

text \<open>Steps that do not use the pool of wrappers.\<close>

fun tp_uses_wrappers :: "'a tp_pc \<Rightarrow> bool" where
  "tp_uses_wrappers (QReturn w) = True"
| "tp_uses_wrappers (CWrapper f) = True"
| "tp_uses_wrappers DsWrappers = True"
| "tp_uses_wrappers p = False"

lemma qt_shutdown_frame:
  "(p', t') \<in> set (qt_shutdown k p t) \<Longrightarrow>
    (p', t'\<lparr>work_wrapper_pool := ws\<rparr>) \<in> set (qt_shutdown k p (t\<lparr>work_wrapper_pool := ws\<rparr>))"
  by (induction k p t rule: qt_shutdown.induct) (auto simp: tp_set_def split: if_splits)

lemma tp_step_frame:
  assumes "\<not> tp_uses_wrappers p" "(p', t') \<in> set (tp_step k sp n works i p t)"
  shows "(p', t'\<lparr>work_wrapper_pool := ws\<rparr>) \<in> set (tp_step k sp n works i p (t\<lparr>work_wrapper_pool := ws\<rparr>))"
proof (cases "i < n")
  case True
  with assms(2) have "(p', t') \<in> set (qt_run k sp i p t)" by (simp add: tp_step_def)
  with assms(1) have "(p', t'\<lparr>work_wrapper_pool := ws\<rparr>) \<in> set (qt_run k sp i p (t\<lparr>work_wrapper_pool := ws\<rparr>))"
    by (cases p) (auto simp: return_or_get_def intro!: rev_image_eqI split: if_splits list.splits)
  with True show ?thesis by (simp add: tp_step_def)
next
  case False
  have add: "(p', t'\<lparr>work_wrapper_pool := ws\<rparr>) \<in> set (tp_add_work k sp p (t\<lparr>work_wrapper_pool := ws\<rparr>))"
    if "(p', t') \<in> set (tp_add_work k sp p t)"
    using that assms(1) by (cases p) (auto simp: tp_set_def split: if_splits)
  have des: "(p', t'\<lparr>work_wrapper_pool := ws\<rparr>) \<in> set (tp_destroy k sp p (t\<lparr>work_wrapper_pool := ws\<rparr>))"
    if "(p', t') \<in> set (tp_destroy k sp p t)"
    using that assms(1) qt_shutdown_frame
    by (induction k sp p t rule: tp_destroy.induct) (auto split: if_splits)
  from False assms(2) add des show ?thesis by (auto simp: tp_step_def split: if_splits)
qed

text \<open>The calls on the pool of wrappers in \<open>Thread_Pool\<close>.\<close>

lemma wrapper_enq_ok: "length ws < wrapper_pool_size \<Longrightarrow> (True, ws @ [w]) \<in> set (wrapper_enq True w ws)"
  by (simp add: wrapper_enq_def spec_enq_def)

lemma wrapper_enq_fails: "(False, ws) \<in> set (wrapper_enq True w ws)"
  by (simp add: wrapper_enq_def)

lemma wrapper_deq_fails: "(None, ws) \<in> set (wrapper_deq True ws)"
  by (simp add: wrapper_deq_def)

lemma wrapper_deq_ok:
  assumes "x \<in># mset ws"
  obtains ws' where "(Some x, ws') \<in> set (wrapper_deq True ws)" "mset ws' = mset ws - {#x#}"
proof -
  obtain j where "j < length ws" "ws ! j = x" using assms by (auto simp: in_set_conv_nth)
  then have "(Some x, take j ws @ drop (Suc j) ws) \<in> set (wrapper_deq True ws)" by (force simp: wrapper_deq_def)
  moreover from wrapper_deq_mset [OF this] have "mset (take j ws @ drop (Suc j) ws) = mset ws - {#x#}"
    by (simp add: add_eq_conv_diff) (metis add_mset_remove_trivial)
  ultimately show thesis by (rule that)
qed

text \<open>What the answers rest on: the bound, the ring of 1024 cells and the protocol of the queue.\<close>

definition pq_ready :: "'a pq_state \<Rightarrow> (nat, u64) mq_pc list \<Rightarrow> bool" where
  "pq_ready s cs \<longleftrightarrow> mq_geom 10 (fst (snd s)) \<and> tk_inv wrapper_pool_size (mq_abs (snd s)) (map mq_abs_pc cs)
     \<and> mq_total (snd (snd s)) + wrapper_pool_size < 2 ^ 63"

lemma wrapper_pool_power: "wrapper_pool_size = 2 ^ 10"
  by (simp add: wrapper_pool_size_def)

lemma pq_readyD:
  assumes "pq_ready s cs"
  shows "mq_geom 10 (fst (snd s))" "tk_inv (2 ^ 10) (mq_abs (snd s)) (map mq_abs_pc cs)"
    "mq_total (snd (snd s)) + 2 ^ 10 < 2 ^ 63"
  using assms unfolding pq_ready_def wrapper_pool_power by blast+

text \<open>A call that is not at its end makes a step of the queue.\<close>

lemma pq_call_cases:
  assumes "(p', s') \<in> set (pq_call f c s)"
  obtains c' q where "(c', q) \<in> set (mq_step (\<lambda>i. []) 0 c (snd s))" "p' = f c'" "s' = (fst s, q)"
  using assms by (auto simp: pq_call_def)

lemma pq_return_call: "\<not> mq_is_done c \<Longrightarrow> mq_enqueues w c \<Longrightarrow> pq_return w c s = pq_call (PqReturn w) c s"
  by (cases c) simp_all

lemma pq_take_call: "\<not> mq_is_done c \<Longrightarrow> mq_dequeues c \<Longrightarrow> pq_take f c s = pq_call (PqTake f) c s"
  by (cases c; cases s) simp_all

lemma pq_drain_call: "\<not> mq_is_done c \<Longrightarrow> mq_dequeues c \<Longrightarrow> pq_drain c s = pq_call PqDrain c s"
  by (cases c; cases s) simp_all

lemma pq_return_answer:
  fixes s :: "'a pq_state"
  assumes ready: "pq_ready s cs" and j: "j < length cs" "cs ! j = c" and i: "i < n"
    and enq: "mq_enqueues w c" and st: "(p', s') \<in> set (pq_return w c s)"
  shows "pq_answer k n works i (PqReturn w c) s p' s'"
proof (cases "mq_is_done c")
  case True
  with enq obtain ok where "c = EnqDone ok" by (cases c) simp_all
  with st show ?thesis by (intro pq_answer_quiet) (auto simp: pq_view_def)
next
  case False
  from st obtain c' q where c': "(c', q) \<in> set (mq_step (\<lambda>i. []) 0 c (snd s))" "p' = PqReturn w c'" "s' = (fst s, q)"
    unfolding pq_return_call [OF False enq] by (rule pq_call_cases)
  note bag = mq_enqueue_bag [OF pq_readyD(1,2) [OF ready] j(1), unfolded j(2), OF enq False c'(1) pq_readyD(3) [OF ready],
      folded wrapper_pool_power]
  have pc: "fst (pq_view ws (PqReturn w c) s) = QReturn w" for ws using False by (cases c) (auto simp: pq_view_def)
  show ?thesis
    unfolding pq_answer_def
  proof (intro conjI allI impI)
    show "pq_wf p'" using bag(1) c'(2) by simp
    fix ws assume ws: "mset ws = mq_bag wrapper_pool_size (snd s)"
    have view: "pq_view ws (PqReturn w c) s = (QReturn w, (fst s)\<lparr>work_wrapper_pool := ws\<rparr>)"
      using pc [of ws] by (simp add: pq_view_def)
    have go: "(QAsk, (fst s)\<lparr>work_wrapper_pool := ws'\<rparr>) \<in> set (tp_step k True n works i (QReturn w) ((fst s)\<lparr>work_wrapper_pool := ws\<rparr>))"
      if "(True, ws') \<in> set (wrapper_enq True w ws)" for ws'
      using that i by (force simp: tp_step_def return_wrapper_to_pool_def)
    have fail: "(QAssert, (fst s)\<lparr>work_wrapper_pool := ws\<rparr>) \<in> set (tp_step k True n works i (QReturn w) ((fst s)\<lparr>work_wrapper_pool := ws\<rparr>))"
      using wrapper_enq_fails [of ws w] i by (force simp: tp_step_def return_wrapper_to_pool_def)
    consider (put) "c' = EnqDone True" | (fails) "c' = EnqDone False" | (more) "\<not> mq_is_done c'"
      using bag(1) by (cases c') auto
    then show "\<exists>ws'. mset ws' = mq_bag wrapper_pool_size (snd s') \<and> (pq_view ws' p' s' = pq_view ws (PqReturn w c) s
        \<or> pq_view ws' p' s' \<in> set (case pq_view ws (PqReturn w c) s of (q, t) \<Rightarrow> tp_step k True n works i q t))"
    proof cases
      case put
      then have b: "mq_bag wrapper_pool_size q = add_mset w (mq_bag wrapper_pool_size (snd s))"
        "length ws < wrapper_pool_size"
        using bag(2) ws size_mset [of ws] by auto
      show ?thesis
        by (rule exI [of _ "ws @ [w]"]) (use put c' b ws view go [OF wrapper_enq_ok [OF b(2)]] in \<open>simp add: pq_view_def\<close>)
    next
      case fails
      show ?thesis
        by (rule exI [of _ ws]) (use fails c' bag(2) ws view fail in \<open>simp add: pq_view_def\<close>)
    next
      case more
      then have "pq_pool_pc l (PqReturn w c' :: 'a pq_pc) = QReturn w" for l by (cases c') simp_all
      moreover have "c' \<noteq> EnqDone True" using more by auto
      ultimately show ?thesis
        by (intro exI [of _ ws]) (use c' bag(2) ws view in \<open>simp add: pq_view_def\<close>)
    qed
  qed
qed

text \<open>The two callers of \<open>try_dequeue\<close>: \<open>none\<close> and \<open>some\<close> are where they are in \<open>Thread_Pool\<close>
  before they have a wrapper and when they have it.\<close>

lemma pq_dequeue_answer:
  fixes s :: "'a pq_state"
  assumes ready: "pq_ready s cs" and j: "j < length cs" "cs ! j = c"
    and deq: "mq_dequeues c" "\<not> mq_is_done c" and st: "(p', s') \<in> set (pq_call at c s)"
    and wf: "\<And>c. pq_wf (at c) = mq_dequeues c"
    and at: "\<And>log c. pq_pool_pc log (at c) = (case mq_taken log c of None \<Rightarrow> none | Some w \<Rightarrow> some w)"
    and abs: "\<And>t x ws. (Some x, ws) \<in> set (wrapper_deq True (work_wrapper_pool t)) \<Longrightarrow>
      (some x, t\<lparr>work_wrapper_pool := ws\<rparr>) \<in> set (tp_step k True n works i none t)"
  shows "pq_answer k n works i (at c) s p' s'"
proof -
  from st obtain c' q where c': "(c', q) \<in> set (mq_step (\<lambda>i. []) 0 c (snd s))" "p' = at c'" "s' = (fst s, q)"
    by (rule pq_call_cases)
  note bag = mq_dequeue_bag [OF pq_readyD(1,2) [OF ready] j(1), unfolded j(2), OF deq c'(1) pq_readyD(3) [OF ready],
      folded wrapper_pool_power]
  show ?thesis
    unfolding pq_answer_def
  proof (intro conjI allI impI)
    show "pq_wf p'" using bag(1) c'(2) wf by simp
    fix ws assume ws: "mset ws = mq_bag wrapper_pool_size (snd s)"
    from bag(2) show "\<exists>ws'. mset ws' = mq_bag wrapper_pool_size (snd s') \<and> (pq_view ws' p' s' = pq_view ws (at c) s
        \<or> pq_view ws' p' s' \<in> set (case pq_view ws (at c) s of (q, t) \<Rightarrow> tp_step k True n works i q t))"
    proof (elim disjE exE conjE)
      assume "mq_taken (fst (snd q)) c' = mq_taken (fst (snd (snd s))) c"
        "mq_bag wrapper_pool_size q = mq_bag wrapper_pool_size (snd s)"
      then show ?thesis by (intro exI [of _ ws]) (use c' ws in \<open>simp add: pq_view_def at\<close>)
    next
      fix x
      assume x: "mq_taken (fst (snd (snd s))) c = None" "mq_taken (fst (snd q)) c' = Some x"
        "x \<in># mq_bag wrapper_pool_size (snd s)" "mq_bag wrapper_pool_size q = mq_bag wrapper_pool_size (snd s) - {#x#}"
      from x(3) obtain ws' where ws': "(Some x, ws') \<in> set (wrapper_deq True ws)" "mset ws' = mset ws - {#x#}"
        unfolding ws [symmetric] by (rule wrapper_deq_ok)
      with abs [of x ws' "(fst s)\<lparr>work_wrapper_pool := ws\<rparr>"] show ?thesis
        by (intro exI [of _ ws']) (use c' x ws in \<open>simp add: pq_view_def at\<close>)
    qed
  qed
qed

lemma pq_take_answer:
  fixes s :: "'a pq_state"
  assumes ready: "pq_ready s cs" and j: "j < length cs" "cs ! j = c" and i: "\<not> i < n"
    and deq: "mq_dequeues c" and st: "(p', s') \<in> set (pq_take f c s)"
  shows "pq_answer k n works i (PqTake f c) s p' s'"
proof (cases "mq_is_done c")
  case True
  with deq obtain r where c: "c = DeqDone r" by (cases c) simp_all
  show ?thesis
  proof (cases r)
    case (Some w)
    with st c show ?thesis by (intro pq_answer_quiet) (auto simp: pq_view_def)
  next
    case None
    with st c have e: "p' = PqRun (CFill (tp_fresh (fst s)) f)" "s' = ((fst s)\<lparr>tp_fresh := tp_fresh (fst s) + 1\<rparr>, snd s)"
      by (cases s; simp)+
    have "(CFill (tp_fresh (fst s)) f, (fst s)\<lparr>tp_fresh := tp_fresh (fst s) + 1, work_wrapper_pool := ws\<rparr>)
        \<in> set (tp_step k True n works i (CWrapper f) ((fst s)\<lparr>work_wrapper_pool := ws\<rparr>))" for ws
      using wrapper_deq_fails [of ws] i by (force simp: tp_step_def)
    then show ?thesis by (intro pq_answer_step) (use c None e in \<open>simp_all add: pq_view_def\<close>)
  qed
next
  case False
  show ?thesis
  proof (rule pq_dequeue_answer [OF ready j deq False st [unfolded pq_take_call [OF False deq]]])
    show "(CFill x f, t\<lparr>work_wrapper_pool := ws\<rparr>) \<in> set (tp_step k True n works i (CWrapper f) t)"
      if "(Some x, ws) \<in> set (wrapper_deq True (work_wrapper_pool t))" for t :: "'a tp_state" and x ws
      using that i by (force simp: tp_step_def)
  qed simp_all
qed

lemma pq_drain_answer:
  fixes s :: "'a pq_state"
  assumes ready: "pq_ready s cs" and j: "j < length cs" "cs ! j = c" and i: "\<not> i < n"
    and deq: "mq_dequeues c" and st: "(p', s') \<in> set (pq_drain c s)"
  shows "pq_answer k n works i (PqDrain c) s p' s'"
proof (cases "mq_is_done c")
  case True
  with deq obtain r where c: "c = DeqDone r" by (cases c) simp_all
  show ?thesis
  proof (cases r)
    case (Some w)
    with st c show ?thesis by (intro pq_answer_quiet) (auto simp: pq_view_def)
  next
    case None
    with st c have e: "p' = PqRun DsEnd" "s' = ((fst s)\<lparr>free_threads := [], all_threads := [], tp_locked := False\<rparr>, snd s)"
      by (cases s; simp)+
    have "(DsEnd, (fst s)\<lparr>free_threads := [], all_threads := [], tp_locked := False, work_wrapper_pool := ws\<rparr>)
        \<in> set (tp_step k True n works i DsWrappers ((fst s)\<lparr>work_wrapper_pool := ws\<rparr>))" for ws
      using wrapper_deq_fails [of ws] i by (force simp: tp_step_def)
    then show ?thesis by (intro pq_answer_step) (use c None e in \<open>simp_all add: pq_view_def\<close>)
  qed
next
  case False
  show ?thesis
  proof (rule pq_dequeue_answer [OF ready j deq False st [unfolded pq_drain_call [OF False deq]]])
    show "(DsDrop x, t\<lparr>work_wrapper_pool := ws\<rparr>) \<in> set (tp_step k True n works i DsWrappers t)"
      if "(Some x, ws) \<in> set (wrapper_deq True (work_wrapper_pool t))" for t :: "'a tp_state" and x ws
      using that i by (force simp: tp_step_def)
  qed simp_all
qed

lemma pq_step_run:
  "\<not> tp_uses_wrappers p \<Longrightarrow> pq_step k n works i (PqRun p) s =
    map (\<lambda>(p', t). (PqRun p', t, snd s)) (tp_step k True n works i p (fst s))"
  by (cases p) simp_all

lemma pq_run_answer:
  assumes "(p', s') \<in> set (pq_step k n works i (PqRun p) s)"
  shows "pq_answer k n works i (PqRun p) s p' s'"
proof (cases "tp_uses_wrappers p")
  case True
  with assms show ?thesis by (intro pq_answer_quiet) (cases p; auto simp: pq_view_def)+
next
  case False
  with assms obtain p1 t where "(p1, t) \<in> set (tp_step k True n works i p (fst s))" "p' = PqRun p1" "s' = (t, snd s)"
    by (auto simp: pq_step_run)
  with tp_step_frame [OF False] show ?thesis by (intro pq_answer_step) (simp_all add: pq_view_def)
qed

lemma pq_step_answer:
  assumes ready: "pq_ready s (map pq_queue_pc ps)" and i: "i < length ps" and wf: "pq_wf (ps ! i)"
    and pool: "qt_pc (pq_pool_pc (fst (snd (snd s))) (ps ! i)) \<longleftrightarrow> i < n"
    and st: "(p', s') \<in> set (pq_step k n works i (ps ! i) s)"
  shows "pq_answer k n works i (ps ! i) s p' s'"
proof (cases "ps ! i")
  case (PqRun p)
  with st show ?thesis by (simp add: pq_run_answer)
next
  case (PqReturn w c)
  then have "i < n" using pool wf by (cases c) (auto split: if_splits)
  with pq_return_answer [OF ready, where j = i and i = i and c = c] st wf i PqReturn show ?thesis by simp
next
  case (PqTake f c)
  then have "\<not> i < n" using pool by (auto split: option.splits)
  with pq_take_answer [OF ready, where j = i and i = i and c = c] st wf i PqTake show ?thesis by simp
next
  case (PqDrain c)
  then have "\<not> i < n" using pool by (auto split: option.splits)
  with pq_drain_answer [OF ready, where j = i and i = i and c = c] st wf i PqDrain show ?thesis by simp
qed

section \<open>The queue inside\<close>

lemma pq_call_queue:
  assumes "(p', s') \<in> set (pq_call at c s)" "c \<noteq> MqIdle" "\<And>c. pq_queue_pc (at c) = c"
  shows "\<exists>vals. (pq_queue_pc p', snd s') \<in> set (mq_step vals i c (snd s))"
  using assms(1,3) mq_step_vals [OF assms(2), of "\<lambda>i. []" i "snd s" "\<lambda>i. []" 0]
  by (auto simp: pq_call_def intro!: exI [of _ "\<lambda>i. []"])

lemma pq_step_queue:
  assumes wf: "pq_wf p" and st: "(p', s') \<in> set (pq_step k n works i p s)"
  shows "snd s' = snd s \<and> pq_queue_pc p' = pq_queue_pc p
    \<or> (\<exists>vals. (pq_queue_pc p', snd s') \<in> set (mq_step vals i (pq_queue_pc p) (snd s)))"
proof (cases p)
  case (PqRun r)
  show ?thesis
  proof (cases "tp_uses_wrappers r")
    case True
    have "(EnqPos w, snd s) \<in> set (mq_step (\<lambda>i. [w]) i MqIdle (snd s))" "(DeqPos, snd s) \<in> set (mq_step (\<lambda>i. []) i MqIdle (snd s))" for w
      by (simp_all add: mq_step_def mq_calls_def)
    with True st PqRun show ?thesis by (cases r) auto
  next
    case False
    with st PqRun show ?thesis by (auto simp: pq_step_run)
  qed
next
  case (PqReturn w c)
  show ?thesis
  proof (cases "mq_is_done c")
    case True
    with wf st PqReturn show ?thesis by (cases c) (auto simp: mq_step_def)
  next
    case False
    have "c \<noteq> MqIdle" using wf PqReturn by auto
    with wf st PqReturn False have "\<exists>vals. (pq_queue_pc p', snd s') \<in> set (mq_step vals i c (snd s))"
      using pq_return_call [OF False, of w s] by (intro pq_call_queue [of p' s' "PqReturn w"]) simp_all
    with PqReturn show ?thesis by simp
  qed
next
  case (PqTake f c)
  show ?thesis
  proof (cases "mq_is_done c")
    case True
    with wf obtain r where "c = DeqDone r" using PqTake by (cases c) simp_all
    with st PqTake show ?thesis by (cases r; cases s) (auto simp: mq_step_def)
  next
    case False
    have "c \<noteq> MqIdle" using wf PqTake by auto
    with wf st PqTake False have "\<exists>vals. (pq_queue_pc p', snd s') \<in> set (mq_step vals i c (snd s))"
      using pq_take_call [OF False, of f s] by (intro pq_call_queue [of p' s' "PqTake f"]) simp_all
    with PqTake show ?thesis by simp
  qed
next
  case (PqDrain c)
  show ?thesis
  proof (cases "mq_is_done c")
    case True
    with wf obtain r where "c = DeqDone r" using PqDrain by (cases c) simp_all
    with st PqDrain show ?thesis by (cases r; cases s) (auto simp: mq_step_def)
  next
    case False
    have "c \<noteq> MqIdle" using wf PqDrain by auto
    with wf st PqDrain False have "\<exists>vals. (pq_queue_pc p', snd s') \<in> set (mq_step vals i c (snd s))"
      using pq_drain_call [OF False, of s] by (intro pq_call_queue [of p' s' PqDrain]) simp_all
    with PqDrain show ?thesis by simp
  qed
qed

lemma mq_step_log:
  assumes "(c', w') \<in> set (mq_step vals i c w)"
  obtains zs where "fst (snd w') = fst (snd w) @ zs"
proof -
  obtain s h where w: "w = (s, h)" by (cases w)
  obtain log got where h: "h = (log, got)" by (cases h)
  have "\<exists>zs. fst (mq_record c c' (log, got)) = log @ zs"
    by (cases "(c, c', (log, got))" rule: mq_record.cases) auto
  with assms that show thesis by (auto simp: mq_step_def w h split: if_splits prod.splits)
qed

text \<open>A ticket taken is in the log, so what the other threads append does not change its value.\<close>

lemma pq_pool_pc_append:
  assumes "tk_mem n (mq_abs q)" "tk_ok n (mq_abs q) (pq_abs_pc p)"
  shows "pq_pool_pc (fst (snd q) @ zs) p = pq_pool_pc (fst (snd q)) p"
proof -
  have len: "length (fst (snd q)) = tk_enq (mq_abs q)" "tk_deq (mq_abs q) \<le> tk_enq (mq_abs q)"
    using tk_memD(2,3) [OF assms(1)] by (simp_all add: mq_abs_def)
  have "mq_taken (fst (snd q) @ zs) c = mq_taken (fst (snd q)) c" if "tk_ok n (mq_abs q) (mq_abs_pc c)" for c
    using that len by (cases c) (simp_all add: nth_append)
  with assms(2) show ?thesis by (cases p) simp_all
qed

section \<open>The simulation\<close>

definition pq_small :: "'a pq_state \<Rightarrow> bool" where
  "pq_small s \<longleftrightarrow> mq_total (snd (snd s)) + wrapper_pool_size < 2 ^ 63"

definition pq_match :: "('a pq_state, 'a pq_pc) system \<Rightarrow> ('a tp_state, 'a tp_pc) system \<Rightarrow> bool" where
  "pq_match S T \<longleftrightarrow> mq_geom 10 (fst (snd (fst S)))
     \<and> (pq_small (fst S) \<longrightarrow> pq_ready (fst S) (map pq_queue_pc (snd S)) \<and> (\<forall>p \<in> set (snd S). pq_wf p)
       \<and> (\<exists>ws. mset ws = mq_bag wrapper_pool_size (snd (fst S))
           \<and> fst T = (fst (fst S))\<lparr>work_wrapper_pool := ws\<rparr>
           \<and> snd T = map (pq_pool_pc (fst (snd (snd (fst S))))) (snd S)))"

lemma pq_start_match:
  assumes "pq_start n (s, ps)"
  shows "\<exists>T. tp_start n T \<and> pq_match (s, ps) T"
proof -
  obtain qs d0 where st: "ps = map PqRun qs" "tp_start n (fst s, qs)"
    "mq_init d0 (of_nat wrapper_pool_size) = Some (fst (snd s))" "snd (snd s) = ([], [])"
    using assms by (auto simp: pq_start_def)
  have "mq_start d0 (of_nat wrapper_pool_size) (snd s, map pq_queue_pc ps)"
    using st by (simp add: mq_start_def o_def)
  note inv = mq_start_inv [OF this, of "\<lambda>i. []"]
  have sz: "unat (of_nat wrapper_pool_size :: u64) = wrapper_pool_size" by (simp add: wrapper_pool_size_def)
  have small: "mq_small (of_nat wrapper_pool_size) (snd (snd s))"
    using st(4) by (simp add: mq_small_def mq_total_def sz wrapper_pool_size_def)
  obtain b where b: "wrapper_pool_size = 2 ^ b" "mq_geom b (fst (snd s))" using inv unfolding mq_inv_def sz by blast
  then have e: "(2::nat) ^ b = 2 ^ 10" using wrapper_pool_power by metis
  have "b = 10" by (rule power_inject_exp [THEN iffD1, OF _ e]) simp
  with b have g: "mq_geom 10 (fst (snd s))" by simp
  have "tk_inv wrapper_pool_size (mq_abs (snd s)) (map mq_abs_pc (map pq_queue_pc ps))"
    using inv small unfolding mq_inv_def sz by (blast dest: tk.reach_inv)
  then have ready: "pq_ready s (map pq_queue_pc ps)"
    using g st(4) by (simp add: pq_ready_def mq_total_def wrapper_pool_size_def)
  have bag: "mq_bag wrapper_pool_size (snd s) = {#}"
    using st(4) tk_memD(2) [OF tk_invD(1) [OF pq_readyD(2) [OF ready]]]
    by (simp add: mq_bag_def tk_bag_def tk_inside_def mq_abs_def)
  have t: "tp_start n ((fst s)\<lparr>work_wrapper_pool := []\<rparr>, qs)"
    using st(2) by (simp add: tp_start_def tp_init_def)
  show ?thesis
    by (rule exI [of _ "((fst s)\<lparr>work_wrapper_pool := []\<rparr>, qs)"])
      (use t g ready bag st(1) in \<open>auto simp: pq_match_def o_def\<close>)
qed

lemma pq_step_memory:
  assumes "(p', s') \<in> set (pq_step k n works i p s)"
  shows "snd s' = snd s \<or> (\<exists>c c'. (c', snd s') \<in> set (mq_step (\<lambda>i. []) 0 c (snd s)))"
proof (cases p)
  case (PqRun r)
  with assms show ?thesis by (cases "tp_uses_wrappers r"; cases r) (auto simp: pq_step_run)
next
  case (PqReturn w c)
  with assms show ?thesis by (cases c) (auto simp: pq_call_def)
next
  case (PqTake f c)
  with assms show ?thesis by (cases "(f, c, s)" rule: pq_take.cases) (auto simp: pq_call_def)
next
  case (PqDrain c)
  with assms show ?thesis by (cases "(c, s)" rule: pq_drain.cases) (auto simp: pq_call_def)
qed

lemma pq_step_geom:
  assumes "mq_geom b (fst (snd s))" "(p', s') \<in> set (pq_step k n works i p s)"
  shows "mq_geom b (fst (snd s'))" "mq_total (snd (snd s)) \<le> mq_total (snd (snd s'))"
  using pq_step_memory [OF assms(2)] mq_step_geom [OF assms(1), of _ "snd s'" "\<lambda>i. []" 0] assms(1) by auto

lemma pq_step_ready:
  assumes ready: "pq_ready s (map pq_queue_pc ps)" and i: "i < length ps" and wf: "pq_wf (ps ! i)"
    and st: "(p', s') \<in> set (pq_step k n works i (ps ! i) s)" and small: "pq_small s'"
  shows "pq_ready s' (map pq_queue_pc (ps[i := p']))"
proof -
  note g = pq_step_geom [OF pq_readyD(1) [OF ready] st]
  have "tk_inv (2 ^ 10) (mq_abs (snd s')) (map mq_abs_pc (map pq_queue_pc (ps[i := p'])))"
    using pq_step_queue [OF wf st]
  proof (elim disjE exE conjE)
    assume "snd s' = snd s" "pq_queue_pc p' = pq_queue_pc (ps ! i)"
    moreover from this have "map pq_queue_pc (ps[i := p']) = map pq_queue_pc ps"
      using i by (simp add: map_update list_update_same_conv)
    ultimately show ?thesis using pq_readyD(2) [OF ready] by simp
  next
    fix vals assume "(pq_queue_pc p', snd s') \<in> set (mq_step vals i (pq_queue_pc (ps ! i)) (snd s))"
    then have "(pq_queue_pc p', snd s') \<in> set (mq_step vals i (map pq_queue_pc ps ! i) (snd s))" using i by simp
    from mq_step_refines [OF pq_readyD(1,2) [OF ready] _ this pq_readyD(3) [OF ready]] i
    have "(mq_abs_pc (pq_queue_pc p'), mq_abs (snd s'))
        \<in> set (tk_step (2 ^ 10) vals i (map mq_abs_pc (map pq_queue_pc ps) ! i) (mq_abs (snd s)))" by simp
    from tk_step_inv [OF pq_readyD(2) [OF ready] _ this] i show ?thesis by (simp add: map_update)
  qed
  with g(1) small show ?thesis unfolding pq_ready_def pq_small_def wrapper_pool_power by blast
qed

lemma pq_step_pool_pcs:
  assumes ready: "pq_ready s (map pq_queue_pc ps)" and i: "i < length ps" and wf: "pq_wf (ps ! i)"
    and st: "(p', s') \<in> set (pq_step k n works i (ps ! i) s)"
  shows "map (pq_pool_pc (fst (snd (snd s')))) (ps[i := p'])
    = (map (pq_pool_pc (fst (snd (snd s)))) ps)[i := pq_pool_pc (fst (snd (snd s'))) p']"
proof -
  obtain zs where zs: "fst (snd (snd s')) = fst (snd (snd s)) @ zs"
    using pq_step_queue [OF wf st] by (metis append_Nil2 mq_step_log)
  have "pq_pool_pc (fst (snd (snd s')) ) (ps ! j) = pq_pool_pc (fst (snd (snd s))) (ps ! j)" if "j < length ps" for j
    unfolding zs using tk_invD(1) [OF pq_readyD(2) [OF ready]] tk_invD(2) [OF pq_readyD(2) [OF ready], of j] that
    by (intro pq_pool_pc_append) simp_all
  then show ?thesis by (intro nth_equalityI) (auto simp: nth_list_update i)
qed

lemma pq_step_match:
  assumes match: "pq_match (s, ps) T" and r: "reach (tp_start n) (interleave (tp_step k True n works)) T"
    and i: "i < length ps" and st: "(p', s') \<in> set (pq_step k n works i (ps ! i) s)"
  shows "\<exists>T'. (T' = T \<or> interleave (tp_step k True n works) T T') \<and> pq_match (s', ps[i := p']) T'"
proof (cases "pq_small s'")
  case False
  with match pq_step_geom [OF _ st] show ?thesis by (intro exI [of _ T]) (auto simp: pq_match_def)
next
  case True
  have g: "mq_geom 10 (fst (snd s))" using match by (simp add: pq_match_def)
  note g' = pq_step_geom [OF g st]
  have "pq_small s" using True g'(2) by (simp add: pq_small_def)
  with match obtain ws where ready: "pq_ready s (map pq_queue_pc ps)" and wf: "\<forall>p \<in> set ps. pq_wf p"
    and ws: "mset ws = mq_bag wrapper_pool_size (snd s)"
    and T: "T = ((fst s)\<lparr>work_wrapper_pool := ws\<rparr>, map (pq_pool_pc (fst (snd (snd s)))) ps)"
    by (cases T) (auto simp: pq_match_def)
  have wfi: "pq_wf (ps ! i)" using wf i by simp
  have "tp_inv n (fst T) (snd T)" by (rule tp.reach_keeps [OF r])
  then have pool: "qt_pc (pq_pool_pc (fst (snd (snd s))) (ps ! i)) \<longleftrightarrow> i < n"
    using tp_invD(2) [of n "fst T" "snd T" i] i T by simp
  note ready' = pq_step_ready [OF ready i wfi st True]
  note pcs = pq_step_pool_pcs [OF ready i wfi st]
  from pq_step_answer [OF ready i wfi pool st] obtain ws' where wf': "pq_wf p'"
    and ws': "mset ws' = mq_bag wrapper_pool_size (snd s')"
    and ans: "pq_view ws' p' s' = pq_view ws (ps ! i) s
      \<or> pq_view ws' p' s' \<in> set (case pq_view ws (ps ! i) s of (q, t) \<Rightarrow> tp_step k True n works i q t)"
    unfolding pq_answer_def using ws by blast
  define T' where "T' = ((fst s')\<lparr>work_wrapper_pool := ws'\<rparr>, map (pq_pool_pc (fst (snd (snd s')))) (ps[i := p']))"
  have m: "pq_match (s', ps[i := p']) T'"
    using g'(1) ready' wf wf' i ws' by (auto simp: pq_match_def T'_def dest!: subsetD [OF set_update_subset_insert])
  from ans have "T' = T \<or> interleave (tp_step k True n works) T T'"
  proof
    assume "pq_view ws' p' s' = pq_view ws (ps ! i) s"
    then show ?thesis using i unfolding T'_def T pcs by (simp add: pq_view_def list_update_same_conv)
  next
    assume "pq_view ws' p' s' \<in> set (case pq_view ws (ps ! i) s of (q, t) \<Rightarrow> tp_step k True n works i q t)"
    then show ?thesis using i unfolding T'_def T pcs by (intro disjI2 interleaveI) (simp_all add: pq_view_def)
  qed
  with m show ?thesis by blast
qed

interpretation pq: matching "pq_step k n works" "pq_start n" "tp_step k True n works" "tp_start n" pq_match
  by unfold_locales (fact pq_start_match, fact pq_step_match)


section \<open>Properties\<close>

lemma pq_reach:
  assumes "reach (pq_start n) (interleave (pq_step k n works)) ((t, q, log, got), ps)"
    and "length log + wrapper_pool_size < 2 ^ 63"
  obtains ws where "reach (tp_start n) (interleave (tp_step k True n works)) (t\<lparr>work_wrapper_pool := ws\<rparr>, map (pq_pool_pc log) ps)"
    "mset ws = mq_bag wrapper_pool_size (q, log, got)"
proof -
  obtain T where "reach (tp_start n) (interleave (tp_step k True n works)) T" "pq_match ((t, q, log, got), ps) T"
    using pq.reach_match [OF assms(1)] by blast
  with assms(2) that show thesis by (cases T) (auto simp: pq_match_def pq_small_def mq_total_def)
qed

text \<open>C14. The composition of \<open>thread_pool\<close> with its \<open>mpmc_bounded_queue\<close>, access by access and
  for fewer than \<open>2 ^ 63\<close> returned wrappers: every execution is one of the pool whose calls on the
  queue are single steps that may fail and may take any wrapper, with the wrappers published in
  the queue and not taken as its pool. So here, too, no work is called more often than it was added, two threads
  never have the same wrapper, none in their hands is in the queue, and the one a thread is about to call
  holds a work that was added.\<close>

theorem thread_pool_over_queue:
  assumes "reach (pq_start n) (interleave (pq_step k n works)) ((t, q, log, got), ps)"
    and "length log + wrapper_pool_size < 2 ^ 63"
  shows "(\<exists>ws. reach (tp_start n) (interleave (tp_step k True n works)) (t\<lparr>work_wrapper_pool := ws\<rparr>, map (pq_pool_pc log) ps)
      \<and> mset ws = mq_bag wrapper_pool_size (q, log, got) \<and> distinct ws)
    \<and> mset (tp_done t) \<subseteq># mset (tp_added t)
    \<and> (\<forall>i < length ps. \<forall>w \<in># tp_holds (pq_pool_pc log (ps ! i)). w \<notin># mq_bag wrapper_pool_size (q, log, got)
        \<and> (\<forall>j < length ps. w \<in># tp_holds (pq_pool_pc log (ps ! j)) \<longrightarrow> j = i))
    \<and> (\<forall>i < length ps. \<forall>w. ps ! i = PqRun (QExec w) \<longrightarrow> (\<exists>f \<in> set (tp_added t). work_impl t w = Some f))"
proof -
  obtain ws where ws: "reach (tp_start n) (interleave (tp_step k True n works)) (t\<lparr>work_wrapper_pool := ws\<rparr>, map (pq_pool_pc log) ps)"
    "mset ws = mq_bag wrapper_pool_size (q, log, got)" using assms by (rule pq_reach)
  note once = tw_once [OF tw.reach_inv [OF ws(1)]]
  have "distinct ws" using once by simp
  moreover have "w \<in># mq_bag wrapper_pool_size (q, log, got) \<longleftrightarrow> w \<in> set ws" for w
    unfolding ws(2) [symmetric] by simp
  ultimately show ?thesis using once ws by auto
qed

text \<open>One work from \<open>add_work\<close> to the return of its wrapper to the queue.\<close>

theorem thread_pool_over_queue_witness:
  "\<exists>(t :: char tp_state) q ws ps. reach (tp_start 1) (interleave (tp_step Windows_Event True 1 (\<lambda>i. ''f''))) (t\<lparr>work_wrapper_pool := ws\<rparr>, ps)
     \<and> tp_done t = ''f'' \<and> mset ''f'' \<subseteq># mset (tp_added t) \<and> mset ws = mq_bag wrapper_pool_size (q, [0], [])"
proof -
  obtain q :: "nat mq_state" where q: "mq_init 0 (of_nat wrapper_pool_size) = Some q" "mq_mask q = 1023" "mq_enq_pos q = 0"
    "mq_deq_pos q = 0" "cell_seq (mq_buffer q ! 0) = 0" "mq_buffer q \<noteq> []"
    by (rule that [of "the (mq_init 0 (of_nat wrapper_pool_size))"]) (simp_all add: mq_init_def wrapper_pool_size_def del: upt_rec_numeral)
  let ?sched = "replicate 4 (0, 0) @ replicate 10 (1, 0) @ replicate 11 (0::nat, 0::nat)"
  have "\<exists>s. run_sched (pq_step Windows_Event 1 (\<lambda>i. ''f'')) ?sched ((tp_init 1, q, [], []), [PqRun QTop, PqRun CIdle])
      = Some (s, [PqReturn 0 (EnqDone True), PqRun CIdle]) \<and> tp_done (fst s) = ''f'' \<and> snd (snd s) = ([0], [])"
    using q by (simp add: tp_run pq_call_def mq_step_def mq_index_def mq_dif_def mq_set_data_def mq_set_seq_def replicate_unroll)
  then obtain s where s: "run_sched (pq_step Windows_Event 1 (\<lambda>i. ''f'')) ?sched ((tp_init 1, q, [], []), [PqRun QTop, PqRun CIdle])
      = Some (s, [PqReturn 0 (EnqDone True), PqRun CIdle])" "tp_done (fst s) = ''f''" "snd (snd s) = ([0], [])"
    by (elim exE conjE) (rule that)
  have start: "pq_start 1 ((tp_init 1, q, [], []), [PqRun QTop, PqRun CIdle :: char pq_pc])"
    unfolding pq_start_def by (rule exI [of _ "[QTop, CIdle]"], rule exI [of _ 0]) (simp add: q(1) tp_start_def less_Suc_eq)
  have "reach (pq_start 1) (interleave (pq_step Windows_Event 1 (\<lambda>i. ''f''))) (s, [PqReturn 0 (EnqDone True), PqRun CIdle])"
    using run_sched_reach_start [OF _ s(1), of "pq_start 1"] start by blast
  then have "reach (pq_start 1) (interleave (pq_step Windows_Event 1 (\<lambda>i. ''f'')))
      ((fst s, fst (snd s), [0], []), [PqReturn 0 (EnqDone True), PqRun CIdle])"
    by (simp only: s(3) [symmetric] prod.collapse)
  from thread_pool_over_queue [OF this] s(2) show ?thesis by (auto simp: wrapper_pool_size_def)
qed

end
