(* ===== verification/Backoff.thy ===== *)
theory Backoff
  imports Prelude
begin

text \<open>
  The class \<open>exponential_backoff\<close> of \<open>synchronization/backoff.h\<close>: one counter of spins.
  A call answers with the new counter and with what the calling thread did: how often it executed
  \<open>SYSTEM_PAUSE\<close>, and whether it yielded.
\<close>

definition max_spins_count :: u64 where
  "max_spins_count = 32"

definition backoff_init :: u64 where
  "backoff_init = 0"

datatype backoff_action = Pause nat | Yield

definition backoff_call :: "u64 \<Rightarrow> backoff_action \<times> u64" where
  "backoff_call m_spins =
     (if m_spins \<le> max_spins_count then (Pause (unat m_spins), push_bit 1 m_spins)
      else (Yield, m_spins))"

fun backoff_calls :: "nat \<Rightarrow> u64 \<Rightarrow> backoff_action list \<times> u64" where
  "backoff_calls 0 s = ([], s)"
| "backoff_calls (Suc n) s =
     (case backoff_call s of (a, s') \<Rightarrow> case backoff_calls n s' of (as, s'') \<Rightarrow> (a # as, s''))"

lemma backoff_call_zero: "backoff_call 0 = (Pause 0, 0)"
  by (simp add: backoff_call_def max_spins_count_def)

text \<open>\<open>exponential_backoff\<close> never backs off: the counter starts at zero and doubling zero
  is zero, so any number of calls executes no pause at all and never yields.\<close>

theorem backoff_never_waits:
  "backoff_calls n backoff_init = (replicate n (Pause 0), backoff_init)"
  by (induction n) (simp_all add: backoff_init_def backoff_call_zero)

text \<open>From any other start the counter does what its name says: it doubles while it is at most
  32 and then every call yields.\<close>

lemma backoff_from_one:
  "backoff_calls (Suc (Suc (Suc (Suc (Suc (Suc n)))))) 1 =
     ([Pause 1, Pause 2, Pause 4, Pause 8, Pause 16, Pause 32] @ replicate n Yield, 64)"
proof -
  have "backoff_calls n 64 = (replicate n Yield, 64)"
    by (induction n) (simp_all add: backoff_call_def max_spins_count_def)
  then show ?thesis
    by (simp add: backoff_call_def max_spins_count_def push_bit_eq_mult)
qed

end
