(* ===== verification/Tagged_Ptr.thy ===== *)
theory Tagged_Ptr
  imports Prelude
begin

text \<open>
  The struct \<open>tagged_ptr\<close> of \<open>core/tagged_pointer.h\<close>: one 64-bit word whose low
  \<open>TagBitsCount\<close> bits are the tag and whose other bits are the pointer, with the pointer type an
  unsigned 64-bit integer. (The header writes the member as \<open>Ptr\<close> in the two getters; it is
  \<open>ptr\<close>, the only data member.)
\<close>

unbundle bit_operations_syntax

definition tag_bits_count :: nat where
  "tag_bits_count = 26"

definition tag_mask :: u64 where
  "tag_mask = push_bit tag_bits_count 1 - 1"

definition get_ptr :: "u64 \<Rightarrow> u64" where
  "get_ptr w = drop_bit tag_bits_count w"

definition get_tag :: "u64 \<Rightarrow> u64" where
  "get_tag w = w AND tag_mask"

definition set_ptr :: "u64 \<Rightarrow> u64 \<Rightarrow> u64" where
  "set_ptr in_ptr w = get_tag w OR push_bit tag_bits_count in_ptr"

definition set_tag :: "u64 \<Rightarrow> u64 \<Rightarrow> u64" where
  "set_tag tag w = tag OR push_bit tag_bits_count (get_ptr w)"

definition set_all :: "u64 \<Rightarrow> u64 \<Rightarrow> u64" where
  "set_all in_ptr tag = tag OR push_bit tag_bits_count in_ptr"

lemma tag_mask_mask: "tag_mask = mask 26"
  by (simp add: tag_mask_def tag_bits_count_def mask_eq_exp_minus_1 push_bit_eq_mult)

lemmas tagged_defs = get_ptr_def get_tag_def set_ptr_def set_tag_def set_all_def
  tag_mask_mask tag_bits_count_def

lemma take_bit_word_eq_iff: "take_bit n x = x \<longleftrightarrow> unat x < 2 ^ n" for x :: "'a::len word"
proof -
  have "take_bit n x = x \<longleftrightarrow> take_bit n (unat x) = unat x"
    by (simp add: word_unat_eq_iff unsigned_take_bit_eq)
  then show ?thesis by (simp add: take_bit_nat_eq_self_iff)
qed

lemma drop_push_take:
  "drop_bit n (push_bit n x) = take_bit (LENGTH('a) - n) x" for x :: "'a::len word"
  by (rule bit_word_eqI) (auto simp: bit_simps)

text \<open>The two fields of a packed word.\<close>

lemma get_tag_take: "get_tag w = take_bit 26 w"
  by (simp add: get_tag_def tag_mask_mask take_bit_eq_mask)

lemma get_tag_set_all [simp]: "get_tag (set_all p t) = take_bit 26 t"
  unfolding get_tag_take by (rule bit_word_eqI) (auto simp: tagged_defs bit_simps)

lemma get_ptr_set_all: "get_ptr (set_all p t) = get_ptr t OR take_bit 38 p"
  by (simp add: tagged_defs drop_bit_or drop_push_take)

lemma unat_get_ptr: "unat (get_ptr w) = unat w div 2 ^ 26"
  by (simp only: get_ptr_def tag_bits_count_def unat_drop_bit_div)

lemma get_ptr_small: "unat t < 2 ^ 26 \<Longrightarrow> get_ptr t = 0"
  by (simp add: unat_eq_0 [symmetric] unat_get_ptr del: unat_eq_0)

lemma get_ptr_set_all_iff:
  "unat t < 2 ^ 26 \<Longrightarrow> get_ptr (set_all p t) = p \<longleftrightarrow> unat p < 2 ^ 38"
  by (simp add: get_ptr_set_all get_ptr_small take_bit_word_eq_iff)

text \<open>The setters repack one field with the other.\<close>

lemma set_ptr_set_all: "set_ptr p w = set_all p (get_tag w)"
  by (simp add: set_ptr_def set_all_def)

lemma set_tag_set_all: "set_tag t w = set_all (get_ptr w) t"
  by (simp add: set_tag_def set_all_def)

lemma get_tag_bound: "unat (get_tag w) < 0x4000000"
  using take_bit_word_eq_iff [of 26 "take_bit 26 w"] by (simp add: get_tag_take del: take_bit_of_exp)

lemma get_ptr_bound: "unat (get_ptr w) < 0x4000000000"
  using unat_less_64 [of w] by (simp add: unat_get_ptr less_mult_imp_div_less)

text \<open>A word packed from a pointer and a tag gives both back exactly when they fit: the tag
  in 26 bits and the pointer in 38. The tag always comes back cut to 26 bits, whatever the
  pointer; a pointer of 48 significant bits, which the header's comment promises, does not fit.\<close>

theorem tagged_ptr_roundtrip:
  "(get_tag (set_all p t) = t \<longleftrightarrow> unat t < 2 ^ 26)
   \<and> (unat t < 2 ^ 26 \<longrightarrow> (get_ptr (set_all p t) = p \<longleftrightarrow> unat p < 2 ^ 38))"
  by (simp add: take_bit_word_eq_iff get_ptr_set_all_iff)

theorem tagged_ptr_roundtrip_witness:
  "unat (5 :: u64) < 2 ^ 26 \<and> get_ptr (set_all 0x3fffffffff 5) = 0x3fffffffff
   \<and> get_ptr (set_all 0x7fffffffffff 5) \<noteq> 0x7fffffffffff"
  using tagged_ptr_roundtrip [of "0x3fffffffff" 5] tagged_ptr_roundtrip [of "0x7fffffffffff" 5] by simp

text \<open>The setters change one field each: \<open>set_ptr\<close> keeps the tag for every pointer, and
  \<open>set_tag\<close> keeps the pointer for every tag below \<open>2 ^ 26\<close>; what they set is what the
  getter returns, within the field's width.\<close>

theorem tagged_ptr_frame:
  "get_tag (set_ptr p w) = get_tag w
   \<and> (get_ptr (set_ptr p w) = p \<longleftrightarrow> unat p < 2 ^ 38)
   \<and> (unat t < 2 ^ 26 \<longrightarrow> get_tag (set_tag t w) = t \<and> get_ptr (set_tag t w) = get_ptr w)"
  by (simp add: set_ptr_set_all set_tag_set_all get_tag_bound get_ptr_bound get_ptr_set_all_iff
      take_bit_word_eq_iff)

theorem tagged_ptr_frame_witness:
  "unat (9 :: u64) < 2 ^ 26
   \<and> get_tag (set_tag 9 (set_all 0x1000 5)) = 9 \<and> get_ptr (set_tag 9 (set_all 0x1000 5)) = get_ptr (set_all 0x1000 5)"
  using tagged_ptr_frame [of 0 "set_all 0x1000 5" 9] by simp

text \<open>A tag that does not fit damages the pointer it is stored beside.\<close>

lemma tag_overflow_damages_pointer:
  "get_ptr (set_tag 0x4000000 (set_all 0x1000 5)) = 0x1001"
  by (simp add: tagged_defs mask_eq_exp_minus_1 push_bit_eq_mult)

end
