(* ===== verification/CF_RW_Lock.thy ===== *)
theory CF_RW_Lock
  imports Interfaces Thread_Id
begin

text \<open>
  The class \<open>contention_free_rw_lock\<close> of \<open>synchronization/contention_free_rw_lock.h\<close>:
  a write flag and one counter of readers per processor. \<open>n\<close> is the template parameter
  \<open>MaxProcNumber\<close>. What \<open>sched_getcpu\<close> may answer to thread \<open>i\<close> is the list
  \<open>cpus i\<close>; which threads call \<open>lock_exclusive\<close> is the predicate \<open>mw\<close>. The flag
  starts false, as \<open>std::atomic\<close> value-initialises since C++20.
\<close>

record cf_state =
  cf_write :: bool
  cf_read :: "u32 list"

definition cf_init :: "nat \<Rightarrow> cf_state" where
  "cf_init n = \<lparr>cf_write = False, cf_read = replicate n 0\<rparr>"

datatype cf_pc =
  CfIdle
| CfCpu          \<comment> \<open>lock_shared: before the processor is asked for\<close>
| CfInc nat      \<comment> \<open>lock_shared: before the increment of the slot\<close>
| CfTest nat     \<comment> \<open>lock_shared: before the load of the write flag\<close>
| CfDec nat      \<comment> \<open>lock_shared: before the decrement after a failure\<close>
| CfWait nat     \<comment> \<open>lock_shared: inner loop\<close>
| CfReading nat  \<comment> \<open>lock_shared returned the slot\<close>
| CfCas bool     \<comment> \<open>lock_exclusive: before the compare-exchange, with the value of lock_ex\<close>
| CfScan nat     \<comment> \<open>lock_exclusive: before the load of a slot\<close>
| CfWriting
| CfAborted      \<comment> \<open>the assert on the slot failed\<close>

text \<open>The slot of a call, \<open>None\<close> when the assert fails: the comparison converts a negative
  number to a huge unsigned one.\<close>

definition cf_slot :: "platform \<Rightarrow> nat \<Rightarrow> int \<Rightarrow> nat option" where
  "cf_slot pl n native =
     (let cur_cpu = min (get_proc_id pl native) (int n - 1)
      in if 0 \<le> cur_cpu then Some (nat cur_cpu) else None)"

definition cf_lock_shared_begin :: "platform \<Rightarrow> nat \<Rightarrow> int \<Rightarrow> cf_pc" where
  "cf_lock_shared_begin pl n native =
     (case cf_slot pl n native of Some k \<Rightarrow> CfInc k | None \<Rightarrow> CfAborted)"

fun cf_lock_shared :: "cf_pc \<Rightarrow> cf_state \<Rightarrow> cf_pc \<times> cf_state" where
  "cf_lock_shared (CfInc k) s = (CfTest k, s\<lparr>cf_read := (cf_read s)[k := cf_read s ! k + 1]\<rparr>)"
| "cf_lock_shared (CfTest k) s = (if \<not> cf_write s then CfReading k else CfDec k, s)"
| "cf_lock_shared (CfDec k) s = (CfWait k, s\<lparr>cf_read := (cf_read s)[k := cf_read s ! k - 1]\<rparr>)"
| "cf_lock_shared (CfWait k) s = (if cf_write s then CfWait k else CfInc k, s)"
| "cf_lock_shared p s = (p, s)"

definition cf_unlock_shared :: "nat \<Rightarrow> cf_state \<Rightarrow> cf_state" where
  "cf_unlock_shared k s = s\<lparr>cf_read := (cf_read s)[k := cf_read s ! k - 1]\<rparr>"

text \<open>The loop over the slots: \<open>all_free\<close> becomes true when it reaches the end.\<close>

definition cf_scan :: "nat \<Rightarrow> nat \<Rightarrow> cf_pc" where
  "cf_scan n k = (if k < n then CfScan k else CfWriting)"

fun cf_lock_exclusive :: "nat \<Rightarrow> cf_pc \<Rightarrow> cf_state \<Rightarrow> cf_pc \<times> cf_state" where
  "cf_lock_exclusive n (CfCas lock_ex) s =
     (if cf_write s = lock_ex then (cf_scan n 0, s\<lparr>cf_write := True\<rparr>) else (CfCas (cf_write s), s))"
| "cf_lock_exclusive n (CfScan k) s =
     (if cf_read s ! k = 0 then cf_scan n (Suc k) else cf_scan n 0, s)"
| "cf_lock_exclusive n p s = (p, s)"

definition cf_unlock_exclusive :: "cf_state \<Rightarrow> cf_state" where
  "cf_unlock_exclusive s = s\<lparr>cf_write := False\<rparr>"

definition cf_step :: "platform \<Rightarrow> nat \<Rightarrow> (nat \<Rightarrow> int list) \<Rightarrow> (nat \<Rightarrow> bool) \<Rightarrow> (cf_state, cf_pc) thread_step" where
  "cf_step pl n cpus mw i p s =
     (case p of
        CfIdle \<Rightarrow> (CfCpu, s) # (if mw i then [(CfCas False, s)] else [])
      | CfCpu \<Rightarrow> map (\<lambda>c. (cf_lock_shared_begin pl n c, s)) (cpus i)
      | CfInc k \<Rightarrow> [cf_lock_shared p s]
      | CfTest k \<Rightarrow> [cf_lock_shared p s]
      | CfDec k \<Rightarrow> [cf_lock_shared p s]
      | CfWait k \<Rightarrow> [cf_lock_shared p s]
      | CfReading k \<Rightarrow> [(CfIdle, cf_unlock_shared k s)]
      | CfCas e \<Rightarrow> [cf_lock_exclusive n p s]
      | CfScan k \<Rightarrow> [cf_lock_exclusive n p s]
      | CfWriting \<Rightarrow> [(CfIdle, cf_unlock_exclusive s)]
      | CfAborted \<Rightarrow> [])"

text \<open>Fewer threads than a counter can tell apart from none.\<close>

definition cf_start :: "nat \<Rightarrow> (cf_state, cf_pc) system \<Rightarrow> bool" where
  "cf_start n s \<longleftrightarrow> fst s = cf_init n \<and> length (snd s) < 2 ^ 32 \<and> (\<forall>p \<in> set (snd s). p = CfIdle)"

definition cf_one_writer :: "(nat \<Rightarrow> bool) \<Rightarrow> nat \<Rightarrow> bool" where
  "cf_one_writer mw m \<longleftrightarrow> (\<forall>i < m. \<forall>j < m. mw i \<longrightarrow> mw j \<longrightarrow> i = j)"

lemma cf_slot_bound: "cf_slot pl n native = Some k \<Longrightarrow> k < n"
  by (auto simp: cf_slot_def Let_def split: if_splits)

text \<open>Which slot a thread counts in, and which slots a writer knows to have no reader.\<close>

fun cf_in :: "nat \<Rightarrow> cf_pc \<Rightarrow> bool" where
  "cf_in k (CfTest m) = (m = k)"
| "cf_in k (CfDec m) = (m = k)"
| "cf_in k (CfReading m) = (m = k)"
| "cf_in k p = False"

abbreviation cf_count :: "nat \<Rightarrow> cf_pc list \<Rightarrow> nat" where
  "cf_count k ps \<equiv> weight_sum (\<lambda>p. of_bool (cf_in k p)) ps"

fun cf_passed :: "nat \<Rightarrow> cf_pc \<Rightarrow> nat option" where
  "cf_passed n (CfScan m) = Some m"
| "cf_passed n CfWriting = Some n"
| "cf_passed n p = None"

fun cf_local :: "nat \<Rightarrow> bool \<Rightarrow> cf_pc \<Rightarrow> bool" where
  "cf_local n w (CfInc k) = (k < n)"
| "cf_local n w (CfTest k) = (k < n)"
| "cf_local n w (CfDec k) = (k < n)"
| "cf_local n w (CfWait k) = (k < n)"
| "cf_local n w (CfReading k) = (k < n)"
| "cf_local n w (CfCas e) = (\<not> e \<and> w)"
| "cf_local n w (CfScan k) = (k < n \<and> w)"
| "cf_local n w CfWriting = w"
| "cf_local n w p = True"

abbreviation cf_reading :: "cf_pc \<Rightarrow> bool" where
  "cf_reading p \<equiv> (\<exists>k. p = CfReading k)"

abbreviation cf_writing :: "cf_pc \<Rightarrow> bool" where
  "cf_writing p \<equiv> p = CfWriting"

text \<open>The counters are exact; the flag is set exactly while the writing thread scans or writes;
  a slot the writer has passed has no reader.\<close>

definition cf_inv :: "nat \<Rightarrow> (nat \<Rightarrow> bool) \<Rightarrow> cf_state \<Rightarrow> cf_pc list \<Rightarrow> bool" where
  [inv_defs]: "cf_inv n mw s ps \<longleftrightarrow>
     length ps < 2 ^ 32 \<and> cf_one_writer mw (length ps) \<and> length (cf_read s) = n
     \<and> (\<forall>k < n. unat (cf_read s ! k) = cf_count k ps)
     \<and> (\<forall>i < length ps. cf_local n (mw i) (ps ! i))
     \<and> (cf_write s \<longleftrightarrow> (\<exists>i < length ps. cf_passed n (ps ! i) \<noteq> None))
     \<and> (\<forall>i < length ps. \<forall>j < length ps. \<forall>m k. cf_passed n (ps ! i) = Some m \<longrightarrow>
          ps ! j = CfReading k \<longrightarrow> m \<le> k)"

lemma cf_invD:
  assumes "cf_inv n mw s ps"
  shows "length ps < 2 ^ 32" "cf_one_writer mw (length ps)" "length (cf_read s) = n"
    and "k < n \<Longrightarrow> unat (cf_read s ! k) = cf_count k ps"
    and "i < length ps \<Longrightarrow> cf_local n (mw i) (ps ! i)"
    and "cf_write s \<longleftrightarrow> (\<exists>i < length ps. cf_passed n (ps ! i) \<noteq> None)"
    and "i < length ps \<Longrightarrow> j < length ps \<Longrightarrow> cf_passed n (ps ! i) = Some m \<Longrightarrow>
      ps ! j = CfReading k \<Longrightarrow> m \<le> k"
  using assms by (auto simp: cf_inv_def)

text \<open>The flag and the writing thread: only that thread scans, and while it is elsewhere the
  flag is clear.\<close>

lemma cf_passed_writer:
  "cf_inv n mw s ps \<Longrightarrow> i < length ps \<Longrightarrow> cf_passed n (ps ! i) = Some m \<Longrightarrow> mw i \<and> cf_write s"
  using cf_invD(5) [of n mw s ps i] cf_invD(6) [of n mw s ps] by (cases "ps ! i") auto

lemma cf_flag_other:
  assumes "cf_inv n mw s ps" "i < length ps" "mw i"
  shows "cf_write s \<longleftrightarrow> cf_passed n (ps ! i) \<noteq> None"
  using assms cf_passed_writer [OF assms(1)] cf_invD(2,6) [OF assms(1)]
  unfolding cf_one_writer_def by (metis not_None_eq)

lemma cf_count_update:
  assumes "i < length ps"
  shows "cf_count k (ps[i := p]) + of_bool (cf_in k (ps ! i)) = cf_count k ps + of_bool (cf_in k p)"
  using assms by (rule weight_sum_update)

lemma cf_count_less: "length ps < 2 ^ 32 \<Longrightarrow> cf_count k ps < 2 ^ 32"
proof -
  assume "length ps < 2 ^ 32"
  moreover have "cf_count k ps \<le> length ps * 1" by (rule weight_sum_bound) simp
  ultimately show ?thesis by linarith
qed

text \<open>The counters after a step: a slot changes by what the thread's own part in it changes.\<close>

lemma cf_step_count:
  assumes inv: "cf_inv n mw s ps" and i: "i < length ps" and k: "k < n"
    and st: "(p', s') \<in> set (cf_step pl n cpus mw i (ps ! i) s)"
  shows "unat (cf_read s' ! k) = cf_count k (ps[i := p'])"
proof -
  have len: "length (cf_read s) = n" and c: "unat (cf_read s ! k) = cf_count k ps"
    using cf_invD(3,4) [OF inv] k by auto
  have u: "cf_count k (ps[i := p']) + of_bool (cf_in k (ps ! i)) = unat (cf_read s ! k) + of_bool (cf_in k p')"
    using cf_count_update [OF i] c by simp
  have b: "cf_count k (ps[i := p']) < 2 ^ 32" using cf_invD(1) [OF inv] by (intro cf_count_less) simp
  have inc: "unat (cf_read s ! k + 1) = cf_count k (ps[i := p'])"
    if "\<not> cf_in k (ps ! i)" "cf_in k p'"
    using u b that by (simp add: unat_add_no_wrap)
  have dec: "unat (cf_read s ! k - 1) = cf_count k (ps[i := p'])"
    if "cf_in k (ps ! i)" "\<not> cf_in k p'"
    using u that by (subst unat_sub_no_wrap) simp_all
  show ?thesis
    using st u inc dec len k cf_invD(5) [OF inv i]
    by (cases "ps ! i")
      (auto simp: cf_step_def cf_lock_shared_begin_def cf_unlock_shared_def cf_unlock_exclusive_def
        cf_scan_def nth_list_update split: if_splits option.splits)
qed

lemma cf_step_local:
  assumes inv: "cf_inv n mw s ps" and i: "i < length ps"
    and st: "(p', s') \<in> set (cf_step pl n cpus mw i (ps ! i) s)"
  shows "cf_local n (mw i) p' \<and> length (cf_read s') = n"
  using st cf_invD(3) [OF inv] cf_invD(5) [OF inv i] cf_flag_other [OF inv i]
  by (cases "ps ! i")
    (auto simp: cf_step_def cf_lock_shared_begin_def cf_unlock_shared_def cf_unlock_exclusive_def
      cf_scan_def cf_slot_bound split: if_splits option.splits)

text \<open>The flag changes only with the program counter of the writing thread.\<close>

lemma cf_step_flag:
  assumes inv: "cf_inv n mw s ps" and i: "i < length ps"
    and st: "(p', s') \<in> set (cf_step pl n cpus mw i (ps ! i) s)"
  shows "cf_write s' \<longleftrightarrow> (\<exists>j < length ps. cf_passed n (ps[i := p'] ! j) \<noteq> None)"
proof -
  have upd: "(\<exists>j < length ps. cf_passed n (ps[i := p'] ! j) \<noteq> None)
      \<longleftrightarrow> cf_passed n p' \<noteq> None \<or> (\<exists>j < length ps. j \<noteq> i \<and> cf_passed n (ps ! j) \<noteq> None)"
    using i by (auto simp: nth_list_update)
  have old: "cf_write s \<longleftrightarrow> cf_passed n (ps ! i) \<noteq> None \<or> (\<exists>j < length ps. j \<noteq> i \<and> cf_passed n (ps ! j) \<noteq> None)"
    using cf_invD(6) [OF inv] i by blast
  have alone: "\<not> (\<exists>j < length ps. j \<noteq> i \<and> cf_passed n (ps ! j) \<noteq> None)" if "mw i"
    using that cf_passed_writer [OF inv] cf_invD(2) [OF inv] i by (fastforce simp: cf_one_writer_def)
  show ?thesis
    unfolding upd
    using st old alone cf_invD(5) [OF inv i]
    by (cases "ps ! i")
      (auto simp: cf_step_def cf_lock_shared_begin_def cf_unlock_shared_def cf_unlock_exclusive_def
        cf_scan_def split: if_splits option.splits)
qed

lemma cf_empty_slot:
  assumes "cf_inv n mw s ps" "k < n" "cf_read s ! k = 0" "j < length ps"
  shows "ps ! j \<noteq> CfReading k"
proof
  assume "ps ! j = CfReading k"
  with weight_sum_member [OF assms(4), of "\<lambda>p. of_bool (cf_in k p)"] have "0 < cf_count k ps" by simp
  with cf_invD(4) [OF assms(1,2)] assms(3) show False by simp
qed

lemma cf_step_passed:
  assumes inv: "cf_inv n mw s ps" and i: "i < length ps"
    and st: "(p', s') \<in> set (cf_step pl n cpus mw i (ps ! i) s)"
    and a: "a < length ps" "cf_passed n (ps[i := p'] ! a) = Some m"
    and b: "b < length ps" "ps[i := p'] ! b = CfReading k"
  shows "m \<le> k"
proof -
  consider "a \<noteq> i" "b \<noteq> i" | "a \<noteq> i" "b = i" "p' = CfReading k" | "a = i" "b \<noteq> i"
    using a b i by (cases "a = i"; cases "b = i") auto
  then show ?thesis
  proof cases
    case 1
    with a b cf_invD(7) [OF inv] show ?thesis by simp
  next
    case 2
    with a have "cf_write s" using cf_passed_writer [OF inv] by simp
    moreover from 2(3) st have "\<not> cf_write s"
      by (cases "ps ! i") (auto simp: cf_step_def cf_lock_shared_begin_def cf_scan_def split: if_splits option.splits)
    ultimately show ?thesis by simp
  next
    case 3
    then have r: "ps ! b = CfReading k" and p': "cf_passed n p' = Some m" using a b i by simp_all
    have kn: "k < n" using cf_invD(5) [OF inv b(1)] r by simp
    from p' st have "m = 0 \<or> (\<exists>l. ps ! i = CfScan l \<and> cf_read s ! l = 0 \<and> m = Suc l)"
      using cf_invD(5) [OF inv i]
      by (cases "ps ! i")
        (auto simp: cf_step_def cf_lock_shared_begin_def cf_scan_def split: if_splits option.splits)
    then show ?thesis
    proof (elim disjE exE conjE)
      fix l assume l: "ps ! i = CfScan l" "cf_read s ! l = 0" "m = Suc l"
      then have "l < n" using cf_invD(5) [OF inv i] by simp
      from cf_empty_slot [OF inv this l(2) b(1)] r have "l \<noteq> k" by auto
      moreover have "l \<le> k" using cf_invD(7) [OF inv i b(1) _ r] l(1) by simp
      ultimately show ?thesis using l(3) by simp
    qed simp
  qed
qed

lemma cf_step_inv:
  assumes inv: "cf_inv n mw s ps" and i: "i < length ps"
    and st: "(p', s') \<in> set (cf_step pl n cpus mw i (ps ! i) s)"
  shows "cf_inv n mw s' (ps[i := p'])"
proof -
  have "cf_local n (mw j) (ps[i := p'] ! j)" if "j < length ps" for j
    using that cf_invD(5) [OF inv that] cf_step_local [OF inv i st] by (cases "i = j") auto
  then show ?thesis
    using cf_invD(1,2) [OF inv] cf_step_local [OF inv i st] cf_step_count [OF inv i _ st]
      cf_step_flag [OF inv i st] cf_step_passed [OF inv i st]
    by (simp add: cf_inv_def)
qed

text \<open>The start states with one writing thread.\<close>

definition cf_start_one :: "nat \<Rightarrow> (nat \<Rightarrow> bool) \<Rightarrow> (cf_state, cf_pc) system \<Rightarrow> bool" where
  "cf_start_one n mw s \<longleftrightarrow> cf_start n s \<and> cf_one_writer mw (length (snd s))"

lemma cf_start_inv: "cf_start_one n mw (s, ps) \<Longrightarrow> cf_inv n mw s ps"
proof -
  assume a: "cf_start_one n mw (s, ps)"
  then have idle: "ps ! i = CfIdle" if "i < length ps" for i
    using that by (auto simp: cf_start_one_def cf_start_def)
  then have "cf_count k ps = 0" for k
    by (auto simp: weight_sum_zero in_set_conv_nth)
  with a show ?thesis
    by (auto simp: cf_start_one_def cf_start_def cf_inv_def cf_init_def idle)
qed

interpretation cf: rw_protocol "cf_step pl n cpus mw" "cf_start_one n mw" "cf_inv n mw"
  cf_reading cf_writing
proof
  fix s ps
  assume "cf_start_one n mw (s, ps)"
  then show "cf_inv n mw s ps" by (rule cf_start_inv)
next
  fix s ps i p' s'
  assume "cf_inv n mw s ps" "i < length ps" "(p', s') \<in> set (cf_step pl n cpus mw i (ps ! i) s)"
  then show "cf_inv n mw s' (ps[i := p'])" by (rule cf_step_inv)
next
  fix s ps i j
  assume inv: "cf_inv n mw s ps" and ij: "i < length ps" "j < length ps" "i \<noteq> j"
    and w: "cf_writing (ps ! i)"
  have "\<not> cf_writing (ps ! j)"
    using cf_invD(2) [OF inv] cf_passed_writer [OF inv ij(1)] cf_passed_writer [OF inv ij(2)] ij w
    by (auto simp: cf_one_writer_def)
  moreover have "\<not> cf_reading (ps ! j)"
    using cf_invD(7) [OF inv ij(1,2)] cf_invD(5) [OF inv ij(2)] w by fastforce
  ultimately show "\<not> cf_writing (ps ! j) \<and> \<not> cf_reading (ps ! j)" by blast
qed


section \<open>Properties\<close>

text \<open>C31. With one thread that calls \<open>lock_exclusive\<close> (any number that read, on any
  processors), \<open>contention_free_rw_lock\<close> is a read-write lock: while that thread is between
  \<open>lock_exclusive\<close> and \<open>unlock_exclusive\<close> no other thread is between
  \<open>lock_shared\<close> and \<open>unlock_shared\<close>, and every slot a reader holds exists.\<close>

theorem cf_rw_one_writer_exclusion:
  assumes "reach (cf_start_one n mw) (interleave (cf_step pl n cpus mw)) (s, ps)"
    and "i < length ps" "j < length ps" "i \<noteq> j" "ps ! j = CfReading k"
  shows "ps ! i \<noteq> CfWriting \<and> k < n"
  using cf.reach_rw [OF assms(1-4)] cf_invD(5) [OF cf.reach_inv [OF assms(1)] assms(3)] assms(5) by auto

text \<open>A concrete run: thread 0 may write, thread 1 reads on processor 1 of 2.\<close>

lemma cf_init_two: "cf_init 2 = \<lparr>cf_write = False, cf_read = [0, 0]\<rparr>"
  by (simp add: cf_init_def numeral_2_eq_2)

lemma cf_reader_run:
  "reach (cf_start_one 2 (\<lambda>i. i = 0)) (interleave (cf_step Linux 2 (\<lambda>i. [1]) (\<lambda>i. i = 0)))
     (\<lparr>cf_write = True, cf_read = [0, 1]\<rparr>, [CfScan 1, CfReading 1])"
  by (rule run_sched_reach_start [where s = "(\<lparr>cf_write = False, cf_read = [0, 0]\<rparr>, [CfIdle, CfIdle])"
        and sched = "[(1, 0), (1, 0), (1, 0), (1, 0), (0, 1), (0, 0), (0, 0)]"])
    (simp_all add: cf_start_one_def cf_start_def cf_one_writer_def cf_init_two cf_step_def
      cf_lock_shared_begin_def cf_slot_def get_proc_id_def cf_scan_def Let_def)

theorem cf_rw_one_writer_exclusion_witness:
  "[CfScan 1, CfReading 1] ! 0 \<noteq> CfWriting \<and> (1::nat) < 2"
  using cf_rw_one_writer_exclusion [OF cf_reader_run, of 0 1 1] by simp

text \<open>The counters are exact: with one writing thread, slot \<open>k\<close> is the number of threads
  that have counted themselves in it and not yet out (failed attempts included), so a slot is zero
  exactly when nobody is in it, and all slots are zero when all threads are outside.\<close>

theorem cf_rw_slots_exact:
  assumes "reach (cf_start_one n mw) (interleave (cf_step pl n cpus mw)) (s, ps)" "k < n"
  shows "unat (cf_read s ! k) =
     length (filter (\<lambda>p. p \<in> {CfTest k, CfDec k, CfReading k}) ps)"
proof -
  have "cf_count k qs = length (filter (\<lambda>p. p \<in> {CfTest k, CfDec k, CfReading k}) qs)" for qs
  proof (induction qs)
    case (Cons q qs)
    then show ?case by (cases q) (auto simp: weight_sum_def)
  qed (simp add: weight_sum_def)
  with cf_invD(4) [OF cf.reach_inv [OF assms(1)] assms(2)] show ?thesis by simp
qed

theorem cf_rw_slots_exact_witness:
  "unat ((cf_read \<lparr>cf_write = True, cf_read = [0, 1]\<rparr>) ! 1) = 1"
  using cf_rw_slots_exact [OF cf_reader_run, of 1] by simp

text \<open>With two writing threads the class is no lock. A failed compare-exchange stores what
  it read into \<open>lock_ex\<close>, and the loop does not set it back, so the next turn exchanges true for
  true and succeeds while the first writer holds the lock: both are between
  \<open>lock_exclusive\<close> and \<open>unlock_exclusive\<close>. When the first one leaves, it clears the flag
  under the second, and a reader enters beside that writer.\<close>

theorem cf_rw_two_writers:
  "reach (cf_start 1) (interleave (cf_step pl 1 (\<lambda>i. [0]) (\<lambda>i. True)))
     (\<lparr>cf_write = True, cf_read = [0]\<rparr>, [CfWriting, CfWriting, CfIdle])
   \<and> reach (cf_start 1) (interleave (cf_step pl 1 (\<lambda>i. [0]) (\<lambda>i. True)))
     (\<lparr>cf_write = False, cf_read = [1]\<rparr>, [CfIdle, CfWriting, CfReading 0])"
proof
  let ?first = "[(0, 1), (0, 0), (0, 0), (1, 1), (1, 0), (1, 0), (1, 0)]"
  have slot: "cf_slot pl (Suc 0) 0 = Some 0"
    by (cases pl) (simp_all add: cf_slot_def get_proc_id_def Let_def)
  show "reach (cf_start 1) (interleave (cf_step pl 1 (\<lambda>i. [0]) (\<lambda>i. True)))
     (\<lparr>cf_write = True, cf_read = [0]\<rparr>, [CfWriting, CfWriting, CfIdle])"
    by (rule run_sched_reach_start
        [where s = "(cf_init 1, [CfIdle, CfIdle, CfIdle])" and sched = ?first])
      (simp_all add: cf_start_def cf_init_def cf_step_def cf_scan_def)
  show "reach (cf_start 1) (interleave (cf_step pl 1 (\<lambda>i. [0]) (\<lambda>i. True)))
     (\<lparr>cf_write = False, cf_read = [1]\<rparr>, [CfIdle, CfWriting, CfReading 0])"
    by (rule run_sched_reach_start
        [where s = "(cf_init 1, [CfIdle, CfIdle, CfIdle])"
          and sched = "?first @ [(0, 0), (2, 0), (2, 0), (2, 0), (2, 0)]"])
      (simp_all add: cf_start_def cf_init_def cf_step_def cf_scan_def cf_lock_shared_begin_def slot
        cf_unlock_exclusive_def)
qed

end
