(* ===== verification/Seq_Lock.thy ===== *)
theory Seq_Lock
  imports Interfaces
begin

text \<open>
  The class \<open>seq_lock\<close> of \<open>synchronization/seq_lock.h\<close>. A value of the payload type is
  the list of its \<open>sizeof(T)\<close> bytes, of any type \<open>'b\<close>: \<open>store\<close> assigns and
  \<open>load\<close> copies them one after another, from the first to the last, and other threads run
  between two of them. Thread 0 stores the values \<open>vs\<close> one after another; every other thread
  loads, as often as it likes. \<open>v0\<close> is what the member held before the first store.
\<close>

record 'b seq_state =
  m_seq :: u64
  m_val :: "'b list"

datatype store_pc =
  StSeq               \<comment> \<open>before the load of the sequence number\<close>
| StOdd u64           \<comment> \<open>before the first store of the sequence number\<close>
| StCopy u64 nat      \<comment> \<open>this many bytes are assigned\<close>
| StDone

datatype 'b load_pc =
  LdSeq               \<comment> \<open>before the first load of the sequence number\<close>
| LdCopy u64 "'b list"  \<comment> \<open>the bytes copied so far\<close>
| LdDone u64 bool "'b list"  \<comment> \<open>the number that was read, the result, the destination\<close>

fun seq_store :: "'b list \<Rightarrow> store_pc \<Rightarrow> 'b seq_state \<Rightarrow> store_pc \<times> 'b seq_state" where
  "seq_store v StSeq s = (StOdd (m_seq s), s)"
| "seq_store v (StOdd q) s = (StCopy q 0, s\<lparr>m_seq := q + 1\<rparr>)"
| "seq_store v (StCopy q k) s =
     (if k < length v then (StCopy q (Suc k), s\<lparr>m_val := (m_val s)[k := v ! k]\<rparr>)
      else (StDone, s\<lparr>m_seq := q + 2\<rparr>))"
| "seq_store v StDone s = (StDone, s)"

fun seq_load :: "'b load_pc \<Rightarrow> 'b seq_state \<Rightarrow> 'b load_pc \<times> 'b seq_state" where
  "seq_load LdSeq s = (LdCopy (m_seq s) [], s)"
| "seq_load (LdCopy q buf) s =
     (if length buf < length (m_val s) then LdCopy q (buf @ [m_val s ! length buf])
      else LdDone q (m_seq s = q) buf, s)"
| "seq_load (LdDone q ok buf) s = (LdDone q ok buf, s)"

datatype 'b sq_pc =
  SqIdle nat            \<comment> \<open>the writer, after this many stores\<close>
| SqStore nat store_pc
| SqReady               \<comment> \<open>a reader outside \<open>load\<close>\<close>
| SqLoad "'b load_pc"

definition seq_step :: "'b list list \<Rightarrow> ('b seq_state, 'b sq_pc) thread_step" where
  "seq_step vs i p s =
     (case p of
        SqIdle j \<Rightarrow> if j < length vs then [(SqStore j StSeq, s)] else []
      | SqStore j StDone \<Rightarrow> [(SqIdle (Suc j), s)]
      | SqStore j q \<Rightarrow> (case seq_store (vs ! j) q s of (q', s') \<Rightarrow> [(SqStore j q', s')])
      | SqReady \<Rightarrow> [(SqLoad LdSeq, s)]
      | SqLoad (LdDone q ok buf) \<Rightarrow> [(SqReady, s)]
      | SqLoad q \<Rightarrow> (case seq_load q s of (q', s') \<Rightarrow> [(SqLoad q', s')]))"

text \<open>Fewer stores than the sequence number can count.\<close>

definition seq_start :: "'b list \<Rightarrow> 'b list list \<Rightarrow> ('b seq_state, 'b sq_pc) system \<Rightarrow> bool" where
  "seq_start v0 vs t \<longleftrightarrow> fst t = \<lparr>m_seq = 0, m_val = v0\<rparr>
     \<and> (\<forall>v \<in> set vs. length v = length v0) \<and> length vs < 2 ^ 63
     \<and> (\<exists>n. snd t = SqIdle 0 # replicate n SqReady)"

text \<open>What the writer's program counter says about the memory, and what a reader has in hand.\<close>

fun seq_writer_ok :: "'b list \<Rightarrow> 'b list list \<Rightarrow> 'b sq_pc \<Rightarrow> 'b seq_state \<Rightarrow> bool" where
  "seq_writer_ok v0 vs (SqIdle j) s =
     (j \<le> length vs \<and> unat (m_seq s) = 2 * j \<and> m_val s = (v0 # vs) ! j)"
| "seq_writer_ok v0 vs (SqStore j StSeq) s =
     (j < length vs \<and> unat (m_seq s) = 2 * j \<and> m_val s = (v0 # vs) ! j)"
| "seq_writer_ok v0 vs (SqStore j (StOdd q)) s =
     (j < length vs \<and> unat (m_seq s) = 2 * j \<and> q = m_seq s \<and> m_val s = (v0 # vs) ! j)"
| "seq_writer_ok v0 vs (SqStore j (StCopy q k)) s =
     (j < length vs \<and> unat (m_seq s) = Suc (2 * j) \<and> unat q = 2 * j \<and> k \<le> length v0
      \<and> m_val s = take k (vs ! j) @ drop k ((v0 # vs) ! j))"
| "seq_writer_ok v0 vs (SqStore j StDone) s =
     (j < length vs \<and> unat (m_seq s) = 2 * Suc j \<and> m_val s = vs ! j)"
| "seq_writer_ok v0 vs p s = False"

fun seq_reader_ok :: "'b list \<Rightarrow> 'b list list \<Rightarrow> 'b sq_pc \<Rightarrow> 'b seq_state \<Rightarrow> bool" where
  "seq_reader_ok v0 vs SqReady s = True"
| "seq_reader_ok v0 vs (SqLoad LdSeq) s = True"
| "seq_reader_ok v0 vs (SqLoad (LdCopy q buf)) s =
     (length buf \<le> length v0 \<and> unat q \<le> unat (m_seq s)
      \<and> (q = m_seq s \<longrightarrow> even (unat q) \<longrightarrow> buf = take (length buf) (m_val s)))"
| "seq_reader_ok v0 vs (SqLoad (LdDone q ok buf)) s =
     (ok \<longrightarrow> even (unat q) \<longrightarrow> unat q div 2 \<le> length vs \<and> buf = (v0 # vs) ! (unat q div 2))"
| "seq_reader_ok v0 vs p s = False"

definition seq_inv :: "'b list \<Rightarrow> 'b list list \<Rightarrow> 'b seq_state \<Rightarrow> 'b sq_pc list \<Rightarrow> bool" where
  [inv_defs]: "seq_inv v0 vs s ps \<longleftrightarrow>
     (\<forall>v \<in> set vs. length v = length v0) \<and> length vs < 2 ^ 63 \<and> ps \<noteq> []
     \<and> seq_writer_ok v0 vs (ps ! 0) s
     \<and> (\<forall>i. 0 < i \<longrightarrow> i < length ps \<longrightarrow> seq_reader_ok v0 vs (ps ! i) s)"

lemma seq_lengths:
  "\<forall>v \<in> set vs. length v = length v0 \<Longrightarrow> j \<le> length vs \<Longrightarrow> length ((v0 # vs) ! j) = length v0"
  by (cases j) auto

text \<open>While the number is even, the member holds the value with that number.\<close>

lemma seq_writer_val:
  assumes "seq_writer_ok v0 vs p s" "\<forall>v \<in> set vs. length v = length v0"
  shows "length (m_val s) = length v0
    \<and> (even (unat (m_seq s)) \<longrightarrow> unat (m_seq s) div 2 \<le> length vs
         \<and> m_val s = (v0 # vs) ! (unat (m_seq s) div 2))"
  using assms seq_lengths [OF assms(2)]
  by (cases "(v0, vs, p, s)" rule: seq_writer_ok.cases) auto

lemma take_drop_update:
  "k < length w \<Longrightarrow> length w = length v \<Longrightarrow>
    (take k v @ drop k w)[k := v ! k] = take (Suc k) v @ drop (Suc k) w"
  by (simp add: list_update_append take_Suc_conv_app_nth Cons_nth_drop_Suc [symmetric])

text \<open>A step of the writer: its own part, and what a reader has in hand stays right because the
  number never goes back and the bytes change only while it is odd.\<close>

lemma seq_writer_step:
  assumes ok: "seq_writer_ok v0 vs p s" "\<forall>v \<in> set vs. length v = length v0" "length vs < 2 ^ 63"
    and st: "(p', s') \<in> set (seq_step vs i p s)"
  shows "seq_writer_ok v0 vs p' s' \<and> unat (m_seq s) \<le> unat (m_seq s')
    \<and> (m_seq s' = m_seq s \<longrightarrow> even (unat (m_seq s)) \<longrightarrow> m_val s' = m_val s)"
  using assms
proof (cases "(v0, vs, p, s)" rule: seq_writer_ok.cases)
  case (3 v0' vs' j q s1)
  then have j: "j < length vs" "unat (m_seq s) = 2 * j" using ok(1) by auto
  then have "unat (m_seq s + 1) = Suc (2 * j)" using ok(3) by (simp add: unat_add_no_wrap)
  with 3 ok st show ?thesis by (auto simp: seq_step_def)
next
  case (4 v0' vs' j q k s1)
  then have j: "j < length vs" "unat q = 2 * j" "unat (m_seq s) = Suc (2 * j)" using ok(1) by auto
  then have "unat (q + 2) = 2 * Suc j" using ok(3) by (simp add: unat_add_no_wrap)
  moreover have "length (vs ! j) = length v0" "length ((v0 # vs) ! j) = length v0"
    using ok(2) j(1) by (auto intro: seq_lengths [OF ok(2)])
  ultimately show ?thesis using 4 ok(1) st j take_drop_update [of k "(v0 # vs) ! j" "vs ! j"]
    by (auto simp: seq_step_def split: if_splits)
qed (auto simp: seq_step_def)

lemma seq_reader_stable:
  assumes "seq_reader_ok v0 vs p s" "unat (m_seq s) \<le> unat (m_seq s')"
    and "m_seq s' = m_seq s \<longrightarrow> even (unat (m_seq s)) \<longrightarrow> m_val s' = m_val s"
  shows "seq_reader_ok v0 vs p s'"
proof (cases "(v0, vs, p, s)" rule: seq_reader_ok.cases)
  case (3 v0' vs' q buf s1)
  with assms have "unat q \<le> unat (m_seq s)" by simp
  with assms(2) have "q = m_seq s' \<Longrightarrow> m_seq s' = m_seq s"
    by (metis le_antisym word_unat_eq_iff)
  with 3 assms show ?thesis by auto
qed (use assms in auto)

lemma seq_reader_step:
  assumes ok: "seq_reader_ok v0 vs p s" "seq_writer_ok v0 vs w s" "\<forall>v \<in> set vs. length v = length v0"
    and st: "(p', s') \<in> set (seq_step vs i p s)"
  shows "seq_reader_ok v0 vs p' s' \<and> s' = s"
proof (cases "(v0, vs, p, s)" rule: seq_reader_ok.cases)
  case (3 v0' vs' q buf s1)
  note val = seq_writer_val [OF ok(2,3)]
  show ?thesis
  proof (cases "length buf < length (m_val s)")
    case True
    with 3 ok(1) st val show ?thesis
      by (auto simp: seq_step_def take_Suc_conv_app_nth)
  next
    case False
    with 3 ok(1) st val show ?thesis by (auto simp: seq_step_def)
  qed
qed (use assms in \<open>auto simp: seq_step_def\<close>)

lemma seq_step_inv:
  assumes inv: "seq_inv v0 vs s ps" and i: "i < length ps"
    and st: "(p', s') \<in> set (seq_step vs i (ps ! i) s)"
  shows "seq_inv v0 vs s' (ps[i := p'])"
proof (cases "i = 0")
  case True
  with inv seq_writer_step [of v0 vs "ps ! 0" s p' s' i] st
  have "seq_writer_ok v0 vs p' s' \<and> unat (m_seq s) \<le> unat (m_seq s')
    \<and> (m_seq s' = m_seq s \<longrightarrow> even (unat (m_seq s)) \<longrightarrow> m_val s' = m_val s)"
    by (auto simp: seq_inv_def)
  with inv True i show ?thesis by (auto simp: seq_inv_def intro: seq_reader_stable)
next
  case False
  with inv i st seq_reader_step [of v0 vs "ps ! i" s "ps ! 0" p' s' i]
  have "seq_reader_ok v0 vs p' s' \<and> s' = s" by (auto simp: seq_inv_def)
  with inv False i show ?thesis by (auto simp: seq_inv_def nth_list_update)
qed

interpretation sq: protocol "seq_step vs" "seq_start v0 vs" "seq_inv v0 vs"
proof
  fix s :: "'a seq_state" and ps
  assume "seq_start v0 vs (s, ps)"
  then show "seq_inv v0 vs s ps"
    by (auto simp: seq_start_def seq_inv_def nth_Cons split: nat.splits)
next
  fix s :: "'a seq_state" and ps i p' s'
  assume "seq_inv v0 vs s ps" "i < length ps" "(p', s') \<in> set (seq_step vs i (ps ! i) s)"
  then show "seq_inv v0 vs s' (ps[i := p'])" by (rule seq_step_inv)
qed


section \<open>Properties\<close>

text \<open>C32. With one writing thread, any number of readers and fewer than \<open>2 ^ 63\<close> stores: a load
  of \<open>seq_lock\<close> that returns true and that read an even sequence number \<open>q\<close> returns the value of
  store number \<open>q / 2\<close>, whole; if \<open>q\<close> is 0, what the member held before the first store. No
  schedule mixes the bytes of two stores.\<close>

theorem seq_lock_even_load:
  assumes "reach (seq_start v0 vs) (interleave (seq_step vs)) (s, ps)"
    and "i < length ps" "ps ! i = SqLoad (LdDone q True buf)" "even (unat q)"
  shows "if q = 0 then buf = v0 else 0 < unat q div 2 \<and> unat q div 2 \<le> length vs \<and> buf = vs ! (unat q div 2 - 1)"
proof -
  have inv: "seq_inv v0 vs s ps" using assms(1) by (rule sq.reach_inv)
  then have "i \<noteq> 0" using assms(3) by (intro notI) (auto simp: seq_inv_def)
  with inv assms(2) have "seq_reader_ok v0 vs (ps ! i) s" by (simp add: seq_inv_def)
  with assms(3,4) have "unat q div 2 \<le> length vs" "buf = (v0 # vs) ! (unat q div 2)" by simp_all
  moreover have "0 < unat q div 2" if "q \<noteq> 0"
    using that assms(4) by (metis div_greater_zero_iff dvd_imp_le neq0_conv unat_eq_0 zero_less_numeral)
  ultimately show ?thesis by (auto simp: nth_Cons' )
qed

text \<open>A load that begins during a store is not refused: an odd sequence number that has not
  changed is taken for success. Here the reader copies both bytes while the writer has assigned
  the first only; \<open>load\<close> returns true with a value that no store ever made.\<close>

theorem seq_lock_torn_load:
  "reach (seq_start [a0, b0] [[a1, b1]]) (interleave (seq_step [[a1, b1]]))
     (\<lparr>m_seq = 1, m_val = [a1, b0]\<rparr>, [SqStore 0 (StCopy 0 1), SqLoad (LdDone 1 True [a1, b0])])"
  by (rule run_sched_reach_start
      [where s = "(\<lparr>m_seq = 0, m_val = [a0, b0]\<rparr>, [SqIdle 0, SqReady])"
        and sched = "[(0, 0), (0, 0), (0, 0), (0, 0), (1, 0), (1, 0), (1, 0), (1, 0), (1, 0)]"])
    (auto simp: seq_start_def seq_step_def intro!: exI [of _ 1])

text \<open>The number read is even in the same run when the reader comes after the store.\<close>

theorem seq_lock_even_load_witness:
  "[7, 8 :: nat] = [[7, 8]] ! (unat (2 :: u64) div 2 - 1)"
proof -
  have "reach (seq_start [5, 6] [[7, 8 :: nat]]) (interleave (seq_step [[7, 8]]))
     (\<lparr>m_seq = 2, m_val = [7, 8]\<rparr>, [SqStore 0 StDone, SqLoad (LdDone 2 True [7, 8])])"
    by (rule run_sched_reach_start
        [where s = "(\<lparr>m_seq = 0, m_val = [5, 6]\<rparr>, [SqIdle 0, SqReady])"
          and sched = "[(0, 0), (0, 0), (0, 0), (0, 0), (0, 0), (0, 0),
            (1, 0), (1, 0), (1, 0), (1, 0), (1, 0)]"])
      (auto simp: seq_start_def seq_step_def intro!: exI [of _ 1])
  from seq_lock_even_load [OF this, of 1 2 "[7, 8]"] show ?thesis by simp
qed

lemma seq_store_copy:
  "k \<le> length v \<Longrightarrow> length (m_val s) = length v \<Longrightarrow>
    run_alone (seq_store v) (\<lambda>p. p = StDone) (Suc (length v - k)) (StCopy q k) s =
      Some (StDone, s\<lparr>m_seq := q + 2, m_val := take k (m_val s) @ drop k v\<rparr>)"
proof (induction "length v - k" arbitrary: k s)
  case 0
  then show ?case by (simp add: run_alone_Suc)
next
  case (Suc n)
  then have k: "k < length v" and n: "n = length v - Suc k" by simp_all
  let ?s = "s\<lparr>m_val := (m_val s)[k := v ! k]\<rparr>"
  have "take (Suc k) (m_val ?s) @ drop (Suc k) v = take k (m_val s) @ drop k v"
    using k Suc.prems(2) by (simp add: take_Suc_conv_app_nth Cons_nth_drop_Suc)
  with Suc.hyps(1) [OF n, of ?s] Suc.prems k Suc.hyps(2) n show ?case
    by (subst run_alone_Suc) simp_all
qed

lemma seq_load_copy:
  "length buf \<le> length (m_val s) \<Longrightarrow>
    run_alone seq_load (\<lambda>p. \<exists>q ok b. p = LdDone q ok b) (Suc (length (m_val s) - length buf)) (LdCopy q buf) s =
      Some (LdDone q (m_seq s = q) (buf @ drop (length buf) (m_val s)), s)"
proof (induction "length (m_val s) - length buf" arbitrary: buf)
  case 0
  then show ?case by (simp add: run_alone_Suc)
next
  case (Suc n)
  then have k: "length buf < length (m_val s)" and n: "n = length (m_val s) - Suc (length buf)" by simp_all
  let ?b = "buf @ [m_val s ! length buf]"
  from Suc.hyps(1) [of ?b] Suc.prems k Suc.hyps(2) n show ?case
    by (subst run_alone_Suc) (simp_all add: Cons_nth_drop_Suc)
qed

text \<open>Calls that do not overlap: \<open>store\<close> ends after one access per byte and three more,
  advances the number by two, and a following \<open>load\<close> ends after one access per byte and two
  more, returns true and gives exactly the stored bytes. Neither call can loop.\<close>

theorem seq_lock_store_load:
  assumes "length v = length (m_val s)"
  shows "run_alone (seq_store v) (\<lambda>p. p = StDone) (length v + 3) StSeq s =
      Some (StDone, s\<lparr>m_seq := m_seq s + 2, m_val := v\<rparr>)
    \<and> run_alone seq_load (\<lambda>p. \<exists>q ok b. p = LdDone q ok b) (length v + 2) LdSeq
        (s\<lparr>m_seq := m_seq s + 2, m_val := v\<rparr>) =
      Some (LdDone (m_seq s + 2) True v, s\<lparr>m_seq := m_seq s + 2, m_val := v\<rparr>)"
proof
  show "run_alone (seq_store v) (\<lambda>p. p = StDone) (length v + 3) StSeq s =
      Some (StDone, s\<lparr>m_seq := m_seq s + 2, m_val := v\<rparr>)"
    using seq_store_copy [of 0 v "s\<lparr>m_seq := m_seq s + 1\<rparr>" "m_seq s"] assms
    by (simp add: eval_nat_numeral run_alone_Suc)
  show "run_alone seq_load (\<lambda>p. \<exists>q ok b. p = LdDone q ok b) (length v + 2) LdSeq
        (s\<lparr>m_seq := m_seq s + 2, m_val := v\<rparr>) =
      Some (LdDone (m_seq s + 2) True v, s\<lparr>m_seq := m_seq s + 2, m_val := v\<rparr>)"
    using seq_load_copy [of "[]" "s\<lparr>m_seq := m_seq s + 2, m_val := v\<rparr>" "m_seq s + 2"]
    by (simp add: numeral_2_eq_2 run_alone_Suc)
qed

theorem seq_lock_store_load_witness:
  "run_alone (seq_store [1, 2 :: nat]) (\<lambda>p. p = StDone) 5 StSeq \<lparr>m_seq = 0, m_val = [9, 9]\<rparr> =
     Some (StDone, \<lparr>m_seq = 2, m_val = [1, 2]\<rparr>)"
  using seq_lock_store_load [of "[1, 2 :: nat]" "\<lparr>m_seq = 0, m_val = [9, 9]\<rparr>"] by simp

end
