(* ===== verification/Mpmc_Sequential.thy ===== *)
theory Mpmc_Sequential
  imports Mpmc_Bounded
begin

text \<open>
  \<open>mpmc_bounded_queue\<close> called without overlap: each call is run alone to its end. The queue is
  shown to implement the bounded queue on lists of \<open>Interfaces\<close> wherever its positions are, except
  for the calls whose signed subtraction overflows, which are those of a full or an empty
  queue at the positions around \<open>2 ^ 63\<close>.
\<close>

unbundle bit_operations_syntax

text \<open>One call of a thread that runs alone, with five accesses: \<open>None\<close> when it has not come to an
  answer by then, its behaviour being undefined.\<close>

definition mq_enqueue :: "'a \<Rightarrow> 'a mq_state \<Rightarrow> (bool \<times> 'a mq_state) option" where
  "mq_enqueue v s =
     (case run_alone mq_try_enqueue mq_is_done 5 (EnqPos v) s of
        Some (EnqDone b, s') \<Rightarrow> Some (b, s')
      | _ \<Rightarrow> None)"

definition mq_dequeue :: "'a mq_state \<Rightarrow> ('a option \<times> 'a mq_state) option" where
  "mq_dequeue s =
     (case run_alone mq_try_dequeue mq_is_done 5 DeqPos s of
        Some (DeqDone r, s') \<Rightarrow> Some (r, s')
      | _ \<Rightarrow> None)"

definition mq_used :: "'a mq_state \<Rightarrow> nat" where
  "mq_used s = unat (mq_enq_pos s - mq_deq_pos s)"

definition mq_cell_at :: "'a mq_state \<Rightarrow> nat \<Rightarrow> 'a mq_cell" where
  "mq_cell_at s j = mq_buffer s ! mq_index s (mq_deq_pos s + of_nat j)"

definition mq_contents :: "'a mq_state \<Rightarrow> 'a list" where
  "mq_contents s = map (\<lambda>j. cell_data (mq_cell_at s j)) [0..<mq_used s]"

definition mq_wf :: "'a mq_state \<Rightarrow> bool" where
  "mq_wf s \<longleftrightarrow> (\<exists>b. mq_geom b s) \<and> mq_used s \<le> length (mq_buffer s)
     \<and> (\<forall>j < length (mq_buffer s). cell_seq (mq_cell_at s j) =
          mq_deq_pos s + of_nat j + (if j < mq_used s then 1 else 0))"

definition mq_cap :: "'a mq_state \<Rightarrow> nat" where
  "mq_cap s = length (mq_buffer s)"

lemma mq_cell_index: "mq_geom b s \<Longrightarrow> mq_index s (mq_deq_pos s + of_nat j) = (unat (mq_deq_pos s) + j) mod 2 ^ b"
  by (simp add: mq_index_mod) (rule unat_add_of_nat_mod, simp add: mq_geom_def)

lemma add_mod_inj: "i < n \<Longrightarrow> j < n \<Longrightarrow> (d + i) mod n = (d + j) mod n \<Longrightarrow> i = j" for d i j n :: nat
  using mod_eq_near [of "d + i" n "d + j"] mod_eq_near [of "d + j" n "d + i"]
  by (cases "i \<le> j") auto

lemma mq_enq_pos_eq: "mq_enq_pos s = mq_deq_pos s + of_nat (mq_used s)"
  by (simp add: mq_used_def)

lemma mq_wfE:
  assumes "mq_wf s"
  obtains b where "mq_geom b s" "length (mq_buffer s) = 2 ^ b" "b < 64" "mq_used s \<le> 2 ^ b"
    and "\<And>j. j < 2 ^ b \<Longrightarrow> cell_seq (mq_cell_at s j) = mq_deq_pos s + of_nat j + (if j < mq_used s then 1 else 0)"
  using assms by (auto simp: mq_wf_def mq_geom_def)

text \<open>What a free and a full queue answer, in one run of the code.\<close>

lemma mq_enqueue_room:
  assumes "mq_wf s" "mq_used s < mq_cap s"
  shows "mq_enqueue v s = Some (True, mq_set_seq (mq_set_data (s\<lparr>mq_enq_pos := mq_enq_pos s + 1\<rparr>)
      (mq_enq_pos s) v) (mq_enq_pos s) (mq_enq_pos s + 1))"
proof -
  obtain b where b: "mq_geom b s" "length (mq_buffer s) = 2 ^ b" "mq_used s \<le> 2 ^ b"
    and c: "\<And>j. j < 2 ^ b \<Longrightarrow> cell_seq (mq_cell_at s j) = mq_deq_pos s + of_nat j + (if j < mq_used s then 1 else 0)"
    using mq_wfE [OF assms(1)] by blast
  have "cell_seq (mq_buffer s ! mq_index s (mq_enq_pos s)) = mq_enq_pos s"
    using c [of "mq_used s"] assms(2) b(2) by (simp add: mq_cell_at_def mq_cap_def flip: mq_enq_pos_eq)
  then show ?thesis
    by (simp add: mq_enqueue_def run_alone_unfold)
qed

text \<open>The subtraction overflows when the two positions lie on different sides of \<open>2 ^ 63\<close>.\<close>

definition mq_straddles :: "'a mq_state \<Rightarrow> bool" where
  "mq_straddles s \<longleftrightarrow> unat (mq_deq_pos s + 1) < 2 ^ 63 \<and> 2 ^ 63 \<le> unat (mq_enq_pos s)"

lemma mq_dif_ahead:
  assumes k: "0 < unat k" "unat k < 2 ^ 63"
  shows "case mq_dif p (p + k) of None \<Rightarrow> unat p < 2 ^ 63 \<and> 2 ^ 63 \<le> unat (p + k)
    | Some r \<Rightarrow> r < 0 \<and> \<not> (unat p < 2 ^ 63 \<and> 2 ^ 63 \<le> unat (p + k))"
proof -
  define x y z where xyz: "x = int (unat p)" "y = int (unat (p + k))" "z = int (unat k)"
  have "unat p < 2 ^ 64" by (rule unat_less_64)
  then have r: "0 < z" "z < 2 ^ 63" "0 \<le> x" "x < 2 ^ 64" using k by (simp_all add: xyz del: of_nat_unat)
  have "y = x + z \<and> x + z < 2 ^ 64 \<or> y = x + z - 2 ^ 64 \<and> 2 ^ 64 \<le> x + z"
    unfolding xyz using k unat_less_64 [of p]
    by (cases "unat p + unat k < 2 ^ 64") (simp_all add: unat_plus_if' del: of_nat_unat)
  moreover have "unat p < 2 ^ 63 \<longleftrightarrow> x < 2 ^ 63" "unat (p + k) < 2 ^ 63 \<longleftrightarrow> y < 2 ^ 63"
    by (simp_all add: xyz del: of_nat_unat)
  ultimately show ?thesis
    using r unfolding mq_dif_def Let_def sint_64 xyz [symmetric] not_le [symmetric]
    by (simp split: option.split) linarith
qed

lemma mq_dif_next: "mq_dif p (p + 1) = (if unat p + 1 = 2 ^ 63 then None else Some (- 1))"
proof (cases "unat p + 1 < 2 ^ 64")
  case True
  then have "int (unat (p + 1)) = int (unat p) + 1" by (simp add: unat_add_no_wrap del: of_nat_unat)
  with True show ?thesis unfolding mq_dif_def Let_def sint_64 by (simp del: of_nat_unat)
next
  case False
  then have "unat p = 2 ^ 64 - 1" using unat_less_64 [of p] by linarith
  moreover have "p = of_nat (unat p)" by simp
  ultimately have "p = of_nat (2 ^ 64 - 1)" by simp
  then have "p = - 1" by simp
  with \<open>unat p = 2 ^ 64 - 1\<close> show ?thesis by (simp add: mq_dif_def)
qed

lemma mq_dif_full:
  assumes b: "b < 64" "0 < b"
  shows "case mq_dif (d + 1) (d + of_nat (2 ^ b)) of
      None \<Rightarrow> unat (d + 1) < 2 ^ 63 \<and> 2 ^ 63 \<le> unat (d + of_nat (2 ^ b))
    | Some r \<Rightarrow> r < 0 \<and> \<not> (unat (d + 1) < 2 ^ 63 \<and> 2 ^ 63 \<le> unat (d + of_nat (2 ^ b)))"
proof -
  have two: "(2::nat) \<le> 2 ^ b" and lt: "(2::nat) ^ b \<le> 2 ^ 63"
    using b power_increasing [of 1 b "2::nat"] power_increasing [of b 63 "2::nat"]
    by (simp_all del: power_increasing_iff)
  define k :: u64 where "k = of_nat (2 ^ b - 1)"
  have "(2::nat) ^ b - 1 < 2 ^ 64" using lt by simp
  then have "unat k = 2 ^ b - 1" unfolding k_def by (rule unat_of_nat_64)
  with two lt have "0 < unat k" "unat k < 2 ^ 63" by simp_all
  moreover have eq: "d + of_nat (2 ^ b) = d + 1 + k" using two by (simp add: k_def of_nat_diff)
  ultimately show ?thesis unfolding eq by (intro mq_dif_ahead)
qed

lemma mq_enqueue_full:
  assumes "mq_wf s" "mq_used s = mq_cap s"
  shows "mq_enqueue v s = (if mq_straddles s then None else Some (False, s))"
proof -
  obtain b where b: "mq_geom b s" "length (mq_buffer s) = 2 ^ b" "b < 64"
    and c: "\<And>j. j < 2 ^ b \<Longrightarrow> cell_seq (mq_cell_at s j) = mq_deq_pos s + of_nat j + (if j < mq_used s then 1 else 0)"
    using mq_wfE [OF assms(1)] by blast
  have pos: "mq_enq_pos s = mq_deq_pos s + of_nat (2 ^ b)"
    using assms(2) b(2) mq_enq_pos_eq [of s] by (simp add: mq_cap_def)
  have "mq_index s (mq_enq_pos s) = mq_index s (mq_deq_pos s + of_nat 0)"
    unfolding pos by (simp only: mq_cell_index [OF b(1)]) simp
  then have seq: "cell_seq (mq_buffer s ! mq_index s (mq_enq_pos s)) = mq_deq_pos s + 1"
    using c [of 0] assms(2) b(2) by (simp add: mq_cell_at_def mq_cap_def)
  have "case mq_dif (mq_deq_pos s + 1) (mq_enq_pos s) of
      None \<Rightarrow> mq_straddles s | Some r \<Rightarrow> r < 0 \<and> \<not> mq_straddles s"
    unfolding mq_straddles_def pos using b(1,3) by (intro mq_dif_full) (simp_all add: mq_geom_def)
  then show ?thesis
    by (auto simp: mq_enqueue_def run_alone_unfold run_alone.simps [where n = 0] seq split: option.splits)
qed

lemma mq_dequeue_some:
  assumes "mq_wf s" "0 < mq_used s"
  shows "mq_dequeue s = Some (Some (cell_data (mq_cell_at s 0)),
      mq_set_seq (s\<lparr>mq_deq_pos := mq_deq_pos s + 1\<rparr>) (mq_deq_pos s) (mq_deq_pos s + mq_mask s + 1))"
proof -
  obtain b where c: "\<And>j. j < 2 ^ b \<Longrightarrow> cell_seq (mq_cell_at s j) = mq_deq_pos s + of_nat j + (if j < mq_used s then 1 else 0)"
    using mq_wfE [OF assms(1)] by blast
  have "cell_seq (mq_buffer s ! mq_index s (mq_deq_pos s)) = mq_deq_pos s + 1"
    using c [of 0] assms(2) by (simp add: mq_cell_at_def)
  then show ?thesis
    by (simp add: mq_dequeue_def run_alone_unfold mq_cell_at_def mq_index_def)
qed

lemma mq_dequeue_empty:
  assumes "mq_wf s" "mq_used s = 0"
  shows "mq_dequeue s = (if unat (mq_deq_pos s) + 1 = 2 ^ 63 then None else Some (None, s))"
proof -
  obtain b where c: "\<And>j. j < 2 ^ b \<Longrightarrow> cell_seq (mq_cell_at s j) = mq_deq_pos s + of_nat j + (if j < mq_used s then 1 else 0)"
    using mq_wfE [OF assms(1)] by blast
  have "cell_seq (mq_buffer s ! mq_index s (mq_deq_pos s)) = mq_deq_pos s"
    using c [of 0] assms(2) by (simp add: mq_cell_at_def)
  then show ?thesis
    by (simp add: mq_dequeue_def run_alone_unfold run_alone.simps [where n = 0] mq_dif_next)
qed

text \<open>The state after a successful call.\<close>

lemma mq_used_bound: "mq_geom b s \<Longrightarrow> length (mq_buffer s) = 2 ^ b \<Longrightarrow> (2::nat) ^ b \<le> 2 ^ 63"
  by (rule power_increasing) (simp_all add: mq_geom_def)

lemma mq_cell_eq: "c\<lparr>cell_data := v, cell_seq := q\<rparr> = \<lparr>cell_seq = q, cell_data = v\<rparr>" for c :: "'a mq_cell"
  by (cases c) simp

lemma mq_after_enqueue:
  assumes wf: "mq_wf s" "mq_used s < mq_cap s" and e: "mq_enqueue v s = Some (r, s')"
  shows "mq_wf s' \<and> mq_cap s' = mq_cap s \<and> mq_enq_pos s' = mq_enq_pos s + 1 \<and> mq_deq_pos s' = mq_deq_pos s
    \<and> mq_contents s' = mq_contents s @ [v]"
proof -
  obtain b where b: "mq_geom b s" "length (mq_buffer s) = 2 ^ b" "b < 64"
    and c: "\<And>j. j < 2 ^ b \<Longrightarrow> cell_seq (mq_cell_at s j) = mq_deq_pos s + of_nat j + (if j < mq_used s then 1 else 0)"
    using mq_wfE [OF wf(1)] by blast
  let ?k = "mq_used s" and ?i = "mq_index s (mq_enq_pos s)"
  have k: "?k < 2 ^ b" using wf(2) b(2) by (simp add: mq_cap_def)
  have i: "?i < length (mq_buffer s)" using b(1) by (rule mq_index_in)
  have s': "s' = mq_set_seq (mq_set_data (s\<lparr>mq_enq_pos := mq_enq_pos s + 1\<rparr>) (mq_enq_pos s) v)
      (mq_enq_pos s) (mq_enq_pos s + 1)"
    using mq_enqueue_room [OF wf, of v] e by simp
  have buf: "mq_buffer s' = (mq_buffer s)[?i := \<lparr>cell_seq = mq_enq_pos s + 1, cell_data = v\<rparr>]"
    using i by (simp add: s' mq_set_seq_def mq_set_data_def mq_index_def mq_cell_eq)
  have keep: "mq_deq_pos s' = mq_deq_pos s" "mq_index s' = mq_index s" "mq_enq_pos s' = mq_enq_pos s + 1"
    by (simp_all add: s' mq_set_seq_def mq_set_data_def mq_index_def fun_eq_iff)
  have g': "mq_geom b s'" using b(1) by (simp add: s')
  have "mq_enq_pos s + 1 - mq_deq_pos s = of_nat (Suc ?k)" by (simp add: mq_enq_pos_eq [of s])
  moreover have "Suc ?k < 2 ^ 64" using k mq_used_bound [OF b(1,2)] by simp
  ultimately have used: "mq_used s' = Suc ?k"
    unfolding mq_used_def [of s'] keep by (simp only: unat_of_nat_64)
  have at: "mq_cell_at s' j = (if j = ?k then \<lparr>cell_seq = mq_enq_pos s + 1, cell_data = v\<rparr> else mq_cell_at s j)"
    if j: "j < 2 ^ b" for j
  proof (cases "j = ?k")
    case True
    then show ?thesis
      using i by (simp add: mq_cell_at_def buf keep flip: mq_enq_pos_eq)
  next
    case False
    then have "mq_index s (mq_deq_pos s + of_nat j) \<noteq> ?i"
      using add_mod_inj [OF j k] by (auto simp: mq_enq_pos_eq [of s] mq_cell_index [OF b(1)])
    with False show ?thesis by (simp add: mq_cell_at_def buf keep)
  qed
  have "cell_seq (mq_cell_at s' j) = mq_deq_pos s' + of_nat j + (if j < mq_used s' then 1 else 0)"
    if "j < 2 ^ b" for j
    using at [OF that] c [OF that] by (simp add: keep used mq_enq_pos_eq [of s])
  moreover have "mq_contents s' = mq_contents s @ [v]"
    using at k by (simp add: mq_contents_def used)
  ultimately show ?thesis
    using g' k used b(2) buf keep by (auto simp: mq_wf_def mq_cap_def)
qed

lemma mq_after_dequeue:
  assumes wf: "mq_wf s" "0 < mq_used s" and e: "mq_dequeue s = Some (r, s')"
  shows "mq_wf s' \<and> mq_cap s' = mq_cap s \<and> mq_enq_pos s' = mq_enq_pos s \<and> mq_deq_pos s' = mq_deq_pos s + 1
    \<and> (\<exists>x xs. mq_contents s = x # xs \<and> r = Some x \<and> mq_contents s' = xs)"
proof -
  obtain b where b: "mq_geom b s" "length (mq_buffer s) = 2 ^ b" "b < 64" "mq_used s \<le> 2 ^ b"
    and c: "\<And>j. j < 2 ^ b \<Longrightarrow> cell_seq (mq_cell_at s j) = mq_deq_pos s + of_nat j + (if j < mq_used s then 1 else 0)"
    using mq_wfE [OF wf(1)] by blast
  let ?k = "mq_used s" and ?i = "mq_index s (mq_deq_pos s)" and ?q = "mq_deq_pos s + mq_mask s + 1"
  have i: "?i < length (mq_buffer s)" using b(1) by (rule mq_index_in)
  have rs: "r = Some (cell_data (mq_cell_at s 0))"
      "s' = mq_set_seq (s\<lparr>mq_deq_pos := mq_deq_pos s + 1\<rparr>) (mq_deq_pos s) ?q"
    using mq_dequeue_some [OF wf] e by simp_all
  have buf: "mq_buffer s' = (mq_buffer s)[?i := (mq_buffer s ! ?i)\<lparr>cell_seq := ?q\<rparr>]"
    by (simp add: rs(2) mq_set_seq_def mq_index_def)
  have keep: "mq_deq_pos s' = mq_deq_pos s + 1" "mq_index s' = mq_index s" "mq_enq_pos s' = mq_enq_pos s"
    by (simp_all add: rs(2) mq_set_seq_def mq_index_def fun_eq_iff)
  have g': "mq_geom b s'" using b(1) by (simp add: rs(2))
  have "mq_enq_pos s - (mq_deq_pos s + 1) = of_nat (?k - 1)"
    using wf(2) by (simp add: mq_enq_pos_eq [of s] of_nat_diff)
  moreover have "?k - 1 < 2 ^ 64" using b(4) mq_used_bound [OF b(1,2)] by simp
  ultimately have used: "mq_used s' = ?k - 1"
    unfolding mq_used_def [of s'] keep by (simp only: unat_of_nat_64)
  have q: "?q = mq_deq_pos s + of_nat (2 ^ b)"
    using b(1) by (simp add: mq_geom_def mask_eq_exp_minus_1)
  have at: "mq_cell_at s' j = mq_cell_at s (Suc j)" if "Suc j < 2 ^ b" for j
  proof -
    have "mq_index s (mq_deq_pos s + of_nat (Suc j)) \<noteq> mq_index s (mq_deq_pos s + of_nat 0)"
      using add_mod_inj [OF that, of 0] by (simp only: mq_cell_index [OF b(1)]) auto
    then show ?thesis by (simp add: mq_cell_at_def buf keep ac_simps)
  qed
  have last: "cell_seq (mq_cell_at s' (2 ^ b - 1)) = ?q"
  proof -
    have "mq_index s (mq_deq_pos s + of_nat (2 ^ b)) = ?i"
      using mq_cell_index [OF b(1), of "2 ^ b"] mq_cell_index [OF b(1), of 0] by simp
    moreover have "mq_deq_pos s + 1 + of_nat (2 ^ b - 1) = mq_deq_pos s + of_nat (2 ^ b)"
      by (simp add: of_nat_diff)
    ultimately show ?thesis using i by (simp add: mq_cell_at_def buf keep)
  qed
  have "cell_seq (mq_cell_at s' j) = mq_deq_pos s' + of_nat j + (if j < mq_used s' then 1 else 0)"
    if j: "j < 2 ^ b" for j
  proof (cases "Suc j < 2 ^ b")
    case True
    with at c [OF True] wf(2) show ?thesis by (auto simp: keep used)
  next
    case False
    with j have "j = 2 ^ b - 1" by simp
    with last q b(4) show ?thesis by (simp add: keep used of_nat_diff)
  qed
  moreover have "mq_contents s = cell_data (mq_cell_at s 0) # mq_contents s'"
  proof -
    have "[0..<?k] = 0 # map Suc [0..<?k - 1]" using wf(2) by (simp add: map_Suc_upt upt_conv_Cons)
    then show ?thesis using at b(4) by (simp add: mq_contents_def used)
  qed
  ultimately show ?thesis
    using g' used b(2,4) buf rs(1) keep by (auto simp: mq_wf_def mq_cap_def)
qed


section \<open>The interface of a bounded queue\<close>

lemma mq_contents_length [simp]: "length (mq_contents s) = mq_used s"
  by (simp add: mq_contents_def)

lemma mq_wf_used: "mq_wf s \<Longrightarrow> mq_used s \<le> mq_cap s"
  by (simp add: mq_wf_def mq_cap_def)

text \<open>Below \<open>2 ^ 63\<close> no subtraction overflows, so the contract holds for that many pushes.\<close>

definition mq_young :: "'a mq_state \<Rightarrow> bool" where
  "mq_young s \<longleftrightarrow> mq_wf s \<and> unat (mq_deq_pos s) + mq_used s + 1 < 2 ^ 63"

definition mq_left :: "'a mq_state \<Rightarrow> nat" where
  "mq_left s = 2 ^ 63 - (unat (mq_deq_pos s) + mq_used s + 2)"

text \<open>The answers of the calls, wherever the positions are.\<close>

lemma mq_enqueue_spec:
  assumes wf: "mq_wf s"
  shows "case mq_enqueue x s of None \<Rightarrow> mq_used s = mq_cap s \<and> mq_straddles s
    | Some (b, s') \<Rightarrow> \<not> (mq_used s = mq_cap s \<and> mq_straddles s)
        \<and> mq_wf s' \<and> mq_cap s' = mq_cap s \<and> mq_deq_pos s' = mq_deq_pos s
        \<and> spec_enq (mq_cap s) x (mq_contents s) = (b, mq_contents s') \<and> (b \<or> s' = s)"
proof (cases "mq_used s < mq_cap s")
  case True
  obtain s' where e: "mq_enqueue x s = Some (True, s')" using mq_enqueue_room [OF wf True] by simp
  with True mq_after_enqueue [OF wf True e] show ?thesis by (simp add: spec_enq_def)
next
  case False
  then have "mq_used s = mq_cap s" using mq_wf_used [OF wf] by simp
  with mq_enqueue_full [OF wf this, of x] wf show ?thesis by (simp add: spec_enq_def)
qed

lemma mq_dequeue_spec:
  assumes wf: "mq_wf s"
  shows "case mq_dequeue s of None \<Rightarrow> mq_used s = 0 \<and> unat (mq_deq_pos s) + 1 = 2 ^ 63
    | Some (r, s') \<Rightarrow> \<not> (mq_used s = 0 \<and> unat (mq_deq_pos s) + 1 = 2 ^ 63)
        \<and> mq_wf s' \<and> mq_cap s' = mq_cap s \<and> mq_deq_pos s' = mq_deq_pos s + (if r = None then 0 else 1)
        \<and> spec_deq (mq_contents s) = (r, mq_contents s')"
proof (cases "0 < mq_used s")
  case True
  obtain r s' where d: "mq_dequeue s = Some (r, s')" using mq_dequeue_some [OF wf True] by simp
  with True mq_after_dequeue [OF wf True d] show ?thesis by auto
next
  case False
  then have "mq_contents s = []" by (simp flip: length_0_conv)
  with False mq_dequeue_empty [OF wf] wf show ?thesis by simp
qed

lemma mq_young_enqueue:
  assumes "mq_young s" "0 < mq_left s" "mq_enqueue x s = Some (b, s')"
  shows "mq_young s' \<and> mq_left s \<le> Suc (mq_left s')"
proof -
  have "mq_wf s' \<and> mq_deq_pos s' = mq_deq_pos s \<and> spec_enq (mq_cap s) x (mq_contents s) = (b, mq_contents s')"
    using mq_enqueue_spec [of s x] assms(1,3) by (simp add: mq_young_def)
  moreover from this have "length (mq_contents s') \<le> Suc (length (mq_contents s))"
    by (cases "length (mq_contents s) < mq_cap s")
      (auto simp del: mq_contents_length simp: spec_enq_def dest: arg_cong [where f = length])
  ultimately show ?thesis using assms(1,2) by (simp add: mq_young_def mq_left_def)
qed

lemma mq_young_dequeue:
  assumes "mq_young s" "mq_dequeue s = Some (r, s')"
  shows "mq_young s' \<and> mq_left s \<le> mq_left s'"
proof -
  have m: "mq_wf s'" "mq_deq_pos s' = mq_deq_pos s + (if r = None then 0 else 1)"
    and c: "spec_deq (mq_contents s) = (r, mq_contents s')"
    using mq_dequeue_spec [of s] assms by (simp_all add: mq_young_def)
  have "unat (mq_deq_pos s') + mq_used s' = unat (mq_deq_pos s) + mq_used s"
  proof (cases "mq_contents s")
    case Nil
    with c have "r = None" "mq_contents s' = []" by simp_all
    with Nil m(2) show ?thesis using mq_contents_length [of s] mq_contents_length [of s'] by simp
  next
    case (Cons y ys)
    with c have "r = Some y" "mq_contents s' = ys" by simp_all
    with Cons have "r = Some y" "mq_used s = Suc (mq_used s')"
      using mq_contents_length [of s] mq_contents_length [of s'] by simp_all
    with m(2) assms(1) show ?thesis by (simp add: mq_young_def unat_add_no_wrap)
  qed
  with m(1) assms(1) show ?thesis by (simp add: mq_young_def mq_left_def)
qed

lemma mq_young_defined:
  assumes "mq_young s"
  shows "mq_enqueue x s = Some (the (mq_enqueue x s))" "mq_dequeue s = Some (the (mq_dequeue s))"
proof -
  have wf: "mq_wf s" and lt: "unat (mq_deq_pos s) + mq_used s + 1 < 2 ^ 63" using assms by (simp_all add: mq_young_def)
  have "unat (mq_enq_pos s) \<le> unat (mq_deq_pos s) + mq_used s"
    unfolding mq_enq_pos_eq [of s] using lt by (simp add: unat_add_no_wrap unat_of_nat_64)
  with lt have "\<not> mq_straddles s" by (simp add: mq_straddles_def)
  with mq_enqueue_spec [OF wf, of x] show "mq_enqueue x s = Some (the (mq_enqueue x s))"
    by (auto split: option.splits)
  from lt mq_dequeue_spec [OF wf] show "mq_dequeue s = Some (the (mq_dequeue s))"
    by (auto split: option.splits)
qed

interpretation mqs: bounded_fifo "\<lambda>x s. the (mq_enqueue x s)" "\<lambda>s. the (mq_dequeue s)" mq_contents mq_young
    mq_cap mq_left
proof
  fix s :: "'a mq_state" and x b s'
  assume y: "mq_young s" "0 < mq_left s" and e: "the (mq_enqueue x s) = (b, s')"
  have e': "mq_enqueue x s = Some (b, s')" using mq_young_defined(1) [OF y(1), of x] unfolding e .
  with mq_enqueue_spec [of s x] y(1) mq_young_enqueue [OF y e']
  show "mq_young s' \<and> mq_cap s' = mq_cap s \<and> mq_left s \<le> Suc (mq_left s')
      \<and> spec_enq (mq_cap s) x (mq_contents s) = (b, mq_contents s')"
    by (simp add: mq_young_def)
next
  fix s :: "'a mq_state" and x s'
  assume y: "mq_young s" and e: "the (mq_enqueue x s) = (False, s')"
  have "mq_enqueue x s = Some (False, s')" using mq_young_defined(1) [OF y, of x] unfolding e .
  with mq_enqueue_spec [of s x] y show "s' = s" by (simp add: mq_young_def)
next
  fix s :: "'a mq_state" and r s'
  assume y: "mq_young s" and d: "the (mq_dequeue s) = (r, s')"
  have d': "mq_dequeue s = Some (r, s')" using mq_young_defined(2) [OF y] unfolding d .
  with mq_dequeue_spec [of s] y mq_young_dequeue [OF y d']
  show "mq_young s' \<and> mq_cap s' = mq_cap s \<and> mq_left s \<le> mq_left s' \<and> spec_deq (mq_contents s) = (r, mq_contents s')"
    by (simp add: mq_young_def)
next
  fix s :: "'a mq_state"
  assume "mq_young s"
  then show "length (mq_contents s) \<le> mq_cap s" by (simp add: mq_young_def mq_wf_used)
qed

lemma mq_init_wf:
  assumes "mq_init d0 sz = Some s"
  shows "mq_wf s \<and> mq_contents s = [] \<and> mq_cap s = unat sz"
proof -
  from assms have sz: "1 < sz" "sz AND (sz - 1) = 0"
    and s: "s = \<lparr>mq_buffer = map (\<lambda>i. \<lparr>cell_seq = of_nat i, cell_data = d0\<rparr>) [0..<unat sz],
      mq_mask = sz - 1, mq_enq_pos = 0, mq_deq_pos = 0\<rparr>"
    by (auto simp: mq_init_def split: if_splits)
  obtain b where b: "0 < b" "b < 64" "unat sz = 2 ^ b" "sz - 1 = mask b"
    using sz by (rule power_of_two_64)
  have g: "mq_geom b s" using b s by (simp add: mq_geom_def)
  have "cell_seq (mq_cell_at s j) = of_nat j" if "j < unat sz" for j
    using that mq_cell_index [OF g, of j] b(3) by (simp add: mq_cell_at_def s)
  with g s show ?thesis
    by (auto simp: mq_wf_def mq_used_def mq_contents_def mq_cap_def)
qed


section \<open>Properties\<close>

text \<open>C19. Calls that do not overlap see exactly the bounded queue on lists, from any state of the
  queue and wherever the 64-bit positions are: within five accesses \<open>try_enqueue\<close> appends or,
  exactly when \<open>size\<close> values are inside, refuses without a change, and \<open>try_dequeue\<close>
  takes the oldest value or reports an empty queue. The calls that have no answer are exactly those
  whose signed subtraction overflows: a push into a full queue when the positions of the oldest
  value and of the push lie on different sides of \<open>2 ^ 63\<close>, and a pop of an empty queue at
  \<open>2 ^ 63 - 1\<close>.\<close>

theorem mpmc_refines_bounded_queue:
  assumes "mq_wf s"
  shows "(case mq_enqueue x s of
        None \<Rightarrow> length (mq_contents s) = mq_cap s
          \<and> unat (mq_deq_pos s + 1) < 2 ^ 63 \<and> 2 ^ 63 \<le> unat (mq_enq_pos s)
      | Some (b, s') \<Rightarrow> mq_wf s' \<and> mq_cap s' = mq_cap s
          \<and> spec_enq (mq_cap s) x (mq_contents s) = (b, mq_contents s') \<and> (b \<or> s' = s)
          \<and> \<not> (length (mq_contents s) = mq_cap s
               \<and> unat (mq_deq_pos s + 1) < 2 ^ 63 \<and> 2 ^ 63 \<le> unat (mq_enq_pos s)))
    \<and> (case mq_dequeue s of
        None \<Rightarrow> mq_contents s = [] \<and> unat (mq_deq_pos s) + 1 = 2 ^ 63
      | Some (r, s') \<Rightarrow> mq_wf s' \<and> mq_cap s' = mq_cap s
          \<and> spec_deq (mq_contents s) = (r, mq_contents s')
          \<and> \<not> (mq_contents s = [] \<and> unat (mq_deq_pos s) + 1 = 2 ^ 63))"
proof -
  have "mq_contents s = [] \<longleftrightarrow> mq_used s = 0" by (simp flip: length_0_conv)
  then show ?thesis
    using mq_enqueue_spec [OF assms, of x] mq_dequeue_spec [OF assms]
    by (auto simp: mq_straddles_def split: option.splits)
qed

text \<open>The constructor's queue is well formed; so is an empty one of two cells at \<open>2 ^ 63 - 1\<close>, where
  a pop is undefined.\<close>

definition mq_edge :: "nat mq_state" where
  "mq_edge = \<lparr>mq_buffer = [\<lparr>cell_seq = 0x8000000000000000, cell_data = 0\<rparr>, \<lparr>cell_seq = 0x7FFFFFFFFFFFFFFF, cell_data = 0\<rparr>],
     mq_mask = 1, mq_enq_pos = 0x7FFFFFFFFFFFFFFF, mq_deq_pos = 0x7FFFFFFFFFFFFFFF\<rparr>"

lemma mq_wf_edge: "mq_wf mq_edge"
  by (auto simp: mq_edge_def mq_wf_def mq_geom_def mq_used_def mq_cell_at_def mq_index_def less_Suc_eq numeral_2_eq_2
      mask_eq_exp_minus_1 intro!: exI [of _ 1])

theorem mpmc_refines_bounded_queue_witness:
  "(\<exists>s'. mq_enqueue 5 (the (mq_init (0 :: nat) 2)) = Some (True, s') \<and> mq_contents s' = [5])
   \<and> mq_dequeue mq_edge = None"
proof -
  have wf: "mq_wf (the (mq_init (0 :: nat) 2))" "mq_contents (the (mq_init (0 :: nat) 2)) = []"
    "mq_cap (the (mq_init (0 :: nat) 2)) = 2"
    using mq_init_wf [OF mq_init_two, of "0 :: nat"] by (simp_all add: mq_init_two)
  have used: "mq_used (the (mq_init (0 :: nat) 2)) = 0" by (simp add: mq_init_two mq_used_def)
  have "\<exists>s'. mq_enqueue 5 (the (mq_init (0 :: nat) 2)) = Some (True, s') \<and> mq_contents s' = [5]"
    using mpmc_refines_bounded_queue [OF wf(1), of 5, THEN conjunct1] wf used
    by (auto simp: spec_enq_def split: option.splits)
  moreover have "mq_contents mq_edge = []"
    by (simp add: mq_edge_def mq_contents_def mq_used_def)
  ultimately show ?thesis
    using mpmc_refines_bounded_queue [OF mq_wf_edge, THEN conjunct2]
    by (auto simp: mq_edge_def split: option.splits)
qed

text \<open>First in, first out, from the constructor on: \<open>size\<close> values or fewer, pushed one after
  another into a new queue, are all accepted and come out in the same order, and then the queue is
  empty. The constructor's \<open>assert\<close> accepts the size exactly when it is a power of two from 2 on.\<close>

theorem mpmc_fifo_from_init:
  assumes "mq_init d0 sz = Some s" "length xs \<le> unat sz" "unat sz < 2 ^ 63"
    and "enq_all (\<lambda>x s. the (mq_enqueue x s)) xs s = (bs, s1)"
    and "deq_many (\<lambda>s. the (mq_dequeue s)) (length xs) s1 = (rs, s2)"
  shows "bs = replicate (length xs) True \<and> rs = map Some xs \<and> mq_dequeue s2 = Some (None, s2)
    \<and> (\<exists>b > 0. unat sz = 2 ^ b)"
proof -
  obtain b where b: "0 < b" "unat sz = 2 ^ b"
    using assms(1) power_of_two_64 [of sz] by (auto simp: mq_init_def split: if_splits)
  have "(2::nat) ^ b < 2 ^ 63" using assms(3) b(2) by simp
  then have "b < 63" by (rule power_less_imp_less_exp [rotated]) simp
  then have "(2::nat) ^ b \<le> 2 ^ 62" by (intro power_increasing) simp_all
  moreover have s: "mq_wf s" "mq_contents s = []" "mq_cap s = unat sz" using mq_init_wf [OF assms(1)] by simp_all
  moreover have "mq_deq_pos s = 0" "mq_used s = 0"
    using assms(1) by (auto simp: mq_init_def mq_used_def split: if_splits)
  ultimately have y: "mq_young s" "length xs \<le> min (mq_left s) (mq_cap s - length (mq_contents s))"
    using assms(2) b(2) by (simp_all add: mq_young_def mq_left_def)
  then have bs: "mq_young s1 \<and> mq_contents s1 = xs \<and> bs = replicate (length xs) True"
    using mqs.as_fifo.enq_all_contents [OF y assms(4)] s by simp
  with mqs.as_fifo.deq_many_contents [OF _ _ assms(5)]
  have rs: "mq_young s2" "mq_contents s2 = []" "rs = map Some xs" by simp_all
  then have "mq_used s2 = 0" by (metis mq_contents_length list.size(3))
  with rs(1) have "mq_dequeue s2 = Some (None, s2)" by (simp add: mq_dequeue_empty mq_young_def)
  then show ?thesis using bs rs b by blast
qed

theorem mpmc_fifo_from_init_witness:
  "fst (deq_many (\<lambda>s. the (mq_dequeue s)) (length [8, 9 :: nat])
     (snd (enq_all (\<lambda>x s. the (mq_enqueue x s)) [8, 9] (the (mq_init (0 :: nat) 2))))) = map Some [8, 9]"
proof -
  let ?enq = "\<lambda>x s. the (mq_enqueue x s)" and ?deq = "\<lambda>s. the (mq_dequeue s)"
  have i: "mq_init (0 :: nat) 2 = Some (the (mq_init 0 2))" by (simp add: mq_init_two)
  obtain bs s1 where 1: "enq_all ?enq [8, 9] (the (mq_init (0 :: nat) 2)) = (bs, s1)"
    by (cases "enq_all ?enq [8, 9] (the (mq_init (0 :: nat) 2))")
  obtain rs s2 where 2: "deq_many ?deq (length [8, 9 :: nat]) s1 = (rs, s2)"
    by (cases "deq_many ?deq (length [8, 9 :: nat]) s1")
  have "length [8, 9 :: nat] \<le> unat (2 :: u64)" "unat (2 :: u64) < 2 ^ 63" by simp_all
  from mpmc_fifo_from_init [OF i this 1 2] have "rs = map Some [8, 9]" by blast
  then show ?thesis unfolding 1 snd_conv 2 fst_conv .
qed

end
