(* ===== verification/Heap_Chain.thy ===== *)
theory Heap_Chain
  imports Interfaces
begin

text \<open>
  The heap of the linked queues: a partial function from addresses to nodes. \<open>new\<close> takes a
  fresh address, \<open>delete\<close> takes the address out of the domain, and an access to an address
  outside the domain is a crash of the program. A chain is the list of nodes that the fields
  \<open>next\<close> connect. Shared by \<open>Sutter_Queue\<close>, \<open>Mpsc_Queue\<close> and \<open>Spsc_Queue\<close>.
\<close>

record 'a qnode =
  node_next :: "nat option"
  node_value :: 'a

type_synonym 'a qheap = "nat \<rightharpoonup> 'a qnode"

definition set_next :: "nat \<Rightarrow> nat option \<Rightarrow> 'a qheap \<Rightarrow> 'a qheap" where
  "set_next a q h = h(a := map_option (\<lambda>n. n\<lparr>node_next := q\<rparr>) (h a))"

definition set_value :: "nat \<Rightarrow> 'a \<Rightarrow> 'a qheap \<Rightarrow> 'a qheap" where
  "set_value a v h = h(a := map_option (\<lambda>n. n\<lparr>node_value := v\<rparr>) (h a))"

definition delete_node :: "nat \<Rightarrow> 'a qheap \<Rightarrow> 'a qheap" where
  "delete_node a h = h(a := None)"

text \<open>The node that \<open>a->next\<close> points to, when \<open>a\<close> is alive and \<open>next\<close> is not null; used
  where the code follows the pointer at once.\<close>

definition follow :: "'a qheap \<Rightarrow> nat \<Rightarrow> nat option" where
  "follow h a = Option.bind (h a) node_next"

fun head_of :: "(nat \<times> 'a) list \<Rightarrow> nat option \<Rightarrow> nat option" where
  "head_of [] q = q"
| "head_of ((a, v) # cs) q = Some a"

fun chain :: "'a qheap \<Rightarrow> (nat \<times> 'a) list \<Rightarrow> nat option \<Rightarrow> bool" where
  "chain h [] q = True"
| "chain h ((a, v) # cs) q \<longleftrightarrow>
     h a = Some \<lparr>node_next = head_of cs q, node_value = v\<rparr> \<and> chain h cs q"

lemma head_of_append [simp]: "head_of (cs @ ds) q = head_of cs (head_of ds q)"
  by (cases cs) auto

lemma head_of_Some: "cs \<noteq> [] \<Longrightarrow> head_of cs q = Some (fst (hd cs))"
  by (cases cs) auto

lemma chain_append [simp]: "chain h (cs @ ds) q \<longleftrightarrow> chain h cs (head_of ds q) \<and> chain h ds q"
  by (induction cs) auto

lemma chain_upd [simp]: "a \<notin> fst ` set cs \<Longrightarrow> chain (h(a := x)) cs q = chain h cs q"
  by (induction cs) auto

lemma chain_set_next [simp]: "a \<notin> fst ` set cs \<Longrightarrow> chain (set_next a r h) cs q = chain h cs q"
  by (simp add: set_next_def)

lemma chain_set_value [simp]: "a \<notin> fst ` set cs \<Longrightarrow> chain (set_value a v h) cs q = chain h cs q"
  by (simp add: set_value_def)

lemma set_next_apply: "set_next a q h b = (if b = a then map_option (\<lambda>n. n\<lparr>node_next := q\<rparr>) (h a) else h b)"
  by (simp add: set_next_def)

lemma dom_set_next [simp]: "dom (set_next a q h) = dom h"
  by (auto simp: set_next_def)

lemma dom_set_value [simp]: "dom (set_value a v h) = dom h"
  by (auto simp: set_value_def)

lemma chain_dom: "chain h cs q \<Longrightarrow> fst ` set cs \<subseteq> dom h"
  by (induction cs) fastforce+

lemma chain_delete [simp]: "a \<notin> fst ` set cs \<Longrightarrow> chain (delete_node a h) cs q = chain h cs q"
  by (simp add: delete_node_def)

lemma dom_delete [simp]: "dom (delete_node a h) = dom h - {a}"
  by (auto simp: delete_node_def)

text \<open>The last node of a chain is linked to a new one.\<close>

lemma chain_link:
  assumes "chain h (cs @ [(a, v)]) None" "distinct (map fst (cs @ [(a, v), (n, w)]))"
    and "h n = Some \<lparr>node_next = None, node_value = w\<rparr>"
  shows "chain (set_next a (Some n) h) (cs @ [(a, v), (n, w)]) None"
  using assms by (auto simp: set_next_apply)

lemma follow_chain: "chain h ((a, v) # (b, w) # cs) q \<Longrightarrow> follow h a = Some b"
  by (simp add: follow_def)

text \<open>The values of the nodes after \<open>a\<close>, up to the node \<open>l\<close> or to the end.\<close>

fun values_after :: "nat \<Rightarrow> 'a qheap \<Rightarrow> nat \<Rightarrow> nat option \<Rightarrow> 'a list" where
  "values_after 0 h a l = []"
| "values_after (Suc fuel) h a l =
     (if Some a = l then []
      else (case follow h a of
              None \<Rightarrow> []
            | Some b \<Rightarrow> (case h b of
                  None \<Rightarrow> []
                | Some x \<Rightarrow> node_value x # values_after fuel h b l)))"

lemma values_after_last:
  "chain h ((a, x) # ys @ zs) q \<Longrightarrow> distinct (map fst ((a, x) # ys @ zs)) \<Longrightarrow> length ys < fuel \<Longrightarrow>
    values_after fuel h a (Some (fst (last ((a, x) # ys)))) = map snd ys"
proof (induction ys arbitrary: a x fuel)
  case Nil
  then show ?case by (cases fuel) auto
next
  case (Cons y ys)
  obtain b w where y: "y = (b, w)" by (cases y)
  obtain m where m: "fuel = Suc m" using Cons.prems(3) by (cases fuel) auto
  have "fst (last ((b, w) # ys)) \<in> fst ` set ((b, w) # ys)" by (intro imageI last_in_set) simp
  then have "a \<noteq> fst (last ((b, w) # ys))" using Cons.prems(2) y by auto
  moreover have "follow h a = Some b" using Cons.prems(1) y by (simp add: follow_def)
  moreover have "values_after m h b (Some (fst (last ((b, w) # ys)))) = map snd ys"
    using Cons.IH [of b w m] Cons.prems y m by simp
  ultimately show ?case using Cons.prems(1) y m by auto
qed

lemma values_after_end:
  "chain h ((a, x) # ys) None \<Longrightarrow> length ys < fuel \<Longrightarrow> values_after fuel h a None = map snd ys"
proof (induction ys arbitrary: a x fuel)
  case Nil
  then show ?case by (cases fuel) (auto simp: follow_def)
next
  case (Cons y ys)
  obtain b w where y: "y = (b, w)" by (cases y)
  obtain m where m: "fuel = Suc m" using Cons.prems(2) by (cases fuel) auto
  with Cons y show ?case by (auto simp: follow_def)
qed

text \<open>Addresses below a bound: a chain is no longer than the bound.\<close>

lemma chain_length: "distinct (map fst cs) \<Longrightarrow> \<forall>a \<in> fst ` set cs. a < n \<Longrightarrow> length cs \<le> n"
  using card_mono [of "{..<n}" "fst ` set cs"] distinct_card [of "map fst cs"] by (auto simp: subset_iff)

text \<open>The walk of the destructors: follow \<open>next\<close>, delete each node. The outcome is the heap, or
  nothing when a node is accessed or deleted twice, or when the fuel is used up.\<close>

fun free_chain :: "nat \<Rightarrow> 'a qheap \<Rightarrow> nat option \<Rightarrow> 'a qheap option" where
  "free_chain fuel h None = Some h"
| "free_chain 0 h (Some a) = None"
| "free_chain (Suc fuel) h (Some a) =
     (case h a of
        None \<Rightarrow> None
      | Some n \<Rightarrow> free_chain fuel (delete_node a h) (node_next n))"

lemma free_chain_chain:
  assumes "chain h cs None" "distinct (map fst cs)" "dom h = fst ` set cs"
  shows "free_chain (length cs) h (head_of cs None) = Some Map.empty"
  using assms
proof (induction cs arbitrary: h)
  case Nil
  then show ?case by simp
next
  case (Cons c cs)
  obtain a v where c: "c = (a, v)" by (cases c)
  from Cons.prems c have notin: "a \<notin> fst ` set cs" by auto
  then have "dom (delete_node a h) = fst ` set cs" using Cons.prems(3) c by auto
  with Cons.IH [of "delete_node a h"] Cons.prems c notin show ?case by simp
qed

lemma free_chain_mono: "free_chain m h p = Some r \<Longrightarrow> m \<le> n \<Longrightarrow> free_chain n h p = Some r"
proof (induction m h p arbitrary: n rule: free_chain.induct)
  case (1 fuel h)
  then show ?case by simp
next
  case (2 h a)
  then show ?case by simp
next
  case (3 fuel h a)
  then obtain x where x: "h a = Some x" "free_chain fuel (delete_node a h) (node_next x) = Some r"
    by (auto split: option.splits)
  from "3.prems"(2) obtain n' where "n = Suc n'" "fuel \<le> n'" by (cases n) auto
  with x "3.IH" [OF x] show ?case by simp
qed

end
