(* ===== verification/Mpsc_Queue.thy ===== *)
theory Mpsc_Queue
  imports Heap_Chain
begin

text \<open>
  The class \<open>mpsc_queue\<close> of \<open>containers/queue/mpsc_queue.h\<close>, with both allocation policies.
  Thread 0 is the consumer, every other thread is a producer. A producer takes its place in the
  queue with the exchange of \<open>m_head\<close> and links its node in a second access; between the two
  the chain is open. \<open>MpCrash\<close> is an access to a null pointer or to a deleted node.
\<close>

datatype alloc_policy = Buffered | New_Only

record 'a mp_state =
  mp_heap :: "'a qheap"
  mp_fresh :: nat
  mp_tail :: nat
  mp_head :: nat
  mp_buffer_head :: nat

datatype 'a mp_pc =
  MpIdle
| MpNew 'a              \<comment> \<open>enqueue: before \<open>new node\<close>\<close>
| MpBuffer 'a           \<comment> \<open>alloc_node: before \<open>m_buffer_head.load\<close>\<close>
| MpTest 'a nat         \<comment> \<open>alloc_node: before the comparison with \<open>m_tail\<close>\<close>
| MpNextOf 'a nat       \<comment> \<open>alloc_node: before \<open>new_node->next\<close> is read\<close>
| MpCas 'a nat nat      \<comment> \<open>alloc_node: before the compare_exchange\<close>
| MpFill 'a nat         \<comment> \<open>alloc_node: before the node is filled\<close>
| MpExchange nat        \<comment> \<open>enqueue: before the exchange of \<open>m_head\<close>\<close>
| MpLink nat nat        \<comment> \<open>enqueue: before \<open>old_head->next = new_node\<close>\<close>
| MpEnqueued
| MpNext                \<comment> \<open>try_dequeue: before \<open>m_tail->next\<close> is read\<close>
| MpValue nat           \<comment> \<open>try_dequeue: before the value is moved out\<close>
| MpAdvance nat 'a      \<comment> \<open>try_dequeue: before \<open>m_tail = popped\<close>\<close>
| MpReset nat 'a        \<comment> \<open>try_dequeue: before \<open>m_tail->value = {}\<close>\<close>
| MpDelete nat 'a       \<comment> \<open>try_dequeue: before \<open>delete old_tail\<close>\<close>
| MpDequeued "'a option"
| MpCrash

definition mp_init :: "'a \<Rightarrow> 'a mp_state" where
  "mp_init d = \<lparr>mp_heap = [0 \<mapsto> \<lparr>node_next = None, node_value = d\<rparr>], mp_fresh = 1,
     mp_tail = 0, mp_head = 0, mp_buffer_head = 0\<rparr>"

definition mp_new :: "'a \<Rightarrow> 'a mp_state \<Rightarrow> 'a mp_pc \<times> 'a mp_state" where
  "mp_new v s = (MpExchange (mp_fresh s),
     s\<lparr>mp_heap := (mp_heap s)(mp_fresh s \<mapsto> \<lparr>node_next = None, node_value = v\<rparr>),
       mp_fresh := mp_fresh s + 1\<rparr>)"

fun mp_alloc_node :: "'a mp_pc \<Rightarrow> 'a mp_state \<Rightarrow> 'a mp_pc \<times> 'a mp_state" where
  "mp_alloc_node (MpBuffer v) s = (MpTest v (mp_buffer_head s), s)"
| "mp_alloc_node (MpTest v n) s = (if n \<noteq> mp_tail s then (MpNextOf v n, s) else mp_new v s)"
| "mp_alloc_node (MpNextOf v n) s =
     (case follow (mp_heap s) n of Some m \<Rightarrow> (MpCas v n m, s) | None \<Rightarrow> (MpCrash, s))"
| "mp_alloc_node (MpCas v n m) s =
     (if mp_buffer_head s = n then (MpFill v n, s\<lparr>mp_buffer_head := m\<rparr>)
      else (MpTest v (mp_buffer_head s), s))"
| "mp_alloc_node (MpFill v n) s =
     (if mp_heap s n = None then (MpCrash, s)
      else (MpExchange n, s\<lparr>mp_heap := set_next n None (set_value n v (mp_heap s))\<rparr>))"
| "mp_alloc_node p s = (p, s)"

fun mp_enqueue :: "'a mp_pc \<Rightarrow> 'a mp_state \<Rightarrow> 'a mp_pc \<times> 'a mp_state" where
  "mp_enqueue (MpNew v) s = mp_new v s"
| "mp_enqueue (MpExchange n) s = (MpLink (mp_head s) n, s\<lparr>mp_head := n\<rparr>)"
| "mp_enqueue (MpLink a n) s =
     (if mp_heap s a = None then (MpCrash, s)
      else (MpEnqueued, s\<lparr>mp_heap := set_next a (Some n) (mp_heap s)\<rparr>))"
| "mp_enqueue p s = mp_alloc_node p s"

fun mp_try_dequeue :: "alloc_policy \<Rightarrow> 'a \<Rightarrow> 'a mp_pc \<Rightarrow> 'a mp_state \<Rightarrow> 'a mp_pc \<times> 'a mp_state" where
  "mp_try_dequeue pol d MpNext s =
     (case mp_heap s (mp_tail s) of
        None \<Rightarrow> (MpCrash, s)
      | Some t \<Rightarrow> (case node_next t of
            None \<Rightarrow> (MpDequeued None, s)
          | Some n \<Rightarrow> (MpValue n, s)))"
| "mp_try_dequeue pol d (MpValue n) s =
     (case mp_heap s n of None \<Rightarrow> (MpCrash, s) | Some x \<Rightarrow> (MpAdvance n (node_value x), s))"
| "mp_try_dequeue pol d (MpAdvance n v) s = (MpReset (mp_tail s) v, s\<lparr>mp_tail := n\<rparr>)"
| "mp_try_dequeue pol d (MpReset a v) s =
     (if mp_heap s (mp_tail s) = None then (MpCrash, s)
      else (case pol of New_Only \<Rightarrow> MpDelete a v | Buffered \<Rightarrow> MpDequeued (Some v),
            s\<lparr>mp_heap := set_value (mp_tail s) d (mp_heap s)\<rparr>))"
| "mp_try_dequeue pol d (MpDelete a v) s =
     (if mp_heap s a = None then (MpCrash, s)
      else (MpDequeued (Some v), s\<lparr>mp_heap := delete_node a (mp_heap s)\<rparr>))"
| "mp_try_dequeue pol d p s = (p, s)"

text \<open>The destructor.\<close>

definition mp_destroy :: "nat \<Rightarrow> 'a mp_state \<Rightarrow> 'a qheap option" where
  "mp_destroy fuel s = free_chain fuel (mp_heap s) (Some (mp_tail s))"

text \<open>A value is sent with the exchange, and got when \<open>m_tail\<close> moves to its node.\<close>

definition mp_record :: "'a mp_pc \<Rightarrow> 'a mp_state \<Rightarrow> 'a list \<times> 'a list \<Rightarrow> 'a list \<times> 'a list" where
  "mp_record p s w =
     (case p of
        MpExchange n \<Rightarrow> (case mp_heap s n of
            Some x \<Rightarrow> (fst w @ [node_value x], snd w)
          | None \<Rightarrow> w)
      | MpAdvance n v \<Rightarrow> (fst w, snd w @ [v])
      | _ \<Rightarrow> w)"

definition mp_step :: "alloc_policy \<Rightarrow> 'a \<Rightarrow> (nat \<Rightarrow> 'a list)
  \<Rightarrow> ('a mp_state \<times> 'a list \<times> 'a list, 'a mp_pc) thread_step"
where
  "mp_step pol d vals i p sh =
     (case p of
        MpIdle \<Rightarrow>
          (if i = 0 then [(MpNext, sh)]
           else map (\<lambda>v. (case pol of New_Only \<Rightarrow> MpNew v | Buffered \<Rightarrow> MpBuffer v, sh)) (vals i))
      | MpEnqueued \<Rightarrow> [(MpIdle, sh)]
      | MpDequeued r \<Rightarrow> [(MpIdle, sh)]
      | MpCrash \<Rightarrow> []
      | _ \<Rightarrow> (case (if i = 0 then mp_try_dequeue pol d else mp_enqueue) p (fst sh) of
                (p', s') \<Rightarrow> [(p', s', mp_record p (fst sh) (snd sh))]))"

definition mp_start :: "'a \<Rightarrow> ('a mp_state \<times> 'a list \<times> 'a list, 'a mp_pc) system \<Rightarrow> bool" where
  "mp_start d t \<longleftrightarrow> fst t = (mp_init d, [], []) \<and> snd t \<noteq> [] \<and> (\<forall>p \<in> set (snd t). p = MpIdle)"


section \<open>Open chains\<close>

text \<open>The nodes in the order of the exchanges; the nodes of \<open>P\<close> are not linked yet.\<close>

fun open_chain :: "'a qheap \<Rightarrow> nat set \<Rightarrow> (nat \<times> 'a) list \<Rightarrow> bool" where
  "open_chain h P [] = True"
| "open_chain h P [(a, v)] = (h a = Some \<lparr>node_next = None, node_value = v\<rparr>)"
| "open_chain h P ((a, v) # (b, w) # cs) \<longleftrightarrow>
     h a = Some \<lparr>node_next = (if a \<in> P then None else Some b), node_value = v\<rparr>
     \<and> open_chain h P ((b, w) # cs)"

fun next_to :: "(nat \<times> 'a) list \<Rightarrow> nat \<Rightarrow> nat \<Rightarrow> bool" where
  "next_to ((a, v) # (b, w) # cs) x y \<longleftrightarrow> x = a \<and> y = b \<or> next_to ((b, w) # cs) x y"
| "next_to _ x y = False"

lemma next_to_mem: "next_to cs a n \<Longrightarrow> a \<in> fst ` set cs \<and> n \<in> fst ` set cs"
  by (induction cs a n rule: next_to.induct) auto

lemma next_to_last: "distinct (map fst cs) \<Longrightarrow> next_to cs a n \<Longrightarrow> a \<noteq> fst (last cs)"
proof (induction cs a n rule: next_to.induct)
  case (1 a v b w cs x y)
  have "fst (last ((b, w) # cs)) \<in> fst ` set ((b, w) # cs)" by (intro imageI last_in_set) simp
  then have "fst (last ((b, w) # cs)) \<noteq> a" using "1.prems"(1) by auto
  with 1 show ?case by (auto split: if_splits)
qed auto

lemma next_to_snoc: "next_to (cs @ [(a, v), (n, w)]) x y \<longleftrightarrow> next_to (cs @ [(a, v)]) x y \<or> x = a \<and> y = n"
  by (induction cs rule: induct_list012) auto

lemma next_to_tl: "next_to ((a, v) # cs) x y \<Longrightarrow> x \<noteq> a \<Longrightarrow> next_to cs x y"
  by (cases cs) auto

lemma open_chain_dom: "open_chain h P cs \<Longrightarrow> fst ` set cs \<subseteq> dom h"
  by (induction h P cs rule: open_chain.induct) auto

lemma open_chain_cong:
  "(\<And>a. a \<in> fst ` set cs \<Longrightarrow> h' a = h a) \<Longrightarrow> (\<And>a. a \<in> fst ` set cs \<Longrightarrow> a \<noteq> fst (last cs) \<Longrightarrow> a \<in> P' \<longleftrightarrow> a \<in> P) \<Longrightarrow>
    distinct (map fst cs) \<Longrightarrow> open_chain h' P' cs = open_chain h P cs"
proof (induction h P cs rule: open_chain.induct)
  case (3 h P a v b w cs)
  have "fst (last ((b, w) # cs)) \<in> fst ` set ((b, w) # cs)" by (intro imageI last_in_set) simp
  then have "fst (last ((b, w) # cs)) \<noteq> a" using "3.prems"(3) by auto
  with "3.prems"(2) have "a \<in> P' \<longleftrightarrow> a \<in> P" by auto
  moreover have "h' a = h a" using "3.prems"(1) by simp
  moreover have "open_chain h' P' ((b, w) # cs) = open_chain h P ((b, w) # cs)"
    using "3.prems" by (intro "3.IH") auto
  ultimately show ?case by simp
qed auto

lemma open_chain_tl: "open_chain h P (c # cs) \<Longrightarrow> open_chain h P cs"
  by (cases c; cases cs) auto

lemma open_chain_snoc:
  "open_chain h P (cs @ [(a, v)]) \<Longrightarrow> a \<in> P \<Longrightarrow> h n = Some \<lparr>node_next = None, node_value = w\<rparr> \<Longrightarrow>
    open_chain h P (cs @ [(a, v), (n, w)])"
  by (induction cs rule: induct_list012) auto

lemma open_chain_link:
  "open_chain h P cs \<Longrightarrow> next_to cs a n \<Longrightarrow> distinct (map fst cs) \<Longrightarrow>
    open_chain (set_next a (Some n) h) (P - {a}) cs"
proof (induction h P cs rule: open_chain.induct)
  case (3 h P b v c w cs)
  show ?case
  proof (cases "a = b")
    case True
    with "3.prems" have "\<not> next_to ((c, w) # cs) a n" using next_to_mem by fastforce
    with "3.prems" True have n: "n = c" by auto
    have "open_chain (set_next b (Some c) h) (P - {b}) ((c, w) # cs) = open_chain h P ((c, w) # cs)"
      using "3.prems"(3) by (intro open_chain_cong) (auto simp: set_next_apply)
    moreover have "set_next b (Some c) h b = Some \<lparr>node_next = Some c, node_value = v\<rparr>"
      using "3.prems"(1) by (simp add: set_next_apply)
    ultimately show ?thesis using "3.prems"(1) True n by simp
  next
    case False
    with "3.prems" have "next_to ((c, w) # cs) a n" by auto
    moreover have "set_next a (Some n) h b = h b" using False by (simp add: set_next_apply)
    ultimately show ?thesis using "3.IH" "3.prems" False by auto
  qed
qed auto

lemma open_chain_closed: "open_chain h {} cs \<longleftrightarrow> chain h cs None"
  by (induction h "{} :: nat set" cs rule: open_chain.induct) auto

lemma open_chain_head: "open_chain h P ((a, v) # cs) \<Longrightarrow> \<exists>q. h a = Some \<lparr>node_next = q, node_value = v\<rparr>
    \<and> q = (if cs = [] \<or> a \<in> P then None else Some (fst (hd cs)))"
  by (cases cs) auto


section \<open>The invariant of the policy \<open>new_only\<close>\<close>

fun mp_owns :: "'a mp_pc \<Rightarrow> nat set" where
  "mp_owns (MpExchange n) = {n}"
| "mp_owns (MpReset a v) = {a}"
| "mp_owns (MpDelete a v) = {a}"
| "mp_owns p = {}"

fun mp_pend :: "'a mp_pc \<Rightarrow> nat set" where
  "mp_pend (MpLink a n) = {a}"
| "mp_pend p = {}"

definition mp_shape :: "'a mp_state \<Rightarrow> nat set \<Rightarrow> nat set \<Rightarrow> (nat \<times> 'a) list \<Rightarrow> bool" where
  "mp_shape s P Q cs \<longleftrightarrow> cs \<noteq> [] \<and> fst (hd cs) = mp_tail s \<and> fst (last cs) = mp_head s
     \<and> distinct (map fst cs) \<and> open_chain (mp_heap s) P cs
     \<and> dom (mp_heap s) = fst ` set cs \<union> Q \<and> fst ` set cs \<inter> Q = {}
     \<and> (\<forall>a \<in> dom (mp_heap s). a < mp_fresh s)"

fun mp_producer_ok :: "'a mp_state \<Rightarrow> (nat \<times> 'a) list \<Rightarrow> 'a mp_pc \<Rightarrow> bool" where
  "mp_producer_ok s cs MpIdle = True"
| "mp_producer_ok s cs (MpNew v) = True"
| "mp_producer_ok s cs (MpExchange n) = (\<exists>v. mp_heap s n = Some \<lparr>node_next = None, node_value = v\<rparr>)"
| "mp_producer_ok s cs (MpLink a n) = next_to cs a n"
| "mp_producer_ok s cs MpEnqueued = True"
| "mp_producer_ok s cs p = False"

fun mp_consumer_ok :: "nat set \<Rightarrow> (nat \<times> 'a) list \<Rightarrow> 'a mp_pc \<Rightarrow> bool" where
  "mp_consumer_ok P cs MpIdle = True"
| "mp_consumer_ok P cs MpNext = True"
| "mp_consumer_ok P cs (MpValue n) = (\<exists>c w ds. cs = c # (n, w) # ds \<and> fst c \<notin> P)"
| "mp_consumer_ok P cs (MpAdvance n v) = (\<exists>c ds. cs = c # (n, v) # ds \<and> fst c \<notin> P)"
| "mp_consumer_ok P cs (MpReset a v) = True"
| "mp_consumer_ok P cs (MpDelete a v) = True"
| "mp_consumer_ok P cs (MpDequeued r) = True"
| "mp_consumer_ok P cs p = False"

definition mp_ok :: "'a mp_state \<times> 'a list \<times> 'a list \<Rightarrow> (nat \<times> 'a) list \<Rightarrow> 'a mp_pc list \<Rightarrow> bool" where
  "mp_ok sh cs ps \<longleftrightarrow> ps \<noteq> [] \<and> claims_disjoint mp_owns ps \<and> claims_disjoint mp_pend ps
     \<and> mp_shape (fst sh) (claims mp_pend ps) (claims mp_owns ps) cs
     \<and> fst (snd sh) = snd (snd sh) @ map snd (tl cs)
     \<and> mp_consumer_ok (claims mp_pend ps) cs (ps ! 0)
     \<and> (\<forall>i < length ps. i \<noteq> 0 \<longrightarrow> mp_producer_ok (fst sh) cs (ps ! i))"

definition mp_inv :: "'a mp_state \<times> 'a list \<times> 'a list \<Rightarrow> 'a mp_pc list \<Rightarrow> bool" where
  [inv_defs]: "mp_inv sh ps \<longleftrightarrow> (\<exists>cs. mp_ok sh cs ps)"

lemma mp_producer_keep:
  "mp_producer_ok s cs p \<Longrightarrow> (\<And>n. n \<in> mp_owns p \<Longrightarrow> mp_heap s' n = mp_heap s n) \<Longrightarrow>
    (\<And>a n. a \<in> mp_pend p \<Longrightarrow> next_to cs a n \<Longrightarrow> next_to cs' a n) \<Longrightarrow> mp_producer_ok s' cs' p"
  by (cases p) auto

lemma mp_pend_next:
  "mp_ok sh cs ps \<Longrightarrow> a \<in> claims mp_pend ps \<Longrightarrow> \<exists>n. next_to cs a n"
proof -
  assume ok: "mp_ok sh cs ps" and "a \<in> claims mp_pend ps"
  then obtain i where i: "i < length ps" "a \<in> mp_pend (ps ! i)" by (auto simp: claims_iff)
  then obtain n where n: "ps ! i = MpLink a n" by (cases "ps ! i") auto
  show ?thesis
  proof (cases "i = 0")
    case True
    with ok n show ?thesis by (simp add: mp_ok_def)
  next
    case False
    with ok i(1) have "mp_producer_ok (fst sh) cs (ps ! i)" by (simp add: mp_ok_def)
    with n show ?thesis by auto
  qed
qed

text \<open>A step of thread \<open>i\<close> keeps the invariant when it keeps the shape and what the others rely on.\<close>

lemma mp_ok_step:
  assumes ok: "mp_ok (s, sent, got) cs ps" and i: "i < length ps"
    and own: "mp_owns p' \<inter> (claims mp_owns ps - mp_owns (ps ! i)) = {}"
    and pend: "mp_pend p' \<inter> (claims mp_pend ps - mp_pend (ps ! i)) = {}"
    and shape: "mp_shape s' (claims mp_pend ps - mp_pend (ps ! i) \<union> mp_pend p')
        (claims mp_owns ps - mp_owns (ps ! i) \<union> mp_owns p') cs'"
    and log: "sent' = got' @ map snd (tl cs')"
    and cons: "mp_consumer_ok (claims mp_pend ps - mp_pend (ps ! i) \<union> mp_pend p') cs' (if i = 0 then p' else ps ! 0)"
    and prod: "i \<noteq> 0 \<Longrightarrow> mp_producer_ok s' cs' p'"
    and heap: "\<And>n. n \<in> claims mp_owns ps - mp_owns (ps ! i) \<Longrightarrow> mp_heap s' n = mp_heap s n"
    and nxt: "\<And>a n. a \<in> claims mp_pend ps - mp_pend (ps ! i) \<Longrightarrow> next_to cs a n \<Longrightarrow> next_to cs' a n"
  shows "mp_ok (s', sent', got') cs' (ps[i := p'])"
  unfolding mp_ok_def
proof (intro conjI allI impI)
  have d: "claims_disjoint mp_owns ps" "claims_disjoint mp_pend ps" using ok by (simp_all add: mp_ok_def)
  show "ps[i := p'] \<noteq> []" using i by auto
  show "claims_disjoint mp_owns (ps[i := p'])" by (rule claims_disjoint_update [OF d(1) i own])
  show "claims_disjoint mp_pend (ps[i := p'])" by (rule claims_disjoint_update [OF d(2) i pend])
  show "mp_shape (fst (s', sent', got')) (claims mp_pend (ps[i := p'])) (claims mp_owns (ps[i := p'])) cs'"
    using shape by (simp only: claims_update [OF d(1) i] claims_update [OF d(2) i] fst_conv)
  show "fst (snd (s', sent', got')) = snd (snd (s', sent', got')) @ map snd (tl cs')" using log by simp
  have "(if i = 0 then p' else ps ! 0) = ps[i := p'] ! 0" using i by (cases "i = 0") auto
  then show "mp_consumer_ok (claims mp_pend (ps[i := p'])) cs' (ps[i := p'] ! 0)"
    using cons by (simp only: claims_update [OF d(2) i])
  fix j
  assume j: "j < length (ps[i := p'])" "j \<noteq> 0"
  show "mp_producer_ok (fst (s', sent', got')) cs' (ps[i := p'] ! j)"
  proof (cases "j = i")
    case True
    with prod i j show ?thesis by simp
  next
    case False
    have "mp_producer_ok s cs (ps ! j)" using ok j by (simp add: mp_ok_def)
    moreover have "mp_owns (ps ! j) \<subseteq> claims mp_owns ps - mp_owns (ps ! i)"
      "mp_pend (ps ! j) \<subseteq> claims mp_pend ps - mp_pend (ps ! i)"
      using claims_other [OF d(1) i _ False [symmetric]] claims_other [OF d(2) i _ False [symmetric]] j by simp_all
    ultimately have "mp_producer_ok s' cs' (ps ! j)"
      using heap nxt by (elim mp_producer_keep) blast+
    with False show ?thesis by simp
  qed
qed

text \<open>A step that changes only the program counter.\<close>

lemma mp_ok_local:
  assumes ok: "mp_ok (s, sent, got) cs ps" and i: "i < length ps"
    and same: "mp_owns p' = mp_owns (ps ! i)" "mp_pend p' = mp_pend (ps ! i)"
    and good: "if i = 0 then mp_consumer_ok (claims mp_pend ps) cs p' else mp_producer_ok s cs p'"
  shows "mp_ok (s, sent, got) cs (ps[i := p'])"
proof -
  have P: "claims mp_pend ps - mp_pend (ps ! i) \<union> mp_pend p' = claims mp_pend ps"
    "claims mp_owns ps - mp_owns (ps ! i) \<union> mp_owns p' = claims mp_owns ps"
    using claims_nth [OF i, of mp_pend] claims_nth [OF i, of mp_owns] same by auto
  show ?thesis
    by (rule mp_ok_step [OF ok i]) (unfold P, use ok same good in \<open>auto simp: mp_ok_def\<close>)
qed

lemma mp_okD:
  assumes "mp_ok (s, sent, got) cs ps"
  shows "claims_disjoint mp_owns ps" "claims_disjoint mp_pend ps"
    and "mp_shape s (claims mp_pend ps) (claims mp_owns ps) cs" "sent = got @ map snd (tl cs)"
    and "mp_consumer_ok (claims mp_pend ps) cs (ps ! 0)"
    and "i < length ps \<Longrightarrow> i \<noteq> 0 \<Longrightarrow> mp_producer_ok s cs (ps ! i)"
  using assms by (simp_all add: mp_ok_def)

lemma mp_fresh_out: "mp_shape s P Q cs \<Longrightarrow> mp_fresh s \<notin> dom (mp_heap s)"
  by (auto simp: mp_shape_def)

lemma mp_new_ok:
  assumes ok: "mp_ok (s, sent, got) cs ps" and i: "i < length ps" "i \<noteq> 0" "ps ! i = MpNew v"
  shows "mp_ok (snd (mp_new v s), sent, got) cs (ps[i := fst (mp_new v s)])"
proof -
  let ?P = "claims mp_pend ps" and ?Q = "claims mp_owns ps"
  let ?n = "mp_fresh s"
  have sh: "mp_shape s ?P ?Q cs" using ok by (rule mp_okD(3))
  have out: "?n \<notin> fst ` set cs" "?n \<notin> ?Q" using mp_fresh_out [OF sh] sh by (auto simp: mp_shape_def)
  have oc: "open_chain ((mp_heap s)(?n \<mapsto> \<lparr>node_next = None, node_value = v\<rparr>)) ?P cs"
  proof -
    have "((mp_heap s)(?n \<mapsto> \<lparr>node_next = None, node_value = v\<rparr>)) a = mp_heap s a" if "a \<in> fst ` set cs" for a
      using that out(1) by (metis fun_upd_other)
    then show ?thesis using sh by (subst open_chain_cong [of cs _ "mp_heap s" ?P ?P]) (simp_all add: mp_shape_def)
  qed
  show ?thesis
    unfolding mp_new_def fst_conv snd_conv
  proof (rule mp_ok_step [OF ok i(1)])
    show "mp_shape (s\<lparr>mp_heap := (mp_heap s)(?n \<mapsto> \<lparr>node_next = None, node_value = v\<rparr>), mp_fresh := ?n + 1\<rparr>)
      (?P - mp_pend (ps ! i) \<union> mp_pend (MpExchange ?n)) (?Q - mp_owns (ps ! i) \<union> mp_owns (MpExchange ?n)) cs"
      using sh oc out i(3) by (auto simp: mp_shape_def less_Suc_eq)
    show "\<And>n. n \<in> ?Q - mp_owns (ps ! i) \<Longrightarrow> mp_heap (s\<lparr>mp_heap := (mp_heap s)(?n \<mapsto> \<lparr>node_next = None, node_value = v\<rparr>),
        mp_fresh := ?n + 1\<rparr>) n = mp_heap s n"
      using out(2) by auto
    show "mp_consumer_ok (?P - mp_pend (ps ! i) \<union> mp_pend (MpExchange ?n)) cs (if i = 0 then MpExchange ?n else ps ! 0)"
      using mp_okD(5) [OF ok] i by simp
  qed (use out i mp_okD(4) [OF ok] in auto)
qed

text \<open>The exchange: the node becomes the last of the chain, not linked yet.\<close>

lemma mp_exchange_ok:
  assumes ok: "mp_ok (s, sent, got) cs ps" and i: "i < length ps" "i \<noteq> 0" "ps ! i = MpExchange n"
  shows "\<exists>v. mp_heap s n = Some \<lparr>node_next = None, node_value = v\<rparr> \<and>
    mp_ok (s\<lparr>mp_head := n\<rparr>, sent @ [v], got) (cs @ [(n, v)]) (ps[i := MpLink (mp_head s) n])"
proof -
  let ?P = "claims mp_pend ps" and ?Q = "claims mp_owns ps"
  have sh: "mp_shape s ?P ?Q cs" using ok by (rule mp_okD(3))
  obtain v where v: "mp_heap s n = Some \<lparr>node_next = None, node_value = v\<rparr>"
    using mp_okD(6) [OF ok i(1,2)] i(3) by auto
  have nQ: "n \<in> ?Q" using claims_nth [OF i(1), of mp_owns] i(3) by auto
  then have n: "n \<notin> fst ` set cs" using sh by (auto simp: mp_shape_def)
  obtain zs a x where cs: "cs = zs @ [(a, x)]" and a: "a = mp_head s"
    using sh by (cases cs rule: rev_cases) (auto simp: mp_shape_def)
  have dist: "distinct (map fst cs)" using sh by (simp add: mp_shape_def)
  have aP: "a \<notin> ?P" using mp_pend_next [OF ok] next_to_last [OF dist] cs by fastforce
  have oc: "open_chain (mp_heap s) (?P \<union> {a}) (cs @ [(n, v)])"
  proof -
    have "open_chain (mp_heap s) (?P \<union> {a}) (zs @ [(a, x)])"
      using sh dist cs by (subst open_chain_cong [of _ _ "mp_heap s" _ ?P]) (auto simp: mp_shape_def)
    from open_chain_snoc [OF this _ v] show ?thesis by (simp add: cs)
  qed
  have sh': "mp_shape (s\<lparr>mp_head := n\<rparr>) (?P - mp_pend (ps ! i) \<union> mp_pend (MpLink a n))
      (?Q - mp_owns (ps ! i) \<union> mp_owns (MpLink a n)) (cs @ [(n, v)])"
    using sh oc n nQ i(3) by (auto simp: mp_shape_def)
  have hd: "cs = c # d # ds \<Longrightarrow> fst c \<noteq> a" for c d ds
    using dist cs by (metis append_butlast_last_id distinct.simps(2) fst_conv last_ConsR last_in_set last_snoc list.distinct(1) list.map(2) list.set_map image_eqI)
  have "mp_ok (s\<lparr>mp_head := n\<rparr>, sent @ [v], got) (cs @ [(n, v)]) (ps[i := MpLink a n])"
  proof (rule mp_ok_step [OF ok i(1) _ _ sh'])
    show "sent @ [v] = got @ map snd (tl (cs @ [(n, v)]))"
      using mp_okD(4) [OF ok] sh by (simp add: mp_shape_def)
    show "mp_consumer_ok (?P - mp_pend (ps ! i) \<union> mp_pend (MpLink a n)) (cs @ [(n, v)])
        (if i = 0 then MpLink a n else ps ! 0)"
      using mp_okD(5) [OF ok] i hd by (cases "ps ! 0") auto
    show "mp_producer_ok (s\<lparr>mp_head := n\<rparr>) (cs @ [(n, v)]) (MpLink a n)"
      by (simp add: cs next_to_snoc)
    show "\<And>a' m. a' \<in> ?P - mp_pend (ps ! i) \<Longrightarrow> next_to cs a' m \<Longrightarrow> next_to (cs @ [(n, v)]) a' m"
      by (simp add: cs next_to_snoc)
  qed (use aP i in auto)
  with v a show ?thesis by blast
qed

lemma mp_link_ok:
  assumes ok: "mp_ok (s, sent, got) cs ps" and i: "i < length ps" "i \<noteq> 0" "ps ! i = MpLink a n"
  shows "mp_heap s a \<noteq> None"
    and "mp_ok (s\<lparr>mp_heap := set_next a (Some n) (mp_heap s)\<rparr>, sent, got) cs (ps[i := MpEnqueued])"
proof -
  let ?P = "claims mp_pend ps" and ?Q = "claims mp_owns ps"
  have sh: "mp_shape s ?P ?Q cs" using ok by (rule mp_okD(3))
  have nx: "next_to cs a n" using mp_okD(6) [OF ok i(1,2)] i(3) by simp
  then have a: "a \<in> fst ` set cs" using next_to_mem by blast
  then show "mp_heap s a \<noteq> None" using sh by (auto simp: mp_shape_def)
  have aQ: "a \<notin> ?Q" using a sh by (auto simp: mp_shape_def)
  have "open_chain (set_next a (Some n) (mp_heap s)) (?P - {a}) cs"
    using sh nx by (intro open_chain_link) (simp_all add: mp_shape_def)
  then have sh': "mp_shape (s\<lparr>mp_heap := set_next a (Some n) (mp_heap s)\<rparr>)
      (?P - mp_pend (ps ! i) \<union> mp_pend MpEnqueued) (?Q - mp_owns (ps ! i) \<union> mp_owns MpEnqueued) cs"
    using sh i(3) by (simp add: mp_shape_def)
  show "mp_ok (s\<lparr>mp_heap := set_next a (Some n) (mp_heap s)\<rparr>, sent, got) cs (ps[i := MpEnqueued])"
  proof (rule mp_ok_step [OF ok i(1) _ _ sh' mp_okD(4) [OF ok]])
    show "mp_consumer_ok (?P - mp_pend (ps ! i) \<union> mp_pend MpEnqueued) cs (if i = 0 then MpEnqueued else ps ! 0)"
      using mp_okD(5) [OF ok] i by (cases "ps ! 0") auto
    show "\<And>m. m \<in> ?Q - mp_owns (ps ! i) \<Longrightarrow> mp_heap (s\<lparr>mp_heap := set_next a (Some n) (mp_heap s)\<rparr>) m = mp_heap s m"
      using aQ by (auto simp: set_next_apply)
  qed (use i in auto)
qed

text \<open>The consumer.\<close>

lemma mp_tail_cell:
  assumes "mp_shape s P Q cs"
  obtains x ds where "cs = (mp_tail s, x) # ds"
    and "mp_heap s (mp_tail s) = Some \<lparr>node_next = (if ds = [] \<or> mp_tail s \<in> P then None else Some (fst (hd ds))),
      node_value = x\<rparr>"
proof -
  obtain x ds where cs: "cs = (mp_tail s, x) # ds" using assms by (cases cs) (auto simp: mp_shape_def)
  have "open_chain (mp_heap s) P ((mp_tail s, x) # ds)" using assms cs by (simp add: mp_shape_def)
  from open_chain_head [OF this] show thesis by (intro that [OF cs]) auto
qed

lemma mp_next_ok:
  assumes ok: "mp_ok (s, sent, got) cs ps" and z: "ps ! 0 = MpNext"
  shows "\<exists>t. mp_heap s (mp_tail s) = Some t \<and>
    mp_ok (s, sent, got) cs (ps[0 := (case node_next t of None \<Rightarrow> MpDequeued None | Some n \<Rightarrow> MpValue n)])"
proof -
  have len: "0 < length ps" using ok by (simp add: mp_ok_def)
  obtain x ds where cs: "cs = (mp_tail s, x) # ds"
    and t: "mp_heap s (mp_tail s) = Some \<lparr>node_next = (if ds = [] \<or> mp_tail s \<in> claims mp_pend ps then None else Some (fst (hd ds))),
      node_value = x\<rparr>"
    using mp_tail_cell [OF mp_okD(3) [OF ok]] by blast
  show ?thesis
  proof (cases "ds = [] \<or> mp_tail s \<in> claims mp_pend ps")
    case True
    have "mp_ok (s, sent, got) cs (ps[0 := MpDequeued None])" by (rule mp_ok_local [OF ok len]) (simp_all add: z)
    with t True show ?thesis by auto
  next
    case False
    then obtain n w es where ds: "ds = (n, w) # es" by (cases ds) auto
    have "mp_ok (s, sent, got) cs (ps[0 := MpValue n])"
      by (rule mp_ok_local [OF ok len]) (use z cs ds False in auto)
    with t False ds show ?thesis by auto
  qed
qed

lemma mp_value_ok:
  assumes ok: "mp_ok (s, sent, got) cs ps" and z: "ps ! 0 = MpValue n"
  shows "\<exists>x. mp_heap s n = Some x \<and> mp_ok (s, sent, got) cs (ps[0 := MpAdvance n (node_value x)])"
proof -
  have len: "0 < length ps" using ok by (simp add: mp_ok_def)
  obtain c w ds where cs: "cs = c # (n, w) # ds" "fst c \<notin> claims mp_pend ps"
    using mp_okD(5) [OF ok] z by auto
  have "open_chain (mp_heap s) (claims mp_pend ps) (c # (n, w) # ds)"
    using mp_okD(3) [OF ok] cs(1) by (simp add: mp_shape_def)
  from open_chain_head [OF open_chain_tl [OF this]]
  obtain x where x: "mp_heap s n = Some x" "node_value x = w" by auto
  have "mp_ok (s, sent, got) cs (ps[0 := MpAdvance n w])"
    by (rule mp_ok_local [OF ok len]) (use z cs in auto)
  with x show ?thesis by auto
qed

lemma mp_advance_ok:
  assumes ok: "mp_ok (s, sent, got) cs ps" and z: "ps ! 0 = MpAdvance n v"
  shows "\<exists>cs'. mp_ok (s\<lparr>mp_tail := n\<rparr>, sent, got @ [v]) cs' (ps[0 := MpReset (mp_tail s) v])"
proof -
  let ?P = "claims mp_pend ps" and ?Q = "claims mp_owns ps"
  have len: "0 < length ps" using ok by (simp add: mp_ok_def)
  have sh: "mp_shape s ?P ?Q cs" using ok by (rule mp_okD(3))
  obtain c ds where c: "cs = c # (n, v) # ds" "fst c \<notin> ?P" using mp_okD(5) [OF ok] z by auto
  then obtain x where cs: "cs = (mp_tail s, x) # (n, v) # ds" and tP: "mp_tail s \<notin> ?P"
    using sh by (cases c) (auto simp: mp_shape_def)
  have tQ: "mp_tail s \<notin> ?Q" using sh cs by (auto simp: mp_shape_def)
  have "open_chain (mp_heap s) ?P ((n, v) # ds)"
    using sh cs open_chain_tl by (metis mp_shape_def)
  then have sh': "mp_shape (s\<lparr>mp_tail := n\<rparr>) (?P - mp_pend (ps ! 0) \<union> mp_pend (MpReset (mp_tail s) v))
      (?Q - mp_owns (ps ! 0) \<union> mp_owns (MpReset (mp_tail s) v)) ((n, v) # ds)"
    using sh cs tQ z by (auto simp: mp_shape_def)
  have "mp_ok (s\<lparr>mp_tail := n\<rparr>, sent, got @ [v]) ((n, v) # ds) (ps[0 := MpReset (mp_tail s) v])"
  proof (rule mp_ok_step [OF ok len _ _ sh'])
    show "sent = (got @ [v]) @ map snd (tl ((n, v) # ds))" using mp_okD(4) [OF ok] cs by simp
    show "\<And>a m. a \<in> ?P - mp_pend (ps ! 0) \<Longrightarrow> next_to cs a m \<Longrightarrow> next_to ((n, v) # ds) a m"
      using tP cs by auto
  qed (use tQ z in auto)
  then show ?thesis by blast
qed

lemma mp_reset_ok:
  assumes ok: "mp_ok (s, sent, got) cs ps" and z: "ps ! 0 = MpReset a v"
  shows "mp_heap s (mp_tail s) \<noteq> None"
    and "\<exists>cs'. mp_ok (s\<lparr>mp_heap := set_value (mp_tail s) d (mp_heap s)\<rparr>, sent, got) cs' (ps[0 := MpDelete a v])"
proof -
  let ?P = "claims mp_pend ps" and ?Q = "claims mp_owns ps"
  let ?h = "set_value (mp_tail s) d (mp_heap s)"
  have len: "0 < length ps" using ok by (simp add: mp_ok_def)
  have sh: "mp_shape s ?P ?Q cs" using ok by (rule mp_okD(3))
  obtain x ds where cs: "cs = (mp_tail s, x) # ds"
    and t: "mp_heap s (mp_tail s) = Some \<lparr>node_next = (if ds = [] \<or> mp_tail s \<in> ?P then None else Some (fst (hd ds))),
      node_value = x\<rparr>"
    using mp_tail_cell [OF sh] by blast
  then show "mp_heap s (mp_tail s) \<noteq> None" by simp
  have out: "mp_tail s \<notin> fst ` set ds" "mp_tail s \<notin> ?Q" using sh cs by (auto simp: mp_shape_def)
  have h: "?h b = (if b = mp_tail s then map_option (\<lambda>n. n\<lparr>node_value := d\<rparr>) (mp_heap s b) else mp_heap s b)" for b
    by (simp add: set_value_def)
  have "open_chain ?h ?P ds"
  proof -
    have "?h b = mp_heap s b" if "b \<in> fst ` set ds" for b
      using that out(1) unfolding h by metis
    moreover have "open_chain (mp_heap s) ?P ds" "distinct (map fst ds)"
      using sh cs open_chain_tl [of "mp_heap s" ?P "(mp_tail s, x)" ds] by (simp_all add: mp_shape_def)
    ultimately show ?thesis by (subst open_chain_cong [of ds ?h "mp_heap s" ?P ?P]) simp_all
  qed
  moreover have "?h (mp_tail s) = Some \<lparr>node_next = (if ds = [] \<or> mp_tail s \<in> ?P then None else Some (fst (hd ds))),
      node_value = d\<rparr>"
    using t by (simp add: h)
  ultimately have oc: "open_chain ?h ?P ((mp_tail s, d) # ds)" by (cases ds) auto
  have sh': "mp_shape (s\<lparr>mp_heap := ?h\<rparr>) (?P - mp_pend (ps ! 0) \<union> mp_pend (MpDelete a v))
      (?Q - mp_owns (ps ! 0) \<union> mp_owns (MpDelete a v)) ((mp_tail s, d) # ds)"
    using sh oc cs z claims_nth [OF len, of mp_owns] unfolding mp_shape_def
    by (auto simp: insert_absorb)
  have nt: "next_to ((mp_tail s, x) # ds) b m \<Longrightarrow> next_to ((mp_tail s, d) # ds) b m" for b m
    by (cases ds) auto
  have "mp_ok (s\<lparr>mp_heap := ?h\<rparr>, sent, got) ((mp_tail s, d) # ds) (ps[0 := MpDelete a v])"
  proof (rule mp_ok_step [OF ok len _ _ sh'])
    show "sent = got @ map snd (tl ((mp_tail s, d) # ds))" using mp_okD(4) [OF ok] cs by simp
    show "\<And>m. m \<in> ?Q - mp_owns (ps ! 0) \<Longrightarrow> mp_heap (s\<lparr>mp_heap := ?h\<rparr>) m = mp_heap s m"
      using out(2) by (auto simp: h)
  qed (use z cs nt in auto)
  then show "\<exists>cs'. mp_ok (s\<lparr>mp_heap := ?h\<rparr>, sent, got) cs' (ps[0 := MpDelete a v])" by blast
qed

lemma mp_delete_ok:
  assumes ok: "mp_ok (s, sent, got) cs ps" and z: "ps ! 0 = MpDelete a v"
  shows "mp_heap s a \<noteq> None"
    and "mp_ok (s\<lparr>mp_heap := delete_node a (mp_heap s)\<rparr>, sent, got) cs (ps[0 := MpDequeued (Some v)])"
proof -
  let ?P = "claims mp_pend ps" and ?Q = "claims mp_owns ps"
  let ?h = "delete_node a (mp_heap s)"
  have len: "0 < length ps" using ok by (simp add: mp_ok_def)
  have sh: "mp_shape s ?P ?Q cs" using ok by (rule mp_okD(3))
  have aQ: "a \<in> ?Q" using claims_nth [OF len, of mp_owns] z by auto
  then show "mp_heap s a \<noteq> None" using sh by (auto simp: mp_shape_def)
  have out: "a \<notin> fst ` set cs" using aQ sh by (auto simp: mp_shape_def)
  have h: "?h b = (if b = a then None else mp_heap s b)" for b by (simp add: delete_node_def)
  have oc: "open_chain ?h ?P cs"
  proof -
    have "?h b = mp_heap s b" if "b \<in> fst ` set cs" for b
      using that out unfolding h by metis
    then show ?thesis using sh by (subst open_chain_cong [of cs ?h "mp_heap s" ?P ?P]) (simp_all add: mp_shape_def)
  qed
  have dom: "dom ?h = fst ` set cs \<union> (?Q - {a})" using sh out unfolding mp_shape_def dom_delete by blast
  have bound: "\<forall>b \<in> dom ?h. b < mp_fresh s" using sh by (simp add: mp_shape_def)
  have "fst ` set cs \<inter> (?Q - {a}) = {}" using sh by (auto simp: mp_shape_def)
  then have sh': "mp_shape (s\<lparr>mp_heap := ?h\<rparr>) (?P - mp_pend (ps ! 0) \<union> mp_pend (MpDequeued (Some v)))
      (?Q - mp_owns (ps ! 0) \<union> mp_owns (MpDequeued (Some v))) cs"
    using sh oc z dom bound unfolding mp_shape_def by simp
  show "mp_ok (s\<lparr>mp_heap := ?h\<rparr>, sent, got) cs (ps[0 := MpDequeued (Some v)])"
  proof (rule mp_ok_step [OF ok len _ _ sh' mp_okD(4) [OF ok]])
    show "\<And>m. m \<in> ?Q - mp_owns (ps ! 0) \<Longrightarrow> mp_heap (s\<lparr>mp_heap := ?h\<rparr>) m = mp_heap s m"
      using z by (auto simp: h)
  qed (use z in auto)
qed

lemma mp_producer_step:
  assumes ok: "mp_ok (s, sent, got) cs ps" and i: "i < length ps" "i \<noteq> 0"
    and st: "(p', sh') \<in> set (mp_step New_Only d vals i (ps ! i) (s, sent, got))"
  shows "mp_inv sh' (ps[i := p'])"
proof (cases "ps ! i")
  case MpIdle
  then obtain v where "p' = MpNew v" "sh' = (s, sent, got)" using st i by (auto simp: mp_step_def)
  with mp_ok_local [OF ok i(1), of "MpNew v"] MpIdle i show ?thesis by (auto simp: mp_inv_def)
next
  case (MpNew v)
  then have "p' = fst (mp_new v s)" "sh' = (snd (mp_new v s), sent, got)"
    using st i by (cases "mp_new v s"; simp add: mp_step_def mp_record_def)+
  with mp_new_ok [OF ok i MpNew] show ?thesis by (auto simp: mp_inv_def)
next
  case (MpExchange n)
  from mp_exchange_ok [OF ok i this] obtain v where v: "mp_heap s n = Some \<lparr>node_next = None, node_value = v\<rparr>"
    and r: "mp_ok (s\<lparr>mp_head := n\<rparr>, sent @ [v], got) (cs @ [(n, v)]) (ps[i := MpLink (mp_head s) n])"
    by blast
  have "p' = MpLink (mp_head s) n" "sh' = (s\<lparr>mp_head := n\<rparr>, sent @ [v], got)"
    using st i MpExchange v by (simp_all add: mp_step_def mp_record_def)
  with r show ?thesis by (auto simp: mp_inv_def)
next
  case (MpLink a n)
  note r = mp_link_ok [OF ok i MpLink]
  have "p' = MpEnqueued" "sh' = (s\<lparr>mp_heap := set_next a (Some n) (mp_heap s)\<rparr>, sent, got)"
    using st i MpLink r(1) by (auto simp: mp_step_def mp_record_def)
  with r(2) show ?thesis by (auto simp: mp_inv_def)
next
  case MpEnqueued
  then have "p' = MpIdle" "sh' = (s, sent, got)" using st by (simp_all add: mp_step_def)
  with mp_ok_local [OF ok i(1), of MpIdle] MpEnqueued i show ?thesis by (auto simp: mp_inv_def)
qed (use mp_okD(6) [OF ok i] in simp_all)

lemma mp_consumer_step:
  assumes ok: "mp_ok (s, sent, got) cs ps"
    and st: "(p', sh') \<in> set (mp_step New_Only d vals 0 (ps ! 0) (s, sent, got))"
  shows "mp_inv sh' (ps[0 := p'])"
proof (cases "ps ! 0")
  case MpIdle
  then have "p' = MpNext" "sh' = (s, sent, got)" using st by (simp_all add: mp_step_def)
  moreover have "0 < length ps" using ok by (simp add: mp_ok_def)
  ultimately show ?thesis using mp_ok_local [OF ok, of 0 MpNext] MpIdle by (auto simp: mp_inv_def)
next
  case MpNext
  from mp_next_ok [OF ok this] obtain t where t: "mp_heap s (mp_tail s) = Some t"
    and r: "mp_ok (s, sent, got) cs (ps[0 := (case node_next t of None \<Rightarrow> MpDequeued None | Some n \<Rightarrow> MpValue n)])"
    by blast
  have "p' = (case node_next t of None \<Rightarrow> MpDequeued None | Some n \<Rightarrow> MpValue n)" "sh' = (s, sent, got)"
    using st MpNext t by (simp_all add: mp_step_def mp_record_def split: option.splits)
  with r show ?thesis by (auto simp: mp_inv_def)
next
  case (MpValue n)
  from mp_value_ok [OF ok this] obtain x where x: "mp_heap s n = Some x"
    and r: "mp_ok (s, sent, got) cs (ps[0 := MpAdvance n (node_value x)])" by blast
  have "p' = MpAdvance n (node_value x)" "sh' = (s, sent, got)"
    using st MpValue x by (simp_all add: mp_step_def mp_record_def)
  with r show ?thesis by (auto simp: mp_inv_def)
next
  case (MpAdvance n v)
  have "p' = MpReset (mp_tail s) v" "sh' = (s\<lparr>mp_tail := n\<rparr>, sent, got @ [v])"
    using st MpAdvance by (simp_all add: mp_step_def mp_record_def)
  with mp_advance_ok [OF ok MpAdvance] show ?thesis by (auto simp: mp_inv_def)
next
  case (MpReset a v)
  note r = mp_reset_ok [OF ok MpReset]
  have "p' = MpDelete a v" "sh' = (s\<lparr>mp_heap := set_value (mp_tail s) d (mp_heap s)\<rparr>, sent, got)"
    using st MpReset r(1) by (auto simp: mp_step_def mp_record_def)
  with r(2) show ?thesis by (auto simp: mp_inv_def)
next
  case (MpDelete a v)
  note r = mp_delete_ok [OF ok MpDelete]
  have "p' = MpDequeued (Some v)" "sh' = (s\<lparr>mp_heap := delete_node a (mp_heap s)\<rparr>, sent, got)"
    using st MpDelete r(1) by (auto simp: mp_step_def mp_record_def)
  with r(2) show ?thesis by (auto simp: mp_inv_def)
next
  case (MpDequeued r)
  then have "p' = MpIdle" "sh' = (s, sent, got)" using st by (simp_all add: mp_step_def)
  moreover have "0 < length ps" using ok by (simp add: mp_ok_def)
  ultimately show ?thesis using mp_ok_local [OF ok, of 0 MpIdle] MpDequeued by (auto simp: mp_inv_def)
qed (use mp_okD(5) [OF ok] in simp_all)

interpretation mpq: queue_protocol "mp_step New_Only d vals" "mp_start d" mp_inv "\<lambda>sh. fst (snd sh)"
  "\<lambda>sh. snd (snd sh)" "\<lambda>sh. drop (length (snd (snd sh))) (fst (snd sh))" "\<lambda>p. p = MpCrash"
proof
  fix sh :: "'a mp_state \<times> 'a list \<times> 'a list" and ps
  assume "mp_start d (sh, ps)"
  then have sh: "sh = (mp_init d, [], [])" and ps: "ps \<noteq> []" "\<forall>p \<in> set ps. p = MpIdle"
    by (simp_all add: mp_start_def)
  then have "claims mp_owns ps = {} \<and> claims_disjoint mp_owns ps" "claims mp_pend ps = {} \<and> claims_disjoint mp_pend ps"
    by (auto intro!: claims_start)
  then have "mp_ok sh [(0, d)] ps"
  proof -
    have idle: "ps ! i = MpIdle" if "i < length ps" for i using ps(2) that by simp
    have "ps ! 0 = MpIdle" using ps(1) by (intro idle) simp
    with idle sh ps(1) \<open>claims mp_owns ps = {} \<and> _\<close> \<open>claims mp_pend ps = {} \<and> _\<close>
    show ?thesis by (simp add: mp_ok_def mp_shape_def mp_init_def)
  qed
  then show "mp_inv sh ps" by (auto simp: mp_inv_def)
next
  fix sh :: "'a mp_state \<times> 'a list \<times> 'a list" and ps i p' sh'
  assume "mp_inv sh ps" "i < length ps" and st: "(p', sh') \<in> set (mp_step New_Only d vals i (ps ! i) sh)"
  obtain s sent got where sh: "sh = (s, sent, got)" by (cases sh)
  with \<open>mp_inv sh ps\<close> obtain cs where "mp_ok (s, sent, got) cs ps" by (auto simp: mp_inv_def)
  with \<open>i < length ps\<close> st sh show "mp_inv sh' (ps[i := p'])"
    by (cases "i = 0") (auto intro: mp_producer_step mp_consumer_step)
next
  fix sh :: "'a mp_state \<times> 'a list \<times> 'a list" and ps
  assume "mp_inv sh ps"
  then obtain cs :: "(nat \<times> 'a) list" where "fst (snd sh) = snd (snd sh) @ map snd (tl cs)"
    unfolding mp_inv_def mp_ok_def by blast
  then show "fst (snd sh) = snd (snd sh) @ drop (length (snd (snd sh))) (fst (snd sh))" by simp
next
  fix sh :: "'a mp_state \<times> 'a list \<times> 'a list" and ps p
  assume "mp_inv sh ps" "p \<in> set ps"
  then obtain i cs where i: "i < length ps" "p = ps ! i" and ok: "mp_ok sh cs ps"
    by (auto simp: mp_inv_def in_set_conv_nth)
  then show "p \<noteq> MpCrash" by (cases "i = 0") (auto simp: mp_ok_def)
qed

text \<open>When every link is made, the nodes after the tail hold what is inside.\<close>

lemma mp_closed:
  assumes "mp_ok (s, sent, got) cs ps" "claims mp_pend ps = {}"
  shows "chain (mp_heap s) cs None" and "head_of cs None = Some (mp_tail s)"
    and "values_after (mp_fresh s) (mp_heap s) (mp_tail s) None = map snd (tl cs)"
proof -
  have sh: "mp_shape s {} (claims mp_owns ps) cs" using mp_okD(3) [OF assms(1)] assms(2) by simp
  then show ch: "chain (mp_heap s) cs None" by (simp add: mp_shape_def open_chain_closed)
  obtain x ds where cs: "cs = (mp_tail s, x) # ds" using sh by (cases cs) (auto simp: mp_shape_def)
  then show "head_of cs None = Some (mp_tail s)" by simp
  have "length cs \<le> mp_fresh s" using sh by (intro chain_length) (auto simp: mp_shape_def)
  then show "values_after (mp_fresh s) (mp_heap s) (mp_tail s) None = map snd (tl cs)"
    using values_after_end [of "mp_heap s" "mp_tail s" x ds "mp_fresh s"] ch cs by simp
qed


section \<open>Properties\<close>

text \<open>C6. Any number of producers and one consumer of \<open>mpsc_queue\<close> (\<open>new_only\<close>): the
  consumer gets the values in the order of the exchanges, none lost and none twice, and no deleted
  node is accessed; as soon as no producer is between its exchange and its link, all other values
  are reachable from the tail.\<close>

theorem mpsc_queue_fifo:
  assumes "reach (mp_start d) (interleave (mp_step New_Only d vals)) ((s, sent, got), ps)"
  shows "got = take (length got) sent \<and> MpCrash \<notin> set ps
    \<and> ((\<forall>p \<in> set ps. mp_pend p = {}) \<longrightarrow>
        values_after (mp_fresh s) (mp_heap s) (mp_tail s) None = drop (length got) sent)"
proof (intro conjI impI)
  show "got = take (length got) sent" using mpq.reach_fifo [OF assms] by simp
  show "MpCrash \<notin> set ps" using mpq.reach_safe [OF assms] by blast
  assume "\<forall>p \<in> set ps. mp_pend p = {}"
  then have no: "claims mp_pend ps = {}" by (simp add: claims_def)
  obtain cs where ok: "mp_ok (s, sent, got) cs ps" using mpq.reach_inv [OF assms] by (auto simp: mp_inv_def)
  from mp_closed(3) [OF ok no] mp_okD(4) [OF ok]
  show "values_after (mp_fresh s) (mp_heap s) (mp_tail s) None = drop (length got) sent" by simp
qed

text \<open>C22. The destructor of \<open>mpsc_queue\<close> (\<open>new_only\<close>), when no call is under way, ends
  within as many rounds as \<open>new\<close> was called, deletes every node exactly once and leaves none.\<close>

theorem mpsc_queue_destroy:
  assumes "reach (mp_start d) (interleave (mp_step New_Only d vals)) ((s, sent, got), ps)"
    and "\<forall>p \<in> set ps. p = MpIdle"
  shows "mp_destroy (mp_fresh s) s = Some Map.empty"
proof -
  obtain cs where ok: "mp_ok (s, sent, got) cs ps" using mpq.reach_inv [OF assms(1)] by (auto simp: mp_inv_def)
  have no: "claims mp_pend ps = {}" "claims mp_owns ps = {}" using assms(2) by (auto simp: claims_def)
  have sh: "mp_shape s {} {} cs" using mp_okD(3) [OF ok] no by simp
  have "free_chain (length cs) (mp_heap s) (head_of cs None) = Some Map.empty"
    by (rule free_chain_chain [OF mp_closed(1) [OF ok no(1)]]) (use sh in \<open>simp_all add: mp_shape_def\<close>)
  moreover have "length cs \<le> mp_fresh s" using sh by (intro chain_length) (auto simp: mp_shape_def)
  ultimately show ?thesis unfolding mp_destroy_def mp_closed(2) [OF ok no(1), symmetric]
    by (metis free_chain_mono)
qed

text \<open>Two producers exchange in one order and link in the other; the consumer pops one value.\<close>

abbreviation mp_schedule :: "(nat \<times> nat) list" where
  "mp_schedule \<equiv> map (\<lambda>i. (i, 0)) [1, 1, 1, 2, 2, 2, 2, 1, 0, 0, 0, 0, 0, 0, 0, 1, 2]"

lemma mp_run:
  "\<exists>s. run_sched (mp_step New_Only 0 (\<lambda>i. [10 * i])) mp_schedule
      ((mp_init (0::nat), [], []), [MpIdle, MpIdle, MpIdle])
     = Some ((s, [10, 20], [10]), [MpIdle, MpIdle, MpIdle])
   \<and> mp_fresh s = 3 \<and> dom (mp_heap s) = {1, 2}"
  by (auto simp: mp_step_def mp_init_def mp_new_def mp_record_def set_next_apply set_value_def delete_node_def)

lemma mp_run_reach:
  obtains s where "reach (mp_start (0::nat)) (interleave (mp_step New_Only 0 (\<lambda>i. [10 * i])))
      ((s, [10, 20], [10]), [MpIdle, MpIdle, MpIdle])"
    and "mp_fresh s = 3" "dom (mp_heap s) = {1, 2}"
proof -
  obtain s where "run_sched (mp_step New_Only 0 (\<lambda>i. [10 * i])) mp_schedule
      ((mp_init (0::nat), [], []), [MpIdle, MpIdle, MpIdle])
     = Some ((s, [10, 20], [10]), [MpIdle, MpIdle, MpIdle])" "mp_fresh s = 3" "dom (mp_heap s) = {1, 2}"
    using mp_run by (elim exE conjE) (rule that)
  then show thesis
    by (intro that [of s] run_sched_reach_start [OF _ \<open>run_sched _ _ _ = _\<close>]) (simp_all add: mp_start_def)
qed

theorem mpsc_queue_fifo_witness:
  "\<exists>s :: nat mp_state. dom (mp_heap s) = {1, 2} \<and> values_after 3 (mp_heap s) (mp_tail s) None = [20]"
proof -
  obtain s where s: "reach (mp_start (0::nat)) (interleave (mp_step New_Only 0 (\<lambda>i. [10 * i])))
      ((s, [10, 20], [10]), [MpIdle, MpIdle, MpIdle])" "mp_fresh s = 3" "dom (mp_heap s) = {1, 2}"
    by (rule mp_run_reach)
  from mpsc_queue_fifo [OF s(1)] s(2,3) show ?thesis by (intro exI [of _ s]) simp
qed

theorem mpsc_queue_destroy_witness:
  "\<exists>s :: nat mp_state. dom (mp_heap s) = {1, 2} \<and> mp_destroy 3 s = Some Map.empty"
proof -
  obtain s where s: "reach (mp_start (0::nat)) (interleave (mp_step New_Only 0 (\<lambda>i. [10 * i])))
      ((s, [10, 20], [10]), [MpIdle, MpIdle, MpIdle])" "mp_fresh s = 3" "dom (mp_heap s) = {1, 2}"
    by (rule mp_run_reach)
  from mpsc_queue_destroy [OF s(1)] s(2,3) show ?thesis by auto
qed

text \<open>With the policy \<open>buffered\<close> the compare_exchange of \<open>alloc_node\<close> succeeds on a
  node that has been through the queue in the meantime. Thread 1 is stopped there while thread 2
  and the consumer use that node again: it then takes the consumer's own tail node, and the queue
  answers that it is empty, for ever, with two values inside.\<close>

theorem mpsc_queue_buffered_loses:
  "\<exists>s. run_sched (mp_step Buffered 0 (\<lambda>i. if i = 1 then [9] else [1, 2, 3]))
      ([(2, 0), (2, 0), (2, 0), (2, 0), (2, 0), (2, 0)]
       @ [(0, 0), (0, 0), (0, 0), (0, 0), (0, 0), (0, 0)]
       @ [(1, 0), (1, 0), (1, 0), (1, 0)]
       @ [(2, 1), (2, 0), (2, 0), (2, 0), (2, 0), (2, 0), (2, 0), (2, 0), (2, 0)]
       @ [(0, 0), (0, 0), (0, 0), (0, 0), (0, 0), (0, 0)]
       @ [(2, 2), (2, 0), (2, 0), (2, 0), (2, 0), (2, 0), (2, 0), (2, 0), (2, 0)]
       @ [(1, 0), (1, 0), (1, 0), (1, 0), (1, 0)])
      ((mp_init (0::nat), [], []), [MpIdle, MpIdle, MpIdle])
    = Some ((s, [1, 2, 3, 9], [1, 2]), [MpIdle, MpIdle, MpIdle])
    \<and> run_alone (mp_try_dequeue Buffered 0) (\<lambda>p. p = MpDequeued None) 1 MpNext s = Some (MpDequeued None, s)"
  by (simp add: mp_step_def mp_init_def mp_new_def mp_record_def set_next_apply set_value_def follow_def
      run_alone_unfold)

end
