(* ===== verification/Mpsc_Buffered.thy ===== *)
theory Mpsc_Buffered
  imports Mpsc_Queue
begin

text \<open>
  The class \<open>mpsc_queue\<close> with the allocation policy \<open>buffered\<close> and one producer (thread 1): the
  steps are those of \<open>Mpsc_Queue\<close>. No node is deleted before the destructor; the nodes before
  the tail, from \<open>m_buffer_head\<close> on, are taken again by \<open>alloc_node\<close>. With one producer the
  queue is correct while it is used, and its destructor, which starts at \<open>m_tail\<close>, leaves the
  nodes before the tail; with two producers it is not correct (\<open>mpsc_queue_buffered_loses\<close>).
  The member \<open>m_tail\<close> is a plain pointer that the producer reads while the consumer writes it:
  the model gives this read the value of the moment.
\<close>

section \<open>Open chains in two parts\<close>

lemma open_chain_Cons:
  "open_chain h P ((a, v) # cs) \<longleftrightarrow>
     h a = Some \<lparr>node_next = (if cs = [] \<or> a \<in> P then None else Some (fst (hd cs))), node_value = v\<rparr>
     \<and> open_chain h P cs"
  by (cases cs) auto

lemma open_chain_appendD: "open_chain h P (xs @ cs) \<Longrightarrow> open_chain h P cs"
  by (induction xs) (auto dest: open_chain_tl)

lemma open_chain_same:
  "open_chain h P cs \<Longrightarrow> (\<And>a. a \<in> fst ` set cs \<Longrightarrow> h' a = h a) \<Longrightarrow> open_chain h' P cs"
proof (induction cs)
  case (Cons c cs)
  then show ?case by (cases c) (simp add: open_chain_Cons)
qed simp

lemma open_chain_pend:
  "open_chain h P cs \<Longrightarrow> (\<And>a. a \<in> fst ` set cs \<Longrightarrow> a \<noteq> fst (last cs) \<Longrightarrow> a \<in> P' \<longleftrightarrow> a \<in> P) \<Longrightarrow>
    distinct (map fst cs) \<Longrightarrow> open_chain h P' cs"
  using open_chain_cong [of cs h h P' P] by blast

lemma open_chain_set_value:
  "open_chain h P (xs @ (t, x) # ys) \<Longrightarrow> distinct (map fst (xs @ (t, x) # ys)) \<Longrightarrow>
    open_chain (set_value t d h) P (xs @ (t, d) # ys)"
proof (induction xs)
  case Nil
  then have "t \<notin> fst ` set ys" by simp
  then have "set_value t d h b = h b" if "b \<in> fst ` set ys" for b using that by (auto simp: set_value_def)
  with Nil open_chain_same [of h P ys "set_value t d h"] show ?case
    by (simp add: open_chain_Cons) (simp add: set_value_def)
next
  case (Cons c xs)
  obtain b w where c: "c = (b, w)" by (cases c)
  then have "b \<noteq> t" using Cons.prems(2) by auto
  then have "set_value t d h b = h b" by (simp add: set_value_def)
  moreover have "fst (hd (xs @ (t, d) # ys)) = fst (hd (xs @ (t, x) # ys))" by (cases xs) simp_all
  ultimately show ?case using Cons c by (auto simp: open_chain_Cons)
qed

lemma free_chain_part:
  "chain h cs None \<Longrightarrow> distinct (map fst cs) \<Longrightarrow>
    free_chain (length cs) h (head_of cs None) = Some (h |` (- fst ` set cs))"
proof (induction cs arbitrary: h)
  case Nil
  then show ?case by simp
next
  case (Cons c cs)
  obtain a v where c: "c = (a, v)" by (cases c)
  then have "a \<notin> fst ` set cs" using Cons.prems by auto
  moreover have "delete_node a h |` (- fst ` set cs) = h |` (- fst ` set (c # cs))"
    using c by (auto simp: delete_node_def restrict_map_def fun_eq_iff)
  ultimately show ?case using Cons.IH [of "delete_node a h"] Cons.prems c by simp
qed


section \<open>The invariant\<close>

text \<open>The nodes in the order of the exchanges: \<open>xs\<close> those to be taken again, the tail, \<open>ys\<close>
  the contents; \<open>own\<close> is the node the producer has not enqueued yet, \<open>P\<close> the node it is about to
  link.\<close>

definition bq_shape :: "'a mp_state \<Rightarrow> nat set \<Rightarrow> (nat \<times> 'a) list \<Rightarrow> 'a \<Rightarrow> (nat \<times> 'a) list \<Rightarrow> nat set \<Rightarrow> bool" where
  "bq_shape s P xs x0 ys own \<longleftrightarrow>
     open_chain (mp_heap s) P (xs @ (mp_tail s, x0) # ys)
     \<and> distinct (map fst (xs @ (mp_tail s, x0) # ys))
     \<and> dom (mp_heap s) = fst ` set (xs @ (mp_tail s, x0) # ys) \<union> own
     \<and> fst ` set (xs @ (mp_tail s, x0) # ys) \<inter> own = {}
     \<and> {..<mp_fresh s} = dom (mp_heap s)
     \<and> mp_buffer_head s = fst (hd (xs @ [(mp_tail s, x0)]))
     \<and> mp_head s = fst (last ((mp_tail s, x0) # ys))"

fun bq_own :: "'a mp_pc \<Rightarrow> nat set" where
  "bq_own (MpFill v n) = {n}"
| "bq_own (MpExchange n) = {n}"
| "bq_own p = {}"

fun bq_producer_ok :: "'a mp_state \<Rightarrow> (nat \<times> 'a) list \<Rightarrow> (nat \<times> 'a) list \<Rightarrow> 'a mp_pc \<Rightarrow> bool" where
  "bq_producer_ok s xs cs MpIdle = True"
| "bq_producer_ok s xs cs (MpBuffer v) = True"
| "bq_producer_ok s xs cs (MpTest v n) = (n = mp_buffer_head s)"
| "bq_producer_ok s xs cs (MpNextOf v n) = (n = mp_buffer_head s \<and> xs \<noteq> [])"
| "bq_producer_ok s xs cs (MpCas v n m) = (n = mp_buffer_head s \<and> xs \<noteq> [] \<and> follow (mp_heap s) n = Some m)"
| "bq_producer_ok s xs cs (MpFill v n) = True"
| "bq_producer_ok s xs cs (MpExchange n) = (\<exists>v. mp_heap s n = Some \<lparr>node_next = None, node_value = v\<rparr>)"
| "bq_producer_ok s xs cs (MpLink a n) = next_to cs a n"
| "bq_producer_ok s xs cs MpEnqueued = True"
| "bq_producer_ok s xs cs p = False"

fun bq_consumer_ok :: "bool \<Rightarrow> (nat \<times> 'a) list \<Rightarrow> 'a mp_pc \<Rightarrow> bool" where
  "bq_consumer_ok closed ys MpIdle = True"
| "bq_consumer_ok closed ys MpNext = True"
| "bq_consumer_ok closed ys (MpValue n) = (closed \<and> (\<exists>w ds. ys = (n, w) # ds))"
| "bq_consumer_ok closed ys (MpAdvance n v) = (closed \<and> (\<exists>ds. ys = (n, v) # ds))"
| "bq_consumer_ok closed ys (MpReset a v) = True"
| "bq_consumer_ok closed ys (MpDequeued r) = True"
| "bq_consumer_ok closed ys p = False"

definition bq_ok :: "'a mp_state \<Rightarrow> (nat \<times> 'a) list \<Rightarrow> 'a \<Rightarrow> (nat \<times> 'a) list \<Rightarrow> 'a mp_pc \<Rightarrow> 'a mp_pc \<Rightarrow> bool" where
  "bq_ok s xs x0 ys c p \<longleftrightarrow> bq_shape s (mp_pend p) xs x0 ys (bq_own p)
     \<and> bq_consumer_ok (mp_tail s \<notin> mp_pend p) ys c
     \<and> bq_producer_ok s xs ((mp_tail s, x0) # ys) p"

definition bq_inv :: "'a mp_state \<times> 'a list \<times> 'a list \<Rightarrow> 'a mp_pc list \<Rightarrow> bool" where
  [inv_defs]: "bq_inv sh ps \<longleftrightarrow> (\<exists>c p xs x0 ys. ps = [c, p] \<and> bq_ok (fst sh) xs x0 ys c p
     \<and> fst (snd sh) = snd (snd sh) @ map snd ys)"

lemma bq_invI:
  "bq_ok s xs x0 ys c p \<Longrightarrow> sent = got @ map snd ys \<Longrightarrow> bq_inv (s, sent, got) [c, p]"
  by (auto simp: bq_inv_def)

definition bq_start :: "'a \<Rightarrow> ('a mp_state \<times> 'a list \<times> 'a list, 'a mp_pc) system \<Rightarrow> bool" where
  "bq_start d t \<longleftrightarrow> t = ((mp_init d, [], []), [MpIdle, MpIdle])"


section \<open>The producer\<close>

lemma bq_okD:
  assumes "bq_ok s xs x0 ys c p"
  shows "open_chain (mp_heap s) (mp_pend p) (xs @ (mp_tail s, x0) # ys)"
    and "distinct (map fst (xs @ (mp_tail s, x0) # ys))"
    and "dom (mp_heap s) = fst ` set (xs @ (mp_tail s, x0) # ys) \<union> bq_own p"
    and "fst ` set (xs @ (mp_tail s, x0) # ys) \<inter> bq_own p = {}"
    and "{..<mp_fresh s} = dom (mp_heap s)"
    and "mp_buffer_head s = fst (hd (xs @ [(mp_tail s, x0)]))"
    and "mp_head s = fst (last ((mp_tail s, x0) # ys))"
    and "bq_consumer_ok (mp_tail s \<notin> mp_pend p) ys c"
    and "bq_producer_ok s xs ((mp_tail s, x0) # ys) p"
  using assms by (simp_all add: bq_ok_def bq_shape_def)

text \<open>A step that changes only the program counter of the producer.\<close>

lemma bq_producer_local:
  "bq_ok s xs x0 ys c p \<Longrightarrow> mp_pend p' = mp_pend p \<Longrightarrow> bq_own p' = bq_own p \<Longrightarrow>
    bq_producer_ok s xs ((mp_tail s, x0) # ys) p' \<Longrightarrow> bq_ok s xs x0 ys c p'"
  by (simp add: bq_ok_def)

lemma bq_new_ok:
  assumes ok: "bq_ok s xs x0 ys c p" and p: "mp_pend p = {}" "bq_own p = {}"
  shows "bq_ok (snd (mp_new v s)) xs x0 ys c (fst (mp_new v s))"
proof -
  let ?cs = "xs @ (mp_tail s, x0) # ys"
  let ?h = "(mp_heap s)(mp_fresh s \<mapsto> \<lparr>node_next = None, node_value = v\<rparr>)"
  note d = bq_okD [OF ok]
  have dom: "dom (mp_heap s) = fst ` set ?cs" using d(3) p by simp
  have out: "mp_fresh s \<notin> fst ` set ?cs" using d(5) unfolding dom by (metis lessThan_iff less_irrefl)
  have "?h a = mp_heap s a" if "a \<in> fst ` set ?cs" for a using that out by (metis fun_upd_other)
  with d(1) have oc: "open_chain ?h {} ?cs" unfolding p(1) by (rule open_chain_same)
  have "dom ?h = fst ` set ?cs \<union> {mp_fresh s}" using dom by simp
  moreover have "fst ` set ?cs \<inter> {mp_fresh s} = {}" using out by (simp only: Int_insert_right_if0 Int_empty_right simp_thms)
  moreover have "{..<mp_fresh s + 1} = dom ?h" using d(5) by (simp add: lessThan_Suc)
  ultimately show ?thesis
    using oc d(2,6,7,8) p unfolding mp_new_def fst_conv snd_conv bq_ok_def bq_shape_def by simp
qed

lemma bq_first_next:
  assumes ok: "bq_ok s xs x0 ys c p" and p: "mp_pend p = {}" and ne: "xs \<noteq> []"
  obtains x xs' where "xs = (mp_buffer_head s, x) # xs'"
    and "follow (mp_heap s) (mp_buffer_head s) = Some (fst (hd (xs' @ [(mp_tail s, x0)])))"
proof -
  note d = bq_okD [OF ok]
  obtain x xs' where xs: "xs = (mp_buffer_head s, x) # xs'" using ne d(6) by (cases xs) auto
  have "fst (hd (xs' @ (mp_tail s, x0) # ys)) = fst (hd (xs' @ [(mp_tail s, x0)]))" by (cases xs') simp_all
  with d(1) have "follow (mp_heap s) (mp_buffer_head s) = Some (fst (hd (xs' @ [(mp_tail s, x0)])))"
    unfolding xs p append_Cons open_chain_Cons by (simp add: follow_def)
  with xs show thesis by (rule that)
qed

text \<open>With one producer the compare_exchange always succeeds.\<close>

lemma bq_cas_ok:
  assumes ok: "bq_ok s xs x0 ys c (MpCas v n m)"
  shows "mp_buffer_head s = n" and "\<exists>xs'. bq_ok (s\<lparr>mp_buffer_head := m\<rparr>) xs' x0 ys c (MpFill v n)"
proof -
  note d = bq_okD [OF ok]
  show n: "mp_buffer_head s = n" using d(9) by simp
  obtain x xs' where xs: "xs = (n, x) # xs'" and f: "follow (mp_heap s) n = Some (fst (hd (xs' @ [(mp_tail s, x0)])))"
    using bq_first_next [OF ok] d(9) n by auto
  have m: "m = fst (hd (xs' @ [(mp_tail s, x0)]))" using d(9) f by simp
  let ?cs = "xs' @ (mp_tail s, x0) # ys"
  have "open_chain (mp_heap s) {} ?cs" using d(1) unfolding xs by (simp add: open_chain_Cons)
  moreover have "distinct (map fst ?cs)" "n \<notin> fst ` set ?cs" using d(2) unfolding xs by (auto simp: image_Un)
  moreover have "dom (mp_heap s) = fst ` set ?cs \<union> {n}" using d(3) unfolding xs by auto
  ultimately have "bq_ok (s\<lparr>mp_buffer_head := m\<rparr>) xs' x0 ys c (MpFill v n)"
    using d(5,7,8) m unfolding bq_ok_def bq_shape_def by simp
  then show "\<exists>xs'. bq_ok (s\<lparr>mp_buffer_head := m\<rparr>) xs' x0 ys c (MpFill v n)" by blast
qed

lemma bq_fill_ok:
  assumes ok: "bq_ok s xs x0 ys c (MpFill v n)"
  shows "mp_heap s n \<noteq> None"
    and "bq_ok (s\<lparr>mp_heap := set_next n None (set_value n v (mp_heap s))\<rparr>) xs x0 ys c (MpExchange n)"
proof -
  let ?cs = "xs @ (mp_tail s, x0) # ys" and ?h = "set_next n None (set_value n v (mp_heap s))"
  note d = bq_okD [OF ok]
  have "n \<in> dom (mp_heap s)" using d(3) by simp
  then obtain x where x: "mp_heap s n = Some x" by blast
  then show "mp_heap s n \<noteq> None" by simp
  have out: "n \<notin> fst ` set ?cs" using d(4) by (simp only: bq_own.simps disjoint_iff singleton_iff) blast
  have "?h a = mp_heap s a" if "a \<in> fst ` set ?cs" for a
    using that out by (metis fun_upd_other set_next_def set_value_def)
  with d(1) have "open_chain ?h {} ?cs" unfolding mp_pend.simps by (rule open_chain_same)
  moreover have "?h n = Some \<lparr>node_next = None, node_value = v\<rparr>"
    using x by (simp add: set_next_apply set_value_def)
  ultimately show "bq_ok (s\<lparr>mp_heap := ?h\<rparr>) xs x0 ys c (MpExchange n)"
    using d(2-8) unfolding bq_ok_def bq_shape_def by simp
qed

lemma bq_exchange_ok:
  assumes ok: "bq_ok s xs x0 ys c (MpExchange n)"
  shows "\<exists>v. mp_heap s n = Some \<lparr>node_next = None, node_value = v\<rparr>
    \<and> bq_ok (s\<lparr>mp_head := n\<rparr>) xs x0 (ys @ [(n, v)]) c (MpLink (mp_head s) n)"
proof -
  let ?cs = "xs @ (mp_tail s, x0) # ys"
  note d = bq_okD [OF ok]
  obtain v where v: "mp_heap s n = Some \<lparr>node_next = None, node_value = v\<rparr>" using d(9) by auto
  have out: "n \<notin> fst ` set ?cs" using d(4) by (simp only: bq_own.simps disjoint_iff singleton_iff) blast
  obtain zs a y where z: "(mp_tail s, x0) # ys = zs @ [(a, y)]" and a: "mp_head s = a"
    using d(7) by (metis append_butlast_last_id list.distinct(1) prod.collapse)
  have "open_chain (mp_heap s) {a} ((xs @ zs) @ [(a, y)])"
    by (rule open_chain_pend [of _ "{}"]) (use d(1,2) z in simp_all)
  from open_chain_snoc [OF this _ v] have oc: "open_chain (mp_heap s) {a} (xs @ (mp_tail s, x0) # ys @ [(n, v)])"
    using z by (metis Cons_eq_appendI append.assoc append_Nil singletonI)
  have nt: "next_to ((mp_tail s, x0) # ys @ [(n, v)]) a n"
    using next_to_snoc [of zs a y n v a n] z by (metis Cons_eq_appendI append.assoc append_Nil)
  have "bq_consumer_ok (mp_tail s \<notin> {a}) (ys @ [(n, v)]) c"
  proof -
    have "mp_tail s \<noteq> a" if "ys \<noteq> []"
    proof -
      have "a \<in> fst ` set ys" using that z by (cases zs) auto
      with d(2) show ?thesis by auto
    qed
    then show ?thesis using d(8) by (cases c) auto
  qed
  moreover have "dom (mp_heap s) = fst ` set (xs @ (mp_tail s, x0) # ys @ [(n, v)])" using d(3) by auto
  moreover have "distinct (map fst (xs @ (mp_tail s, x0) # ys @ [(n, v)]))" using d(2) out by auto
  ultimately have "bq_ok (s\<lparr>mp_head := n\<rparr>) xs x0 (ys @ [(n, v)]) c (MpLink a n)"
    using oc nt d(5,6) unfolding bq_ok_def bq_shape_def by simp
  with v a show ?thesis by blast
qed

lemma next_to_append: "next_to cs a n \<Longrightarrow> next_to (xs @ cs) a n"
proof (induction xs)
  case (Cons x xs)
  then show ?case by (cases x; cases "xs @ cs") auto
qed simp

lemma bq_link_ok:
  assumes ok: "bq_ok s xs x0 ys c (MpLink a n)"
  shows "mp_heap s a \<noteq> None"
    and "bq_ok (s\<lparr>mp_heap := set_next a (Some n) (mp_heap s)\<rparr>) xs x0 ys c MpEnqueued"
proof -
  let ?cs = "xs @ (mp_tail s, x0) # ys"
  note d = bq_okD [OF ok]
  have nt: "next_to ?cs a n" using d(9) by (intro next_to_append) simp
  then have "a \<in> fst ` set ?cs" using next_to_mem by blast
  with d(3) show "mp_heap s a \<noteq> None" by blast
  from open_chain_link [OF d(1) nt d(2)]
  have "open_chain (set_next a (Some n) (mp_heap s)) {} ?cs" by simp
  moreover have "bq_consumer_ok True ys c" using d(8) by (cases c) auto
  ultimately show "bq_ok (s\<lparr>mp_heap := set_next a (Some n) (mp_heap s)\<rparr>) xs x0 ys c MpEnqueued"
    using d(2-7) unfolding bq_ok_def bq_shape_def by simp
qed

lemma bq_producer_step:
  assumes ok: "bq_ok s xs x0 ys c p" and log: "sent = got @ map snd ys"
    and st: "(p', sh') \<in> set (mp_step Buffered d vals 1 p (s, sent, got))"
  shows "bq_inv sh' [c, p']"
proof (cases p)
  case MpIdle
  then obtain v where "p' = MpBuffer v" "sh' = (s, sent, got)" using st by (auto simp: mp_step_def)
  with bq_producer_local [OF ok, of "MpBuffer v"] MpIdle log show ?thesis by (auto intro: bq_invI)
next
  case (MpBuffer v)
  then have "p' = MpTest v (mp_buffer_head s)" "sh' = (s, sent, got)"
    using st by (simp_all add: mp_step_def mp_record_def)
  with bq_producer_local [OF ok, of p'] MpBuffer log show ?thesis by (auto intro: bq_invI)
next
  case (MpTest v n)
  have n: "n = mp_buffer_head s" using bq_okD(9) [OF ok] MpTest by simp
  show ?thesis
  proof (cases "n = mp_tail s")
    case True
    then have "p' = fst (mp_new v s)" "sh' = (snd (mp_new v s), sent, got)"
      using st MpTest by (cases "mp_new v s"; simp add: mp_step_def mp_record_def)+
    with bq_new_ok [OF ok] MpTest log show ?thesis by (auto intro: bq_invI)
  next
    case False
    then have "xs \<noteq> []" using n bq_okD(6) [OF ok] by auto
    moreover have "p' = MpNextOf v n" "sh' = (s, sent, got)"
      using st MpTest False by (simp_all add: mp_step_def mp_record_def)
    ultimately show ?thesis using bq_producer_local [OF ok, of p'] MpTest n log by (auto intro: bq_invI)
  qed
next
  case (MpNextOf v n)
  then have n: "n = mp_buffer_head s" "xs \<noteq> []" using bq_okD(9) [OF ok] by simp_all
  then obtain m where m: "follow (mp_heap s) n = Some m"
    using bq_first_next [OF ok] MpNextOf by auto
  then have "p' = MpCas v n m" "sh' = (s, sent, got)"
    using st MpNextOf by (simp_all add: mp_step_def mp_record_def)
  with bq_producer_local [OF ok, of p'] MpNextOf n m log show ?thesis by (auto intro: bq_invI)
next
  case (MpCas v n m)
  note r = bq_cas_ok [OF ok [unfolded MpCas]]
  have "p' = MpFill v n" "sh' = (s\<lparr>mp_buffer_head := m\<rparr>, sent, got)"
    using st MpCas r(1) by (simp_all add: mp_step_def mp_record_def)
  with r(2) log show ?thesis by (auto intro: bq_invI)
next
  case (MpFill v n)
  note r = bq_fill_ok [OF ok [unfolded MpFill]]
  have "p' = MpExchange n" "sh' = (s\<lparr>mp_heap := set_next n None (set_value n v (mp_heap s))\<rparr>, sent, got)"
    using st MpFill r(1) by (simp_all add: mp_step_def mp_record_def split: if_splits)
  with r(2) log show ?thesis by (auto intro: bq_invI)
next
  case (MpExchange n)
  from bq_exchange_ok [OF ok [unfolded MpExchange]] obtain v
    where v: "mp_heap s n = Some \<lparr>node_next = None, node_value = v\<rparr>"
      and r: "bq_ok (s\<lparr>mp_head := n\<rparr>) xs x0 (ys @ [(n, v)]) c (MpLink (mp_head s) n)" by blast
  have "p' = MpLink (mp_head s) n" "sh' = (s\<lparr>mp_head := n\<rparr>, sent @ [v], got)"
    using st MpExchange v by (simp_all add: mp_step_def mp_record_def)
  with r log show ?thesis by (auto intro: bq_invI)
next
  case (MpLink a n)
  note r = bq_link_ok [OF ok [unfolded MpLink]]
  have "p' = MpEnqueued" "sh' = (s\<lparr>mp_heap := set_next a (Some n) (mp_heap s)\<rparr>, sent, got)"
    using st MpLink r(1) by (simp_all add: mp_step_def mp_record_def split: if_splits)
  with r(2) log show ?thesis by (auto intro: bq_invI)
next
  case MpEnqueued
  then have "p' = MpIdle" "sh' = (s, sent, got)" using st by (simp_all add: mp_step_def)
  with bq_producer_local [OF ok, of MpIdle] MpEnqueued log show ?thesis by (auto intro: bq_invI)
qed (use bq_okD(9) [OF ok] in simp_all)


section \<open>The consumer\<close>

lemma bq_consumer_local:
  "bq_ok s xs x0 ys c p \<Longrightarrow> bq_consumer_ok (mp_tail s \<notin> mp_pend p) ys c' \<Longrightarrow> bq_ok s xs x0 ys c' p"
  by (simp add: bq_ok_def)

lemma bq_tail_cell:
  assumes "bq_ok s xs x0 ys c p"
  shows "mp_heap s (mp_tail s) = Some \<lparr>node_next = (if ys = [] \<or> mp_tail s \<in> mp_pend p then None else Some (fst (hd ys))),
    node_value = x0\<rparr>" and "open_chain (mp_heap s) (mp_pend p) ys"
  using open_chain_appendD [OF bq_okD(1) [OF assms]] by (simp_all add: open_chain_Cons)

lemma bq_advance_ok:
  assumes ok: "bq_ok s xs x0 ((n, v) # ys) c p" and t: "mp_tail s \<notin> mp_pend p"
  shows "bq_ok (s\<lparr>mp_tail := n\<rparr>) (xs @ [(mp_tail s, x0)]) v ys (MpReset a v) p"
proof -
  note d = bq_okD [OF ok]
  have "bq_producer_ok (s\<lparr>mp_tail := n\<rparr>) (xs @ [(mp_tail s, x0)]) ((n, v) # ys) p"
    using d(9) t by (cases p) (auto dest: next_to_tl)
  moreover have "mp_buffer_head s = fst (hd ((xs @ [(mp_tail s, x0)]) @ [(n, v)]))" using d(6) by (cases xs) simp_all
  ultimately show ?thesis using d(1-5,7) unfolding bq_ok_def bq_shape_def by simp
qed

lemma bq_reset_ok:
  assumes ok: "bq_ok s xs x0 ys c p"
  shows "bq_ok (s\<lparr>mp_heap := set_value (mp_tail s) d (mp_heap s)\<rparr>) xs d ys (MpDequeued r) p"
proof -
  let ?h = "set_value (mp_tail s) d (mp_heap s)"
  note d = bq_okD [OF ok]
  have oc: "open_chain ?h (mp_pend p) (xs @ (mp_tail s, d) # ys)"
    using d(1,2) by (rule open_chain_set_value)
  have "\<And>b. b \<noteq> mp_tail s \<Longrightarrow> ?h b = mp_heap s b" by (simp add: set_value_def)
  moreover have "follow ?h b = follow (mp_heap s) b" for b
    by (cases "mp_heap s b"; cases "b = mp_tail s") (simp_all add: follow_def set_value_def)
  moreover have "next_to ((mp_tail s, x0) # ys) b m \<Longrightarrow> next_to ((mp_tail s, d) # ys) b m" for b m
    by (cases ys) auto
  ultimately have "bq_producer_ok (s\<lparr>mp_heap := ?h\<rparr>) xs ((mp_tail s, d) # ys) p"
    using d(4,9) by (cases p) auto
  moreover have "fst (hd (xs @ [(mp_tail s, d)])) = fst (hd (xs @ [(mp_tail s, x0)]))" by (cases xs) simp_all
  moreover have "fst (last ((mp_tail s, d) # ys)) = fst (last ((mp_tail s, x0) # ys))" by simp
  ultimately show ?thesis using oc d(2-7) unfolding bq_ok_def bq_shape_def by simp
qed

lemma bq_consumer_step:
  assumes ok: "bq_ok s xs x0 ys c p" and log: "sent = got @ map snd ys"
    and st: "(c', sh') \<in> set (mp_step Buffered d vals 0 c (s, sent, got))"
  shows "bq_inv sh' [c', p]"
proof (cases c)
  case MpIdle
  then have "c' = MpNext" "sh' = (s, sent, got)" using st by (simp_all add: mp_step_def)
  with bq_consumer_local [OF ok, of MpNext] log show ?thesis by (auto intro: bq_invI)
next
  case MpNext
  show ?thesis
  proof (cases "ys = [] \<or> mp_tail s \<in> mp_pend p")
    case True
    then have "c' = MpDequeued None" "sh' = (s, sent, got)"
      using st MpNext bq_tail_cell(1) [OF ok] by (auto simp: mp_step_def mp_record_def)
    with bq_consumer_local [OF ok, of c'] log show ?thesis by (auto intro: bq_invI)
  next
    case False
    then obtain n w ds where ys: "ys = (n, w) # ds" by (cases ys) auto
    have "c' = MpValue n" "sh' = (s, sent, got)"
      using st MpNext bq_tail_cell(1) [OF ok] False ys by (simp_all add: mp_step_def mp_record_def)
    with bq_consumer_local [OF ok, of c'] log ys False show ?thesis by (auto intro: bq_invI)
  qed
next
  case (MpValue n)
  then obtain w ds where ys: "ys = (n, w) # ds" "mp_tail s \<notin> mp_pend p" using bq_okD(8) [OF ok] by auto
  with bq_tail_cell(2) [OF ok] obtain x where "mp_heap s n = Some x" "node_value x = w"
    by (auto simp: open_chain_Cons)
  then have "c' = MpAdvance n w" "sh' = (s, sent, got)"
    using st MpValue by (simp_all add: mp_step_def mp_record_def)
  with bq_consumer_local [OF ok, of c'] log ys show ?thesis by (auto intro: bq_invI)
next
  case (MpAdvance n v)
  then obtain ds where ys: "ys = (n, v) # ds" and t: "mp_tail s \<notin> mp_pend p" using bq_okD(8) [OF ok] by auto
  have "c' = MpReset (mp_tail s) v" "sh' = (s\<lparr>mp_tail := n\<rparr>, sent, got @ [v])"
    using st MpAdvance by (simp_all add: mp_step_def mp_record_def)
  have "bq_inv (s\<lparr>mp_tail := n\<rparr>, sent, got @ [v]) [MpReset (mp_tail s) v, p]"
    by (rule bq_invI [OF bq_advance_ok [OF ok(1) [unfolded ys] t]]) (simp add: log ys)
  then show ?thesis by (simp only: \<open>c' = _\<close> \<open>sh' = _\<close>)
next
  case (MpReset a v)
  have "c' = MpDequeued (Some v)" "sh' = (s\<lparr>mp_heap := set_value (mp_tail s) d (mp_heap s)\<rparr>, sent, got)"
    using st MpReset bq_tail_cell(1) [OF ok] by (simp_all add: mp_step_def mp_record_def)
  with bq_reset_ok [OF ok] log show ?thesis by (auto intro: bq_invI)
next
  case (MpDequeued r)
  then have "c' = MpIdle" "sh' = (s, sent, got)" using st by (simp_all add: mp_step_def)
  with bq_consumer_local [OF ok, of MpIdle] log show ?thesis by (auto intro: bq_invI)
qed (use bq_okD(8) [OF ok] in simp_all)

interpretation bq: queue_protocol "mp_step Buffered d vals" "bq_start d" bq_inv "\<lambda>sh. fst (snd sh)"
  "\<lambda>sh. snd (snd sh)" "\<lambda>sh. drop (length (snd (snd sh))) (fst (snd sh))" "\<lambda>p. p = MpCrash"
proof
  fix sh :: "'a mp_state \<times> 'a list \<times> 'a list" and ps
  assume "bq_start d (sh, ps)"
  then have e: "sh = (mp_init d, [], [])" "ps = [MpIdle, MpIdle]" by (simp_all add: bq_start_def)
  have "bq_ok (mp_init d) [] d [] MpIdle MpIdle"
    by (simp add: bq_ok_def bq_shape_def mp_init_def lessThan_Suc)
  then show "bq_inv sh ps" unfolding e by (rule bq_invI) simp
next
  fix sh :: "'a mp_state \<times> 'a list \<times> 'a list" and ps i p' sh'
  assume inv: "bq_inv sh ps" and i: "i < length ps" and st: "(p', sh') \<in> set (mp_step Buffered d vals i (ps ! i) sh)"
  obtain s sent got where sh: "sh = (s, sent, got)" by (cases sh)
  from inv sh obtain c p xs x0 ys where ps: "ps = [c, p]" and ok: "bq_ok s xs x0 ys c p" "sent = got @ map snd ys"
    by (auto simp: bq_inv_def)
  from i ps consider "i = 0" | "i = 1" by fastforce
  then show "bq_inv sh' (ps[i := p'])"
  proof cases
    case 1
    with bq_consumer_step [OF ok] st sh ps show ?thesis by simp
  next
    case 2
    with bq_producer_step [OF ok] st sh ps show ?thesis by simp
  qed
next
  fix sh :: "'a mp_state \<times> 'a list \<times> 'a list" and ps
  assume "bq_inv sh ps"
  then show "fst (snd sh) = snd (snd sh) @ drop (length (snd (snd sh))) (fst (snd sh))"
    by (auto simp: bq_inv_def)
next
  fix sh :: "'a mp_state \<times> 'a list \<times> 'a list" and ps p
  assume "bq_inv sh ps" "p \<in> set ps"
  then show "p \<noteq> MpCrash" by (auto simp: bq_inv_def bq_ok_def)
qed

text \<open>When no link is open, and when no call is under way.\<close>

lemma bq_closed:
  assumes "bq_ok s xs x0 ys c p" "mp_pend p = {}"
  shows "chain (mp_heap s) (xs @ (mp_tail s, x0) # ys) None"
    and "values_after (mp_fresh s) (mp_heap s) (mp_tail s) None = map snd ys"
proof -
  let ?cs = "xs @ (mp_tail s, x0) # ys"
  note d = bq_okD [OF assms(1)]
  show ch: "chain (mp_heap s) ?cs None" using d(1) assms(2) by (simp only: open_chain_closed)
  have "\<forall>a \<in> fst ` set ?cs. a < mp_fresh s" using d(3,5) by (metis UnI1 lessThan_iff)
  with d(2) have "length ?cs \<le> mp_fresh s" by (rule chain_length)
  then have "length ys < mp_fresh s" by simp
  moreover have "chain (mp_heap s) ((mp_tail s, x0) # ys) None" using ch by simp
  ultimately show "values_after (mp_fresh s) (mp_heap s) (mp_tail s) None = map snd ys"
    by (intro values_after_end [of _ _ x0])
qed

lemma bq_destroy:
  assumes ok: "bq_ok s xs x0 ys MpIdle MpIdle"
  shows "\<exists>h. mp_destroy (mp_fresh s) s = Some h \<and> card (dom h) + 1 + length ys = mp_fresh s"
proof -
  let ?cs = "(mp_tail s, x0) # ys"
  note d = bq_okD [OF ok]
  have dist: "distinct (map fst ?cs)" "distinct (map fst xs)" "fst ` set xs \<inter> fst ` set ?cs = {}"
    using d(2) by (auto simp: image_Un)
  have ch: "chain (mp_heap s) ?cs None" using bq_closed(1) [OF ok] by simp
  have dom: "dom (mp_heap s) = fst ` set xs \<union> fst ` set ?cs" using d(3) by auto
  have "card {..<mp_fresh s} = length xs + length ?cs"
    unfolding d(5) dom using dist card_Un_disjoint [OF _ _ dist(3)] distinct_card [OF dist(1)] distinct_card [OF dist(2)]
    by (simp only: set_map finite_imageI finite_set length_map)
  then have fresh: "mp_fresh s = length xs + length ?cs" by simp
  let ?h = "mp_heap s |` (- fst ` set ?cs)"
  have "free_chain (length ?cs) (mp_heap s) (head_of ?cs None) = Some ?h"
    by (rule free_chain_part [OF ch dist(1)])
  then have "free_chain (mp_fresh s) (mp_heap s) (head_of ?cs None) = Some ?h"
    by (rule free_chain_mono) (simp add: fresh)
  then have "mp_destroy (mp_fresh s) s = Some ?h" by (simp add: mp_destroy_def)
  moreover have "dom ?h = fst ` set xs" unfolding dom_restrict dom using dist(3) by blast
  then have "card (dom ?h) = length xs" using distinct_card [OF dist(2)] by simp
  ultimately show ?thesis using fresh by (intro exI [of _ ?h]) simp
qed


section \<open>Properties\<close>

text \<open>C36. One producer and one consumer of \<open>mpsc_queue\<close> with the policy \<open>buffered\<close>, which uses
  popped nodes again, under every interleaving: the consumer gets the values in the order they were
  enqueued, none lost and none twice, no null pointer is followed, and when no link is open the rest
  is reachable from the tail. The destructor, when no call is under way, returns and leaks: of all the
  nodes ever made it deletes the tail's and those of the values inside, and leaves every other.\<close>

theorem mpsc_queue_buffered_one_producer:
  assumes "reach (bq_start d) (interleave (mp_step Buffered d vals)) ((s, sent, got), ps)"
  shows "got = take (length got) sent \<and> MpCrash \<notin> set ps
    \<and> ((\<forall>p \<in> set ps. mp_pend p = {}) \<longrightarrow>
        values_after (mp_fresh s) (mp_heap s) (mp_tail s) None = drop (length got) sent)
    \<and> ((\<forall>p \<in> set ps. p = MpIdle) \<longrightarrow> (\<exists>h. mp_destroy (mp_fresh s) s = Some h
        \<and> card (dom h) + 1 + (length sent - length got) = mp_fresh s))"
proof -
  obtain c p xs x0 ys where ps: "ps = [c, p]" and ok: "bq_ok s xs x0 ys c p" "sent = got @ map snd ys"
    using bq.reach_inv [OF assms] by (auto simp: bq_inv_def)
  have "MpCrash \<notin> set ps" using bq.reach_safe [OF assms] by blast
  moreover have "values_after (mp_fresh s) (mp_heap s) (mp_tail s) None = drop (length got) sent"
    if "\<forall>p \<in> set ps. mp_pend p = {}"
    using bq_closed(2) [OF ok(1)] that ps ok(2) by simp
  moreover have "\<exists>h. mp_destroy (mp_fresh s) s = Some h
      \<and> card (dom h) + 1 + (length sent - length got) = mp_fresh s" if "\<forall>p \<in> set ps. p = MpIdle"
  proof -
    have "bq_ok s xs x0 ys MpIdle MpIdle" using ok(1) that ps by simp
    with bq_destroy ok(2) show ?thesis by fastforce
  qed
  ultimately show ?thesis using ok(2) by simp
qed

text \<open>Two values are pushed and popped, a third takes the first node again: 3 nodes, of which the
  destructor leaves one.\<close>

abbreviation bq_schedule :: "(nat \<times> nat) list" where
  "bq_schedule \<equiv> map (\<lambda>i. (i, 0)) [1, 1, 1, 1, 1, 1, 1, 1, 1, 1, 1, 1,
     0, 0, 0, 0, 0, 0, 0, 0, 0, 0, 0, 0, 1, 1, 1, 1, 1, 1, 1, 1, 1]"

lemma bq_run:
  "\<exists>s. run_sched (mp_step Buffered 0 (\<lambda>i. [7])) bq_schedule ((mp_init (0::nat), [], []), [MpIdle, MpIdle])
     = Some ((s, [7, 7, 7], [7, 7]), [MpIdle, MpIdle]) \<and> mp_fresh s = 3"
  by (simp add: mp_step_def mp_init_def mp_new_def mp_record_def set_next_apply set_value_def follow_def)

theorem mpsc_queue_buffered_one_producer_witness:
  "\<exists>s :: nat mp_state. values_after 3 (mp_heap s) (mp_tail s) None = [7]
     \<and> (\<exists>h. mp_destroy 3 s = Some h \<and> card (dom h) = 1)"
proof -
  obtain s where s: "run_sched (mp_step Buffered 0 (\<lambda>i. [7])) bq_schedule ((mp_init (0::nat), [], []), [MpIdle, MpIdle])
     = Some ((s, [7, 7, 7], [7, 7]), [MpIdle, MpIdle])" "mp_fresh s = 3"
    using bq_run by (elim exE conjE) (rule that)
  have r: "reach (bq_start (0::nat)) (interleave (mp_step Buffered 0 (\<lambda>i. [7]))) ((s, [7, 7, 7], [7, 7]), [MpIdle, MpIdle])"
    by (rule run_sched_reach_start [OF _ s(1)]) (simp add: bq_start_def)
  from mpsc_queue_buffered_one_producer [OF r] s(2) show ?thesis by (intro exI [of _ s]) auto
qed

end
