(* ===== verification/Spsc_Bounded.thy ===== *)
theory Spsc_Bounded
  imports Interfaces
begin

text \<open>
  The class \<open>spsc_bounded_queue\<close> of \<open>containers/queue/spsc_bounded_queue.h\<close>, with calls that
  do not overlap. Both positions are advanced by \<open>fetch_add(cur + 1)\<close>, which adds the position
  to itself: they run through 0, 1, 3, 7, 15, and so on, which is why a queue of \<open>2 ^ b\<close> nodes takes
  \<open>b + 1\<close> values and a push after that overwrites one that is inside.
\<close>

unbundle bit_operations_syntax

record 'a sb_state =
  sb_mask :: u64
  sb_size :: u64
  sb_head :: u64
  sb_tail :: u64
  sb_buffer :: "'a list"

text \<open>The constructor; \<open>None\<close> when its \<open>assert\<close> fails. A node's value starts as \<open>d0\<close>.\<close>

definition sb_init :: "'a \<Rightarrow> u64 \<Rightarrow> 'a sb_state option" where
  "sb_init d0 sz =
     (if 1 < sz \<and> sz AND (sz - 1) = 0
      then Some \<lparr>sb_mask = sz - 1, sb_size = sz, sb_head = 0, sb_tail = 0,
                 sb_buffer = replicate (unat sz) d0\<rparr>
      else None)"

definition sb_fetch_add :: "u64 \<Rightarrow> u64 \<Rightarrow> u64" where
  "sb_fetch_add current arg = current + arg"

definition sb_try_enqueue :: "'a \<Rightarrow> 'a sb_state \<Rightarrow> bool \<times> 'a sb_state" where
  "sb_try_enqueue v s =
     (let cur_head = sb_head s; cur_tail = sb_tail s
      in if sb_size s < cur_head - cur_tail then (False, s)
         else let actual_index = cur_head AND sb_mask s
              in (True, s\<lparr>sb_buffer := (sb_buffer s)[unat actual_index := v],
                          sb_head := sb_fetch_add (sb_head s) (cur_head + 1)\<rparr>))"

definition sb_try_dequeue :: "'a sb_state \<Rightarrow> 'a option \<times> 'a sb_state" where
  "sb_try_dequeue s =
     (let cur_head = sb_head s; cur_tail = sb_tail s
      in if cur_head = cur_tail then (None, s)
         else let actual_index = cur_tail AND sb_mask s
              in (Some (sb_buffer s ! unat actual_index),
                  s\<lparr>sb_tail := sb_fetch_add (sb_tail s) (cur_tail + 1)\<rparr>))"


section \<open>The positions\<close>

text \<open>After \<open>i\<close> successful calls a position is \<open>mask i\<close>, that is \<open>2 ^ i - 1\<close>.\<close>

lemma sb_advance: "sb_fetch_add (mask i) (mask i + 1) = mask (Suc i)"
  by (simp add: sb_fetch_add_def mask_eq_exp_minus_1)

lemma pred_less_iff: "0 < a \<Longrightarrow> 0 < b \<Longrightarrow> a - 1 < b - 1 \<longleftrightarrow> a < b" for a b :: nat
  by auto

lemma sb_slot_mono: "(2::nat) ^ i - 1 < 2 ^ j - 1 \<longleftrightarrow> i < j"
  by (subst pred_less_iff) simp_all

lemma mask_less_iff: "i \<le> 64 \<Longrightarrow> j \<le> 64 \<Longrightarrow> (mask i :: u64) < mask j \<longleftrightarrow> i < j"
  by (simp only: word_less_nat_alt unat_mask_64 sb_slot_mono)

lemma mask_le_iff: "i \<le> 64 \<Longrightarrow> j \<le> 64 \<Longrightarrow> (mask i :: u64) \<le> mask j \<longleftrightarrow> i \<le> j"
  using mask_less_iff [of j i] by (simp add: linorder_not_less [symmetric])

lemma mask_inj: "i \<le> 64 \<Longrightarrow> j \<le> 64 \<Longrightarrow> (mask i :: u64) = mask j \<longleftrightarrow> i = j"
  using mask_le_iff [of i j] mask_le_iff [of j i] by (metis order_antisym order_refl)

lemma sb_slot_less: "j \<le> b \<Longrightarrow> (2::nat) ^ j - 1 < 2 ^ b"
proof -
  assume "j \<le> b"
  then have "(2::nat) ^ j \<le> 2 ^ b" by simp
  moreover have "(0::nat) < 2 ^ j" by simp
  ultimately show ?thesis by linarith
qed

lemma sb_slot: "j \<le> b \<Longrightarrow> b \<le> 64 \<Longrightarrow> unat (mask j AND (mask b :: u64)) = 2 ^ j - 1"
  using sb_slot_less [of j b] by (simp only: unat_and_mask unat_mask_64 mod_less)

lemma sb_slot_inj: "(2::nat) ^ i - 1 = 2 ^ j - 1 \<longleftrightarrow> i = j"
  using sb_slot_mono [of i j] sb_slot_mono [of j i] by (metis linorder_neqE_nat less_irrefl)


section \<open>The first round\<close>

text \<open>The queue after \<open>i\<close> pushes and \<open>m\<close> pops, with room for the push of number
  \<open>b\<close>: the shape of every state before the positions pass the last node.\<close>

definition sb_at :: "nat \<Rightarrow> nat \<Rightarrow> nat \<Rightarrow> 'a sb_state \<Rightarrow> bool" where
  "sb_at b i m s \<longleftrightarrow> b < 64 \<and> m \<le> i \<and> i \<le> Suc b \<and> sb_mask s = mask b \<and> sb_size s = 2 ^ b
     \<and> sb_head s = mask i \<and> sb_tail s = mask m \<and> length (sb_buffer s) = 2 ^ b"

definition sb_wf :: "'a sb_state \<Rightarrow> bool" where
  "sb_wf s \<longleftrightarrow> (\<exists>b i m. sb_at b i m s)"

definition sb_contents :: "'a sb_state \<Rightarrow> 'a list" where
  "sb_contents s = map (\<lambda>j. sb_buffer s ! (2 ^ j - 1))
     (filter (\<lambda>j. sb_tail s \<le> mask j \<and> mask j < sb_head s) [0..<64])"

text \<open>How many more values a queue accepts before the first pop.\<close>

definition sb_room :: "'a sb_state \<Rightarrow> nat" where
  "sb_room s = (if sb_tail s = 0
     then length (filter (\<lambda>j. mask j \<le> sb_mask s) [0..<64]) - length (sb_contents s) else 0)"

lemma filter_upt_range:
  "m \<le> i \<Longrightarrow> i \<le> n \<Longrightarrow> filter (\<lambda>j. m \<le> j \<and> j < i) [0..<n] = [m..<i]" for m i n :: nat
proof -
  assume mi: "m \<le> i" "i \<le> n"
  then have "[0..<n] = [0..<m] @ [m..<i] @ [i..<n]"
    by (metis le_add_diff_inverse upt_add_eq_append zero_le append_assoc le_trans)
  then show ?thesis by (simp add: filter_False)
qed

lemma sb_contents_at: "sb_at b i m s \<Longrightarrow> sb_contents s = map (\<lambda>j. sb_buffer s ! (2 ^ j - 1)) [m..<i]"
proof -
  assume a: "sb_at b i m s"
  then have "filter (\<lambda>j. sb_tail s \<le> mask j \<and> mask j < sb_head s) [0..<64] = filter (\<lambda>j. m \<le> j \<and> j < i) [0..<64]"
    by (intro filter_cong) (auto simp: sb_at_def mask_le_iff mask_less_iff)
  also have "\<dots> = [m..<i]" using a by (intro filter_upt_range) (auto simp: sb_at_def)
  finally show ?thesis by (simp add: sb_contents_def)
qed

lemma sb_room_at: "sb_at b i m s \<Longrightarrow> sb_room s = (if m = 0 then Suc b - i else 0)"
proof -
  assume a: "sb_at b i m s"
  have "filter (\<lambda>j. mask j \<le> sb_mask s) [0..<64] = filter (\<lambda>j. 0 \<le> j \<and> j < Suc b) [0..<64]"
    using a by (intro filter_cong) (auto simp: sb_at_def mask_le_iff)
  then have "length (filter (\<lambda>j. mask j \<le> sb_mask s) [0..<64]) = Suc b"
    using a filter_upt_range [of 0 "Suc b" 64] by (simp add: sb_at_def)
  moreover have "sb_tail s = 0 \<longleftrightarrow> m = 0"
    using a mask_inj [of m 0] by (simp add: sb_at_def)
  ultimately show ?thesis by (simp add: sb_room_def sb_contents_at [OF a])
qed

lemma sb_enqueue_at:
  assumes a: "sb_at b i 0 s" and i: "i \<le> b"
  shows "sb_try_enqueue v s = (True, s\<lparr>sb_buffer := (sb_buffer s)[2 ^ i - 1 := v], sb_head := mask (Suc i)\<rparr>)"
proof -
  have b: "b < 64" and h: "sb_head s = mask i" "sb_mask s = mask b" "sb_tail s = 0" "sb_size s = 2 ^ b"
    using a by (simp_all add: sb_at_def)
  have "unat (2 ^ b :: u64) = 2 ^ b"
    using b unat_of_nat_64 [of "2 ^ b"] power_strict_increasing [of b 64 "2::nat"] by simp
  then have "\<not> (2 ^ b :: u64) < mask i"
    using b i sb_slot_less [OF i] by (simp add: word_less_nat_alt unat_mask_64)
  then show ?thesis
    using b i h by (simp add: sb_try_enqueue_def Let_def sb_slot sb_advance)
qed

lemma sb_enqueue_at_step:
  assumes a: "sb_at b i 0 s" and i: "i \<le> b" and e: "sb_try_enqueue v s = (r, s')"
  shows "r \<and> sb_at b (Suc i) 0 s' \<and> sb_contents s' = sb_contents s @ [v]"
proof -
  have s': "r" "s' = s\<lparr>sb_buffer := (sb_buffer s)[2 ^ i - 1 := v], sb_head := mask (Suc i)\<rparr>"
    using sb_enqueue_at [OF a i, of v] e by simp_all
  have a': "sb_at b (Suc i) 0 s'" using a i by (simp add: s' sb_at_def)
  have "2 ^ i - 1 < length (sb_buffer s)" using a sb_slot_less [OF i] by (simp add: sb_at_def)
  then have "sb_contents s' = sb_contents s @ [v]"
    using sb_slot_inj [of i] unfolding sb_contents_at [OF a'] sb_contents_at [OF a]
    by (auto simp: s' nth_list_update)
  with s'(1) a' show ?thesis by blast
qed

lemma sb_dequeue_at_step:
  assumes a: "sb_at b i m s" and m: "m < i" and e: "sb_try_dequeue s = (r, s')"
  shows "sb_at b i (Suc m) s' \<and> (\<exists>x. r = Some x \<and> sb_contents s = x # sb_contents s')"
proof -
  have mb: "m \<le> b" using a m by (simp add: sb_at_def)
  have ne: "sb_head s \<noteq> sb_tail s" using m a by (simp add: sb_at_def mask_inj)
  have h: "sb_tail s = mask m" "sb_mask s = mask b" "b \<le> 64" using a by (simp_all add: sb_at_def)
  have s': "r = Some (sb_buffer s ! (2 ^ m - 1))" "s' = s\<lparr>sb_tail := mask (Suc m)\<rparr>"
    using ne e h mb sb_slot [of m b] by (simp_all add: sb_try_dequeue_def Let_def sb_advance)
  have a': "sb_at b i (Suc m) s'" using a m by (simp add: s' sb_at_def)
  have "sb_contents s = sb_buffer s ! (2 ^ m - 1) # sb_contents s'"
    using m unfolding sb_contents_at [OF a'] sb_contents_at [OF a] by (simp add: s' upt_conv_Cons)
  with a' s'(1) show ?thesis by simp
qed

lemma sb_dequeue_at:
  assumes a: "sb_at b i m s" and e: "sb_try_dequeue s = (r, s')"
  shows "sb_wf s' \<and> spec_deq (sb_contents s) = (r, sb_contents s')"
proof (cases "m = i")
  case True
  then have "sb_head s = sb_tail s" using a by (simp add: sb_at_def)
  then have "r = None" "s' = s" using e by (simp_all add: sb_try_dequeue_def Let_def)
  then show ?thesis using a True by (auto simp: sb_wf_def sb_contents_at [OF a])
next
  case False
  then have "m < i" using a by (simp add: sb_at_def)
  from sb_dequeue_at_step [OF a this e] show ?thesis by (auto simp: sb_wf_def)
qed

interpretation sbq: fifo sb_try_enqueue sb_try_dequeue sb_contents sb_wf sb_room
proof
  fix s :: "'a sb_state" and x r s'
  assume wf: "sb_wf s" and room: "0 < sb_room s" and e: "sb_try_enqueue x s = (r, s')"
  obtain b i m where a: "sb_at b i m s" using wf by (auto simp: sb_wf_def)
  with room have m: "m = 0" "i \<le> b" by (auto simp: sb_room_at split: if_splits)
  with a have a0: "sb_at b i 0 s" by simp
  note st = sb_enqueue_at_step [OF a0 m(2) e]
  then show "r \<and> sb_wf s' \<and> sb_contents s' = sb_contents s @ [x] \<and> sb_room s \<le> Suc (sb_room s')"
    using sb_room_at [OF a0] sb_room_at [of b "Suc i" 0 s'] by (auto simp: sb_wf_def)
next
  fix s :: "'a sb_state" and r s'
  assume wf: "sb_wf s" and e: "sb_try_dequeue s = (r, s')"
  then show "sb_wf s' \<and> spec_deq (sb_contents s) = (r, sb_contents s')"
    unfolding sb_wf_def [of s] by (blast dest: sb_dequeue_at)
qed

lemma sb_init_at:
  assumes "sb_init d0 sz = Some s" "unat sz = 2 ^ b"
  shows "sb_at b 0 0 s"
proof -
  have "(2::nat) ^ b < 2 ^ 64" using unat_less_64 [of sz] by (simp only: assms(2))
  then have b: "b < 64" by (rule power_less_imp_less_exp [rotated]) simp
  have "sz = of_nat (unat sz)" by simp
  then have "sz = 2 ^ b" by (simp only: assms(2) of_nat_power of_nat_numeral)
  with assms b show ?thesis
    by (auto simp: sb_init_def sb_at_def mask_eq_exp_minus_1 split: if_splits)
qed

lemma sb_enqueue_all_at:
  "enq_all sb_try_enqueue ys t = (cs, t') \<Longrightarrow> sb_at b i 0 t \<Longrightarrow> i + length ys \<le> Suc b \<Longrightarrow>
    sb_at b (i + length ys) 0 t'"
proof (induction ys arbitrary: cs i t t')
  case (Cons z zs)
  obtain c u where 1: "sb_try_enqueue z t = (c, u)" by (cases "sb_try_enqueue z t")
  obtain ds u' where 2: "enq_all sb_try_enqueue zs u = (ds, u')" by (cases "enq_all sb_try_enqueue zs u")
  have "sb_at b (Suc i) 0 u" using sb_enqueue_at_step [OF Cons.prems(2) _ 1] Cons.prems(3) by simp
  from Cons.IH [OF 2 this] Cons.prems 1 2 show ?case by simp
qed simp

lemma sb_enqueue_beyond:
  assumes a: "sb_at b (Suc b) 0 s" and b: "0 < b"
  shows "sb_try_enqueue v s = (False, s)"
proof -
  have h: "sb_head s = mask (Suc b)" "sb_tail s = 0" "sb_size s = 2 ^ b" "b < 64"
    using a by (simp_all add: sb_at_def)
  have two: "(2::nat) \<le> 2 ^ b" using power_increasing [of 1 b "2::nat"] b by simp
  have "unat (2 ^ b :: u64) = 2 ^ b"
    using h(4) unat_of_nat_64 [of "2 ^ b"] power_strict_increasing [of b 64 "2::nat"] by simp
  moreover have "unat (mask (Suc b) :: u64) = 2 * 2 ^ b - 1" using h(4) by (simp add: unat_mask_64)
  ultimately have "(2 ^ b :: u64) < mask (Suc b)" using two unfolding word_less_nat_alt by linarith
  with h show ?thesis by (simp add: sb_try_enqueue_def Let_def)
qed

lemma sb_dequeue_many_at:
  "deq_many sb_try_dequeue n t = (rs, t') \<Longrightarrow> sb_at b i m t \<Longrightarrow> m + n \<le> i \<Longrightarrow> sb_at b i (m + n) t'"
proof (induction n arbitrary: rs m t t')
  case (Suc n)
  obtain r u where 1: "sb_try_dequeue t = (r, u)" by (cases "sb_try_dequeue t")
  obtain ds u' where 2: "deq_many sb_try_dequeue n u = (ds, u')" by (cases "deq_many sb_try_dequeue n u")
  have "sb_at b i (Suc m) u" using sb_dequeue_at_step [OF Suc.prems(2) _ 1] Suc.prems(3) by simp
  from Suc.IH [OF 2 this] Suc.prems 1 2 show ?case by simp
qed simp

text \<open>With one value left of \<open>b + 1\<close>, the slot of the next push is that of the value.\<close>

lemma mask_slot: "b \<le> j \<Longrightarrow> mask j AND (mask b :: u64) = mask b"
  by (intro bit_word_eqI) (auto simp: bit_simps)

lemma sb_overwrite_at:
  assumes a: "sb_at b (Suc b) b s" and b: "b < 63"
    and st: "sb_try_enqueue v s = (ok, s')" "deq_many sb_try_dequeue 3 s' = (rs, s'')"
  shows "ok \<and> rs = [Some v, Some v, None]"
proof -
  have h: "sb_head s = mask (Suc b)" "sb_tail s = mask b" "sb_mask s = mask b" "sb_size s = 2 ^ b"
    and len: "length (sb_buffer s) = 2 ^ b" using a by (simp_all add: sb_at_def)
  have slot: "unat (mask b :: u64) < 2 ^ b" using b by (simp add: unat_mask_64)
  have "mask (Suc b) - mask b = (2 ^ b :: u64)" by (simp add: mask_eq_exp_minus_1)
  then have s': "ok" "s' = s\<lparr>sb_buffer := (sb_buffer s)[unat (mask b :: u64) := v], sb_head := mask (Suc (Suc b))\<rparr>"
    using st(1) h by (simp_all add: sb_try_enqueue_def Let_def sb_advance mask_slot)
  have ne: "(mask (Suc (Suc b)) :: u64) \<noteq> mask b" "(mask (Suc (Suc b)) :: u64) \<noteq> mask (Suc b)"
    using b mask_inj [of "Suc (Suc b)" b] mask_inj [of "Suc (Suc b)" "Suc b"] by simp_all
  have "sb_buffer s' ! unat (mask b :: u64) = v" using slot len by (simp add: s'(2))
  then show ?thesis
    using st(2) s' h ne
    by (auto simp: deq_many_numeral sb_try_dequeue_def Let_def sb_advance mask_slot)
qed

text \<open>Once both positions agree, one push and one pop at a time.\<close>

fun sb_rounds :: "'a list \<Rightarrow> 'a sb_state \<Rightarrow> 'a option list \<times> 'a sb_state" where
  "sb_rounds [] s = ([], s)"
| "sb_rounds (x # xs) s =
     (case sb_try_enqueue x s of (b, s1) \<Rightarrow> case sb_try_dequeue s1 of (r, s2) \<Rightarrow>
        case sb_rounds xs s2 of (rs, s3) \<Rightarrow> (r # rs, s3))"

lemma sb_round:
  assumes h: "sb_head s = mask i" "sb_tail s = mask i" and m: "sb_mask s = mask b"
    and len: "length (sb_buffer s) = 2 ^ b" and i: "i < 64"
    and r: "sb_try_enqueue x s = (r1, s1)" "sb_try_dequeue s1 = (r2, s2)"
  shows "r2 = Some x \<and> sb_head s2 = mask (Suc i) \<and> sb_tail s2 = mask (Suc i)
    \<and> sb_mask s2 = mask b \<and> length (sb_buffer s2) = 2 ^ b"
proof -
  have in_range: "unat (mask i AND (mask b :: u64)) < length (sb_buffer s)"
    unfolding unat_and_mask len by simp
  have "sb_head s - sb_tail s = 0" using h by simp
  then have s1: "s1 = s\<lparr>sb_buffer := (sb_buffer s)[unat (mask i AND (mask b :: u64)) := x], sb_head := mask (Suc i)\<rparr>"
    using r(1) h m by (simp add: sb_try_enqueue_def Let_def sb_advance)
  have "(mask (Suc i) :: u64) \<noteq> mask i" using i mask_inj [of "Suc i" i] by simp
  with r(2) s1 h m in_range len show ?thesis
    by (auto simp: sb_try_dequeue_def Let_def sb_advance)
qed

lemma sb_round_dead:
  assumes h: "sb_head s = mask 64" "sb_tail s = mask 64" and len: "length (sb_buffer s) = 2 ^ b"
    and r: "sb_try_enqueue x s = (r1, s1)" "sb_try_dequeue s1 = (r2, s2)"
  shows "r1 \<and> r2 = None \<and> sb_head s2 = mask 64 \<and> sb_tail s2 = mask 64 \<and> length (sb_buffer s2) = 2 ^ b"
  using assms by (auto simp: sb_try_enqueue_def sb_try_dequeue_def Let_def sb_fetch_add_def mask_eq_exp_minus_1)

lemma sb_rounds_dead:
  "sb_head s = mask 64 \<Longrightarrow> sb_tail s = mask 64 \<Longrightarrow> length (sb_buffer s) = 2 ^ b \<Longrightarrow>
    fst (sb_rounds xs s) = replicate (length xs) None"
proof (induction xs arbitrary: s)
  case (Cons x xs)
  obtain r1 s1 where 1: "sb_try_enqueue x s = (r1, s1)" by (cases "sb_try_enqueue x s")
  obtain r2 s2 where 2: "sb_try_dequeue s1 = (r2, s2)" by (cases "sb_try_dequeue s1")
  obtain rs s3 where 3: "sb_rounds xs s2 = (rs, s3)" by (cases "sb_rounds xs s2")
  from sb_round_dead [OF Cons.prems 1 2] Cons.IH [of s2] 1 2 3 show ?case by simp
qed simp

lemma sb_rounds_at:
  "i \<le> 64 \<Longrightarrow> sb_head s = mask i \<Longrightarrow> sb_tail s = mask i \<Longrightarrow> sb_mask s = mask b \<Longrightarrow>
    length (sb_buffer s) = 2 ^ b \<Longrightarrow>
    fst (sb_rounds xs s) = map Some (take (64 - i) xs) @ replicate (length xs - (64 - i)) None"
proof (induction xs arbitrary: i s)
  case (Cons x xs)
  show ?case
  proof (cases "i = 64")
    case True
    with Cons.prems sb_rounds_dead [of s b "x # xs"] show ?thesis by simp
  next
    case False
    then have i: "i < 64" using Cons.prems(1) by simp
    then obtain k where k: "64 - i = Suc k" "64 - Suc i = k" by (metis Suc_diff_Suc)
    obtain r1 s1 where 1: "sb_try_enqueue x s = (r1, s1)" by (cases "sb_try_enqueue x s")
    obtain r2 s2 where 2: "sb_try_dequeue s1 = (r2, s2)" by (cases "sb_try_dequeue s1")
    obtain rs s3 where 3: "sb_rounds xs s2 = (rs, s3)" by (cases "sb_rounds xs s2")
    note st = sb_round [OF Cons.prems(2-5) i 1 2]
    with Cons.IH [of "Suc i" s2] i k 1 2 3 show ?thesis by simp
  qed
qed simp


section \<open>Properties\<close>

text \<open>The first round of \<open>spsc_bounded_queue\<close>: a new queue of \<open>2 ^ b\<close> nodes accepts
  \<open>b + 1\<close> values and refuses the next one without a change (not \<open>2 ^ b\<close> values: the positions
  double), and popped now the values come out in order.\<close>

theorem spsc_bounded_first_round:
  assumes "sb_init d0 sz = Some s" "unat sz = 2 ^ b" "length xs = Suc b"
    and "enq_all sb_try_enqueue xs s = (bs, s1)" "deq_many sb_try_dequeue (length xs) s1 = (rs, s2)"
  shows "bs = replicate (Suc b) True \<and> sb_try_enqueue y s1 = (False, s1) \<and> rs = map Some xs"
proof -
  have a: "sb_at b 0 0 s" using assms(1,2) by (rule sb_init_at)
  have "0 < b"
    using assms(1,2) by (cases b) (auto simp: sb_init_def word_less_nat_alt split: if_splits)
  have wf: "sb_wf s" "sb_contents s = []" "sb_room s = Suc b"
    using a by (auto simp: sb_wf_def sb_contents_at sb_room_at)
  have "sb_at b (Suc b) 0 s1" using sb_enqueue_all_at [OF assms(4) a] assms(3) by simp
  then have "sb_try_enqueue y s1 = (False, s1)" using \<open>0 < b\<close> by (rule sb_enqueue_beyond)
  moreover have "bs = replicate (Suc b) True"
    using sbq.enq_all_contents [OF wf(1) _ assms(4)] wf assms(3) by simp
  moreover have "rs = map Some xs"
    using sbq.push_pop [OF wf(1,2) _ assms(4,5)] wf(3) assms(3) by simp
  ultimately show ?thesis by blast
qed

text \<open>A queue of 4 nodes takes 3 values.\<close>

theorem spsc_bounded_first_round_witness:
  "fst (enq_all sb_try_enqueue [5, 6, 7] (the (sb_init (0 :: nat) 4))) = replicate (Suc 2) True"
proof -
  have i: "sb_init (0 :: nat) 4 = Some (the (sb_init 0 4))" by (simp add: sb_init_def)
  obtain bs s1 where 1: "enq_all sb_try_enqueue [5, 6, 7] (the (sb_init (0 :: nat) 4)) = (bs, s1)"
    by (cases "enq_all sb_try_enqueue [5, 6, 7] (the (sb_init (0 :: nat) 4))")
  obtain rs s2 where 2: "deq_many sb_try_dequeue (length [5, 6, 7 :: nat]) s1 = (rs, s2)"
    by (cases "deq_many sb_try_dequeue (length [5, 6, 7 :: nat]) s1")
  have "unat (4 :: u64) = 2 ^ 2" "length [5, 6, 7 :: nat] = Suc 2" by simp_all
  from spsc_bounded_first_round [OF i this 1 2] show ?thesis unfolding 1 fst_conv by blast
qed

text \<open>C39. A lost and a repeated value, in a queue of any size \<open>2 ^ b\<close> the constructor accepts
  (\<open>b < 63\<close>): after \<open>b + 1\<close> pushes and \<open>b\<close> pops a further push is accepted and overwrites the value
  that is still inside; the next two pops both answer the new value, the third finds the queue empty,
  and the overwritten value is never seen.\<close>

theorem spsc_bounded_overwrites:
  assumes "sb_init d0 sz = Some s" "unat sz = 2 ^ b" "b < 63" "length xs = Suc b"
    and "enq_all sb_try_enqueue xs s = (bs, s1)" "deq_many sb_try_dequeue b s1 = (rs, s2)"
    and "sb_try_enqueue v s2 = (ok, s3)" "deq_many sb_try_dequeue 3 s3 = (rs', s4)"
  shows "bs = replicate (Suc b) True \<and> rs = map Some (take b xs) \<and> ok \<and> rs' = [Some v, Some v, None]"
proof -
  have a: "sb_at b 0 0 s" using assms(1,2) by (rule sb_init_at)
  have wf: "sb_wf s" "sb_contents s = []" "sb_room s = Suc b"
    using a by (auto simp: sb_wf_def sb_contents_at sb_room_at)
  have 1: "bs = replicate (Suc b) True" "sb_wf s1" "sb_contents s1 = xs"
    using sbq.enq_all_contents [OF wf(1) _ assms(5)] wf assms(4) by simp_all
  have rs: "rs = map Some (take b xs)"
    using sbq.deq_many_contents [OF 1(2) _ assms(6)] 1(3) assms(4) by simp
  have "sb_at b (Suc b) 0 s1" using sb_enqueue_all_at [OF assms(5) a] assms(4) by simp
  then have a2: "sb_at b (Suc b) b s2" using sb_dequeue_many_at [OF assms(6), of b "Suc b" 0] by simp
  from sb_overwrite_at [OF a2 assms(3,7,8)] 1(1) rs show ?thesis by simp
qed

text \<open>A queue of 4 nodes: 3 pushes, 2 pops, and the push that overwrites.\<close>

theorem spsc_bounded_overwrites_witness:
  "\<exists>s2 s3 :: nat sb_state. snd (deq_many sb_try_dequeue 2 (snd (enq_all sb_try_enqueue [5, 6, 7] (the (sb_init 0 4))))) = s2
     \<and> sb_try_enqueue 8 s2 = (True, s3) \<and> fst (deq_many sb_try_dequeue 3 s3) = [Some 8, Some 8, None]"
proof -
  have i: "sb_init (0 :: nat) 4 = Some (the (sb_init 0 4))" by (simp add: sb_init_def)
  obtain bs s1 where 1: "enq_all sb_try_enqueue [5, 6, 7] (the (sb_init (0 :: nat) 4)) = (bs, s1)"
    by (cases "enq_all sb_try_enqueue [5, 6, 7] (the (sb_init (0 :: nat) 4))")
  obtain rs s2 where 2: "deq_many sb_try_dequeue 2 s1 = (rs, s2)" by (cases "deq_many sb_try_dequeue 2 s1")
  obtain ok s3 where 3: "sb_try_enqueue 8 s2 = (ok, s3)" by (cases "sb_try_enqueue 8 s2")
  obtain rs' s4 where 4: "deq_many sb_try_dequeue 3 s3 = (rs', s4)" by (cases "deq_many sb_try_dequeue 3 s3")
  have "unat (4 :: u64) = 2 ^ 2" "(2::nat) < 63" "length [5, 6, 7 :: nat] = Suc 2" by simp_all
  from spsc_bounded_overwrites [OF i this 1 2 3 4] have "ok" "rs' = [Some 8, Some 8, None]" by simp_all
  then show ?thesis unfolding 1 snd_conv 2 using 3 4 by auto
qed

text \<open>The queue wears out: used one push and one pop at a time from new, it hands on the
  first 64 values and then loses every further one, although each push still returns true: the
  positions have reached \<open>2 ^ 64 - 1\<close>, where adding the position to itself changes nothing.\<close>

theorem spsc_bounded_wears_out:
  assumes "sb_init d0 sz = Some s"
  shows "fst (sb_rounds xs s) = map Some (take 64 xs) @ replicate (length xs - 64) None"
proof -
  from assms have sz: "1 < sz" "sz AND (sz - 1) = 0" by (auto simp: sb_init_def split: if_splits)
  obtain b where b: "unat sz = 2 ^ b" using sz by (rule power_of_two_64)
  have "sb_at b 0 0 s" using assms b by (rule sb_init_at)
  then show ?thesis
    using sb_rounds_at [of 0 s b xs] by (simp add: sb_at_def)
qed

theorem spsc_bounded_wears_out_witness:
  "fst (sb_rounds (replicate 65 (7 :: nat)) (the (sb_init 0 4))) = replicate 64 (Some 7) @ [None]"
  using spsc_bounded_wears_out [of 0 4 "the (sb_init (0 :: nat) 4)" "replicate 65 7"]
  by (simp add: sb_init_def)

end
