(* ===== verification/Mpsc_Bounded.thy ===== *)
theory Mpsc_Bounded
  imports Interfaces
begin

text \<open>
  The class \<open>mpsc_bounded_queue\<close> of \<open>containers/queue/mpsc_bounded_queue.h\<close>: thread 0 is the
  consumer, every other thread a producer. Beside the memory of the queue the state of a program has
  a history that only records: the values by ticket, the values the consumer returned, and whether
  a producer ever took a ticket while \<open>Size\<close> values were inside (which the code's guard allows:
  it compares with \<open>>\<close>).
\<close>

unbundle bit_operations_syntax

record 'a pb_node =
  nd_value :: 'a
  nd_ready :: bool

record 'a pb_state =
  pb_mask :: u64
  pb_size :: u64
  pb_head :: u64
  pb_tail :: u64
  pb_buffer :: "'a pb_node list"

definition pb_init :: "'a \<Rightarrow> u64 \<Rightarrow> 'a pb_state option" where
  "pb_init d0 sz =
     (if 1 < sz \<and> sz AND (sz - 1) = 0
      then Some \<lparr>pb_mask = sz - 1, pb_size = sz, pb_head = 0, pb_tail = 0,
                 pb_buffer = replicate (unat sz) \<lparr>nd_value = d0, nd_ready = False\<rparr>\<rparr>
      else None)"

datatype 'a pb_pc =
  PbIdle
| PbHead 'a         \<comment> \<open>try_enqueue: before the load of the head\<close>
| PbTest 'a u64     \<comment> \<open>before the test against the tail\<close>
| PbCas 'a u64      \<comment> \<open>before the compare-exchange\<close>
| PbValue 'a u64    \<comment> \<open>ticket taken, before the value is assigned\<close>
| PbReady 'a u64    \<comment> \<open>before the flag is set\<close>
| PbDone bool
| PcHead            \<comment> \<open>try_dequeue: before the test for empty\<close>
| PcReady           \<comment> \<open>before the test of the flag\<close>
| PcTake            \<comment> \<open>before the value is moved out\<close>
| PcClear 'a        \<comment> \<open>before the flag is cleared\<close>
| PcInc 'a          \<comment> \<open>before the tail is advanced\<close>
| PcDone "'a option"

definition pb_index :: "'a pb_state \<Rightarrow> u64 \<Rightarrow> nat" where
  "pb_index s pos = unat (pos AND pb_mask s)"

definition pb_set_value :: "'a pb_state \<Rightarrow> u64 \<Rightarrow> 'a \<Rightarrow> 'a pb_state" where
  "pb_set_value s pos v =
     s\<lparr>pb_buffer := (pb_buffer s)[pb_index s pos := (pb_buffer s ! pb_index s pos)\<lparr>nd_value := v\<rparr>]\<rparr>"

definition pb_set_ready :: "'a pb_state \<Rightarrow> u64 \<Rightarrow> bool \<Rightarrow> 'a pb_state" where
  "pb_set_ready s pos r =
     s\<lparr>pb_buffer := (pb_buffer s)[pb_index s pos := (pb_buffer s ! pb_index s pos)\<lparr>nd_ready := r\<rparr>]\<rparr>"

fun pb_try_enqueue :: "'a pb_pc \<Rightarrow> 'a pb_state \<Rightarrow> 'a pb_pc \<times> 'a pb_state" where
  "pb_try_enqueue (PbHead v) s = (PbTest v (pb_head s), s)"
| "pb_try_enqueue (PbTest v cur) s =
     (if pb_size s < cur - pb_tail s then PbDone False else PbCas v cur, s)"
| "pb_try_enqueue (PbCas v cur) s =
     (if pb_head s = cur then (PbValue v cur, s\<lparr>pb_head := cur + 1\<rparr>) else (PbTest v (pb_head s), s))"
| "pb_try_enqueue (PbValue v cur) s = (PbReady v cur, pb_set_value s cur v)"
| "pb_try_enqueue (PbReady v cur) s = (PbDone True, pb_set_ready s cur True)"
| "pb_try_enqueue p s = (p, s)"

fun pb_try_dequeue :: "'a pb_pc \<Rightarrow> 'a pb_state \<Rightarrow> 'a pb_pc \<times> 'a pb_state" where
  "pb_try_dequeue PcHead s = (if pb_head s = pb_tail s then PcDone None else PcReady, s)"
| "pb_try_dequeue PcReady s =
     (if \<not> nd_ready (pb_buffer s ! pb_index s (pb_tail s)) then PcDone None else PcTake, s)"
| "pb_try_dequeue PcTake s = (PcClear (nd_value (pb_buffer s ! pb_index s (pb_tail s))), s)"
| "pb_try_dequeue (PcClear v) s = (PcInc v, pb_set_ready s (pb_tail s) False)"
| "pb_try_dequeue (PcInc v) s = (PcDone (Some v), s\<lparr>pb_tail := pb_tail s + 1\<rparr>)"
| "pb_try_dequeue p s = (p, s)"

fun pb_is_done :: "'a pb_pc \<Rightarrow> bool" where
  "pb_is_done (PbDone b) = True"
| "pb_is_done (PcDone r) = True"
| "pb_is_done p = False"

record 'a pb_hist =
  pb_log :: "'a list"
  pb_got :: "'a list"
  pb_over :: bool

fun pb_record :: "'a pb_state \<Rightarrow> 'a pb_pc \<Rightarrow> 'a pb_pc \<Rightarrow> 'a pb_hist \<Rightarrow> 'a pb_hist" where
  "pb_record s (PbCas v cur) (PbValue w q) h =
     h\<lparr>pb_log := pb_log h @ [v], pb_over := pb_over h \<or> pb_size s \<le> pb_head s - pb_tail s\<rparr>"
| "pb_record s (PcInc v) (PcDone r) h = h\<lparr>pb_got := pb_got h @ [v]\<rparr>"
| "pb_record s p q h = h"

definition pb_step :: "(nat \<Rightarrow> 'a list) \<Rightarrow> ('a pb_state \<times> 'a pb_hist, 'a pb_pc) thread_step" where
  "pb_step vals i p w =
     (if p = PbIdle then (if i = 0 then [(PcHead, w)] else map (\<lambda>v. (PbHead v, w)) (vals i))
      else if pb_is_done p then [(PbIdle, w)]
      else (case (if i = 0 then pb_try_dequeue else pb_try_enqueue) p (fst w) of
              (p', s') \<Rightarrow> [(p', s', pb_record (fst w) p p' (snd w))]))"

definition pb_start :: "'a \<Rightarrow> u64 \<Rightarrow> ('a pb_state \<times> 'a pb_hist, 'a pb_pc) system \<Rightarrow> bool" where
  "pb_start d0 sz t \<longleftrightarrow> pb_init d0 sz = Some (fst (fst t))
     \<and> snd (fst t) = \<lparr>pb_log = [], pb_got = [], pb_over = False\<rparr>
     \<and> (\<forall>p \<in> set (snd t). p = PbIdle)"


section \<open>The invariant\<close>

definition pb_geom :: "nat \<Rightarrow> 'a pb_state \<Rightarrow> bool" where
  "pb_geom b s \<longleftrightarrow> 0 < b \<and> b < 64 \<and> pb_mask s = mask b \<and> pb_size s = of_nat (2 ^ b)
     \<and> length (pb_buffer s) = 2 ^ b"

text \<open>The node of ticket \<open>t\<close>.\<close>

definition pb_node_of :: "'a pb_state \<Rightarrow> nat \<Rightarrow> 'a pb_node" where
  "pb_node_of s t = pb_buffer s ! (t mod length (pb_buffer s))"

lemma pb_index_of_nat: "pb_geom b s \<Longrightarrow> pb_index s (of_nat t) = t mod length (pb_buffer s)"
  using unat_add_of_nat_mod [of b 0 t] by (simp add: pb_index_def pb_geom_def unat_and_mask)

lemma pb_node_set:
  assumes "pb_geom b s"
  shows "pb_node_of (pb_set_value s (of_nat t) v) u =
      (if u mod 2 ^ b = t mod 2 ^ b then (pb_node_of s u)\<lparr>nd_value := v\<rparr> else pb_node_of s u)"
    and "pb_node_of (pb_set_ready s (of_nat t) r) u =
      (if u mod 2 ^ b = t mod 2 ^ b then (pb_node_of s u)\<lparr>nd_ready := r\<rparr> else pb_node_of s u)"
  using pb_index_of_nat [OF assms, of t] assms
  by (auto simp: pb_node_of_def pb_set_value_def pb_set_ready_def pb_geom_def nth_list_update)

lemma pb_geom_set [simp]:
  "pb_geom b (pb_set_value s pos v) = pb_geom b s" "pb_geom b (pb_set_ready s pos r) = pb_geom b s"
  "pb_geom b (pb_head_update f s) = pb_geom b s" "pb_geom b (pb_tail_update f s) = pb_geom b s"
  "pb_head (pb_set_value s pos v) = pb_head s" "pb_head (pb_set_ready s pos r) = pb_head s"
  "pb_tail (pb_set_value s pos v) = pb_tail s" "pb_tail (pb_set_ready s pos r) = pb_tail s"
  by (simp_all add: pb_geom_def pb_set_value_def pb_set_ready_def)

lemma pb_node_move [simp]:
  "pb_node_of (pb_head_update f s) t = pb_node_of s t" "pb_node_of (pb_tail_update f s) t = pb_node_of s t"
  by (simp_all add: pb_node_of_def)

text \<open>The ticket a thread works on: a producer's, or the consumer's while its node is empty.\<close>

fun pb_claim :: "nat \<Rightarrow> 'a pb_pc \<Rightarrow> u64 option" where
  "pb_claim d (PbValue v cur) = Some cur"
| "pb_claim d (PbReady v cur) = Some cur"
| "pb_claim d (PcInc v) = Some (of_nat d)"
| "pb_claim d p = None"

text \<open>\<open>d\<close> values were returned, \<open>log\<close> are the pushed ones.\<close>

fun pb_ok :: "'a pb_state \<Rightarrow> 'a list \<Rightarrow> nat \<Rightarrow> nat \<Rightarrow> 'a pb_pc \<Rightarrow> bool" where
  "pb_ok s log d i (PbValue v cur) = (i \<noteq> 0 \<and> (\<exists>t. cur = of_nat t \<and> d \<le> t \<and> t < length log
     \<and> log ! t = v \<and> \<not> nd_ready (pb_node_of s t)))"
| "pb_ok s log d i (PbReady v cur) = (i \<noteq> 0 \<and> (\<exists>t. cur = of_nat t \<and> d \<le> t \<and> t < length log
     \<and> log ! t = v \<and> \<not> nd_ready (pb_node_of s t) \<and> nd_value (pb_node_of s t) = v))"
| "pb_ok s log d i PcReady = (i = 0 \<and> d < length log)"
| "pb_ok s log d i PcTake = (i = 0 \<and> d < length log \<and> nd_ready (pb_node_of s d))"
| "pb_ok s log d i (PcClear v) = (i = 0 \<and> d < length log \<and> nd_ready (pb_node_of s d) \<and> v = log ! d)"
| "pb_ok s log d i (PcInc v) = (i = 0 \<and> d < length log \<and> \<not> nd_ready (pb_node_of s d) \<and> v = log ! d)"
| "pb_ok s log d i PbIdle = True"
| "pb_ok s log d i PcHead = (i = 0)"
| "pb_ok s log d i (PcDone r) = (i = 0)"
| "pb_ok s log d i p = (i \<noteq> 0)"

definition pb_mem :: "nat \<Rightarrow> 'a pb_state \<Rightarrow> 'a list \<Rightarrow> nat \<Rightarrow> bool" where
  "pb_mem b s log d \<longleftrightarrow> pb_geom b s \<and> pb_head s = of_nat (length log) \<and> pb_tail s = of_nat d
     \<and> d \<le> length log \<and> length log \<le> d + 2 ^ b
     \<and> (\<forall>t. d \<le> t \<and> t < length log \<and> nd_ready (pb_node_of s t) \<longrightarrow> nd_value (pb_node_of s t) = log ! t)
     \<and> (\<forall>t. length log \<le> t \<and> t < d + 2 ^ b \<longrightarrow> \<not> nd_ready (pb_node_of s t))"

definition pb_threads :: "nat \<Rightarrow> 'a pb_state \<Rightarrow> 'a list \<Rightarrow> nat \<Rightarrow> 'a pb_pc list \<Rightarrow> bool" where
  "pb_threads b s log d ps \<longleftrightarrow> (\<forall>i < length ps. pb_ok s log d i (ps ! i))
     \<and> (\<forall>i < length ps. \<forall>j < length ps. i \<noteq> j \<longrightarrow> pb_claim d (ps ! i) \<noteq> None \<longrightarrow>
          pb_claim d (ps ! i) \<noteq> pb_claim d (ps ! j))
     \<and> (\<forall>t. d \<le> t \<and> t < length log \<and> \<not> nd_ready (pb_node_of s t) \<longrightarrow>
          (\<exists>p \<in> set ps. pb_claim d p = Some (of_nat t)))"

definition pb_inv :: "u64 \<Rightarrow> 'a pb_state \<times> 'a pb_hist \<Rightarrow> 'a pb_pc list \<Rightarrow> bool" where
  [inv_defs]: "pb_inv sz w ps \<longleftrightarrow> (\<exists>b. unat sz = 2 ^ b \<and> pb_geom b (fst w)
     \<and> (\<not> pb_over (snd w) \<longrightarrow>
          pb_mem b (fst w) (pb_log (snd w)) (length (pb_got (snd w)))
          \<and> pb_threads b (fst w) (pb_log (snd w)) (length (pb_got (snd w))) ps
          \<and> pb_got (snd w) = take (length (pb_got (snd w))) (pb_log (snd w))))"

section \<open>Every move keeps the invariant\<close>

lemma pb_memD:
  assumes "pb_mem b s log d"
  shows "pb_geom b s" "pb_head s = of_nat (length log)" "pb_tail s = of_nat d" "d \<le> length log"
    and "length log \<le> d + 2 ^ b"
    and "d \<le> t \<Longrightarrow> t < length log \<Longrightarrow> nd_ready (pb_node_of s t) \<Longrightarrow> nd_value (pb_node_of s t) = log ! t"
    and "length log \<le> t \<Longrightarrow> t < d + 2 ^ b \<Longrightarrow> \<not> nd_ready (pb_node_of s t)"
  using assms by (auto simp: pb_mem_def)

lemma pb_power_less: "pb_geom b s \<Longrightarrow> (2::nat) ^ b < 2 ^ 64"
  unfolding pb_geom_def by (intro power_strict_increasing) auto

text \<open>Tickets in the window of the ring are told apart by word and by node.\<close>

lemma pb_same_word:
  assumes "pb_mem b s log d" "d \<le> t" "t \<le> length log" "d \<le> u" "u \<le> length log"
    and "(of_nat t :: u64) = of_nat u"
  shows "t = u"
proof -
  have "length log < d + 2 ^ 64"
    using pb_power_less [OF pb_memD(1) [OF assms(1)]] pb_memD(5) [OF assms(1)] by linarith
  then show ?thesis
    using of_nat_near [of t u] of_nat_near [of u t] assms(2-6) by (cases "t \<le> u") auto
qed

lemma pb_same_node:
  "t mod 2 ^ b = u mod 2 ^ b \<Longrightarrow> d \<le> t \<Longrightarrow> t < d + 2 ^ b \<Longrightarrow> d \<le> u \<Longrightarrow> u < d + 2 ^ b \<Longrightarrow> t = u"
  for t u d b :: nat
  using mod_eq_near [of t "2 ^ b" u] mod_eq_near [of u "2 ^ b" t] by (cases "t \<le> u") auto

lemma pb_threadsD:
  assumes "pb_threads b s log d ps"
  shows "i < length ps \<Longrightarrow> pb_ok s log d i (ps ! i)"
    and "i < length ps \<Longrightarrow> j < length ps \<Longrightarrow> pb_claim d (ps ! i) = Some c \<Longrightarrow>
      pb_claim d (ps ! j) = Some c \<Longrightarrow> i = j"
    and "d \<le> t \<Longrightarrow> t < length log \<Longrightarrow> \<not> nd_ready (pb_node_of s t) \<Longrightarrow>
      \<exists>p \<in> set ps. pb_claim d p = Some (of_nat t)"
  using assms unfolding pb_threads_def by (blast, metis option.distinct(1), blast)

lemma pb_threads_update:
  assumes th: "pb_threads b s log d ps" and i: "i < length ps"
    and ok: "\<And>j. j < length ps \<Longrightarrow> j \<noteq> i \<Longrightarrow> pb_ok s' log' d' j (ps ! j)" "pb_ok s' log' d' i p"
    and same: "\<And>j. j < length ps \<Longrightarrow> j \<noteq> i \<Longrightarrow> pb_claim d' (ps ! j) = pb_claim d (ps ! j)"
    and new: "\<And>j. j < length ps \<Longrightarrow> j \<noteq> i \<Longrightarrow> pb_claim d' p \<noteq> None \<Longrightarrow> pb_claim d (ps ! j) \<noteq> pb_claim d' p"
    and own: "\<And>t. d' \<le> t \<Longrightarrow> t < length log' \<Longrightarrow> \<not> nd_ready (pb_node_of s' t) \<Longrightarrow>
      pb_claim d' p = Some (of_nat t)
      \<or> d \<le> t \<and> t < length log \<and> \<not> nd_ready (pb_node_of s t) \<and> pb_claim d (ps ! i) \<noteq> Some (of_nat t)"
  shows "pb_threads b s' log' d' (ps[i := p])"
  unfolding pb_threads_def length_list_update
proof (intro conjI allI impI)
  fix j assume "j < length ps"
  then show "pb_ok s' log' d' j (ps[i := p] ! j)" using ok by (cases "j = i") simp_all
next
  fix j k assume jk: "j < length ps" "k < length ps" "j \<noteq> k" "pb_claim d' (ps[i := p] ! j) \<noteq> None"
  show "pb_claim d' (ps[i := p] ! j) \<noteq> pb_claim d' (ps[i := p] ! k)"
  proof (cases "j = i \<or> k = i")
    case True
    with jk i new same show ?thesis by (cases "j = i") (metis nth_list_update_eq nth_list_update_neq)+
  next
    case False
    then have e: "ps[i := p] ! j = ps ! j" "ps[i := p] ! k = ps ! k" by auto
    show ?thesis
      using jk False same [of j] same [of k] th unfolding e pb_threads_def by metis
  qed
next
  fix t assume t: "d' \<le> t \<and> t < length log' \<and> \<not> nd_ready (pb_node_of s' t)"
  show "\<exists>q \<in> set (ps[i := p]). pb_claim d' q = Some (of_nat t)"
  proof (cases "pb_claim d' p = Some (of_nat t)")
    case True
    with i show ?thesis by (auto intro: set_update_memI)
  next
    case False
    with own t have o: "d \<le> t" "t < length log" "\<not> nd_ready (pb_node_of s t)"
      and n: "pb_claim d (ps ! i) \<noteq> Some (of_nat t)" by blast+
    obtain j where j: "j < length ps" "pb_claim d (ps ! j) = Some (of_nat t)"
      using pb_threadsD(3) [OF th o] by (auto simp: in_set_conv_nth)
    with n have "j \<noteq> i" by auto
    then have "ps[i := p] ! j = ps ! j" by simp
    moreover have "pb_claim d' (ps ! j) = Some (of_nat t)" using same [OF j(1) \<open>j \<noteq> i\<close>] j(2) by simp
    ultimately show ?thesis using j(1) by (metis length_list_update nth_mem)
  qed
qed

text \<open>Moves that neither touch the memory nor take or give up a ticket.\<close>

lemma pb_quiet:
  assumes "pb_threads b s log d ps" "i < length ps" "pb_ok s log d i p"
    and "pb_claim d (ps ! i) = None" "pb_claim d p = None"
  shows "pb_threads b s log d (ps[i := p])"
  by (rule pb_threads_update [OF assms(1,2)]) (use assms pb_threadsD(1) [OF assms(1)] in auto)

lemma pb_take:
  assumes mem: "pb_mem b s log d" and th: "pb_threads b s log d ps" and i: "i < length ps"
    and p: "ps ! i = PbCas v (pb_head s)" and room: "length log < d + 2 ^ b"
  shows "pb_mem b (s\<lparr>pb_head := pb_head s + 1\<rparr>) (log @ [v]) d
    \<and> pb_threads b (s\<lparr>pb_head := pb_head s + 1\<rparr>) (log @ [v]) d (ps[i := PbValue v (pb_head s)])"
    (is "_ \<and> pb_threads b ?s _ d _")
proof
  note m = pb_memD [OF mem]
  have empty: "\<not> nd_ready (pb_node_of s (length log))" using m(7) room by simp
  show "pb_mem b ?s (log @ [v]) d"
    using m room empty by (auto simp: pb_mem_def nth_append less_Suc_eq)
  show "pb_threads b ?s (log @ [v]) d (ps[i := PbValue v (pb_head s)])"
  proof (rule pb_threads_update [OF th i])
    fix j assume j: "j < length ps" "j \<noteq> i"
    show "pb_ok ?s (log @ [v]) d j (ps ! j)"
      using pb_threadsD(1) [OF th j(1)] by (cases "ps ! j") (auto simp: nth_append)
    show "pb_claim d (ps ! j) \<noteq> pb_claim d (PbValue v (pb_head s))"
    proof
      assume "pb_claim d (ps ! j) = pb_claim d (PbValue v (pb_head s))"
      then obtain t where "d \<le> t" "t < length log" "(of_nat t :: u64) = of_nat (length log)"
        using pb_threadsD(1) [OF th j(1)] m(2) by (cases "ps ! j") auto
      with pb_same_word [OF mem, of t "length log"] m(4) show False by simp
    qed
  next
    show "pb_ok ?s (log @ [v]) d i (PbValue v (pb_head s))"
      using pb_threadsD(1) [OF th i] p empty m(2,4) by (auto intro!: exI [of _ "length log"])
  next
    fix t assume t: "t < length (log @ [v])" "d \<le> t" "\<not> nd_ready (pb_node_of ?s t)"
    then show "pb_claim d (PbValue v (pb_head s)) = Some (of_nat t)
      \<or> d \<le> t \<and> t < length log \<and> \<not> nd_ready (pb_node_of s t) \<and> pb_claim d (ps ! i) \<noteq> Some (of_nat t)"
      using p m(2) by (cases "t = length log") auto
  qed simp
qed

lemma pb_node_cong: "pb_geom b s \<Longrightarrow> u mod 2 ^ b = t mod 2 ^ b \<Longrightarrow> pb_node_of s u = pb_node_of s t"
  by (simp add: pb_node_of_def pb_geom_def)

text \<open>Two threads that work on nodes of the window work on different nodes.\<close>

lemma pb_other_node:
  assumes mem: "pb_mem b s log d" and th: "pb_threads b s log d ps"
    and ij: "i < length ps" "j < length ps" "j \<noteq> i"
    and c: "pb_claim d (ps ! i) = Some (of_nat t)" "pb_claim d (ps ! j) = Some (of_nat u)"
    and tu: "d \<le> t" "t < length log" "d \<le> u" "u < length log"
  shows "u mod 2 ^ b \<noteq> t mod 2 ^ b"
proof
  assume "u mod 2 ^ b = t mod 2 ^ b"
  then have "u = t" using tu pb_memD(5) [OF mem] by (intro pb_same_node [of u b t d]) simp_all
  with c pb_threadsD(2) [OF th ij(1,2)] ij(3) show False by simp
qed

lemma pb_put:
  assumes mem: "pb_mem b s log d" and th: "pb_threads b s log d ps" and i: "i < length ps"
    and p: "ps ! i = PbValue v cur"
  shows "pb_mem b (pb_set_value s cur v) log d
    \<and> pb_threads b (pb_set_value s cur v) log d (ps[i := PbReady v cur])" (is "pb_mem b ?s _ _ \<and> _")
proof -
  note m = pb_memD [OF mem]
  obtain t where i0: "i \<noteq> 0" and t: "cur = of_nat t" "d \<le> t" "t < length log" "log ! t = v"
    "\<not> nd_ready (pb_node_of s t)"
    using pb_threadsD(1) [OF th i] p by auto
  note set_v = pb_node_set(1) [OF m(1), of t v]
  have ready: "nd_ready (pb_node_of ?s u) = nd_ready (pb_node_of s u)" for u
    by (simp add: t(1) set_v)
  have val: "nd_value (pb_node_of ?s u) = nd_value (pb_node_of s u)" if "nd_ready (pb_node_of s u)" for u
    using that t(5) pb_node_cong [OF m(1), of u t] by (auto simp: t(1) set_v)
  have "pb_mem b ?s log d" using m by (auto simp: pb_mem_def ready val)
  moreover have "pb_threads b ?s log d (ps[i := PbReady v cur])"
  proof (rule pb_threads_update [OF th i])
    fix j assume j: "j < length ps" "j \<noteq> i"
    note okj = pb_threadsD(1) [OF th j(1)]
    show "pb_ok ?s log d j (ps ! j)"
    proof (cases "ps ! j")
      case (PbReady w c)
      with okj obtain u where u: "c = of_nat u" "d \<le> u" "u < length log" "log ! u = w"
        "\<not> nd_ready (pb_node_of s u)" "nd_value (pb_node_of s u) = w" "j \<noteq> 0" by auto
      then have "u mod 2 ^ b \<noteq> t mod 2 ^ b"
        using pb_other_node [OF mem th i j, of t u] p t PbReady by simp
      then have "nd_value (pb_node_of ?s u) = w" using u(6) by (simp add: t(1) set_v)
      with PbReady u show ?thesis by (auto simp: ready)
    qed (use okj in \<open>auto simp: ready\<close>)
    show "pb_claim d (ps ! j) \<noteq> pb_claim d (PbReady v cur)"
      using pb_threadsD(2) [OF th i j(1)] j(2) p by auto
  next
    show "pb_ok ?s log d i (PbReady v cur)"
      using t i0 by (auto simp: ready set_v intro!: exI [of _ t])
  qed (use p in \<open>auto simp: ready\<close>)
  ultimately show ?thesis by blast
qed

lemma pb_publish:
  assumes mem: "pb_mem b s log d" and th: "pb_threads b s log d ps" and i: "i < length ps"
    and p: "ps ! i = PbReady v cur"
  shows "pb_mem b (pb_set_ready s cur True) log d
    \<and> pb_threads b (pb_set_ready s cur True) log d (ps[i := PbDone True])" (is "pb_mem b ?s _ _ \<and> _")
proof -
  note m = pb_memD [OF mem]
  obtain t where i0: "i \<noteq> 0" and t: "cur = of_nat t" "d \<le> t" "t < length log" "log ! t = v"
    "\<not> nd_ready (pb_node_of s t)" "nd_value (pb_node_of s t) = v"
    using pb_threadsD(1) [OF th i] p by auto
  note set_r = pb_node_set(2) [OF m(1), of t True]
  have other: "pb_node_of ?s u = pb_node_of s u" if "u mod 2 ^ b \<noteq> t mod 2 ^ b" for u
    using that by (simp add: t(1) set_r)
  have near: "u = t" if "u mod 2 ^ b = t mod 2 ^ b" "d \<le> u" "u < d + 2 ^ b" for u
    using that t(2,3) m(5) by (intro pb_same_node [of u b t d]) simp_all
  have "pb_mem b ?s log d"
    unfolding pb_mem_def
  proof (intro conjI allI impI)
    fix u assume u: "d \<le> u \<and> u < length log \<and> nd_ready (pb_node_of ?s u)"
    show "nd_value (pb_node_of ?s u) = log ! u"
    proof (cases "u mod 2 ^ b = t mod 2 ^ b")
      case True
      with u m(5) near have "u = t" by simp
      with t(4,6) show ?thesis by (simp add: t(1) set_r)
    next
      case False
      with u m(6) other show ?thesis by simp
    qed
  next
    fix u assume u: "length log \<le> u \<and> u < d + 2 ^ b"
    then have "u mod 2 ^ b \<noteq> t mod 2 ^ b" using near [of u] t(3) m(4) by auto
    with u m(7) show "\<not> nd_ready (pb_node_of ?s u)" by (simp add: other)
  qed (use m in simp_all)
  moreover have "pb_threads b ?s log d (ps[i := PbDone True])"
  proof (rule pb_threads_update [OF th i])
    fix j assume j: "j < length ps" "j \<noteq> i"
    note okj = pb_threadsD(1) [OF th j(1)]
    have clash: "u mod 2 ^ b \<noteq> t mod 2 ^ b"
      if "pb_claim d (ps ! j) = Some (of_nat u)" "d \<le> u" "u < length log" for u
      using pb_other_node [OF mem th i j, of t u] p t that by simp
    show "pb_ok ?s log d j (ps ! j)"
    proof (cases "ps ! j")
      case (PbValue w c)
      with okj clash show ?thesis by (auto simp: other)
    next
      case (PbReady w c)
      with okj clash show ?thesis by (auto simp: other)
    next
      case (PcInc w)
      with okj clash [of d] show ?thesis by (auto simp: other)
    qed (use okj in \<open>auto simp: t(1) set_r\<close>)
  next
    fix u assume u: "d \<le> u" "u < length log" "\<not> nd_ready (pb_node_of ?s u)"
    have "u \<noteq> t" using u(3) by (auto simp: t(1) set_r)
    with near [of u] u m(5) have ne: "u mod 2 ^ b \<noteq> t mod 2 ^ b" by auto
    have "(of_nat u :: u64) \<noteq> of_nat t" using \<open>u \<noteq> t\<close> pb_same_word [OF mem, of u t] u t by auto
    moreover have "\<not> nd_ready (pb_node_of s u)" using u(3) other [OF ne] by simp
    ultimately show "pb_claim d (PbDone True) = Some (of_nat u)
      \<or> d \<le> u \<and> u < length log \<and> \<not> nd_ready (pb_node_of s u) \<and> pb_claim d (ps ! i) \<noteq> Some (of_nat u)"
      using u p t(1) by auto
  qed (use i0 in auto)
  ultimately show ?thesis by blast
qed

text \<open>The consumer clears the flag of the oldest ticket, then gives the node up.\<close>

lemma pb_clear:
  assumes mem: "pb_mem b s log d" and th: "pb_threads b s log d ps" and i: "i < length ps"
    and p: "ps ! i = PcClear v"
  shows "pb_mem b (pb_set_ready s (pb_tail s) False) log d
    \<and> pb_threads b (pb_set_ready s (pb_tail s) False) log d (ps[i := PcInc v])" (is "pb_mem b ?s _ _ \<and> _")
proof -
  note m = pb_memD [OF mem]
  have d: "i = 0" "d < length log" "nd_ready (pb_node_of s d)" "v = log ! d"
    using pb_threadsD(1) [OF th i] p by auto
  note set_r = pb_node_set(2) [OF m(1), of d False]
  have other: "pb_node_of ?s u = pb_node_of s u" if "u mod 2 ^ b \<noteq> d mod 2 ^ b" for u
    using that by (simp add: m(3) set_r)
  have down: "\<not> nd_ready (pb_node_of s u) \<Longrightarrow> \<not> nd_ready (pb_node_of ?s u)" for u
    by (simp add: m(3) set_r)
  have "pb_mem b ?s log d"
    unfolding pb_mem_def
  proof (intro conjI allI impI)
    fix u assume u: "d \<le> u \<and> u < length log \<and> nd_ready (pb_node_of ?s u)"
    then have "u mod 2 ^ b \<noteq> d mod 2 ^ b" by (auto simp: m(3) set_r)
    with u m(6) other show "nd_value (pb_node_of ?s u) = log ! u" by simp
  qed (use m down in simp_all)
  moreover have "pb_threads b ?s log d (ps[i := PcInc v])"
  proof (rule pb_threads_update [OF th i])
    fix j assume j: "j < length ps" "j \<noteq> i"
    note okj = pb_threadsD(1) [OF th j(1)]
    have diff: "u mod 2 ^ b \<noteq> d mod 2 ^ b" if "\<not> nd_ready (pb_node_of s u)" for u
      using that d(3) pb_node_cong [OF m(1), of u d] by auto
    show "pb_ok ?s log d j (ps ! j)"
      using okj j(2) d(1) down diff by (cases "ps ! j") (auto simp: other)
    show "pb_claim d (ps ! j) \<noteq> pb_claim d (PcInc v)"
    proof
      assume "pb_claim d (ps ! j) = pb_claim d (PcInc v)"
      then obtain u where "d \<le> u" "u < length log" "(of_nat u :: u64) = of_nat d" "\<not> nd_ready (pb_node_of s u)"
        using okj j(2) d(1) by (cases "ps ! j") auto
      with pb_same_word [OF mem, of u d] d(2,3) show False by auto
    qed
  next
    show "pb_ok ?s log d i (PcInc v)" using d by (simp add: m(3) set_r)
  next
    fix u assume u: "d \<le> u" "u < length log" "\<not> nd_ready (pb_node_of ?s u)"
    show "pb_claim d (PcInc v) = Some (of_nat u)
      \<or> d \<le> u \<and> u < length log \<and> \<not> nd_ready (pb_node_of s u) \<and> pb_claim d (ps ! i) \<noteq> Some (of_nat u)"
    proof (cases "u mod 2 ^ b = d mod 2 ^ b")
      case True
      with pb_same_node [of u b d d] u m(5) have "u = d" by simp
      then show ?thesis by simp
    next
      case False
      with u other p show ?thesis by simp
    qed
  qed simp
  ultimately show ?thesis by blast
qed

lemma pb_advance:
  assumes mem: "pb_mem b s log d" and th: "pb_threads b s log d ps" and i: "i < length ps"
    and p: "ps ! i = PcInc v"
  shows "v = log ! d \<and> d < length log \<and> pb_mem b (s\<lparr>pb_tail := pb_tail s + 1\<rparr>) log (Suc d)
    \<and> pb_threads b (s\<lparr>pb_tail := pb_tail s + 1\<rparr>) log (Suc d) (ps[i := PcDone (Some v)])"
    (is "_ \<and> _ \<and> pb_mem b ?s _ _ \<and> _")
proof -
  note m = pb_memD [OF mem]
  have d: "i = 0" "d < length log" "\<not> nd_ready (pb_node_of s d)" "v = log ! d"
    using pb_threadsD(1) [OF th i] p by auto
  have "\<not> nd_ready (pb_node_of s u)" if "length log \<le> u" "u < Suc d + 2 ^ b" for u
  proof (cases "u = d + 2 ^ b")
    case True
    with d(3) pb_node_cong [OF m(1), of u d] show ?thesis by simp
  next
    case False
    with that m(7) show ?thesis by simp
  qed
  then have "pb_mem b ?s log (Suc d)" using m d by (auto simp: pb_mem_def)
  moreover have "pb_threads b ?s log (Suc d) (ps[i := PcDone (Some v)])"
  proof (rule pb_threads_update [OF th i])
    fix j assume j: "j < length ps" "j \<noteq> i"
    note okj = pb_threadsD(1) [OF th j(1)]
    have nd: "pb_claim d (ps ! j) \<noteq> Some (of_nat d)"
      using pb_threadsD(2) [OF th j(1) i, of "of_nat d"] j(2) p by auto
    show "pb_ok ?s log (Suc d) j (ps ! j)"
    proof (cases "ps ! j")
      case (PbValue w c)
      with okj obtain u where u: "c = of_nat u" "d \<le> u" "u < length log" "log ! u = w"
        "\<not> nd_ready (pb_node_of s u)" "j \<noteq> 0" by auto
      with nd PbValue have "u \<noteq> d" by auto
      with u PbValue show ?thesis by (auto intro!: exI [of _ u])
    next
      case (PbReady w c)
      with okj obtain u where u: "c = of_nat u" "d \<le> u" "u < length log" "log ! u = w"
        "\<not> nd_ready (pb_node_of s u)" "nd_value (pb_node_of s u) = w" "j \<noteq> 0" by auto
      with nd PbReady have "u \<noteq> d" by auto
      with u PbReady show ?thesis by (auto intro!: exI [of _ u])
    qed (use okj j d in auto)
    show "pb_claim (Suc d) (ps ! j) = pb_claim d (ps ! j)"
      using okj j(2) d(1) by (cases "ps ! j") auto
  next
    fix u assume u: "Suc d \<le> u" "u < length log" "\<not> nd_ready (pb_node_of ?s u)"
    with pb_same_word [OF mem, of u d] d(2) have "(of_nat u :: u64) \<noteq> of_nat d" by auto
    with u p show "pb_claim (Suc d) (PcDone (Some v)) = Some (of_nat u)
      \<or> d \<le> u \<and> u < length log \<and> \<not> nd_ready (pb_node_of s u) \<and> pb_claim d (ps ! i) \<noteq> Some (of_nat u)"
      by auto
  qed (use d in auto)
  ultimately show ?thesis using d by blast
qed

text \<open>The code's test, on numbers.\<close>

lemma pb_room:
  assumes mem: "pb_mem b s log d" and "\<not> pb_size s \<le> pb_head s - pb_tail s"
  shows "length log < d + 2 ^ b"
proof -
  note m = pb_memD [OF mem]
  have lt: "(2::nat) ^ b < 2 ^ 64" using m(1) by (rule pb_power_less)
  have "pb_head s - pb_tail s = of_nat (length log - d)" using m(2-4) by (simp add: of_nat_diff)
  moreover have "unat (of_nat (length log - d) :: u64) = length log - d"
    using m(5) lt by (intro unat_of_nat_64) linarith
  moreover have "unat (pb_size s) = 2 ^ b"
    using m(1) lt unfolding pb_geom_def by (simp only: unat_of_nat_64)
  ultimately show ?thesis using assms(2) m(4) by (simp add: word_le_nat_alt)
qed

lemma pb_step_geom:
  "pb_geom b (fst w) \<Longrightarrow> (p', w') \<in> set (pb_step vals i p w) \<Longrightarrow> pb_geom b (fst w')"
  by (cases p) (auto simp: pb_step_def split: if_splits)

lemma pb_step_over:
  "(p', w') \<in> set (pb_step vals i p w) \<Longrightarrow> pb_over (snd w) \<Longrightarrow> pb_over (snd w')"
  by (cases p) (auto simp: pb_step_def split: if_splits)

definition pb_good :: "nat \<Rightarrow> 'a pb_state \<Rightarrow> 'a pb_hist \<Rightarrow> 'a pb_pc list \<Rightarrow> bool" where
  "pb_good b s h ps \<longleftrightarrow> pb_mem b s (pb_log h) (length (pb_got h))
     \<and> pb_threads b s (pb_log h) (length (pb_got h)) ps
     \<and> pb_got h = take (length (pb_got h)) (pb_log h)"

lemma pb_good_quiet:
  assumes "pb_good b s h ps" "i < length ps" "pb_claim (length (pb_got h)) (ps ! i) = None"
    and "pb_claim (length (pb_got h)) p = None" "pb_ok s (pb_log h) (length (pb_got h)) i p"
  shows "pb_good b s h (ps[i := p])"
  using assms by (auto simp: pb_good_def intro: pb_quiet)

lemma pb_producer_good:
  assumes g: "pb_good b s h ps" and i: "i < length ps" "i \<noteq> 0"
    and e: "pb_try_enqueue (ps ! i) s = (p', s')" "\<not> pb_over (pb_record s (ps ! i) p' h)"
    and n: "ps ! i \<noteq> PbIdle" "\<not> pb_is_done (ps ! i)"
  shows "pb_good b s' (pb_record s (ps ! i) p' h) (ps[i := p'])"
proof -
  have mem: "pb_mem b s (pb_log h) (length (pb_got h))" and th: "pb_threads b s (pb_log h) (length (pb_got h)) ps"
    and got: "pb_got h = take (length (pb_got h)) (pb_log h)"
    using g by (simp_all add: pb_good_def)
  note quiet = pb_good_quiet [OF g i(1)]
  show ?thesis
  proof (cases "ps ! i")
    case (PbCas v cur)
    show ?thesis
    proof (cases "pb_head s = cur")
      case True
      then have r: "p' = PbValue v (pb_head s)" "s' = s\<lparr>pb_head := pb_head s + 1\<rparr>" using e(1) PbCas by auto
      then have "length (pb_log h) < length (pb_got h) + 2 ^ b"
        using e(2) PbCas by (intro pb_room [OF mem]) simp
      from pb_take [OF mem th i(1) _ this, of v] PbCas True r got pb_memD(4) [OF mem]
      show ?thesis by (simp add: pb_good_def)
    next
      case False
      with PbCas e(1) quiet [of p'] i(2) show ?thesis by auto
    qed
  next
    case (PbValue v cur)
    with e(1) pb_put [OF mem th i(1)] got show ?thesis by (auto simp: pb_good_def)
  next
    case (PbReady v cur)
    with e(1) pb_publish [OF mem th i(1)] got show ?thesis by (auto simp: pb_good_def)
  next
    case (PbHead v)
    with e(1) quiet [of p'] i(2) show ?thesis by auto
  next
    case (PbTest v cur)
    with e(1) quiet [of p'] i(2) show ?thesis by (auto split: if_splits)
  qed (use pb_threadsD(1) [OF th i(1)] i(2) n in auto)
qed

lemma pb_consumer_good:
  assumes g: "pb_good b s h ps" and i: "i < length ps" "i = 0"
    and e: "pb_try_dequeue (ps ! i) s = (p', s')"
    and n: "ps ! i \<noteq> PbIdle" "\<not> pb_is_done (ps ! i)"
  shows "pb_good b s' (pb_record s (ps ! i) p' h) (ps[i := p'])"
proof -
  have mem: "pb_mem b s (pb_log h) (length (pb_got h))" and th: "pb_threads b s (pb_log h) (length (pb_got h)) ps"
    and got: "pb_got h = take (length (pb_got h)) (pb_log h)"
    using g by (simp_all add: pb_good_def)
  note quiet = pb_good_quiet [OF g i(1)]
  note m = pb_memD [OF mem]
  note okj = pb_threadsD(1) [OF th i(1)]
  have node: "pb_buffer s ! pb_index s (pb_tail s) = pb_node_of s (length (pb_got h))"
    by (simp add: pb_node_of_def m(3) pb_index_of_nat [OF m(1)])
  show ?thesis
  proof (cases "ps ! i")
    case PcHead
    have "pb_head s \<noteq> pb_tail s \<Longrightarrow> length (pb_got h) < length (pb_log h)"
      using m(2-4) by (cases "length (pb_got h) = length (pb_log h)") auto
    with PcHead e quiet [of p'] i(2) show ?thesis by (auto split: if_splits)
  next
    case PcReady
    with e quiet [of p'] i(2) okj show ?thesis by (auto simp: node split: if_splits)
  next
    case PcTake
    with e quiet [of p'] i(2) okj m(6) [of "length (pb_got h)"] show ?thesis by (auto simp: node)
  next
    case (PcClear v)
    with e pb_clear [OF mem th i(1)] got show ?thesis by (auto simp: pb_good_def)
  next
    case (PcInc v)
    with e pb_advance [OF mem th i(1)] got show ?thesis
      by (auto simp: pb_good_def take_Suc_conv_app_nth)
  qed (use okj i(2) n in auto)
qed

lemma pb_inv_good:
  "pb_inv sz w ps \<longleftrightarrow> (\<exists>b. unat sz = 2 ^ b \<and> pb_geom b (fst w)
     \<and> (\<not> pb_over (snd w) \<longrightarrow> pb_good b (fst w) (snd w) ps))"
  by (auto simp: pb_inv_def pb_good_def)

lemma pb_step_inv:
  assumes inv: "pb_inv sz w ps" and i: "i < length ps"
    and st: "(p', w') \<in> set (pb_step vals i (ps ! i) w)"
  shows "pb_inv sz w' (ps[i := p'])"
proof -
  obtain b where b: "unat sz = 2 ^ b" "pb_geom b (fst w)"
    and good: "\<not> pb_over (snd w) \<Longrightarrow> pb_good b (fst w) (snd w) ps"
    using inv by (auto simp: pb_inv_good)
  have "pb_good b (fst w') (snd w') (ps[i := p'])" if over: "\<not> pb_over (snd w')"
  proof -
    have g: "pb_good b (fst w) (snd w) ps" using good pb_step_over [OF st] over by blast
    consider "ps ! i = PbIdle" | "pb_is_done (ps ! i)" | "ps ! i \<noteq> PbIdle" "\<not> pb_is_done (ps ! i)" by blast
    then show ?thesis
    proof cases
      case 1
      with st have "w' = w" "p' = PcHead \<and> i = 0 \<or> (\<exists>v. p' = PbHead v) \<and> i \<noteq> 0"
        by (auto simp: pb_step_def split: if_splits)
      with 1 pb_good_quiet [OF g i, of p'] show ?thesis by auto
    next
      case 2
      then have "ps ! i \<noteq> PbIdle" "pb_claim (length (pb_got (snd w))) (ps ! i) = None" by (cases "ps ! i"; simp)+
      with 2 st pb_good_quiet [OF g i, of PbIdle] show ?thesis by (auto simp: pb_step_def)
    next
      case 3
      show ?thesis
      proof (cases "i = 0")
        case True
        with 3 st obtain s' where e: "pb_try_dequeue (ps ! i) (fst w) = (p', s')"
          and w': "w' = (s', pb_record (fst w) (ps ! i) p' (snd w))"
          by (cases "pb_try_dequeue (ps ! i) (fst w)") (auto simp: pb_step_def)
        from pb_consumer_good [OF g i True e 3] w' show ?thesis by simp
      next
        case False
        with 3 st obtain s' where e: "pb_try_enqueue (ps ! i) (fst w) = (p', s')"
          and w': "w' = (s', pb_record (fst w) (ps ! i) p' (snd w))"
          by (cases "pb_try_enqueue (ps ! i) (fst w)") (auto simp: pb_step_def)
        from pb_producer_good [OF g i False e _ 3] over w' show ?thesis by simp
      qed
    qed
  qed
  with b pb_step_geom [OF b(2) st] show ?thesis by (auto simp: pb_inv_good)
qed

lemma pb_start_inv: "pb_start d0 sz (w, ps) \<Longrightarrow> pb_inv sz w ps"
proof -
  assume a: "pb_start d0 sz (w, ps)"
  then have sz: "1 < sz" "sz AND (sz - 1) = 0"
    and s: "fst w = \<lparr>pb_mask = sz - 1, pb_size = sz, pb_head = 0, pb_tail = 0,
      pb_buffer = replicate (unat sz) \<lparr>nd_value = d0, nd_ready = False\<rparr>\<rparr>"
    and h: "snd w = \<lparr>pb_log = [], pb_got = [], pb_over = False\<rparr>"
    and idle: "\<And>i. i < length ps \<Longrightarrow> ps ! i = PbIdle"
    by (auto simp: pb_start_def pb_init_def split: if_splits)
  obtain b where b: "0 < b" "b < 64" "unat sz = 2 ^ b" "sz - 1 = mask b"
    using sz by (rule power_of_two_64)
  have "sz = of_nat (unat sz)" by simp
  with b s have g: "pb_geom b (fst w)" by (simp add: pb_geom_def)
  have "\<not> nd_ready (pb_node_of (fst w) t)" for t
    using b(3) by (simp add: pb_node_of_def s)
  then have "pb_good b (fst w) (snd w) ps"
    using g h s idle by (auto simp: pb_good_def pb_mem_def pb_threads_def)
  with b g show ?thesis by (auto simp: pb_inv_good)
qed

interpretation pb: protocol "pb_step vals" "pb_start d0 sz" "pb_inv sz"
  by unfold_locales (fact pb_start_inv, fact pb_step_inv)


section \<open>Properties\<close>

text \<open>C25. \<open>mpsc_bounded_queue\<close> as long as no producer takes a ticket while \<open>Size\<close> values
  are inside: under every schedule the consumer has returned exactly the first values by ticket, in
  order, none lost and none twice; at most \<open>Size\<close> are inside; and each of these is ready in its
  node unless a thread is still working on that node. The positions may wrap.\<close>

theorem mpsc_bounded_fifo:
  assumes "reach (pb_start d0 sz) (interleave (pb_step vals)) ((s, h), ps)" "\<not> pb_over h"
  shows "pb_got h = take (length (pb_got h)) (pb_log h)
    \<and> length (pb_got h) \<le> length (pb_log h) \<and> length (pb_log h) \<le> length (pb_got h) + unat sz
    \<and> (\<forall>t. length (pb_got h) \<le> t \<and> t < length (pb_log h) \<longrightarrow>
         nd_ready (pb_node_of s t) \<and> nd_value (pb_node_of s t) = pb_log h ! t
         \<or> (\<exists>p \<in> set ps. pb_claim (length (pb_got h)) p = Some (of_nat t)))"
proof -
  obtain b where b: "unat sz = 2 ^ b" and g: "pb_good b s h ps"
    using pb.reach_inv [OF assms(1)] assms(2) by (auto simp: pb_inv_good)
  then have mem: "pb_mem b s (pb_log h) (length (pb_got h))"
    and th: "pb_threads b s (pb_log h) (length (pb_got h)) ps"
    and got: "pb_got h = take (length (pb_got h)) (pb_log h)"
    by (simp_all add: pb_good_def)
  note m = pb_memD [OF mem]
  have "nd_ready (pb_node_of s t) \<and> nd_value (pb_node_of s t) = pb_log h ! t
         \<or> (\<exists>p \<in> set ps. pb_claim (length (pb_got h)) p = Some (of_nat t))"
    if "length (pb_got h) \<le> t \<and> t < length (pb_log h)" for t
    using that m(6) pb_threadsD(3) [OF th] by (cases "nd_ready (pb_node_of s t)") simp_all
  with m(4,5) got b show ?thesis by metis
qed

text \<open>One call of a thread that runs alone.\<close>

definition pb_enqueue :: "'a \<Rightarrow> 'a pb_state \<Rightarrow> bool \<times> 'a pb_state" where
  "pb_enqueue v s =
     (case run_alone pb_try_enqueue pb_is_done 5 (PbHead v) s of
        Some (PbDone b, s') \<Rightarrow> (b, s') | _ \<Rightarrow> (False, s))"

definition pb_dequeue :: "'a pb_state \<Rightarrow> 'a option \<times> 'a pb_state" where
  "pb_dequeue s =
     (case run_alone pb_try_dequeue pb_is_done 5 PcHead s of
        Some (PcDone r, s') \<Rightarrow> (r, s') | _ \<Rightarrow> (None, s))"

lemma pb_init_two:
  "pb_init d0 2 = Some \<lparr>pb_mask = 1, pb_size = 2, pb_head = 0, pb_tail = 0,
     pb_buffer = [\<lparr>nd_value = d0, nd_ready = False\<rparr>, \<lparr>nd_value = d0, nd_ready = False\<rparr>]\<rparr>"
  by (simp add: pb_init_def replicate_two)

lemma pb_run:
  "reach (pb_start 0 2) (interleave (pb_step (\<lambda>i. [7 :: nat])))
     ((\<lparr>pb_mask = 1, pb_size = 2, pb_head = 1, pb_tail = 1,
        pb_buffer = [\<lparr>nd_value = 7, nd_ready = False\<rparr>, \<lparr>nd_value = 0, nd_ready = False\<rparr>]\<rparr>,
       \<lparr>pb_log = [7], pb_got = [7], pb_over = False\<rparr>), [PcDone (Some 7), PbDone True])"
  by (rule run_sched_reach_start
      [where s = "((the (pb_init 0 2), \<lparr>pb_log = [], pb_got = [], pb_over = False\<rparr>), [PbIdle, PbIdle])"
        and sched = "[(1, 0), (1, 0), (1, 0), (1, 0), (1, 0), (1, 0),
          (0, 0), (0, 0), (0, 0), (0, 0), (0, 0), (0, 0)]"])
    (simp_all add: pb_start_def pb_init_two pb_step_def pb_index_def pb_set_value_def pb_set_ready_def)

theorem mpsc_bounded_fifo_witness:
  "length [7 :: nat] \<le> length [7 :: nat] + unat (2 :: u64)"
  using mpsc_bounded_fifo [OF pb_run] by simp

text \<open>The guard compares with \<open>>\<close> and lets one value too many in: with \<open>Size\<close> 2, a third
  push into a queue that holds two values is accepted and overwrites the oldest one; the consumer
  gets the third value first, then the second, and then reports an empty queue although three
  pushes were accepted and only two values came out.\<close>

theorem mpsc_bounded_overflow:
  "(case enq_all pb_enqueue [x, y, z] (the (pb_init d0 2)) of (bs, s1) \<Rightarrow>
      case deq_many pb_dequeue 3 s1 of (rs, s2) \<Rightarrow>
        bs = [True, True, True] \<and> rs = [Some z, Some y, None] \<and> pb_head s2 \<noteq> pb_tail s2)"
  by (simp add: pb_init_two pb_enqueue_def pb_dequeue_def run_alone_unfold pb_index_def
      pb_set_value_def pb_set_ready_def deq_many_numeral)

end
