(* ===== verification/Spmc_Message.thy ===== *)
theory Spmc_Message
  imports Interfaces
begin

text \<open>
  The class \<open>spmc_bounded_message_queue\<close> of \<open>containers/queue/spmc_bounded_message_queue.h\<close>,
  a broadcast ring: thread 0 writes, every other thread has one \<open>consumer\<close> with a read position of
  its own. The writer never waits, so it can lap a slow consumer. Copying an item is one step.

  The histories only record: \<open>mb_log\<close> the items in the order in which they were put into the buffer,
  \<open>mb_count\<close> how many of them have been published by a store of the position, \<open>mb_born\<close> for
  every consumer how many were published when it was created, and \<open>mb_got\<close> for every successful
  \<open>try_dequeue\<close> the thread, the position it read, the item it returned and the length of the log
  at that moment.
\<close>

unbundle bit_operations_syntax

record 'a mb_state =
  mb_writer_pos :: u64
  mb_buffer :: "'a list"

definition mb_size :: "'a mb_state \<Rightarrow> nat" where
  "mb_size s = length (mb_buffer s)"

text \<open>The \<open>static_assert\<close>s on the size.\<close>

definition mb_size_ok :: "u64 \<Rightarrow> bool" where
  "mb_size_ok sz \<longleftrightarrow> 0 < sz \<and> sz AND (sz - 1) = 0"

definition mb_init :: "'a list \<Rightarrow> 'a mb_state" where
  "mb_init buf = \<lparr>mb_writer_pos = 0, mb_buffer = buf\<rparr>"

datatype 'a mb_pc =
  MwIdle
| MwPos 'a             \<comment> \<open>try_enqueue: before the load of the position\<close>
| MwData 'a u64        \<comment> \<open>before the item is copied in\<close>
| MwPub u64            \<comment> \<open>before the position is stored\<close>
| McNew                \<comment> \<open>before the consumer is created\<close>
| McIdle u64           \<comment> \<open>a consumer with this read position\<close>
| McPos u64            \<comment> \<open>try_dequeue: before the load of the position\<close>
| McRead u64           \<comment> \<open>before the item is copied out\<close>
| McDone u64 "'a option"

definition mb_index :: "'a mb_state \<Rightarrow> u64 \<Rightarrow> nat" where
  "mb_index s pos = unat (pos AND (of_nat (mb_size s) - 1))"

fun mb_try_enqueue :: "'a mb_pc \<Rightarrow> 'a mb_state \<Rightarrow> 'a mb_pc \<times> 'a mb_state" where
  "mb_try_enqueue (MwPos v) s = (MwData v (mb_writer_pos s), s)"
| "mb_try_enqueue (MwData v pos) s = (MwPub pos, s\<lparr>mb_buffer := (mb_buffer s)[mb_index s pos := v]\<rparr>)"
| "mb_try_enqueue (MwPub pos) s = (MwIdle, s\<lparr>mb_writer_pos := pos + 1\<rparr>)"
| "mb_try_enqueue p s = (p, s)"

definition mb_create_consumer :: "'a mb_state \<Rightarrow> u64" where
  "mb_create_consumer s = mb_writer_pos s"

fun mb_try_dequeue :: "'a mb_pc \<Rightarrow> 'a mb_state \<Rightarrow> 'a mb_pc \<times> 'a mb_state" where
  "mb_try_dequeue (McPos r) s = (if mb_writer_pos s = r then McDone r None else McRead r, s)"
| "mb_try_dequeue (McRead r) s = (McDone (r + 1) (Some (mb_buffer s ! mb_index s r)), s)"
| "mb_try_dequeue p s = (p, s)"

record 'a mb_hist =
  mb_log :: "'a list"
  mb_count :: nat
  mb_born :: "(nat \<times> nat) list"
  mb_got :: "(nat \<times> nat \<times> 'a \<times> nat) list"

fun mb_record :: "nat \<Rightarrow> 'a mb_pc \<Rightarrow> 'a mb_pc \<Rightarrow> 'a mb_hist \<Rightarrow> 'a mb_hist" where
  "mb_record i (MwData v pos) q h = h\<lparr>mb_log := mb_log h @ [v]\<rparr>"
| "mb_record i (MwPub pos) q h = h\<lparr>mb_count := Suc (mb_count h)\<rparr>"
| "mb_record i McNew q h = h\<lparr>mb_born := mb_born h @ [(i, mb_count h)]\<rparr>"
| "mb_record i (McRead r) (McDone q (Some v)) h =
     h\<lparr>mb_got := mb_got h @ [(i, unat r, v, length (mb_log h))]\<rparr>"
| "mb_record i p q h = h"

definition mb_step :: "'a list \<Rightarrow> ('a mb_state \<times> 'a mb_hist, 'a mb_pc) thread_step" where
  "mb_step vals i p w =
     (case p of
        MwIdle \<Rightarrow> map (\<lambda>v. (MwPos v, w)) vals
      | McNew \<Rightarrow> (let p' = McIdle (mb_create_consumer (fst w)) in [(p', fst w, mb_record i p p' (snd w))])
      | McIdle r \<Rightarrow> [(McPos r, w)]
      | McDone r res \<Rightarrow> [(McIdle r, w)]
      | McPos r \<Rightarrow> (case mb_try_dequeue p (fst w) of (p', s') \<Rightarrow> [(p', s', mb_record i p p' (snd w))])
      | McRead r \<Rightarrow> (case mb_try_dequeue p (fst w) of (p', s') \<Rightarrow> [(p', s', mb_record i p p' (snd w))])
      | _ \<Rightarrow> (case mb_try_enqueue p (fst w) of (p', s') \<Rightarrow> [(p', s', mb_record i p p' (snd w))]))"

definition mb_start :: "u64 \<Rightarrow> ('a mb_state \<times> 'a mb_hist, 'a mb_pc) system \<Rightarrow> bool" where
  "mb_start sz t \<longleftrightarrow> mb_size_ok sz \<and> (\<exists>buf. length buf = unat sz \<and> fst (fst t) = mb_init buf)
     \<and> snd (fst t) = \<lparr>mb_log = [], mb_count = 0, mb_born = [], mb_got = []\<rparr>
     \<and> (\<exists>n. snd t = MwIdle # replicate n McNew)"


section \<open>The invariant\<close>

text \<open>The last position before \<open>len\<close> that shares the slot of \<open>r\<close>.\<close>

definition mb_latest :: "nat \<Rightarrow> nat \<Rightarrow> nat \<Rightarrow> nat" where
  "mb_latest n len r = r + (len - 1 - r) div n * n"

lemma mb_latest_spec:
  assumes "0 < n" "r < len"
  shows "mb_latest n len r mod n = r mod n" "r \<le> mb_latest n len r" "mb_latest n len r < len"
    and "len \<le> mb_latest n len r + n"
proof -
  define k where "k = len - 1 - r"
  have k: "len = r + k + 1" using assms(2) by (simp add: k_def)
  have "k = k div n * n + k mod n" "k mod n < n" using assms(1) by simp_all
  then show "mb_latest n len r < len" "len \<le> mb_latest n len r + n"
    using k unfolding mb_latest_def k_def [symmetric] by linarith+
  show "mb_latest n len r mod n = r mod n" "r \<le> mb_latest n len r" by (simp_all add: mb_latest_def)
qed

lemma mb_latest_self: "r < len \<Longrightarrow> len \<le> r + n \<Longrightarrow> mb_latest n len r = r"
  by (simp add: mb_latest_def)

fun mb_writer :: "'a list \<Rightarrow> nat \<Rightarrow> 'a mb_pc \<Rightarrow> bool" where
  "mb_writer log k MwIdle = (length log = k)"
| "mb_writer log k (MwPos v) = (length log = k)"
| "mb_writer log k (MwData v pos) = (length log = k \<and> pos = of_nat k)"
| "mb_writer log k (MwPub pos) = (length log = Suc k \<and> pos = of_nat k)"
| "mb_writer log k p = False"

definition mb_reads :: "nat \<Rightarrow> 'a mb_hist \<Rightarrow> nat list" where
  "mb_reads i h = map (\<lambda>(j, r, v, l). r) (filter (\<lambda>(j, r, v, l). j = i) (mb_got h))"

definition mb_firsts :: "nat \<Rightarrow> 'a mb_hist \<Rightarrow> nat list" where
  "mb_firsts i h = map snd (filter (\<lambda>(j, first). j = i) (mb_born h))"

text \<open>A consumer at position \<open>r\<close> has read every position from that of its creation up to \<open>r\<close>.\<close>

definition mb_at :: "nat \<Rightarrow> 'a mb_hist \<Rightarrow> nat \<Rightarrow> u64 \<Rightarrow> bool" where
  "mb_at i h k pos \<longleftrightarrow> (\<exists>r first. pos = of_nat r \<and> r \<le> k \<and> first \<le> r
     \<and> mb_firsts i h = [first] \<and> mb_reads i h = [first..<r])"

fun mb_consumer :: "nat \<Rightarrow> 'a mb_hist \<Rightarrow> nat \<Rightarrow> 'a mb_pc \<Rightarrow> bool" where
  "mb_consumer i h k McNew = (mb_reads i h = [] \<and> mb_firsts i h = [])"
| "mb_consumer i h k (McIdle pos) = mb_at i h k pos"
| "mb_consumer i h k (McPos pos) = mb_at i h k pos"
| "mb_consumer i h k (McRead pos) = (0 < k \<and> mb_at i h (k - 1) pos)"
| "mb_consumer i h k (McDone pos r) = mb_at i h k pos"
| "mb_consumer i h k p = False"

definition mb_good :: "nat \<Rightarrow> 'a mb_state \<Rightarrow> 'a mb_hist \<Rightarrow> 'a mb_pc list \<Rightarrow> bool" where
  "mb_good n s h ps \<longleftrightarrow> (\<exists>k. mb_count h = k \<and> mb_writer_pos s = of_nat k \<and> k < 2 ^ 64 \<and> ps \<noteq> [] \<and> mb_writer (mb_log h) k (ps ! 0)
       \<and> (\<forall>i < length ps. 0 < i \<longrightarrow> mb_consumer i h k (ps ! i)))
     \<and> (\<forall>u < length (mb_log h). length (mb_log h) \<le> u + n \<longrightarrow> mb_buffer s ! (u mod n) = mb_log h ! u)
     \<and> (\<forall>(i, r, v, l) \<in> set (mb_got h). r < l \<and> l \<le> length (mb_log h) \<and> v = mb_log h ! mb_latest n l r)"

definition mb_inv :: "u64 \<Rightarrow> 'a mb_state \<times> 'a mb_hist \<Rightarrow> 'a mb_pc list \<Rightarrow> bool" where
  [inv_defs]: "mb_inv sz w ps \<longleftrightarrow> (\<exists>b < 64. unat sz = 2 ^ b \<and> mb_size (fst w) = 2 ^ b
     \<and> (length (mb_log (snd w)) < 2 ^ 64 \<longrightarrow> mb_good (2 ^ b) (fst w) (snd w) ps))"

lemma mb_index_of_nat:
  assumes "mb_size s = 2 ^ b" "b < 64"
  shows "mb_index s (of_nat t) = t mod 2 ^ b"
proof -
  have "(of_nat (2 ^ b) - 1 :: u64) = mask b" by (simp add: mask_eq_exp_minus_1)
  then show ?thesis
    using assms unat_add_of_nat_mod [of b 0 t] by (simp add: mb_index_def unat_and_mask)
qed


section \<open>Every move keeps the invariant\<close>

lemma mb_at_mono: "mb_at i h k pos \<Longrightarrow> k \<le> k' \<Longrightarrow> mb_reads i h' = mb_reads i h \<Longrightarrow> mb_firsts i h' = mb_firsts i h \<Longrightarrow>
    mb_at i h' k' pos"
  unfolding mb_at_def by (metis le_trans)

lemma mb_consumer_mono:
  "mb_consumer i h k p \<Longrightarrow> k \<le> k' \<Longrightarrow> mb_reads i h' = mb_reads i h \<Longrightarrow> mb_firsts i h' = mb_firsts i h \<Longrightarrow>
    mb_consumer i h' k' p"
  by (cases p) (auto intro: mb_at_mono)

lemma mb_writer_step:
  assumes g: "mb_good n s h ps" and n: "n = 2 ^ b" "b < 64" and sz: "mb_size s = n"
    and e: "mb_try_enqueue (ps ! 0) s = (p', s')" "h' = mb_record 0 (ps ! 0) p' h"
    and w: "ps ! 0 \<noteq> MwIdle" and small: "length (mb_log h') < 2 ^ 64"
  shows "mb_good n s' h' (ps[0 := p'])"
proof -
  obtain k where cnt: "mb_count h = k" and k: "mb_writer_pos s = of_nat k" "k < 2 ^ 64" "ps \<noteq> []" "mb_writer (mb_log h) k (ps ! 0)"
    and cons: "\<And>i. i < length ps \<Longrightarrow> 0 < i \<Longrightarrow> mb_consumer i h k (ps ! i)"
    and buf: "\<And>u. u < length (mb_log h) \<Longrightarrow> length (mb_log h) \<le> u + n \<Longrightarrow> mb_buffer s ! (u mod n) = mb_log h ! u"
    and got: "\<forall>(i, r, v, l) \<in> set (mb_got h). r < l \<and> l \<le> length (mb_log h) \<and> v = mb_log h ! mb_latest n l r"
    using g by (auto simp: mb_good_def)
  have index: "mb_index s (of_nat t) = t mod n" for t using mb_index_of_nat [OF _ n(2)] sz n(1) by simp
  have others: "\<forall>i < length (ps[0 := p']). 0 < i \<longrightarrow> mb_consumer i h'' k' (ps[0 := p'] ! i)"
    if "k \<le> k'" "mb_got h'' = mb_got h" "mb_born h'' = mb_born h" for k' h''
    using cons that by (auto intro!: mb_consumer_mono [OF cons] simp: mb_reads_def mb_firsts_def)
  show ?thesis
  proof (cases "ps ! 0")
    case (MwPos v)
    with e k(1,4) have "p' = MwData v (of_nat k)" "s' = s" "h' = h" "length (mb_log h) = k" by auto
    with k cnt got others [of k h] buf show ?thesis
      unfolding mb_good_def by (intro conjI exI [of _ k]) auto
  next
    case (MwData v pos)
    with e k(4) have r: "p' = MwPub (of_nat k)" "s' = s\<lparr>mb_buffer := (mb_buffer s)[k mod n := v]\<rparr>"
      "h' = h\<lparr>mb_log := mb_log h @ [v]\<rparr>" "length (mb_log h) = k" by (auto simp: index)
    have "mb_buffer s' ! (u mod n) = mb_log h' ! u" if u: "u < length (mb_log h')" "length (mb_log h') \<le> u + n" for u
    proof (cases "u = k")
      case True
      have "k mod n < length (mb_buffer s)" using sz n(1) by (simp add: mb_size_def)
      with True show ?thesis by (simp add: r nth_append)
    next
      case False
      with u r(3,4) have *: "u < k" "k < u + n" by simp_all
      then have "u mod n \<noteq> k mod n" using mod_eq_near [of u n k] by auto
      with * buf [of u] r(4) show ?thesis by (simp add: r nth_append)
    qed
    moreover have "\<forall>(i, r, v, l) \<in> set (mb_got h'). r < l \<and> l \<le> length (mb_log h') \<and> v = mb_log h' ! mb_latest n l r"
    proof (clarsimp)
      fix i ra va l assume "(i, ra, va, l) \<in> set (mb_got h')"
      then have "ra < l \<and> l \<le> length (mb_log h) \<and> va = mb_log h ! mb_latest n l ra" using got r by auto
      moreover then have "mb_latest n l ra < l" using mb_latest_spec(3) n(1) by simp
      ultimately show "ra < l \<and> l \<le> length (mb_log h') \<and> va = mb_log h' ! mb_latest n l ra"
        by (simp add: r nth_append)
    qed
    ultimately show ?thesis
      using k cnt r others [of k h'] unfolding mb_good_def by (intro conjI exI [of _ k]) auto
  next
    case (MwPub pos)
    with e k(4) have r: "p' = MwIdle" "s' = s\<lparr>mb_writer_pos := of_nat k + 1\<rparr>"
      "h' = h\<lparr>mb_count := Suc (mb_count h)\<rparr>"
      "length (mb_log h) = Suc k" by auto
    with small have "Suc k < 2 ^ 64" by simp
    with r k cnt others [of "Suc k" h'] buf got show ?thesis
      unfolding mb_good_def by (intro conjI exI [of _ "Suc k"]) auto
  qed (use w k(4) in auto)
qed

lemma mb_cons_update:
  "j < length (ps[i := p]) \<Longrightarrow> 0 < j \<Longrightarrow> mb_consumer i h k p \<Longrightarrow>
    (\<And>j. j < length ps \<Longrightarrow> 0 < j \<Longrightarrow> j \<noteq> i \<Longrightarrow> mb_consumer j h k (ps ! j)) \<Longrightarrow> mb_consumer j h k (ps[i := p] ! j)"
  by (cases "j = i") simp_all

lemma mb_reads_append:
  "mb_reads j (h\<lparr>mb_got := mb_got h @ [(i, r, v, l)]\<rparr>) = mb_reads j h @ (if i = j then [r] else [])"
  by (simp add: mb_reads_def)

lemma mb_firsts_append:
  "mb_firsts j (h\<lparr>mb_born := mb_born h @ [(i, first)]\<rparr>) = mb_firsts j h @ (if i = j then [first] else [])"
  by (simp add: mb_firsts_def)

lemma mb_hist_others [simp]:
  "mb_reads j (mb_born_update f h) = mb_reads j h" "mb_firsts j (mb_got_update g h) = mb_firsts j h"
  by (simp_all add: mb_reads_def mb_firsts_def)

lemma mb_consumer_step:
  assumes g: "mb_good n s h ps" and i: "i < length ps" "0 < i"
    and n: "n = 2 ^ b" "b < 64" and sz: "mb_size s = n"
    and st: "(p', s', h') \<in> set (mb_step vals i (ps ! i) (s, h))"
  shows "mb_good n s' h' (ps[i := p']) \<and> s' = s \<and> mb_log h' = mb_log h"
proof -
  obtain k where cnt: "mb_count h = k" and k: "mb_writer_pos s = of_nat k" "k < 2 ^ 64" "ps \<noteq> []" "mb_writer (mb_log h) k (ps ! 0)"
    and cons: "\<And>i. i < length ps \<Longrightarrow> 0 < i \<Longrightarrow> mb_consumer i h k (ps ! i)"
    and buf: "\<And>u. u < length (mb_log h) \<Longrightarrow> length (mb_log h) \<le> u + n \<Longrightarrow> mb_buffer s ! (u mod n) = mb_log h ! u"
    and got: "\<forall>(i, r, v, l) \<in> set (mb_got h). r < l \<and> l \<le> length (mb_log h) \<and> v = mb_log h ! mb_latest n l r"
    using g by (auto simp: mb_good_def)
  have index: "mb_index s (of_nat t) = t mod n" for t using mb_index_of_nat [OF _ n(2)] sz n(1) by simp
  have len: "k \<le> length (mb_log h)" using k(4) by (cases "ps ! 0") auto
  note me = cons [OF i]
  show ?thesis
  proof (cases "ps ! i")
    case (McRead pos)
    then obtain r first where r: "pos = of_nat r" "r < k" "first \<le> r" "mb_firsts i h = [first]" "mb_reads i h = [first..<r]"
      using me by (auto simp: mb_at_def)
    let ?u = "mb_latest n (length (mb_log h)) r"
    let ?h = "h\<lparr>mb_got := mb_got h @ [(i, r, mb_log h ! ?u, length (mb_log h))]\<rparr>"
    note u = mb_latest_spec [of n r "length (mb_log h)"]
    have "r < length (mb_log h)" "0 < n" using r(2) len n(1) by simp_all
    then have val: "mb_buffer s ! (r mod n) = mb_log h ! ?u"
      using buf [of ?u] u by simp
    have "unat pos = r" unfolding r(1) using r(2) k(2) by (intro unat_of_nat_64) simp
    with McRead st val have e: "p' = McDone (of_nat (Suc r)) (Some (mb_log h ! ?u))" "s' = s" "h' = ?h"
      by (auto simp: mb_step_def index r(1) add.commute)
    have "mb_at i ?h k (of_nat (Suc r))"
      unfolding mb_at_def using r by (intro exI [of _ "Suc r"] exI [of _ first]) (simp add: mb_reads_append)
    moreover have "mb_consumer j ?h k (ps ! j)" if "j < length ps" "0 < j" "j \<noteq> i" for j
      using mb_consumer_mono [OF cons [OF that(1,2)], of k ?h] that by (simp add: mb_reads_append)
    ultimately have "\<forall>j < length (ps[i := p']). 0 < j \<longrightarrow> mb_consumer j h' k (ps[i := p'] ! j)"
      using e by (intro allI impI mb_cons_update) simp_all
    moreover have "\<forall>(j, q, v, l) \<in> set (mb_got h'). q < l \<and> l \<le> length (mb_log h') \<and> v = mb_log h' ! mb_latest n l q"
      using got \<open>r < length (mb_log h)\<close> e(3) by auto
    ultimately show ?thesis
      using k cnt i buf e unfolding mb_good_def by (intro conjI exI [of _ k]) auto
  next
    case (McPos pos)
    then obtain r first where r: "pos = of_nat r" "r \<le> k" "first \<le> r" "mb_firsts i h = [first]" "mb_reads i h = [first..<r]"
      using me by (auto simp: mb_at_def)
    have "mb_writer_pos s \<noteq> pos \<Longrightarrow> r < k" using r(1,2) k(1) by (cases "r = k") auto
    then have "mb_writer_pos s \<noteq> pos \<Longrightarrow> 0 < k \<and> mb_at i h (k - 1) pos"
      using r unfolding mb_at_def by (metis Suc_leI Suc_pred diff_Suc_1 gr_zeroI less_imp_Suc_add not_less_zero le_simps(2))
    with McPos me st have "mb_consumer i h k p'" "s' = s" "h' = h" by (auto simp: mb_step_def split: if_splits)
    with k cnt i buf got cons show ?thesis
      unfolding mb_good_def by (intro conjI exI [of _ k]) (auto intro: mb_cons_update [of _ ps i])
  next
    case McNew
    let ?h = "h\<lparr>mb_born := mb_born h @ [(i, k)]\<rparr>"
    from McNew st k(1) cnt have e: "p' = McIdle (of_nat k)" "s' = s" "h' = ?h"
      by (auto simp: mb_step_def mb_create_consumer_def)
    have "mb_at i ?h k (of_nat k)"
      unfolding mb_at_def using me McNew by (intro exI [of _ k]) (simp add: mb_firsts_append)
    moreover have "mb_consumer j ?h k (ps ! j)" if "j < length ps" "0 < j" "j \<noteq> i" for j
      using mb_consumer_mono [OF cons [OF that(1,2)], of k ?h] that by (simp add: mb_firsts_append)
    ultimately have "\<forall>j < length (ps[i := p']). 0 < j \<longrightarrow> mb_consumer j h' k (ps[i := p'] ! j)"
      using e by (intro allI impI mb_cons_update) simp_all
    then show ?thesis
      using k cnt i buf got e unfolding mb_good_def by (intro conjI exI [of _ k]) auto
  next
    case (McIdle pos)
    with me st have "mb_consumer i h k p'" "s' = s" "h' = h" by (auto simp: mb_step_def)
    with k cnt i buf got cons show ?thesis
      unfolding mb_good_def by (intro conjI exI [of _ k]) (auto intro: mb_cons_update [of _ ps i])
  next
    case (McDone pos res)
    with me st have "mb_consumer i h k p'" "s' = s" "h' = h" by (auto simp: mb_step_def)
    with k cnt i buf got cons show ?thesis
      unfolding mb_good_def by (intro conjI exI [of _ k]) (auto intro: mb_cons_update [of _ ps i])
  qed (use me in auto)
qed

lemma mb_step_size:
  "(p', w') \<in> set (mb_step vals i p w) \<Longrightarrow> mb_size (fst w') = mb_size (fst w)
    \<and> length (mb_log (snd w)) \<le> length (mb_log (snd w'))"
  by (cases p) (auto simp: mb_step_def mb_size_def split: if_splits)

lemma mb_step_inv:
  assumes inv: "mb_inv sz w ps" and i: "i < length ps"
    and st: "(p', w') \<in> set (mb_step vals i (ps ! i) w)"
  shows "mb_inv sz w' (ps[i := p'])"
proof -
  obtain b where b: "b < 64" "unat sz = 2 ^ b" "mb_size (fst w) = 2 ^ b"
    and good: "length (mb_log (snd w)) < 2 ^ 64 \<Longrightarrow> mb_good (2 ^ b) (fst w) (snd w) ps"
    using inv by (auto simp: mb_inv_def)
  have "mb_good (2 ^ b) (fst w') (snd w') (ps[i := p'])" if small: "length (mb_log (snd w')) < 2 ^ 64"
  proof -
    have g: "mb_good (2 ^ b) (fst w) (snd w) ps" using good mb_step_size [OF st] small by simp
    show ?thesis
    proof (cases "i = 0")
      case False
      then show ?thesis
        using mb_consumer_step [OF g i _ refl b(1,3), of p' "fst w'" "snd w'" vals, THEN conjunct1] st by simp
    next
      case True
      show ?thesis
      proof (cases "ps ! 0 = MwIdle")
        case idle: True
        with True st obtain v where "p' = MwPos v" "w' = w" by (auto simp: mb_step_def)
        with g idle True show ?thesis by (auto simp: mb_good_def)
      next
        case False
        obtain k where "mb_writer (mb_log (snd w)) k (ps ! 0)" using g by (auto simp: mb_good_def)
        with True False st have "mb_try_enqueue (ps ! 0) (fst w) = (p', fst w')"
          "snd w' = mb_record 0 (ps ! 0) p' (snd w)" by (cases "ps ! 0"; auto simp: mb_step_def)+
        from mb_writer_step [OF g refl b(1,3) this False small] True show ?thesis by simp
      qed
    qed
  qed
  with b mb_step_size [OF st] show ?thesis by (auto simp: mb_inv_def)
qed

lemma mb_start_inv: "mb_start sz (w, ps) \<Longrightarrow> mb_inv sz w ps"
proof -
  assume a: "mb_start sz (w, ps)"
  then have sz: "0 < sz" "sz AND (sz - 1) = 0" by (simp_all add: mb_start_def mb_size_ok_def)
  obtain buf m where s: "fst w = mb_init buf" "length buf = unat sz" "snd w = \<lparr>mb_log = [], mb_count = 0, mb_born = [], mb_got = []\<rparr>"
    "ps = MwIdle # replicate m McNew" using a by (auto simp: mb_start_def)
  have "\<exists>b < 64. unat sz = 2 ^ b"
  proof (cases "sz = 1")
    case True
    then show ?thesis by (intro exI [of _ 0]) simp
  next
    case False
    then have "unat sz \<noteq> 1" by (metis unsigned_1 word_unat_eq_iff)
    moreover have "0 < unat sz" using sz(1) by (simp add: word_less_nat_alt)
    ultimately have "1 < sz" by (simp add: word_less_nat_alt)
    with sz(2) show ?thesis using power_of_two_64 by metis
  qed
  then obtain b where b: "b < 64" "unat sz = 2 ^ b" by blast
  have "mb_good (2 ^ b) (fst w) (snd w) ps"
    using s by (auto simp: mb_good_def mb_init_def mb_reads_def mb_firsts_def nth_Cons split: nat.splits intro!: exI [of _ 0])
  with b s show ?thesis by (auto simp: mb_inv_def mb_size_def mb_init_def)
qed

interpretation mb: protocol "mb_step vals" "mb_start sz" "mb_inv sz"
  by unfold_locales (fact mb_start_inv, fact mb_step_inv)


section \<open>Properties\<close>

text \<open>What consumer \<open>i\<close> was handed, in order.\<close>

definition mb_items :: "nat \<Rightarrow> 'a mb_hist \<Rightarrow> 'a list" where
  "mb_items i h = map (\<lambda>(j, r, v, l). v) (filter (\<lambda>(j, r, v, l). j = i) (mb_got h))"

lemma mb_reach_good:
  assumes "reach (mb_start sz) (interleave (mb_step vals)) ((s, h), ps)" "length (mb_log h) < 2 ^ 64"
  shows "mb_good (unat sz) s h ps \<and> 0 < unat sz"
  using mb.reach_inv [OF assms(1)] assms(2) by (auto simp: mb_inv_def)

lemma mb_items_reads:
  assumes "mb_good n s h ps" "\<forall>(j, r, v, l) \<in> set (mb_got h). j = i \<longrightarrow> l \<le> r + n"
  shows "mb_items i h = map (\<lambda>r. mb_log h ! r) (mb_reads i h)"
proof -
  have "\<forall>e \<in> set (filter (\<lambda>(j, r, v, l). j = i) (mb_got h)).
      (\<lambda>(j, r, v, l). v) e = mb_log h ! (\<lambda>(j, r, v, l). r) e"
  proof
    fix e assume e: "e \<in> set (filter (\<lambda>(j, r, v, l). j = i) (mb_got h))"
    obtain j r v l where j: "e = (j, r, v, l)" by (cases e) auto
    with e have "(j, r, v, l) \<in> set (mb_got h)" "j = i" by auto
    with assms have "r < l" "v = mb_log h ! mb_latest n l r" "l \<le> r + n" unfolding mb_good_def by blast+
    with j show "(\<lambda>(j, r, v, l). v) e = mb_log h ! (\<lambda>(j, r, v, l). r) e" by (simp add: mb_latest_self)
  qed
  then show ?thesis by (auto simp: mb_items_def mb_reads_def)
qed

lemma mb_consumer_at: "mb_consumer i h k p \<Longrightarrow> first \<in> set (mb_firsts i h) \<Longrightarrow> \<exists>pos. mb_at i h k pos"
proof (cases p)
  case (McRead pos)
  moreover assume "mb_consumer i h k p"
  ultimately show ?thesis using mb_at_mono [of i h "k - 1" pos k h] by (intro exI [of _ pos]) simp
qed auto

text \<open>The next call of a consumer, run alone: with everything published already got it answers
  nothing, and otherwise it takes the next item.\<close>

fun mb_returned :: "'a mb_pc \<Rightarrow> bool" where
  "mb_returned (McDone r res) = True"
| "mb_returned p = False"

lemma mb_next_call:
  assumes good: "mb_good (2 ^ b) s h ps" and b: "b < 64" "mb_size s = 2 ^ b"
    and at: "mb_at i h (mb_count h) pos" "mb_firsts i h = [first]"
    and room: "length (mb_log h) \<le> first + length (mb_reads i h) + 2 ^ b"
  shows "run_alone mb_try_dequeue mb_returned 2 (McPos pos) s = Some
    (if first + length (mb_reads i h) = mb_count h then McDone pos None
     else McDone (pos + 1) (Some (mb_log h ! (first + length (mb_reads i h)))), s)"
proof -
  obtain r where r: "pos = of_nat r" "r \<le> mb_count h" "first \<le> r" "mb_reads i h = [first..<r]"
    using at by (auto simp: mb_at_def)
  then have len: "first + length (mb_reads i h) = r" by simp
  have c: "mb_count h < 2 ^ 64" "mb_writer_pos s = of_nat (mb_count h)" "mb_writer (mb_log h) (mb_count h) (ps ! 0)"
    and buf: "\<And>u. u < length (mb_log h) \<Longrightarrow> length (mb_log h) \<le> u + 2 ^ b \<Longrightarrow> mb_buffer s ! (u mod 2 ^ b) = mb_log h ! u"
    using good by (auto simp: mb_good_def)
  have "mb_count h \<le> length (mb_log h)" using c(3) by (cases "ps ! 0") auto
  moreover have "mb_writer_pos s = pos \<longleftrightarrow> r = mb_count h"
    unfolding c(2) r(1) using c(1) r(2) by (metis le_less_trans unat_of_nat_64)
  ultimately show ?thesis
    unfolding len using r(1,2) room [unfolded len] mb_index_of_nat [OF b(2,1), of r] buf [of r]
    by (simp add: run_alone_unfold)
qed

text \<open>C34. A consumer that is never lapped (at each of its reads at most \<open>Size\<close> items were put
  in from the position it read on), with fewer than \<open>2 ^ 64\<close> items written in all. It gets the items
  from the number \<open>first\<close> that was published when it was created, in the order written, none
  missing and none twice, whatever the writer and the other consumers do; none before it is
  published. And it misses nothing: between its calls, if it is not lapped now, the next call answers
  nothing exactly when it has got everything published, and otherwise the item that follows.\<close>

theorem spmc_message_in_order:
  assumes "reach (mb_start sz) (interleave (mb_step vals)) ((s, h), ps)" "length (mb_log h) < 2 ^ 64"
    and "0 < i" "i < length ps" "(i, first) \<in> set (mb_born h)"
    and "\<forall>(j, r, v, l) \<in> set (mb_got h). j = i \<longrightarrow> l \<le> r + unat sz"
  shows "mb_items i h = map (\<lambda>r. mb_log h ! r) [first..<first + length (mb_items i h)]
    \<and> first + length (mb_items i h) \<le> mb_count h \<and> mb_writer_pos s = of_nat (mb_count h)
    \<and> (\<forall>pos. ps ! i = McIdle pos \<and> length (mb_log h) \<le> first + length (mb_items i h) + unat sz \<longrightarrow>
         run_alone mb_try_dequeue mb_returned 2 (McPos pos) s = Some
           (if first + length (mb_items i h) = mb_count h then McDone pos None
            else McDone (pos + 1) (Some (mb_log h ! (first + length (mb_items i h)))), s))"
proof -
  obtain b where b: "b < 64" "unat sz = 2 ^ b" "mb_size s = 2 ^ b" and good: "mb_good (2 ^ b) s h ps"
    using mb.reach_inv [OF assms(1)] assms(2) by (auto simp: mb_inv_def)
  then have c: "mb_consumer i h (mb_count h) (ps ! i)" and w: "mb_writer_pos s = of_nat (mb_count h)"
    using assms(3,4) by (auto simp: mb_good_def)
  have "first \<in> set (mb_firsts i h)" using assms(5) by (force simp: mb_firsts_def)
  then obtain pos where at: "mb_at i h (mb_count h) pos" "first \<in> set (mb_firsts i h)"
    using mb_consumer_at [OF c] by blast
  then have first: "mb_firsts i h = [first]" by (auto simp: mb_at_def)
  with at(1) obtain r where r: "r \<le> mb_count h" "first \<le> r" "mb_reads i h = [first..<r]" by (auto simp: mb_at_def)
  have items: "mb_items i h = map (\<lambda>r. mb_log h ! r) (mb_reads i h)"
    by (rule mb_items_reads [OF good]) (use assms(6) b(2) in simp)
  have n: "first + length (mb_reads i h) = r" "first + length (mb_items i h) = r" using r by (simp_all add: items)
  show ?thesis
    unfolding n
  proof (intro conjI allI impI)
    show "mb_items i h = map (\<lambda>r. mb_log h ! r) [first..<r]" unfolding items r(3) ..
    show "r \<le> mb_count h" by (rule r(1))
    show "mb_writer_pos s = of_nat (mb_count h)" by (rule w)
    fix pos assume "ps ! i = McIdle pos \<and> length (mb_log h) \<le> r + unat sz"
    with c b(2) have "mb_at i h (mb_count h) pos" "length (mb_log h) \<le> r + 2 ^ b" by simp_all
    then show "run_alone mb_try_dequeue mb_returned 2 (McPos pos) s = Some
        (if r = mb_count h then McDone pos None else McDone (pos + 1) (Some (mb_log h ! r)), s)"
      using mb_next_call [OF good b(1,3) _ first, unfolded n] by blast
  qed
qed

text \<open>What a lapped consumer gets, exactly: a read of position \<open>r\<close> after \<open>l\<close> items were
  put in returns the last one that was put into the slot of \<open>r\<close>. It is always a real item, and
  the item of \<open>r\<close> itself exactly as long as the writer has not come round.\<close>

theorem spmc_message_latest:
  assumes "reach (mb_start sz) (interleave (mb_step vals)) ((s, h), ps)" "length (mb_log h) < 2 ^ 64"
    and "(i, r, v, l) \<in> set (mb_got h)"
  shows "r < l \<and> l \<le> length (mb_log h) \<and> v = mb_log h ! mb_latest (unat sz) l r
    \<and> mb_latest (unat sz) l r mod unat sz = r mod unat sz \<and> mb_latest (unat sz) l r < l
    \<and> l \<le> mb_latest (unat sz) l r + unat sz"
proof -
  have g: "\<forall>(j, r, v, l) \<in> set (mb_got h). r < l \<and> l \<le> length (mb_log h) \<and> v = mb_log h ! mb_latest (unat sz) l r"
    and n: "0 < unat sz" using mb_reach_good [OF assms(1,2)] by (auto simp: mb_good_def)
  with assms(3) have "r < l" "l \<le> length (mb_log h)" "v = mb_log h ! mb_latest (unat sz) l r" by blast+
  with mb_latest_spec [OF n] show ?thesis by simp
qed

text \<open>A run with one consumer in time and one that is lapped.\<close>

lemma mb_run:
  "reach (mb_start 2) (interleave (mb_step [a, b, c]))
     ((\<lparr>mb_writer_pos = 3, mb_buffer = [c, b]\<rparr>,
       \<lparr>mb_log = [a, b, c], mb_count = 3, mb_born = [(2, 0), (1, 1)], mb_got = [(1, 1, b, 2), (2, 0, c, 3), (2, 1, b, 3)]\<rparr>),
      [MwIdle, McIdle 2, McDone 2 (Some b)])"
proof -
  have one: "\<exists>n. [McNew, McNew] = replicate n McNew" by (intro exI [of _ 2]) (simp add: replicate_two)
  show ?thesis
    by (rule run_sched_reach_start
        [where s = "((mb_init [a, a], \<lparr>mb_log = [], mb_count = 0, mb_born = [], mb_got = []\<rparr>), [MwIdle, McNew, McNew])"
          and sched = "[(2, 0), (0, 0), (0, 0), (0, 0), (0, 0), (1, 0),
            (0, 1), (0, 0), (0, 0), (0, 0), (1, 0), (1, 0), (1, 0), (1, 0), (0, 2), (0, 0), (0, 0), (0, 0),
            (2, 0), (2, 0), (2, 0), (2, 0), (2, 0), (2, 0), (2, 0)]"])
      (simp_all add: mb_start_def mb_size_ok_def mb_init_def mb_step_def mb_create_consumer_def
        mb_index_def mb_size_def one)
qed

theorem spmc_message_in_order_witness:
  "[8 :: nat] = map (\<lambda>r. [7, 8, 9] ! r) [1..<2]
   \<and> run_alone mb_try_dequeue mb_returned 2 (McPos 2) \<lparr>mb_writer_pos = 3, mb_buffer = [9, 8 :: nat]\<rparr>
      = Some (McDone 3 (Some 9), \<lparr>mb_writer_pos = 3, mb_buffer = [9, 8]\<rparr>)"
  using spmc_message_in_order [OF mb_run [of "7 :: nat" 8 9], of 1 1] by (simp add: mb_items_def upt_rec)

theorem spmc_message_latest_witness:
  "(9 :: nat) = [7, 8, 9] ! mb_latest (unat (2 :: u64)) 3 0"
  using spmc_message_latest [OF mb_run [of "7 :: nat" 8 9], of 2 0 9 3] by simp

end
