(* ===== verification/Spmc_Non_Uniform.thy ===== *)
theory Spmc_Non_Uniform
  imports Interfaces
begin

text \<open>
  The class \<open>spmc_bounded_non_uniform_queue\<close> of
  \<open>containers/queue/spmc_bounded_non_uniform_queue.h\<close>, with calls that do not overlap: a ring of
  \<open>BufferSize\<close> bytes in which each message is a 4-byte size and then its bytes; a message that
  does not fit before the end has its bytes at the start of the ring, its size staying behind.
  Calls that overlap are in \<open>Nu_Concurrent\<close>.

  The callback \<open>f\<close> of \<open>seirialize\<close> stores the bytes \<open>m\<close> at the pointer it gets; the callback
  of \<open>try_deserialize\<close> reads \<open>size\<close> bytes. An access outside the array is \<open>None\<close>; the last theorems
  say when there is one. Integers
  are stored with the lowest byte first.
\<close>

unbundle bit_operations_syntax

record nu_state =
  nu_writer_pos :: u64
  nu_buffer :: "u8 list"

definition nu_size :: "nu_state \<Rightarrow> u64" where
  "nu_size s = of_nat (length (nu_buffer s))"

definition nu_init :: "u8 list \<Rightarrow> nu_state" where
  "nu_init buf = \<lparr>nu_writer_pos = 0, nu_buffer = buf\<rparr>"

definition le32 :: "u32 \<Rightarrow> u8 list" where
  "le32 w = [ucast w, ucast (drop_bit 8 w), ucast (drop_bit 16 w), ucast (drop_bit 24 w)]"

definition un_le32 :: "u8 list \<Rightarrow> u32" where
  "un_le32 bs = ucast (bs ! 0) OR push_bit 8 (ucast (bs ! 1)) OR push_bit 16 (ucast (bs ! 2))
     OR push_bit 24 (ucast (bs ! 3))"

definition nu_put :: "u8 list \<Rightarrow> nat \<Rightarrow> u8 list \<Rightarrow> u8 list option" where
  "nu_put buf k bs =
     (if k + length bs \<le> length buf then Some (take k buf @ bs @ drop (k + length bs) buf) else None)"

definition nu_get :: "u8 list \<Rightarrow> nat \<Rightarrow> nat \<Rightarrow> u8 list option" where
  "nu_get buf k n = (if k + n \<le> length buf then Some (take n (drop k buf)) else None)"

definition nu_write_size :: "u32 \<Rightarrow> u64 \<Rightarrow> u8 list \<Rightarrow> u8 list option" where
  "nu_write_size sz position buf = nu_put buf (unat position) (le32 sz)"

definition nu_read_size :: "u64 \<Rightarrow> u8 list \<Rightarrow> u32 option" where
  "nu_read_size position buf = map_option un_le32 (nu_get buf (unat position) 4)"

definition nu_serialize :: "u8 list \<Rightarrow> u64 \<Rightarrow> nu_state \<Rightarrow> nu_state option" where
  "nu_serialize m sz s =
     (let write_pos_absolute = nu_writer_pos s;
          writer_pos = write_pos_absolute AND (nu_size s - 1)
      in case nu_write_size (ucast sz) writer_pos (nu_buffer s) of
           None \<Rightarrow> None
         | Some buf \<Rightarrow>
             (let wraps = writer_pos + sz + 4 > nu_size s;
                  start = (if wraps then 0 else writer_pos + 4);
                  position_after_write =
                    (if wraps then (write_pos_absolute div nu_size s + 1) * nu_size s + sz
                     else write_pos_absolute + 4 + sz)
              in case nu_put buf (unat start) m of
                   None \<Rightarrow> None
                 | Some buf' \<Rightarrow> Some (s\<lparr>nu_buffer := buf', nu_writer_pos := position_after_write\<rparr>)))"

text \<open>A consumer is its read position. The answer is what \<open>f\<close> was given, \<open>None\<close> when
  \<open>try_deserialize\<close> returns false, with the new position.\<close>

definition nu_create_consumer :: "nu_state \<Rightarrow> u64" where
  "nu_create_consumer s = nu_writer_pos s"

definition nu_try_deserialize :: "nu_state \<Rightarrow> u64 \<Rightarrow> (u8 list option \<times> u64) option" where
  "nu_try_deserialize s local =
     (if nu_writer_pos s = local then Some (None, local)
      else let corrected = local AND (nu_size s - 1)
           in case nu_read_size corrected (nu_buffer s) of
                None \<Rightarrow> None
              | Some sz \<Rightarrow>
                  (let wraps = (ucast sz :: u64) + corrected + 4 > nu_size s;
                       local' = (if wraps then (local div nu_size s + 1) * nu_size s + ucast sz
                                 else local + (4 + ucast sz));
                       start = (if wraps then 0 else corrected + 4)
                   in case nu_get (nu_buffer s) (unat start) (unat sz) of
                        None \<Rightarrow> None
                      | Some bytes \<Rightarrow> Some (Some bytes, local')))"

fun nu_serialize_all :: "u8 list list \<Rightarrow> nu_state \<Rightarrow> nu_state option" where
  "nu_serialize_all [] s = Some s"
| "nu_serialize_all (m # ms) s =
     (case nu_serialize m (of_nat (length m)) s of None \<Rightarrow> None | Some s' \<Rightarrow> nu_serialize_all ms s')"

fun nu_read_many :: "nat \<Rightarrow> nu_state \<Rightarrow> u64 \<Rightarrow> (u8 list option list \<times> u64) option" where
  "nu_read_many 0 s local = Some ([], local)"
| "nu_read_many (Suc n) s local =
     (case nu_try_deserialize s local of
        None \<Rightarrow> None
      | Some (r, local') \<Rightarrow>
          (case nu_read_many n s local' of None \<Rightarrow> None | Some (rs, l) \<Rightarrow> Some (r # rs, l)))"


section \<open>The 4-byte sizes\<close>

lemma le32_length [simp]: "length (le32 w) = 4"
  by (simp add: le32_def)

lemma un_le32_le32: "un_le32 (le32 w) = w"
proof (rule bit_word_eqI)
  fix n assume "n < LENGTH(32)"
  then consider "n < 8" | "8 \<le> n" "n < 16" | "16 \<le> n" "n < 24" | "24 \<le> n" "n < 32" by fastforce
  then show "bit (un_le32 (le32 w)) n = bit w n"
    by cases (auto simp: un_le32_def le32_def bit_simps)
qed

lemma nu_get_put: "nu_put buf k bs = Some buf' \<Longrightarrow> nu_get buf' k (length bs) = Some bs"
  by (auto simp: nu_put_def nu_get_def split: if_splits)

lemma nu_put_nth:
  assumes "nu_put buf k bs = Some buf'" "j < length buf"
  shows "length buf' = length buf"
    and "buf' ! j = (if k \<le> j \<and> j < k + length bs then bs ! (j - k) else buf ! j)"
  using assms by (auto simp: nu_put_def nth_append split: if_splits)

lemma nu_get_nth:
  assumes "k + n \<le> length buf" "\<And>i. i < n \<Longrightarrow> buf ! (k + i) = bs ! i" "length bs = n"
  shows "nu_get buf k n = Some bs"
  using assms by (auto simp: nu_get_def intro!: nth_equalityI)


section \<open>Messages in the ring\<close>

text \<open>Positions grow without bound, position \<open>a\<close> being byte \<open>a mod B\<close>: where the bytes of a
  message start that begins at \<open>p\<close>.\<close>

definition nu_payload :: "nat \<Rightarrow> nat \<Rightarrow> nat \<Rightarrow> nat" where
  "nu_payload B p n = (if p mod B + n + 4 > B then (p div B + 1) * B else p + 4)"

fun nu_end :: "nat \<Rightarrow> nat \<Rightarrow> u8 list list \<Rightarrow> nat" where
  "nu_end B p [] = p"
| "nu_end B p (m # ms) = nu_end B (nu_payload B p (length m) + length m) ms"

text \<open>Every message finds room for its size before the end of the array, and its bytes are fewer
  than the array's.\<close>

fun nu_fits :: "nat \<Rightarrow> nat \<Rightarrow> u8 list list \<Rightarrow> bool" where
  "nu_fits B p [] = True"
| "nu_fits B p (m # ms) = (p mod B + 4 \<le> B \<and> nu_fits B (nu_payload B p (length m) + length m) ms)"

text \<open>The messages lie in the ring from position \<open>p\<close> to position \<open>w\<close>.\<close>

fun nu_holds :: "nat \<Rightarrow> u8 list \<Rightarrow> nat \<Rightarrow> u8 list list \<Rightarrow> nat \<Rightarrow> bool" where
  "nu_holds B buf p [] w = (p = w)"
| "nu_holds B buf p (m # ms) w =
     (let q = nu_payload B p (length m)
      in p mod B + 4 \<le> B \<and> q mod B + length m \<le> B
         \<and> (\<forall>i < 4. buf ! ((p + i) mod B) = le32 (of_nat (length m)) ! i)
         \<and> (\<forall>i < length m. buf ! ((q + i) mod B) = m ! i)
         \<and> nu_holds B buf (q + length m) ms w)"

lemma nu_payload_after: "0 < B \<Longrightarrow> p mod B + 4 \<le> B \<Longrightarrow> p + 4 \<le> nu_payload B p n"
proof -
  assume a: "0 < B" "p mod B + 4 \<le> B"
  have "p div B * B + p mod B = p" by simp
  moreover have "(p div B + 1) * B = p div B * B + B" by (simp add: add_mult_distrib)
  ultimately have "p + 4 \<le> (p div B + 1) * B" using a(2) by linarith
  then show ?thesis by (simp add: nu_payload_def)
qed

lemma nu_holds_le: "0 < B \<Longrightarrow> nu_holds B buf p ms w \<Longrightarrow> p \<le> w"
proof (induction ms arbitrary: p)
  case (Cons m ms)
  then have "nu_payload B p (length m) + length m \<le> w" "p mod B + 4 \<le> B" by (auto simp: Let_def)
  with nu_payload_after [OF Cons.prems(1), of p "length m"] show ?case by linarith
qed simp

text \<open>What lies between \<open>p\<close> and \<open>w\<close> depends on those bytes only.\<close>

lemma nu_holds_frame:
  "0 < B \<Longrightarrow> nu_holds B buf p ms w \<Longrightarrow> (\<And>a. p \<le> a \<Longrightarrow> a < w \<Longrightarrow> buf' ! (a mod B) = buf ! (a mod B)) \<Longrightarrow>
    nu_holds B buf' p ms w"
proof (induction ms arbitrary: p)
  case (Cons m ms)
  let ?q = "nu_payload B p (length m)"
  have h: "p mod B + 4 \<le> B" "nu_holds B buf (?q + length m) ms w"
    using Cons.prems(2) by (auto simp: Let_def)
  note le = nu_payload_after [OF Cons.prems(1) h(1), of "length m"] nu_holds_le [OF Cons.prems(1) h(2)]
  have "nu_holds B buf' (?q + length m) ms w"
    using le by (intro Cons.IH [OF Cons.prems(1) h(2)] Cons.prems(3)) linarith+
  moreover have "\<forall>i < 4. buf' ! ((p + i) mod B) = buf ! ((p + i) mod B)"
    using le by (auto intro!: Cons.prems(3))
  moreover have "\<forall>i < length m. buf' ! ((?q + i) mod B) = buf ! ((?q + i) mod B)"
    using le by (auto intro!: Cons.prems(3))
  ultimately show ?case using Cons.prems(2) by (simp add: Let_def)
qed simp

lemma nu_holds_append:
  "nu_holds B buf p ms w \<Longrightarrow> nu_holds B buf w ns w' \<Longrightarrow> nu_holds B buf p (ms @ ns) w'"
  by (induction ms arbitrary: p) (auto simp: Let_def)


section \<open>The code on words\<close>

text \<open>A ring of \<open>2 ^ b\<close> bytes, far from the end of the 64-bit positions.\<close>

definition nu_geom :: "nat \<Rightarrow> nu_state \<Rightarrow> bool" where
  "nu_geom b s \<longleftrightarrow> b < 62 \<and> length (nu_buffer s) = 2 ^ b"

lemma nu_geom_size:
  assumes "nu_geom b s"
  shows "unat (nu_size s) = 2 ^ b" "unat (pos AND (nu_size s - 1)) = unat pos mod 2 ^ b"
    and "(2::nat) ^ b \<le> 2 ^ 61"
proof -
  have b: "b \<le> 61" "length (nu_buffer s) = 2 ^ b" using assms by (simp_all add: nu_geom_def)
  then show le: "(2::nat) ^ b \<le> 2 ^ 61" by (intro power_increasing) simp_all
  then have "(2::nat) ^ b < 2 ^ 64" by simp
  then show "unat (nu_size s) = 2 ^ b" unfolding nu_size_def b(2) by (rule unat_of_nat_64)
  have "nu_size s - 1 = mask b" by (simp add: nu_size_def b mask_eq_exp_minus_1)
  then show "unat (pos AND (nu_size s - 1)) = unat pos mod 2 ^ b" by (simp add: unat_and_mask)
qed

text \<open>The two computations of the wrap, and of the position after the message.\<close>

lemma nu_wrap_test:
  assumes g: "nu_geom b s" and p: "unat pos mod 2 ^ b + 4 \<le> 2 ^ b"
    and n: "unat sz = n" "n \<le> 2 ^ b"
  defines "wp \<equiv> pos AND (nu_size s - 1)"
  shows "wp + sz + 4 > nu_size s \<longleftrightarrow> unat pos mod 2 ^ b + n + 4 > 2 ^ b"
    and "unat (if wp + sz + 4 > nu_size s then 0 else wp + 4) =
      (if unat pos mod 2 ^ b + n + 4 > 2 ^ b then 0 else unat pos mod 2 ^ b + 4)"
proof -
  let ?B = "2 ^ b :: nat" and ?p = "unat pos"
  note sz = nu_geom_size(1) [OF g] and le = nu_geom_size(3) [OF g]
  have wp: "unat wp = ?p mod ?B" unfolding wp_def by (rule nu_geom_size(2) [OF g])
  have "unat (wp + sz) = ?p mod ?B + n" using wp n le p by (simp add: unat_add_no_wrap)
  then have "unat (wp + sz + 4) = ?p mod ?B + n + 4" using n le p by (simp add: unat_add_no_wrap)
  then show w: "wp + sz + 4 > nu_size s \<longleftrightarrow> ?p mod ?B + n + 4 > ?B"
    by (simp add: word_less_nat_alt sz)
  have s4: "unat (wp + 4) = ?p mod ?B + 4" using wp le p by (simp add: unat_add_no_wrap)
  then show "unat (if wp + sz + 4 > nu_size s then 0 else wp + 4) =
      (if ?p mod ?B + n + 4 > ?B then 0 else ?p mod ?B + 4)"
    unfolding w by simp
qed

lemma nu_position:
  assumes g: "nu_geom b s" and p: "unat pos + 4 * 2 ^ b < 2 ^ 64" "unat pos mod 2 ^ b + 4 \<le> 2 ^ b"
    and n: "unat sz = n" "n \<le> 2 ^ b"
  defines "wp \<equiv> pos AND (nu_size s - 1)"
  shows "unat (if wp + sz + 4 > nu_size s then (pos div nu_size s + 1) * nu_size s + sz else pos + 4 + sz)
      = nu_payload (2 ^ b) (unat pos) n + n"
proof -
  let ?B = "2 ^ b :: nat" and ?p = "unat pos"
  note sz = nu_geom_size(1) [OF g]
  note w = nu_wrap_test(1) [OF g p(2) n, folded wp_def]
  have B: "0 < ?B" by simp
  have dB: "?p div ?B * ?B \<le> ?p" by simp
  have e: "(?p div ?B + 1) * ?B = ?p div ?B * ?B + ?B" by (simp add: add_mult_distrib)
  have d: "unat (pos div nu_size s) = ?p div ?B" by (simp add: unat_div sz)
  have "?p div ?B \<le> ?p" by simp
  then have "?p div ?B + 1 < 2 ^ 64" using p(1) B by linarith
  then have d1: "unat (pos div nu_size s + 1) = ?p div ?B + 1"
    using d by (subst unat_add_no_wrap) simp_all
  have "(?p div ?B + 1) * ?B < 2 ^ 64" using e dB p(1) B by linarith
  then have "unat (pos div nu_size s + 1) * unat (nu_size s) < 2 ^ LENGTH(64)"
    unfolding d1 sz by simp
  then have "unat ((pos div nu_size s + 1) * nu_size s) = (?p div ?B + 1) * ?B"
    by (simp only: unat_mult_no_wrap d1 sz)
  moreover have "(?p div ?B + 1) * ?B + n < 2 ^ 64" using e dB p(1) n(2) B by linarith
  ultimately have x: "unat ((pos div nu_size s + 1) * nu_size s + sz) = (?p div ?B + 1) * ?B + n"
    using n(1) by (subst unat_add_no_wrap) simp_all
  have "unat (pos + 4) = ?p + 4" using p by (subst unat_add_no_wrap) simp_all
  then have y: "unat (pos + 4 + sz) = ?p + 4 + n" using p n by (subst unat_add_no_wrap) simp_all
  show "unat (if wp + sz + 4 > nu_size s then (pos div nu_size s + 1) * nu_size s + sz else pos + 4 + sz)
      = nu_payload ?B ?p n + n"
    using x y unfolding w nu_payload_def by simp
qed

lemma nu_mod_near: "r mod B + i < B \<Longrightarrow> (r + i) mod B = r mod B + i" for r i B :: nat
  by (metis mod_add_left_eq mod_less)

lemma nu_serialize_ok:
  assumes g: "nu_geom b s" and pos: "unat (nu_writer_pos s) = p" "p + 4 * 2 ^ b < 2 ^ 64"
    and fit: "p mod 2 ^ b + 4 \<le> 2 ^ b" "nu_payload (2 ^ b) p (length m) + length m \<le> p + 2 ^ b"
    and m: "length m < 2 ^ 32"
  obtains s' where "nu_serialize m (of_nat (length m)) s = Some s'" "nu_geom b s'"
    and "unat (nu_writer_pos s') = nu_payload (2 ^ b) p (length m) + length m"
    and "nu_holds (2 ^ b) (nu_buffer s') p [m] (nu_payload (2 ^ b) p (length m) + length m)"
    and "\<And>a. a < p \<Longrightarrow> nu_payload (2 ^ b) p (length m) + length m \<le> a + 2 ^ b \<Longrightarrow>
      nu_buffer s' ! (a mod 2 ^ b) = nu_buffer s ! (a mod 2 ^ b)"
proof -
  define B :: nat where "B = 2 ^ b"
  define n where "n = length m"
  define q where "q = nu_payload B p n"
  define start where "start = (if p mod B + n + 4 > B then 0 else p mod B + 4)"
  have B: "0 < B" "length (nu_buffer s) = B" using g by (simp_all add: B_def nu_geom_def)
  have p4: "p + 4 \<le> q" using nu_payload_after [of B p n] fit(1) by (simp add: q_def B_def)
  have w: "q + n \<le> p + B" using fit(2) by (simp add: q_def B_def n_def)
  have nB: "n \<le> B" using p4 w by linarith
  have un: "unat (of_nat n :: u64) = n" using m by (intro unat_of_nat_64) (simp add: n_def)
  have h4: "p mod B + 4 \<le> B" using fit(1) by (simp add: B_def)
  have below: "start + n \<le> p mod B \<or> p mod B + 4 \<le> start" and room: "start + n \<le> B"
    and qs: "i < n \<Longrightarrow> (q + i) mod B = start + i" for i
  proof -
    show "start + n \<le> p mod B \<or> p mod B + 4 \<le> start"
    proof (cases "p mod B + n + 4 > B")
      case True
      have "p div B * B + p mod B = p" "(p div B + 1) * B = p div B * B + B" by (simp_all add: add_mult_distrib)
      moreover have "q = (p div B + 1) * B" using True by (simp add: q_def nu_payload_def)
      ultimately have "n \<le> p mod B" using w by linarith
      with True show ?thesis by (simp add: start_def)
    qed (simp add: start_def)
    show "start + n \<le> B" using nB by (simp add: start_def)
    show "i < n \<Longrightarrow> (q + i) mod B = start + i"
    proof (cases "p mod B + n + 4 > B")
      case True
      assume "i < n"
      then have "i < B" using nB by simp
      have "q = (p div B + 1) * B" using True by (simp add: q_def nu_payload_def)
      then have "(q + i) mod B = i mod B" by (metis mod_mult_self3)
      with True \<open>i < B\<close> show ?thesis by (simp add: start_def)
    next
      case False
      assume "i < n"
      with False have "p mod B + (4 + i) < B" by simp
      from nu_mod_near [OF this] False show ?thesis by (simp add: start_def q_def nu_payload_def add.assoc)
    qed
  qed
  define hdr where "hdr = le32 (of_nat n)"
  have "p mod B + length hdr \<le> length (nu_buffer s)" using h4 B by (simp add: hdr_def)
  then obtain buf1 where b1: "nu_put (nu_buffer s) (p mod B) hdr = Some buf1" by (auto simp: nu_put_def)
  have nth1: "length buf1 = B" "j < B \<Longrightarrow> buf1 ! j = (if p mod B \<le> j \<and> j < p mod B + 4 then hdr ! (j - p mod B) else nu_buffer s ! j)" for j
    using nu_put_nth [OF b1, of j] nu_put_nth(1) [OF b1, of 0] B by (simp_all add: hdr_def)
  have "start + length m \<le> length buf1" using room nth1(1) by (simp add: n_def)
  then obtain buf2 where b2: "nu_put buf1 start m = Some buf2" by (auto simp: nu_put_def)
  have nth2: "length buf2 = B" "j < B \<Longrightarrow> buf2 ! j = (if start \<le> j \<and> j < start + n then m ! (j - start) else buf1 ! j)" for j
    using nu_put_nth [OF b2, of j] nu_put_nth(1) [OF b2, of 0] B nth1(1) by (simp_all add: n_def)
  note np = nu_position [OF g, of "nu_writer_pos s" "of_nat n" n]
    and nw = nu_wrap_test(2) [OF g, of "nu_writer_pos s" "of_nat n" n]
  define pos' where "pos' = (if (nu_writer_pos s AND (nu_size s - 1)) + of_nat n + 4 > nu_size s
    then (nu_writer_pos s div nu_size s + 1) * nu_size s + of_nat n else nu_writer_pos s + 4 + of_nat n)"
  define s' where "s' = s\<lparr>nu_buffer := buf2, nu_writer_pos := pos'\<rparr>"
  have pos': "unat pos' = q + n"
    unfolding pos'_def q_def B_def using np pos fit(1) nB un by (simp add: B_def)
  have st: "unat (if (nu_writer_pos s AND (nu_size s - 1)) + of_nat n + 4 > nu_size s then 0
      else (nu_writer_pos s AND (nu_size s - 1)) + 4) = start"
    unfolding start_def B_def using nw pos fit(1) nB un by (simp add: B_def)
  have "ucast (of_nat n :: u64) = (of_nat n :: u32)" by (metis of_nat_unat un)
  then have "nu_write_size (ucast (of_nat n :: u64)) (nu_writer_pos s AND (nu_size s - 1)) (nu_buffer s) = Some buf1"
    using b1 nu_geom_size(2) [OF g, of "nu_writer_pos s"] pos(1) by (simp add: nu_write_size_def hdr_def B_def)
  then have "nu_serialize m (of_nat n) s = Some s'"
    unfolding nu_serialize_def Let_def by (simp add: st b2 s'_def pos'_def del: of_nat_add)
  moreover have "nu_geom b s'" using g nth2(1) by (simp add: s'_def nu_geom_def B_def)
  moreover have "unat (nu_writer_pos s') = q + n" using pos' by (simp add: s'_def)
  moreover have "nu_holds B buf2 p [m] (q + n)"
  proof -
    have "buf2 ! ((p + i) mod B) = hdr ! i" if "i < 4" for i
    proof -
      have e: "(p + i) mod B = p mod B + i" "p mod B + i < B" using that h4 by (auto intro: nu_mod_near)
      then have "\<not> (start \<le> p mod B + i \<and> p mod B + i < start + n)" using below that by linarith
      then have "buf2 ! (p mod B + i) = buf1 ! (p mod B + i)" using nth2(2) [OF e(2)] by (simp only: if_False)
      with e(1) nth1(2) [OF e(2)] that show ?thesis by simp
    qed
    moreover have "buf2 ! ((q + i) mod B) = m ! i" if "i < n" for i
      using qs [OF that] that room nth2 by simp
    moreover have "q mod B + n \<le> B"
      using qs [of 0] room nB by (cases "n = 0") (simp_all add: B(1) less_imp_le)
    ultimately show ?thesis using h4 by (simp add: Let_def q_def n_def hdr_def)
  qed
  moreover have "buf2 ! (a mod B) = nu_buffer s ! (a mod B)" if a: "a < p" "q + n \<le> a + B" for a
  proof -
    have aB: "a mod B < B" using B(1) by simp
    have "\<not> (p mod B \<le> a mod B \<and> a mod B < p mod B + 4)"
    proof
      assume h: "p mod B \<le> a mod B \<and> a mod B < p mod B + 4"
      define i where "i = a mod B - p mod B"
      have i: "a mod B = p mod B + i" "i < 4" using h unfolding i_def by linarith+
      then have "a mod B = (p + i) mod B" using nu_mod_near [of p B i] aB by simp
      then show False using mod_eq_near [of a B "p + i"] a i(2) p4 by simp
    qed
    moreover have "\<not> (start \<le> a mod B \<and> a mod B < start + n)"
    proof
      assume h: "start \<le> a mod B \<and> a mod B < start + n"
      define i where "i = a mod B - start"
      have i: "a mod B = start + i" "i < n" using h unfolding i_def by linarith+
      then have "a mod B = (q + i) mod B" using qs by simp
      then show False using mod_eq_near [of a B "q + i"] a i(2) p4 by simp
    qed
    ultimately show ?thesis using nth1(2) [OF aB] nth2(2) [OF aB] by (simp only: if_False)
  qed
  ultimately show ?thesis
    using that by (simp add: B_def n_def q_def s'_def)
qed

text \<open>Where an access of \<open>seirialize\<close> leaves the array.\<close>

lemma nu_put_none: "nu_put buf k bs = None \<longleftrightarrow> length buf < k + length bs"
  by (auto simp: nu_put_def)

lemma nu_write_size_none:
  assumes "nu_geom b s"
  shows "nu_write_size sz (pos AND (nu_size s - 1)) (nu_buffer s) = None \<longleftrightarrow> 2 ^ b < unat pos mod 2 ^ b + 4"
  using nu_geom_size(2) [OF assms, of pos] assms by (simp add: nu_write_size_def nu_put_none nu_geom_def)

lemma nu_serialize_none:
  assumes g: "nu_geom b s" and m: "length m \<le> 2 ^ b"
  shows "nu_serialize m (of_nat (length m)) s = None \<longleftrightarrow> 2 ^ b < unat (nu_writer_pos s) mod 2 ^ b + 4"
proof (cases "2 ^ b < unat (nu_writer_pos s) mod 2 ^ b + 4")
  case True
  then have "nu_write_size (ucast (of_nat (length m) :: u64)) (nu_writer_pos s AND (nu_size s - 1)) (nu_buffer s) = None"
    by (simp only: nu_write_size_none [OF g])
  with True show ?thesis by (simp only: nu_serialize_def Let_def option.case simp_thms)
next
  case False
  let ?wp = "nu_writer_pos s AND (nu_size s - 1)"
  obtain buf where buf: "nu_write_size (ucast (of_nat (length m) :: u64)) ?wp (nu_buffer s) = Some buf"
    using False nu_write_size_none [OF g] by (metis option.exhaust)
  then have len: "length buf = 2 ^ b"
    using g by (auto simp: nu_write_size_def nu_put_def nu_geom_def split: if_splits)
  have un: "unat (of_nat (length m) :: u64) = length m"
    using m nu_geom_size(3) [OF g] by (intro unat_of_nat_64) simp
  have "unat (nu_writer_pos s) mod 2 ^ b + 4 \<le> 2 ^ b" using False by simp
  note st = nu_wrap_test(2) [OF g this un m]
  have "nu_put buf (unat (if ?wp + of_nat (length m) + 4 > nu_size s then 0 else ?wp + 4)) m \<noteq> None"
    unfolding st nu_put_none len using m by simp
  with buf False show ?thesis by (auto simp: nu_serialize_def Let_def)
qed

lemma nu_short_end:
  assumes g: "nu_geom b s" and s: "nu_writer_pos s = 0" and b: "3 \<le> b" "b < 32" and m: "length m \<le> 2 ^ b"
  shows "nu_serialize_all [replicate (2 ^ b - 7) x] s \<noteq> None
    \<and> nu_serialize_all [replicate (2 ^ b - 7) x, m] s = None"
proof -
  let ?m = "replicate (2 ^ b - 7) x"
  have B: "(8::nat) \<le> 2 ^ b" "(2::nat) ^ b < 2 ^ 32"
    using power_increasing [of 3 b "2::nat"] b power_strict_increasing [of b 32 "2::nat"] by simp_all
  have pl: "nu_payload (2 ^ b) 0 (length ?m) + length ?m = 2 ^ b - 3" using B by (simp add: nu_payload_def)
  obtain t where t: "nu_serialize ?m (of_nat (length ?m)) s = Some t" "nu_geom b t"
    "unat (nu_writer_pos t) = 2 ^ b - 3"
  proof (rule nu_serialize_ok [OF g, of 0 ?m])
    show "unat (nu_writer_pos s) = 0" "0 + 4 * 2 ^ b < (2::nat) ^ 64" "0 mod 2 ^ b + 4 \<le> (2::nat) ^ b"
      "nu_payload (2 ^ b) 0 (length ?m) + length ?m \<le> 0 + 2 ^ b" "length ?m < 2 ^ 32"
      using s B pl by simp_all
  qed (use pl that in simp)
  have "(2 ^ b - 3) mod 2 ^ b = (2 ^ b - 3 :: nat)" by (rule mod_less) simp
  then have "nu_serialize m (of_nat (length m)) t = None"
    using nu_serialize_none [OF t(2) m] t(3) B by simp
  with t(1) show ?thesis by simp
qed

lemma nu_get_at:
  assumes "k < B \<or> n = 0" "k + n \<le> B" "length buf = B" "length m = n"
    and "\<And>i. i < n \<Longrightarrow> buf ! ((q + i) mod B) = m ! i" "n \<noteq> 0 \<Longrightarrow> q mod B = k"
  shows "nu_get buf k n = Some m"
proof (rule nu_get_nth)
  fix i assume i: "i < n"
  then have "(q + i) mod B = k + i" using assms(1,2,6) nu_mod_near [of q B i] by simp
  with assms(5) [OF i] show "buf ! (k + i) = m ! i" by simp
qed (use assms in simp_all)

lemma nu_deserialize_ok:
  assumes g: "nu_geom b s" and l: "unat local = p" "p + 4 * 2 ^ b < 2 ^ 64"
    and h: "nu_holds (2 ^ b) (nu_buffer s) p (m # ms) w" and w: "unat (nu_writer_pos s) = w"
    and m: "length m < 2 ^ 32" "length m \<le> 2 ^ b"
  obtains local' where "nu_try_deserialize s local = Some (Some m, local')"
    and "unat local' = nu_payload (2 ^ b) p (length m) + length m"
proof -
  define B :: nat where "B = 2 ^ b"
  define n where "n = length m"
  define q where "q = nu_payload B p n"
  have B: "0 < B" "length (nu_buffer s) = B" using g by (simp_all add: B_def nu_geom_def)
  have hd: "p mod B + 4 \<le> B" "q mod B + n \<le> B"
    and bytes: "\<And>i. i < 4 \<Longrightarrow> nu_buffer s ! ((p + i) mod B) = le32 (of_nat n) ! i"
      "\<And>i. i < n \<Longrightarrow> nu_buffer s ! ((q + i) mod B) = m ! i"
    and rest: "nu_holds B (nu_buffer s) (q + n) ms w"
    using h by (auto simp: Let_def B_def n_def q_def)
  have "p + 4 \<le> q" using nu_payload_after [OF B(1) hd(1)] by (simp add: q_def)
  then have "p < w" using nu_holds_le [OF B(1) rest] by linarith
  then have ne: "nu_writer_pos s \<noteq> local" using w l(1) by auto
  have c: "unat (local AND (nu_size s - 1)) = p mod B" using nu_geom_size(2) [OF g, of local] l(1) by (simp add: B_def)
  have "nu_get (nu_buffer s) (p mod B) 4 = Some (le32 (of_nat n))"
    using B hd bytes(1) by (intro nu_get_at [where B = B and q = p]) simp_all
  then have rs: "nu_read_size (local AND (nu_size s - 1)) (nu_buffer s) = Some (of_nat n)"
    by (simp add: nu_read_size_def c un_le32_le32)
  have u32: "unat (of_nat n :: u32) = n" using m(1) by (intro unat_of_nat_32) (simp add: n_def)
  have u64: "ucast (of_nat n :: u32) = (of_nat n :: u64)" by (metis of_nat_unat u32)
  have un: "unat (of_nat n :: u64) = n" using m(1) by (intro unat_of_nat_64) (simp add: n_def)
  define wraps where "wraps \<longleftrightarrow> (local AND (nu_size s - 1)) + of_nat n + 4 > nu_size s"
  define start where "start = (if wraps then 0 else (local AND (nu_size s - 1)) + 4)"
  define local' where "local' = (if wraps then (local div nu_size s + 1) * nu_size s + of_nat n else local + 4 + of_nat n)"
  note np = nu_position [OF g, of local "of_nat n" n] nu_wrap_test [OF g, of local "of_nat n" n]
  have W: "wraps \<longleftrightarrow> p mod B + n + 4 > B" and L: "unat local' = q + n"
    and S: "unat start = (if p mod B + n + 4 > B then 0 else p mod B + 4)"
    unfolding wraps_def local'_def start_def q_def B_def
    using np l hd(1) un m(2) by (simp_all add: B_def n_def)
  have "nu_get (nu_buffer s) (unat start) n = Some m"
  proof (rule nu_get_at [where B = B and q = q])
    show "unat start < B \<or> n = 0" using S B(1) by auto
    show "unat start + n \<le> B" using S m(2) by (simp add: n_def B_def)
    show "length m = n" "length (nu_buffer s) = B" by (simp_all add: n_def B)
    show "i < n \<Longrightarrow> nu_buffer s ! ((q + i) mod B) = m ! i" for i by (rule bytes)
    show "q mod B = unat start" if n0: "n \<noteq> 0"
    proof (cases "p mod B + n + 4 > B")
      case True
      with S show ?thesis by (simp add: q_def nu_payload_def)
    next
      case False
      with n0 have "p mod B + 4 < B" by simp
      from nu_mod_near [OF this] False S show ?thesis by (simp add: q_def nu_payload_def)
    qed
  qed
  then have "nu_get (nu_buffer s) (unat start) (unat (of_nat n :: u32)) = Some m" by (simp only: u32)
  moreover have "local + (4 + of_nat n) = local + 4 + of_nat n"
    "of_nat n + (local AND (nu_size s - 1)) + 4 = (local AND (nu_size s - 1)) + of_nat n + 4"
    by (simp_all add: ac_simps)
  ultimately have "nu_try_deserialize s local = Some (Some m, local')"
    unfolding nu_try_deserialize_def Let_def rs option.case u64
    using ne by (simp only: if_False wraps_def [symmetric] start_def [symmetric] local'_def [symmetric]
        option.case)
  with L that show ?thesis by (simp add: q_def B_def n_def)
qed


section \<open>Many messages\<close>

lemma nu_end_le: "0 < B \<Longrightarrow> nu_fits B p ms \<Longrightarrow> p \<le> nu_end B p ms"
proof (induction ms arbitrary: p)
  case (Cons m ms)
  then have "p mod B + 4 \<le> B" "nu_payload B p (length m) + length m \<le> nu_end B p (m # ms)" by auto
  with nu_payload_after [OF Cons.prems(1), of p "length m"] show ?case by linarith
qed simp

lemma nu_write_batch:
  assumes "nu_geom b s" "unat (nu_writer_pos s) = p" "nu_fits (2 ^ b) p ms"
    and "p0 \<le> p" "nu_end (2 ^ b) p ms \<le> p0 + 2 ^ b" "p0 + 5 * 2 ^ b < 2 ^ 64"
    and "\<forall>m \<in> set ms. length m < 2 ^ 32"
    and "nu_holds (2 ^ b) (nu_buffer s) p0 ms0 p"
  shows "\<exists>s'. nu_serialize_all ms s = Some s' \<and> nu_geom b s'
    \<and> unat (nu_writer_pos s') = nu_end (2 ^ b) p ms
    \<and> nu_holds (2 ^ b) (nu_buffer s') p0 (ms0 @ ms) (nu_end (2 ^ b) p ms)"
  using assms
proof (induction ms arbitrary: s p ms0)
  case (Cons m ms)
  let ?B = "2 ^ b :: nat" and ?w = "nu_payload (2 ^ b) p (length m) + length m"
  have B: "0 < ?B" by simp
  have fits: "p mod ?B + 4 \<le> ?B" "nu_fits ?B ?w ms" and m: "length m < 2 ^ 32" using Cons.prems(3,7) by auto
  have "?w \<le> nu_end ?B p (m # ms)" using nu_end_le [OF B fits(2)] by simp
  then have w: "?w \<le> p0 + ?B" using Cons.prems(5) by linarith
  have pw: "p + 4 \<le> nu_payload ?B p (length m)" by (rule nu_payload_after [OF B fits(1)])
  have small: "p + 4 * ?B < 2 ^ 64" "?w \<le> p + ?B" "p0 \<le> ?w" using w pw Cons.prems(4,6) by linarith+
  obtain s1 where s1: "nu_serialize m (of_nat (length m)) s = Some s1" "nu_geom b s1"
    "unat (nu_writer_pos s1) = ?w" "nu_holds ?B (nu_buffer s1) p [m] ?w"
    and frame: "\<And>a. a < p \<Longrightarrow> ?w \<le> a + ?B \<Longrightarrow> nu_buffer s1 ! (a mod ?B) = nu_buffer s ! (a mod ?B)"
  proof (rule nu_serialize_ok [OF Cons.prems(1,2) small(1) fits(1) small(2) m])
    fix t assume t: "nu_serialize m (of_nat (length m)) s = Some t" "nu_geom b t"
      "unat (nu_writer_pos t) = ?w" "nu_holds ?B (nu_buffer t) p [m] ?w"
      "\<And>a. a < p \<Longrightarrow> ?w \<le> a + ?B \<Longrightarrow> nu_buffer t ! (a mod ?B) = nu_buffer s ! (a mod ?B)"
    show thesis by (rule that [OF t(1-4)]) (rule t(5))
  qed
  have "nu_holds ?B (nu_buffer s1) p0 ms0 p"
  proof (rule nu_holds_frame [OF B Cons.prems(8)])
    fix a assume a: "p0 \<le> a" "a < p"
    then have "?w \<le> a + ?B" using w by linarith
    with a(2) show "nu_buffer s1 ! (a mod ?B) = nu_buffer s ! (a mod ?B)" by (rule frame)
  qed
  then have h: "nu_holds ?B (nu_buffer s1) p0 (ms0 @ [m]) ?w"
    using s1(4) by (rule nu_holds_append)
  have "nu_end ?B ?w ms \<le> p0 + ?B" "\<forall>m \<in> set ms. length m < 2 ^ 32" using Cons.prems(5,7) by simp_all
  from Cons.IH [OF s1(2,3) fits(2) small(3) this(1) Cons.prems(6) this(2) h]
  show ?case unfolding nu_serialize_all.simps nu_end.simps s1(1) option.case by simp
qed simp

lemma nu_read_batch:
  assumes "nu_geom b s" "unat local = p" "nu_holds (2 ^ b) (nu_buffer s) p ms w"
    and "unat (nu_writer_pos s) = w" "w + 4 * 2 ^ b < 2 ^ 64"
    and "\<forall>m \<in> set ms. length m < 2 ^ 32 \<and> length m \<le> 2 ^ b"
  shows "nu_read_many (length ms) s local = Some (map Some ms, nu_writer_pos s)"
  using assms
proof (induction ms arbitrary: local p)
  case Nil
  then have "local = nu_writer_pos s" by (metis nu_holds.simps(1) word_unat_eq_iff)
  then show ?case by simp
next
  case (Cons m ms)
  have "p \<le> w" using nu_holds_le [OF _ Cons.prems(3)] by simp
  then have "p + 4 * 2 ^ b < 2 ^ 64" using Cons.prems(5) by linarith
  then obtain local' where l: "nu_try_deserialize s local = Some (Some m, local')"
    "unat local' = nu_payload (2 ^ b) p (length m) + length m"
    using nu_deserialize_ok [OF Cons.prems(1,2) _ Cons.prems(3,4)] Cons.prems(6) by auto
  have "nu_holds (2 ^ b) (nu_buffer s) (nu_payload (2 ^ b) p (length m) + length m) ms w"
    using Cons.prems(3) by (simp add: Let_def)
  from Cons.IH [OF Cons.prems(1) l(2) this Cons.prems(4,5)] Cons.prems(6) l(1) show ?case by simp
qed

lemma nu_holds_short: "0 < B \<Longrightarrow> nu_holds B buf p ms w \<Longrightarrow> \<forall>m \<in> set ms. length m \<le> B"
  by (induction ms arbitrary: p) (auto simp: Let_def)


section \<open>Properties\<close>

text \<open>C23. Round trip: messages written one after another, each with room for its 4-byte size
  before the end of the array and all together within one length of the ring (gaps at the end
  included), are written without an access outside the array; a consumer that stood where the writer
  began gets exactly these messages, byte for byte and in order, and then finds nothing more.\<close>

theorem spmc_non_uniform_roundtrip:
  assumes "length (nu_buffer s) = 2 ^ b" "b < 62" "unat (nu_writer_pos s) + 6 * 2 ^ b < 2 ^ 64"
    and "nu_fits (2 ^ b) (unat (nu_writer_pos s)) ms"
    and "nu_end (2 ^ b) (unat (nu_writer_pos s)) ms \<le> unat (nu_writer_pos s) + 2 ^ b"
    and "\<forall>m \<in> set ms. length m < 2 ^ 32"
  shows "\<exists>s'. nu_serialize_all ms s = Some s'
    \<and> nu_read_many (length ms) s' (nu_create_consumer s) = Some (map Some ms, nu_writer_pos s')
    \<and> nu_try_deserialize s' (nu_writer_pos s') = Some (None, nu_writer_pos s')"
proof -
  let ?p = "unat (nu_writer_pos s)"
  have g: "nu_geom b s" using assms(1,2) by (simp add: nu_geom_def)
  have "?p + 5 * 2 ^ b < 2 ^ 64" using assms(3) by linarith
  then obtain s' where s': "nu_serialize_all ms s = Some s'" "nu_geom b s'"
    "unat (nu_writer_pos s') = nu_end (2 ^ b) ?p ms" "nu_holds (2 ^ b) (nu_buffer s') ?p ms (nu_end (2 ^ b) ?p ms)"
    using nu_write_batch [OF g refl assms(4) order_refl assms(5) _ assms(6), of "[]"] by auto
  have "\<forall>m \<in> set ms. length m < 2 ^ 32 \<and> length m \<le> 2 ^ b"
    using assms(6) nu_holds_short [OF _ s'(4)] by simp
  moreover have "nu_end (2 ^ b) ?p ms + 4 * 2 ^ b < 2 ^ 64" using assms(3,5) by linarith
  ultimately have "nu_read_many (length ms) s' (nu_create_consumer s) = Some (map Some ms, nu_writer_pos s')"
    unfolding nu_create_consumer_def by (intro nu_read_batch [OF s'(2) refl s'(4,3)])
  with s'(1) show ?thesis by (simp add: nu_try_deserialize_def)
qed

theorem spmc_non_uniform_roundtrip_witness:
  "\<exists>s'. nu_serialize_all [[1, 2, 3], [4]] (nu_init (replicate 16 0)) = Some s'
    \<and> nu_read_many (length [[1, 2, 3 :: u8], [4]]) s' 0 = Some (map Some [[1, 2, 3], [4]], nu_writer_pos s')"
proof -
  let ?s = "nu_init (replicate 16 0)" and ?ms = "[[1, 2, 3 :: u8], [4]]"
  have "length (nu_buffer ?s) = 2 ^ 4" "(4::nat) < 62" "unat (nu_writer_pos ?s) + 6 * 2 ^ 4 < 2 ^ 64"
    "nu_fits (2 ^ 4) (unat (nu_writer_pos ?s)) ?ms"
    "nu_end (2 ^ 4) (unat (nu_writer_pos ?s)) ?ms \<le> unat (nu_writer_pos ?s) + 2 ^ 4"
    "\<forall>m \<in> set ?ms. length m < 2 ^ 32"
    by (simp_all add: nu_init_def nu_payload_def)
  from spmc_non_uniform_roundtrip [OF this] obtain s' where "nu_serialize_all ?ms ?s = Some s'"
    "nu_read_many (length ?ms) s' (nu_create_consumer ?s) = Some (map Some ?ms, nu_writer_pos s')" by blast
  moreover have "nu_create_consumer ?s = 0" by (simp add: nu_create_consumer_def nu_init_def)
  ultimately show ?thesis by (simp del: nu_serialize_all.simps nu_read_many.simps list.size list.map)
qed

text \<open>C40. A size that would cross the end of the array is stored there all the same. In a ring of
  \<open>2 ^ b\<close> bytes, at any position and for any message no longer than the ring, \<open>seirialize\<close> accesses
  bytes outside the array exactly when fewer than 4 bytes remain before the end; the access is then
  the store of the size, the wrap being considered only after it, and the store of the bytes never
  is. In a new ring of at least 8 bytes a first message that leaves 3 bytes, which fits, makes the
  next one, whatever it is, such a call.\<close>

theorem spmc_non_uniform_size_out_of_bounds:
  assumes "length (nu_buffer s) = 2 ^ b" "b < 62" "length m \<le> 2 ^ b"
  shows "(nu_serialize m (of_nat (length m)) s = None \<longleftrightarrow> 2 ^ b < unat (nu_writer_pos s) mod 2 ^ b + 4)
    \<and> (nu_write_size sz (nu_writer_pos s AND (nu_size s - 1)) (nu_buffer s) = None
        \<longleftrightarrow> 2 ^ b < unat (nu_writer_pos s) mod 2 ^ b + 4)
    \<and> (3 \<le> b \<and> b < 32 \<longrightarrow>
        nu_serialize_all [replicate (2 ^ b - 7) x] (nu_init (nu_buffer s)) \<noteq> None
        \<and> nu_serialize_all [replicate (2 ^ b - 7) x, m] (nu_init (nu_buffer s)) = None)"
proof -
  have g: "nu_geom b s" "nu_geom b (nu_init (nu_buffer s))"
    using assms(1,2) by (simp_all add: nu_geom_def nu_init_def)
  have "nu_serialize_all [replicate (2 ^ b - 7) x] (nu_init (nu_buffer s)) \<noteq> None
    \<and> nu_serialize_all [replicate (2 ^ b - 7) x, m] (nu_init (nu_buffer s)) = None" if b: "3 \<le> b" "b < 32"
    using nu_short_end [OF g(2) _ b assms(3)] by (simp add: nu_init_def)
  with nu_serialize_none [OF g(1) assms(3)] nu_write_size_none [OF g(1)] show ?thesis by simp
qed

text \<open>At position 13 of a ring of 16 bytes, and after a first message of 9 bytes.\<close>

theorem spmc_non_uniform_size_out_of_bounds_witness:
  "nu_serialize [1] 1 \<lparr>nu_writer_pos = 13, nu_buffer = replicate 16 0\<rparr> = None
    \<and> nu_serialize [1] 1 \<lparr>nu_writer_pos = 11, nu_buffer = replicate 16 0\<rparr> \<noteq> None
    \<and> nu_serialize_all [replicate 9 7, [1]] (nu_init (replicate 16 0)) = None"
  using spmc_non_uniform_size_out_of_bounds [of "\<lparr>nu_writer_pos = 13, nu_buffer = replicate 16 0\<rparr>" 4 "[1]" 0 7]
    spmc_non_uniform_size_out_of_bounds [of "\<lparr>nu_writer_pos = 11, nu_buffer = replicate 16 0\<rparr>" 4 "[1]" 0 7]
  by (simp del: nu_serialize_all.simps)

text \<open>The bytes of a wrapped message may reach its own size: in a ring of 16 bytes after a
  message of 4 bytes, a message of ten bytes 1 is stored over the size that was just written at
  position 8; a consumer that has read the first message then reads the size 257 and asks for
  bytes outside the array.\<close>

theorem spmc_non_uniform_wrap_clobbers_size:
  "\<exists>s'. nu_serialize_all [replicate 4 0, replicate 10 1] (nu_init (replicate 16 0)) = Some s'
    \<and> nu_read_size 8 (nu_buffer s') = Some 257
    \<and> nu_try_deserialize s' 8 = None"
  by (simp add: nu_serialize_def nu_init_def nu_size_def nu_write_size_def nu_put_def nu_get_def Let_def
      nu_try_deserialize_def nu_read_size_def le32_def un_le32_def replicate_two)

end
