(* ===== verification/Nu_Concurrent.thy ===== *)
theory Nu_Concurrent
  imports Spmc_Non_Uniform
begin

text \<open>
  \<open>spmc_bounded_non_uniform_queue\<close> with its writer and its consumers running at once, access by
  access: thread 0 calls \<open>seirialize\<close>, every other thread creates a \<open>consumer\<close> and calls
  \<open>try_deserialize\<close>. A size and a message are stored and read byte by byte; an access outside the
  array is \<open>NwOob\<close> or \<open>NcOob\<close>. The callback of \<open>seirialize\<close> stores exactly \<open>size\<close> bytes
  (the comment of the code also allows it fewer: what the rest of the message then holds is not said).

  \<open>nc_log\<close> records the messages published and \<open>nc_got\<close> those each consumer was given;
  \<open>nc_from\<close> is the number of messages published when it was created and \<open>nc_at\<close> the position
  of the first byte it may still read. The code has no check for a full ring: \<open>nc_ok\<close> says that so
  far every message, when its \<open>seirialize\<close> began, had room (\<open>nc_room\<close>).
\<close>

record nc_state =
  nc_queue :: nu_state
  nc_log :: "u8 list list"
  nc_from :: "nat \<Rightarrow> nat"
  nc_got :: "nat \<Rightarrow> u8 list list"
  nc_at :: "nat \<Rightarrow> nat option"
  nc_ok :: bool

datatype nc_pc =
  NwIdle
| NwLoad "u8 list"               \<comment> \<open>seirialize: before \<open>m_writer_pos.load\<close>\<close>
| NwSize u64 nat "u8 list"       \<comment> \<open>write_size: \<open>write_pos_absolute\<close>, the next byte of the size\<close>
| NwBytes u64 nat "u8 list"      \<comment> \<open>in the callback: the next byte of the message\<close>
| NwPublish u64 "u8 list"        \<comment> \<open>before \<open>m_writer_pos.store\<close>\<close>
| NwOob
| NcNone
| NcNew                          \<comment> \<open>consumer::consumer: before \<open>m_writer_pos.load\<close>\<close>
| NcIdle u64                     \<comment> \<open>a consumer with its \<open>m_local_read_position\<close>\<close>
| NcLoad u64                     \<comment> \<open>try_deserialize: before \<open>m_writer_pos.load\<close>\<close>
| NcSize u64 "u8 list"           \<comment> \<open>read_size: the bytes read so far\<close>
| NcBytes u64 u64 u32 "u8 list"  \<comment> \<open>in the callback: new position, where the message begins, size, bytes read\<close>
| NcRet u64 "u8 list option"     \<comment> \<open>returns, with what the callback was given\<close>
| NcOob

definition nc_start :: "nat \<Rightarrow> nat \<Rightarrow> (nc_state, nc_pc) system \<Rightarrow> bool" where
  "nc_start b n t \<longleftrightarrow> b < 62 \<and> (\<exists>buf. length buf = 2 ^ b
       \<and> fst t = \<lparr>nc_queue = nu_init buf, nc_log = [], nc_from = (\<lambda>i. 0), nc_got = (\<lambda>i. []), nc_at = Map.empty, nc_ok = True\<rparr>)
     \<and> 0 < n \<and> length (snd t) = n \<and> snd t ! 0 = NwIdle \<and> (\<forall>i < n. 0 < i \<longrightarrow> snd t ! i = NcNone)"

text \<open>The comparison of both functions, where the message begins and the position after it.\<close>

definition nu_wraps :: "nu_state \<Rightarrow> u64 \<Rightarrow> u64 \<Rightarrow> bool" where
  "nu_wraps q absolute sz \<longleftrightarrow> (absolute AND (nu_size q - 1)) + sz + 4 > nu_size q"

definition nu_begin :: "nu_state \<Rightarrow> u64 \<Rightarrow> u64 \<Rightarrow> u64" where
  "nu_begin q absolute sz = (if nu_wraps q absolute sz then 0 else (absolute AND (nu_size q - 1)) + 4)"

definition nu_after :: "nu_state \<Rightarrow> u64 \<Rightarrow> u64 \<Rightarrow> u64" where
  "nu_after q absolute sz =
     (if nu_wraps q absolute sz then (absolute div nu_size q + 1) * nu_size q + sz else absolute + 4 + sz)"

text \<open>There is room for a message: its size lies before the end of the array, and it does not
  reach, once around the ring, what one of the first \<open>n\<close> threads may still read.\<close>

definition nc_room :: "nat \<Rightarrow> u8 list \<Rightarrow> nc_state \<Rightarrow> bool" where
  "nc_room n m s \<longleftrightarrow>
     (let B = length (nu_buffer (nc_queue s)); p = unat (nu_writer_pos (nc_queue s));
          e = nu_payload B p (length m) + length m
      in p mod B + 4 \<le> B \<and> length m < 2 ^ 32 \<and> p + 4 * B < 2 ^ 64 \<and> e \<le> p + B
         \<and> (\<forall>i < n. case nc_at s i of None \<Rightarrow> True | Some a \<Rightarrow> e \<le> a + B))"

definition nu_store :: "nat \<Rightarrow> u8 \<Rightarrow> nc_state \<Rightarrow> nc_state" where
  "nu_store k x s = s\<lparr>nc_queue := (nc_queue s)\<lparr>nu_buffer := (nu_buffer (nc_queue s))[k := x]\<rparr>\<rparr>"

fun nc_serialize :: "nat \<Rightarrow> nc_pc \<Rightarrow> nc_state \<Rightarrow> (nc_pc \<times> nc_state) list" where
  "nc_serialize n (NwLoad m) s =
     [(NwSize (nu_writer_pos (nc_queue s)) 0 m, s\<lparr>nc_ok := nc_ok s \<and> nc_room n m s\<rparr>)]"
| "nc_serialize n (NwSize absolute j m) s =
     (let k = unat (absolute AND (nu_size (nc_queue s) - 1)) + j
      in if j = 4 then [(NwBytes absolute 0 m, s)]
         else if k < length (nu_buffer (nc_queue s))
         then [(NwSize absolute (Suc j) m, nu_store k (le32 (of_nat (length m)) ! j) s)] else [(NwOob, s)])"
| "nc_serialize n (NwBytes absolute j m) s =
     (let k = unat (nu_begin (nc_queue s) absolute (of_nat (length m))) + j
      in if j = length m then [(NwPublish absolute m, s)]
         else if k < length (nu_buffer (nc_queue s))
         then [(NwBytes absolute (Suc j) m, nu_store k (m ! j) s)] else [(NwOob, s)])"
| "nc_serialize n (NwPublish absolute m) s =
     [(NwIdle, s\<lparr>nc_queue := (nc_queue s)\<lparr>nu_writer_pos := nu_after (nc_queue s) absolute (of_nat (length m))\<rparr>,
        nc_log := nc_log s @ [m]\<rparr>)]"
| "nc_serialize n p s = []"

fun nc_deserialize :: "nat \<Rightarrow> nc_pc \<Rightarrow> nc_state \<Rightarrow> (nc_pc \<times> nc_state) list" where
  "nc_deserialize i NcNew s =
     [(NcIdle (nu_writer_pos (nc_queue s)), s\<lparr>nc_at := (nc_at s)(i \<mapsto> unat (nu_writer_pos (nc_queue s))),
        nc_from := (nc_from s)(i := length (nc_log s))\<rparr>)]"
| "nc_deserialize i (NcLoad l) s =
     [(if nu_writer_pos (nc_queue s) = l then NcRet l None else NcSize l [], s)]"
| "nc_deserialize i (NcSize l bs) s =
     (let k = unat (l AND (nu_size (nc_queue s) - 1)) + length bs; sz = un_le32 bs
      in if length bs = 4
         then [(NcBytes (nu_after (nc_queue s) l (ucast sz)) (nu_begin (nc_queue s) l (ucast sz)) sz [], s)]
         else if k < length (nu_buffer (nc_queue s)) then [(NcSize l (bs @ [nu_buffer (nc_queue s) ! k]), s)]
         else [(NcOob, s)])"
| "nc_deserialize i (NcBytes l start sz bs) s =
     (let k = unat start + length bs
      in if length bs = unat sz
         then [(NcRet l (Some bs), s\<lparr>nc_at := (nc_at s)(i \<mapsto> unat l), nc_got := (nc_got s)(i := nc_got s i @ [bs])\<rparr>)]
         else if k < length (nu_buffer (nc_queue s)) then [(NcBytes l start sz (bs @ [nu_buffer (nc_queue s) ! k]), s)]
         else [(NcOob, s)])"
| "nc_deserialize i p s = []"

definition nc_step :: "nat \<Rightarrow> u8 list list \<Rightarrow> (nc_state, nc_pc) thread_step" where
  "nc_step n msgs i p s =
     (if i = 0 then (if p = NwIdle then map (\<lambda>m. (NwLoad m, s)) msgs else nc_serialize n p s)
      else case p of
        NcNone \<Rightarrow> [(NcNew, s)]
      | NcIdle l \<Rightarrow> [(NcLoad l, s)]
      | NcRet l r \<Rightarrow> [(NcIdle l, s)]
      | _ \<Rightarrow> nc_deserialize i p s)"


section \<open>The invariant\<close>

text \<open>Where the \<open>k\<close>-th message begins, and what is known of the bytes.\<close>

definition nc_pos :: "nat \<Rightarrow> nc_state \<Rightarrow> nat \<Rightarrow> nat" where
  "nc_pos b s k = nu_end (2 ^ b) 0 (take k (nc_log s))"

definition nc_next :: "nc_state \<Rightarrow> nat \<Rightarrow> nat" where
  "nc_next s i = nc_from s i + length (nc_got s i)"

definition nc_shared :: "nat \<Rightarrow> nc_state \<Rightarrow> bool" where
  "nc_shared b s \<longleftrightarrow> nu_geom b (nc_queue s) \<and> unat (nu_writer_pos (nc_queue s)) = nc_pos b s (length (nc_log s))
     \<and> (\<forall>k < length (nc_log s). length (nc_log s ! k) < 2 ^ 32 \<and> nc_pos b s k + 4 * 2 ^ b < 2 ^ 64)"

definition nc_reader :: "nat \<Rightarrow> nc_state \<Rightarrow> nat \<Rightarrow> bool" where
  "nc_reader b s i \<longleftrightarrow> nc_next s i \<le> length (nc_log s) \<and> nc_at s i = Some (nc_pos b s (nc_next s i))
     \<and> nc_got s i = take (length (nc_got s i)) (drop (nc_from s i) (nc_log s))
     \<and> nu_holds (2 ^ b) (nu_buffer (nc_queue s)) (nc_pos b s (nc_next s i)) (drop (nc_next s i) (nc_log s))
         (unat (nu_writer_pos (nc_queue s)))"

fun nc_reader_pc :: "nat \<Rightarrow> nc_state \<Rightarrow> nat \<Rightarrow> nc_pc \<Rightarrow> bool" where
  "nc_reader_pc b s i NcNone = (nc_at s i = None \<and> nc_got s i = [])"
| "nc_reader_pc b s i NcNew = (nc_at s i = None \<and> nc_got s i = [])"
| "nc_reader_pc b s i (NcIdle l) = (nc_reader b s i \<and> nc_at s i = Some (unat l))"
| "nc_reader_pc b s i (NcLoad l) = (nc_reader b s i \<and> nc_at s i = Some (unat l))"
| "nc_reader_pc b s i (NcRet l r) = (nc_reader b s i \<and> nc_at s i = Some (unat l))"
| "nc_reader_pc b s i (NcSize l bs) =
     (nc_reader b s i \<and> nc_at s i = Some (unat l) \<and> nc_next s i < length (nc_log s) \<and> length bs \<le> 4
      \<and> bs = take (length bs) (le32 (of_nat (length (nc_log s ! nc_next s i)))))"
| "nc_reader_pc b s i (NcBytes l start sz bs) =
     (nc_reader b s i \<and> nc_next s i < length (nc_log s)
      \<and> (let m = nc_log s ! nc_next s i; p = nc_pos b s (nc_next s i)
         in unat sz = length m \<and> unat l = nu_payload (2 ^ b) p (length m) + length m
            \<and> unat start = (if p mod 2 ^ b + length m + 4 > 2 ^ b then 0 else p mod 2 ^ b + 4)
            \<and> length bs \<le> length m \<and> bs = take (length bs) m))"
| "nc_reader_pc b s i p = False"

fun nc_writer_pc :: "nat \<Rightarrow> nat \<Rightarrow> nc_state \<Rightarrow> nc_pc \<Rightarrow> bool" where
  "nc_writer_pc b n s NwIdle = True"
| "nc_writer_pc b n s (NwLoad m) = True"
| "nc_writer_pc b n s (NwSize absolute j m) =
     (absolute = nu_writer_pos (nc_queue s) \<and> nc_room n m s \<and> j \<le> 4
      \<and> (\<forall>i < j. nu_buffer (nc_queue s) ! ((unat absolute + i) mod 2 ^ b) = le32 (of_nat (length m)) ! i))"
| "nc_writer_pc b n s (NwBytes absolute j m) =
     (absolute = nu_writer_pos (nc_queue s) \<and> nc_room n m s \<and> j \<le> length m
      \<and> (\<forall>i < 4. nu_buffer (nc_queue s) ! ((unat absolute + i) mod 2 ^ b) = le32 (of_nat (length m)) ! i)
      \<and> (\<forall>i < j. nu_buffer (nc_queue s) ! ((nu_payload (2 ^ b) (unat absolute) (length m) + i) mod 2 ^ b) = m ! i))"
| "nc_writer_pc b n s (NwPublish absolute m) =
     (absolute = nu_writer_pos (nc_queue s) \<and> nc_room n m s
      \<and> nu_holds (2 ^ b) (nu_buffer (nc_queue s)) (unat absolute) [m]
          (nu_payload (2 ^ b) (unat absolute) (length m) + length m))"
| "nc_writer_pc b n s p = False"

definition nc_good :: "nat \<Rightarrow> nat \<Rightarrow> nc_state \<Rightarrow> nc_pc list \<Rightarrow> bool" where
  "nc_good b n s ps \<longleftrightarrow> 0 < n \<and> length ps = n \<and> nc_shared b s \<and> nc_at s 0 = None \<and> nc_writer_pc b n s (ps ! 0)
     \<and> (\<forall>i < n. 0 < i \<longrightarrow> nc_reader_pc b s i (ps ! i))"

definition nc_inv :: "nat \<Rightarrow> nat \<Rightarrow> nc_state \<Rightarrow> nc_pc list \<Rightarrow> bool" where
  [inv_defs]: "nc_inv b n s ps \<longleftrightarrow> (nc_ok s \<longrightarrow> nc_good b n s ps)"


lemma nu_after_nat:
  assumes "nu_geom b q" "unat pos + 4 * 2 ^ b < 2 ^ 64" "unat pos mod 2 ^ b + 4 \<le> 2 ^ b" "unat sz = n" "n \<le> 2 ^ b"
  shows "unat (nu_after q pos sz) = nu_payload (2 ^ b) (unat pos) n + n"
    and "unat (nu_begin q pos sz) = (if unat pos mod 2 ^ b + n + 4 > 2 ^ b then 0 else unat pos mod 2 ^ b + 4)"
  using nu_position [OF assms] nu_wrap_test(2) [OF assms(1,3-5)] unfolding nu_after_def nu_begin_def nu_wraps_def by simp_all

text \<open>The bytes of a message that starts at \<open>p\<close>: where they are in the array.\<close>

lemma nu_bytes_at:
  assumes B: "0 < B" "p mod B + 4 \<le> B" "n \<le> B"
  defines "start \<equiv> (if p mod B + n + 4 > B then 0 else p mod B + 4)"
  shows "start + n \<le> B" and "i < n \<Longrightarrow> (nu_payload B p n + i) mod B = start + i"
proof -
  show "start + n \<le> B" using B(3) by (simp add: start_def)
  assume i: "i < n"
  show "(nu_payload B p n + i) mod B = start + i"
  proof (cases "p mod B + n + 4 > B")
    case True
    have "nu_payload B p n = (p div B + 1) * B" using True by (simp add: nu_payload_def)
    then have "(nu_payload B p n + i) mod B = i mod B" by (metis mod_mult_self3)
    with True i B(3) show ?thesis by (simp add: start_def)
  next
    case False
    with i have "p mod B + (4 + i) < B" by simp
    from nu_mod_near [OF this] False show ?thesis by (simp add: start_def nu_payload_def add.assoc)
  qed
qed

text \<open>A store at position \<open>x\<close>, at least \<open>w\<close> and once around the ring not up to \<open>a\<close>, leaves
  what lies between \<open>a\<close> and \<open>w\<close>.\<close>

lemma nu_store_frame:
  assumes "0 < B" "nu_holds B buf a ms w" "w \<le> x" "x < a + B"
  shows "nu_holds B (buf[x mod B := v]) a ms w"
proof (rule nu_holds_frame [OF assms(1,2)])
  fix y assume y: "a \<le> y" "y < w"
  then have "x mod B \<noteq> y mod B" using mod_eq_near [of y B x] assms(3,4) by auto
  then show "buf[x mod B := v] ! (y mod B) = buf ! (y mod B)" by simp
qed

lemma nc_pos_append: "nc_log s' = nc_log s @ ms \<Longrightarrow> k \<le> length (nc_log s) \<Longrightarrow> nc_pos b s' k = nc_pos b s k"
  by (simp add: nc_pos_def)

lemma nc_reader_pc_keeps:
  assumes "nc_reader_pc b s i p" "nc_log s' = nc_log s @ ms"
    and "nc_at s' i = nc_at s i" "nc_got s' i = nc_got s i" "nc_from s' i = nc_from s i"
    and "nc_reader b s i \<Longrightarrow> nc_reader b s' i"
  shows "nc_reader_pc b s' i p"
proof -
  have n: "nc_next s' i = nc_next s i" using assms(4,5) by (simp add: nc_next_def)
  show ?thesis
    using assms n nc_pos_append [OF assms(2), of "nc_next s i" b]
    by (cases p) (simp_all add: nth_append Let_def split del: if_split)
qed

lemma nc_writer_pc_keeps:
  assumes "nc_writer_pc b n s p" "nc_queue s' = nc_queue s"
    and "\<And>i a. i < n \<Longrightarrow> nc_at s' i = Some a \<Longrightarrow> nc_at s i = Some a
      \<or> (\<exists>a'. nc_at s i = Some a' \<and> a' \<le> a) \<or> unat (nu_writer_pos (nc_queue s)) \<le> a"
  shows "nc_writer_pc b n s' p"
proof -
  have "nc_room n m s'" if "nc_room n m s" for m
    using that assms(3) unfolding nc_room_def assms(2) Let_def
    by (auto split: option.splits) (smt (verit) add_le_mono1 le_trans option.inject)+
  with assms(1,2) show ?thesis by (cases p) auto
qed


section \<open>The writer's steps\<close>

lemma nc_sharedD:
  assumes "nc_shared b s"
  shows "nu_geom b (nc_queue s)" "length (nu_buffer (nc_queue s)) = 2 ^ b"
    and "unat (nu_writer_pos (nc_queue s)) = nc_pos b s (length (nc_log s))"
    and "k < length (nc_log s) \<Longrightarrow> length (nc_log s ! k) < 2 ^ 32"
    and "k < length (nc_log s) \<Longrightarrow> nc_pos b s k + 4 * 2 ^ b < 2 ^ 64"
  using assms by (auto simp: nc_shared_def nu_geom_def)

lemma nc_roomD:
  assumes "nc_room n m s" "nc_shared b s"
  defines "p \<equiv> unat (nu_writer_pos (nc_queue s))"
  shows "p mod 2 ^ b + 4 \<le> 2 ^ b" "length m < 2 ^ 32" "p + 4 * 2 ^ b < 2 ^ 64"
    and "nu_payload (2 ^ b) p (length m) + length m \<le> p + 2 ^ b"
    and "i < n \<Longrightarrow> nc_at s i = Some a \<Longrightarrow> nu_payload (2 ^ b) p (length m) + length m \<le> a + 2 ^ b"
    and "p + 4 \<le> nu_payload (2 ^ b) p (length m)" "length m \<le> 2 ^ b"
proof -
  note len = nc_sharedD(2) [OF assms(2)]
  show r: "p mod 2 ^ b + 4 \<le> 2 ^ b" "length m < 2 ^ 32" "p + 4 * 2 ^ b < 2 ^ 64"
    "nu_payload (2 ^ b) p (length m) + length m \<le> p + 2 ^ b"
    "i < n \<Longrightarrow> nc_at s i = Some a \<Longrightarrow> nu_payload (2 ^ b) p (length m) + length m \<le> a + 2 ^ b"
    using assms(1) unfolding nc_room_def Let_def len p_def by (auto split: option.splits)
  show "p + 4 \<le> nu_payload (2 ^ b) p (length m)" by (rule nu_payload_after [OF _ r(1)]) simp
  with r(4) show "length m \<le> 2 ^ b" by linarith
qed

text \<open>A byte stored at a position of the message under way changes nothing that a reader may see.\<close>

lemma nc_store_keeps:
  fixes v :: u8
  assumes sh: "nc_shared b s" and room: "nc_room n m s"
    and x: "unat (nu_writer_pos (nc_queue s)) \<le> x"
      "x < nu_payload (2 ^ b) (unat (nu_writer_pos (nc_queue s))) (length m) + length m"
  defines "s' \<equiv> nu_store (x mod 2 ^ b) v s"
  shows "nc_shared b s'" "nc_room n m' s' \<longleftrightarrow> nc_room n m' s"
    and "i < n \<Longrightarrow> nc_reader_pc b s i p \<Longrightarrow> nc_reader_pc b s' i p"
proof -
  show "nc_shared b s'" using sh by (simp add: s'_def nu_store_def nc_shared_def nc_pos_def nu_geom_def)
  show "nc_room n m' s' \<longleftrightarrow> nc_room n m' s" by (simp add: s'_def nu_store_def nc_room_def)
  assume i: "i < n" and pc: "nc_reader_pc b s i p"
  show "nc_reader_pc b s' i p"
  proof (rule nc_reader_pc_keeps [OF pc])
    show "nc_log s' = nc_log s @ []" "nc_at s' i = nc_at s i" "nc_got s' i = nc_got s i" "nc_from s' i = nc_from s i"
      by (simp_all add: s'_def nu_store_def)
    assume r: "nc_reader b s i"
    then have "x < nc_pos b s (nc_next s i) + 2 ^ b"
      using x(2) nc_roomD(5) [OF room sh i] unfolding nc_reader_def by fastforce
    with r x(1) show "nc_reader b s' i"
      by (simp add: nc_reader_def s'_def nu_store_def nc_next_def nc_pos_def nu_store_frame)
  qed
qed


lemma nu_end_append: "nu_end B p (ms @ [m]) = nu_payload B (nu_end B p ms) (length m) + length m"
  by (induction ms arbitrary: p) simp_all

lemma nc_goodD:
  assumes "nc_good b n s ps"
  shows "0 < n" "length ps = n" "nc_shared b s" "nc_at s 0 = None" "nc_writer_pc b n s (ps ! 0)"
    and "i < n \<Longrightarrow> 0 < i \<Longrightarrow> nc_reader_pc b s i (ps ! i)"
  using assms by (simp_all add: nc_good_def)

lemma nc_good_writerI:
  assumes "nc_good b n s ps" "nc_shared b s'" "nc_at s' 0 = None" "nc_writer_pc b n s' p'"
    and "\<And>i. i < n \<Longrightarrow> 0 < i \<Longrightarrow> nc_reader_pc b s i (ps ! i) \<Longrightarrow> nc_reader_pc b s' i (ps ! i)"
  shows "nc_good b n s' (ps[0 := p'])"
  using assms by (simp add: nc_good_def)

text \<open>The writer stores a byte of its message.\<close>

lemma nc_store_good:
  assumes good: "nc_good b n s ps" and room: "nc_room n m s"
    and x: "unat (nu_writer_pos (nc_queue s)) \<le> x"
      "x < nu_payload (2 ^ b) (unat (nu_writer_pos (nc_queue s))) (length m) + length m"
    and pc: "nc_writer_pc b n (nu_store (x mod 2 ^ b) v s) p'"
  shows "nc_good b n (nu_store (x mod 2 ^ b) v s) (ps[0 := p'])"
proof (rule nc_good_writerI [OF good _ _ pc])
  note keeps = nc_store_keeps [OF nc_goodD(3) [OF good] room x, where v = v]
  show "nc_shared b (nu_store (x mod 2 ^ b) v s)" by (rule keeps(1))
  show "nc_at (nu_store (x mod 2 ^ b) v s) 0 = None" using nc_goodD(4) [OF good] by (simp add: nu_store_def)
  show "nc_reader_pc b (nu_store (x mod 2 ^ b) v s) i (ps ! i)" if "i < n" "nc_reader_pc b s i (ps ! i)" for i
    by (rule keeps(3) [OF that])
qed

lemma nu_store_at:
  assumes "length (nu_buffer (nc_queue s)) = 2 ^ b" "y = x \<or> y < x \<and> x < y + 2 ^ b"
  shows "nu_buffer (nc_queue (nu_store (x mod 2 ^ b) v s)) ! (y mod 2 ^ b)
    = (if y = x then v else nu_buffer (nc_queue s) ! (y mod 2 ^ b))"
proof (cases "y = x")
  case False
  then have "y mod 2 ^ b \<noteq> x mod 2 ^ b" using assms(2) mod_eq_near [of y "2 ^ b" x] by fastforce
  with False show ?thesis by (simp add: nu_store_def)
qed (simp add: nu_store_def assms(1))

lemma nu_store_same [simp]:
  "nu_writer_pos (nc_queue (nu_store k v s)) = nu_writer_pos (nc_queue s)" "nc_ok (nu_store k v s) = nc_ok s"
  by (simp_all add: nu_store_def)

lemma nc_size_step:
  assumes good: "nc_good b n s ps" and pc: "ps ! 0 = NwSize absolute j m"
    and st: "(p', s') \<in> set (nc_serialize n (NwSize absolute j m) s)"
  shows "nc_good b n s' (ps[0 := p'])"
proof -
  note sh = nc_goodD(3) [OF good] and w = nc_goodD(5) [OF good, unfolded pc nc_writer_pc.simps]
  note len = nc_sharedD(2) [OF sh]
  have room: "nc_room n m s" and ab: "absolute = nu_writer_pos (nc_queue s)" and j: "j \<le> 4" using w by blast+
  note r = nc_roomD [OF room sh, folded ab]
  show ?thesis
  proof (cases "j = 4")
    case True
    then show ?thesis using st w by (intro nc_good_writerI [OF good]) (use sh nc_goodD(4) [OF good] in auto)
  next
    case False
    define x where "x = unat absolute + j"
    have k: "x mod 2 ^ b = unat absolute mod 2 ^ b + j" "x mod 2 ^ b < 2 ^ b"
      using r(1) j False nu_mod_near [of "unat absolute" "2 ^ b" j] by (simp_all add: x_def)
    have st': "p' = NwSize absolute (Suc j) m" "s' = nu_store (x mod 2 ^ b) (le32 (of_nat (length m)) ! j) s"
      using st False k by (simp_all add: nu_geom_size(2) [OF nc_sharedD(1) [OF sh]] len Let_def)
    show ?thesis
      unfolding st'
    proof (rule nc_store_good [OF good room])
      show "unat (nu_writer_pos (nc_queue s)) \<le> x" by (simp add: x_def ab)
      show "x < nu_payload (2 ^ b) (unat (nu_writer_pos (nc_queue s))) (length m) + length m"
        using r(6) j False by (simp add: x_def ab)
      have "nu_buffer (nc_queue (nu_store (x mod 2 ^ b) (le32 (of_nat (length m)) ! j) s)) ! ((unat absolute + i) mod 2 ^ b)
          = le32 (of_nat (length m)) ! i" if "i < Suc j" for i
      proof -
        have "unat absolute + i = x \<or> unat absolute + i < x \<and> x < unat absolute + i + 2 ^ b"
          using that r(1) j False unfolding x_def by linarith
        from nu_store_at [OF len this] that w show ?thesis by (auto simp: x_def less_Suc_eq)
      qed
      then show "nc_writer_pc b n (nu_store (x mod 2 ^ b) (le32 (of_nat (length m)) ! j) s) (NwSize absolute (Suc j) m)"
        using w room False by (simp add: nu_store_def nc_room_def)
    qed
  qed
qed


lemma nc_bytes_step:
  assumes good: "nc_good b n s ps" and pc: "ps ! 0 = NwBytes absolute j m"
    and st: "(p', s') \<in> set (nc_serialize n (NwBytes absolute j m) s)"
  shows "nc_good b n s' (ps[0 := p'])"
proof -
  note sh = nc_goodD(3) [OF good] and w = nc_goodD(5) [OF good, unfolded pc nc_writer_pc.simps]
  note len = nc_sharedD(2) [OF sh]
  define q where "q = nu_payload (2 ^ b) (unat absolute) (length m)"
  have room: "nc_room n m s" and ab: "absolute = nu_writer_pos (nc_queue s)" and j: "j \<le> length m" using w by blast+
  note r = nc_roomD [OF room sh, folded ab]
  have un: "unat (of_nat (length m) :: u64) = length m" using r(2) by (intro unat_of_nat_64) simp
  note at = nu_bytes_at [OF _ r(1,7), simplified, folded q_def]
  have bg: "unat (nu_begin (nc_queue s) absolute (of_nat (length m))) =
      (if unat absolute mod 2 ^ b + length m + 4 > 2 ^ b then 0 else unat absolute mod 2 ^ b + 4)"
    by (rule nu_after_nat(2) [OF nc_sharedD(1) [OF sh] r(3,1) un r(7)])
  show ?thesis
  proof (cases "j = length m")
    case True
    then have p': "p' = NwPublish absolute m" "s' = s" using st by simp_all
    have "q mod 2 ^ b + length m \<le> 2 ^ b"
      using at(1) at(2) [of 0] by (cases "length m = 0") (simp_all add: less_imp_le)
    then have "nu_holds (2 ^ b) (nu_buffer (nc_queue s)) (unat absolute) [m] (q + length m)"
      using w r(1) True by (auto simp: Let_def q_def)
    then show ?thesis
      unfolding p' using sh nc_goodD(4) [OF good] room ab
      by (intro nc_good_writerI [OF good]) (simp_all add: q_def)
  next
    case False
    define x where "x = q + j"
    have jm: "j < length m" using j False by simp
    have k: "x mod 2 ^ b = unat (nu_begin (nc_queue s) absolute (of_nat (length m))) + j" "x mod 2 ^ b < 2 ^ b"
      unfolding bg x_def by (rule at(2) [OF jm]) simp
    have st': "p' = NwBytes absolute (Suc j) m" "s' = nu_store (x mod 2 ^ b) (m ! j) s"
      using st False k by (simp_all add: len Let_def)
    show ?thesis
      unfolding st'
    proof (rule nc_store_good [OF good room])
      show "unat (nu_writer_pos (nc_queue s)) \<le> x" using r(6) by (simp add: x_def q_def flip: ab)
      show "x < nu_payload (2 ^ b) (unat (nu_writer_pos (nc_queue s))) (length m) + length m"
        using jm by (simp add: x_def q_def flip: ab)
      let ?t = "nu_store (x mod 2 ^ b) (m ! j) s"
      have "nu_buffer (nc_queue ?t) ! ((unat absolute + i) mod 2 ^ b) = le32 (of_nat (length m)) ! i" if "i < 4" for i
      proof -
        have "unat absolute + i < x \<and> x < unat absolute + i + 2 ^ b"
          using that r(4,6) jm unfolding x_def q_def by linarith
        with nu_store_at [OF len, of "unat absolute + i" x] that w show ?thesis by auto
      qed
      moreover have "nu_buffer (nc_queue ?t) ! ((q + i) mod 2 ^ b) = m ! i" if "i < Suc j" for i
      proof -
        have "q + i = x \<or> q + i < x \<and> x < q + i + 2 ^ b"
          using that jm r(7) unfolding x_def by linarith
        from nu_store_at [OF len this] that w show ?thesis by (auto simp: x_def q_def less_Suc_eq)
      qed
      moreover have "nc_room n m ?t" using room by (simp add: nu_store_def nc_room_def)
      ultimately show "nc_writer_pc b n ?t (NwBytes absolute (Suc j) m)"
        using ab jm by (simp add: q_def)
    qed
  qed
qed

lemma nc_publish_step:
  assumes good: "nc_good b n s ps" and pc: "ps ! 0 = NwPublish absolute m"
    and st: "(p', s') \<in> set (nc_serialize n (NwPublish absolute m) s)"
  shows "nc_good b n s' (ps[0 := p'])"
proof -
  note sh = nc_goodD(3) [OF good] and w = nc_goodD(5) [OF good, unfolded pc nc_writer_pc.simps]
  have room: "nc_room n m s" and ab: "absolute = nu_writer_pos (nc_queue s)" using w by blast+
  note r = nc_roomD [OF room sh, folded ab]
  define e where "e = nu_payload (2 ^ b) (unat absolute) (length m) + length m"
  have un: "unat (of_nat (length m) :: u64) = length m" using r(2) by (intro unat_of_nat_64) simp
  have p': "p' = NwIdle" and s': "s' = s\<lparr>nc_queue := (nc_queue s)\<lparr>nu_writer_pos := nu_after (nc_queue s) absolute (of_nat (length m))\<rparr>,
        nc_log := nc_log s @ [m]\<rparr>" using st by simp_all
  have wp: "unat (nu_writer_pos (nc_queue s')) = e"
    using nu_after_nat(1) [OF nc_sharedD(1) [OF sh] r(3,1) un r(7)] by (simp add: s' e_def)
  have log: "nc_log s' = nc_log s @ [m]" by (simp add: s')
  note pos = nc_pos_append [OF log]
  have last: "nc_pos b s (length (nc_log s)) = unat absolute" using nc_sharedD(3) [OF sh] by (simp add: ab)
  show ?thesis
    unfolding p'
  proof (rule nc_good_writerI [OF good])
    have "nc_pos b s' (length (nc_log s')) = e"
      using last by (simp add: nc_pos_def log nu_end_append e_def)
    moreover have "length (nc_log s' ! k) < 2 ^ 32 \<and> nc_pos b s' k + 4 * 2 ^ b < 2 ^ 64" if "k < length (nc_log s')" for k
      using that nc_sharedD(4,5) [OF sh, of k] r(2,3) last pos [of k b] by (cases "k = length (nc_log s)") (auto simp: log nth_append)
    moreover have "nu_geom b (nc_queue s')" using nc_sharedD(1) [OF sh] by (simp add: s' nu_geom_def)
    ultimately show "nc_shared b s'" by (simp add: nc_shared_def wp)
    show "nc_at s' 0 = None" using nc_goodD(4) [OF good] by (simp add: s')
    fix i assume "nc_reader_pc b s i (ps ! i)"
    then show "nc_reader_pc b s' i (ps ! i)"
    proof (rule nc_reader_pc_keeps [OF _ log])
      assume rd: "nc_reader b s i"
      then have le: "nc_next s i \<le> length (nc_log s)" by (simp add: nc_reader_def)
      have n: "nc_next s' i = nc_next s i" by (simp add: nc_next_def s')
      have "nu_holds (2 ^ b) (nu_buffer (nc_queue s)) (nc_pos b s (nc_next s i)) (drop (nc_next s i) (nc_log s) @ [m]) e"
      proof (rule nu_holds_append)
        show "nu_holds (2 ^ b) (nu_buffer (nc_queue s)) (nc_pos b s (nc_next s i)) (drop (nc_next s i) (nc_log s)) (unat absolute)"
          using rd unfolding nc_reader_def ab by blast
        show "nu_holds (2 ^ b) (nu_buffer (nc_queue s)) (unat absolute) [m] e"
          using w unfolding e_def by blast
      qed
      with rd le show "nc_reader b s' i"
        unfolding nc_reader_def n wp pos [OF le] by (simp add: s' nc_next_def)
    qed (simp_all add: s')
  qed simp
qed


section \<open>The consumers' steps\<close>

lemma nc_good_readerI:
  assumes good: "nc_good b n s ps" and i: "0 < i" "i < n"
    and same: "nc_queue s' = nc_queue s" "nc_log s' = nc_log s"
    and others: "\<And>j. j \<noteq> i \<Longrightarrow> nc_at s' j = nc_at s j \<and> nc_got s' j = nc_got s j \<and> nc_from s' j = nc_from s j"
    and up: "\<And>a. nc_at s' i = Some a \<Longrightarrow> (\<exists>a'. nc_at s i = Some a' \<and> a' \<le> a) \<or> unat (nu_writer_pos (nc_queue s)) \<le> a"
    and pc: "nc_reader_pc b s' i p'"
  shows "nc_good b n s' (ps[i := p'])"
  unfolding nc_good_def
proof (intro conjI allI impI)
  note g = nc_goodD [OF good]
  show "0 < n" "length (ps[i := p']) = n" using g(1,2) by simp_all
  show "nc_shared b s'" using g(3) same by (simp add: nc_shared_def nc_pos_def)
  show "nc_at s' 0 = None" using g(4) others [of 0] i by simp
  show "nc_writer_pc b n s' (ps[i := p'] ! 0)"
  proof -
    have "nc_writer_pc b n s' (ps ! 0)"
    proof (rule nc_writer_pc_keeps [OF g(5) same(1)])
      fix j a assume "nc_at s' j = Some a"
      then show "nc_at s j = Some a \<or> (\<exists>a'. nc_at s j = Some a' \<and> a' \<le> a) \<or> unat (nu_writer_pos (nc_queue s)) \<le> a"
        using others [of j] up [of a] by (cases "j = i") auto
    qed
    with i show ?thesis by simp
  qed
  fix j assume j: "j < n" "0 < j"
  show "nc_reader_pc b s' j (ps[i := p'] ! j)"
  proof (cases "j = i")
    case True
    with pc i g(2) show ?thesis by simp
  next
    case False
    have "nc_reader_pc b s' j (ps ! j)"
    proof (rule nc_reader_pc_keeps [OF g(6) [OF j]])
      show "nc_log s' = nc_log s @ []" "nc_at s' j = nc_at s j" "nc_got s' j = nc_got s j" "nc_from s' j = nc_from s j"
        using same others [OF False] by simp_all
      show "nc_reader b s j \<Longrightarrow> nc_reader b s' j"
        using same others [OF False] by (simp add: nc_reader_def nc_next_def nc_pos_def)
    qed
    with False show ?thesis by simp
  qed
qed

text \<open>The message a consumer is about to read.\<close>

lemma nc_reader_first:
  assumes rd: "nc_reader b s i" and sh: "nc_shared b s" and k: "nc_next s i < length (nc_log s)"
  defines "p \<equiv> nc_pos b s (nc_next s i)" and "m \<equiv> nc_log s ! nc_next s i"
  shows "p mod 2 ^ b + 4 \<le> 2 ^ b" "length m \<le> 2 ^ b" "length m < 2 ^ 32" "p + 4 * 2 ^ b < 2 ^ 64"
    and "l < 4 \<Longrightarrow> nu_buffer (nc_queue s) ! ((p + l) mod 2 ^ b) = le32 (of_nat (length m)) ! l"
    and "l < length m \<Longrightarrow> nu_buffer (nc_queue s) ! ((nu_payload (2 ^ b) p (length m) + l) mod 2 ^ b) = m ! l"
    and "nc_pos b s (Suc (nc_next s i)) = nu_payload (2 ^ b) p (length m) + length m"
    and "nu_holds (2 ^ b) (nu_buffer (nc_queue s)) (nu_payload (2 ^ b) p (length m) + length m)
        (drop (Suc (nc_next s i)) (nc_log s)) (unat (nu_writer_pos (nc_queue s)))"
proof -
  have "drop (nc_next s i) (nc_log s) = m # drop (Suc (nc_next s i)) (nc_log s)"
    unfolding m_def using k by (rule Cons_nth_drop_Suc [symmetric])
  then have h: "nu_holds (2 ^ b) (nu_buffer (nc_queue s)) p (m # drop (Suc (nc_next s i)) (nc_log s))
      (unat (nu_writer_pos (nc_queue s)))"
    using rd unfolding nc_reader_def p_def by simp
  then show "p mod 2 ^ b + 4 \<le> 2 ^ b"
    "l < 4 \<Longrightarrow> nu_buffer (nc_queue s) ! ((p + l) mod 2 ^ b) = le32 (of_nat (length m)) ! l"
    "l < length m \<Longrightarrow> nu_buffer (nc_queue s) ! ((nu_payload (2 ^ b) p (length m) + l) mod 2 ^ b) = m ! l"
    "nu_holds (2 ^ b) (nu_buffer (nc_queue s)) (nu_payload (2 ^ b) p (length m) + length m)
        (drop (Suc (nc_next s i)) (nc_log s)) (unat (nu_writer_pos (nc_queue s)))"
    by (simp_all add: Let_def)
  have "\<forall>m' \<in> set (m # drop (Suc (nc_next s i)) (nc_log s)). length m' \<le> 2 ^ b"
    by (rule nu_holds_short [OF _ h]) simp
  then show "length m \<le> 2 ^ b" by simp
  show "length m < 2 ^ 32" "p + 4 * 2 ^ b < 2 ^ 64" using nc_sharedD(4,5) [OF sh k] by (simp_all add: m_def p_def)
  show "nc_pos b s (Suc (nc_next s i)) = nu_payload (2 ^ b) p (length m) + length m"
    using k by (simp add: nc_pos_def p_def m_def take_Suc_conv_app_nth nu_end_append)
qed


lemma nc_size_read_step:
  assumes good: "nc_good b n s ps" and i: "0 < i" "i < n" and pc: "ps ! i = NcSize l bs"
    and st: "(p', s') \<in> set (nc_deserialize i (NcSize l bs) s)"
  shows "nc_good b n s' (ps[i := p'])"
proof -
  note sh = nc_goodD(3) [OF good]
  note w = nc_goodD(6) [OF good i(2,1), unfolded pc nc_reader_pc.simps]
  have rd: "nc_reader b s i" and k: "nc_next s i < length (nc_log s)" and len4: "length bs \<le> 4" using w by blast+
  note f = nc_reader_first [OF rd sh k]
  define p where "p = nc_pos b s (nc_next s i)"
  define m where "m = nc_log s ! nc_next s i"
  note f' = f [folded p_def m_def]
  have "nc_at s i = Some p" using rd unfolding nc_reader_def p_def by blast
  moreover have "nc_at s i = Some (unat l)" using w by blast
  ultimately have l: "unat l = p" by simp
  have bs: "bs = take (length bs) (le32 (of_nat (length m)))" using w by (simp add: m_def)
  show ?thesis
  proof (cases "length bs = 4")
    case True
    then have sz: "un_le32 bs = of_nat (length m)" using bs un_le32_le32 [of "of_nat (length m)"] by simp
    have u32: "unat (of_nat (length m) :: u32) = length m" using f'(3) by (intro unat_of_nat_32) simp
    then have "ucast (of_nat (length m) :: u32) = (of_nat (length m) :: u64)" by (metis of_nat_unat)
    moreover have "unat (of_nat (length m) :: u64) = length m" using f'(3) by (intro unat_of_nat_64) simp
    ultimately have u64: "unat (ucast (of_nat (length m) :: u32) :: u64) = length m" by simp
    have st': "p' = NcBytes (nu_after (nc_queue s) l (ucast (of_nat (length m) :: u32)))
        (nu_begin (nc_queue s) l (ucast (of_nat (length m) :: u32))) (of_nat (length m)) []" "s' = s"
      using st True sz by (simp_all add: Let_def)
    have small: "unat l + 4 * 2 ^ b < 2 ^ 64" "unat l mod 2 ^ b + 4 \<le> 2 ^ b" using f'(1,4) l by simp_all
    note n = nu_after_nat [OF nc_sharedD(1) [OF sh] small u64 f'(2), unfolded l]
    have "nc_reader_pc b s i p'"
      unfolding st' nc_reader_pc.simps Let_def p_def [symmetric] m_def [symmetric]
      using rd k u32 n by simp
    then show ?thesis unfolding st' by (intro nc_good_readerI [OF good i]) simp_all
  next
    case False
    then have lt: "length bs < 4" using len4 by simp
    have g: "unat (l AND (nu_size (nc_queue s) - 1)) = p mod 2 ^ b"
      using nu_geom_size(2) [OF nc_sharedD(1) [OF sh], of l] l by simp
    have at: "(p + length bs) mod 2 ^ b = p mod 2 ^ b + length bs" "p mod 2 ^ b + length bs < 2 ^ b"
      using lt f'(1) by (auto intro: nu_mod_near)
    have st': "p' = NcSize l (bs @ [le32 (of_nat (length m)) ! length bs])" "s' = s"
      using st False at f'(5) [OF lt] by (simp_all add: Let_def g nc_sharedD(2) [OF sh])
    have "bs @ [le32 (of_nat (length m)) ! length bs] = take (Suc (length bs)) (le32 (of_nat (length m)))"
      using bs lt by (simp add: take_Suc_conv_app_nth)
    then have "nc_reader_pc b s i p'"
      unfolding st' nc_reader_pc.simps m_def [symmetric] using w lt by simp
    then show ?thesis unfolding st' by (intro nc_good_readerI [OF good i]) simp_all
  qed
qed

lemma nc_bytes_read_step:
  assumes good: "nc_good b n s ps" and i: "0 < i" "i < n" and pc: "ps ! i = NcBytes l start sz bs"
    and st: "(p', s') \<in> set (nc_deserialize i (NcBytes l start sz bs) s)"
  shows "nc_good b n s' (ps[i := p'])"
proof -
  note sh = nc_goodD(3) [OF good]
  note w = nc_goodD(6) [OF good i(2,1), unfolded pc nc_reader_pc.simps Let_def]
  have rd: "nc_reader b s i" and k: "nc_next s i < length (nc_log s)" using w by blast+
  note f = nc_reader_first [OF rd sh k]
  define p where "p = nc_pos b s (nc_next s i)"
  define m where "m = nc_log s ! nc_next s i"
  note f' = f [folded p_def m_def]
  note w' = w [folded p_def m_def]
  have sz: "unat sz = length m" and l: "unat l = nu_payload (2 ^ b) p (length m) + length m"
    and len: "length bs \<le> length m" and bs: "bs = take (length bs) m"
    and start: "unat start = (if p mod 2 ^ b + length m + 4 > 2 ^ b then 0 else p mod 2 ^ b + 4)" using w' by blast+
  show ?thesis
  proof (cases "length bs = unat sz")
    case True
    have m: "bs = m" using True bs sz by simp
    have p': "p' = NcRet l (Some m)"
      and s': "s' = s\<lparr>nc_at := (nc_at s)(i \<mapsto> unat l), nc_got := (nc_got s)(i := nc_got s i @ [m])\<rparr>"
      using st True m by (simp_all add: Let_def)
    have nx: "nc_next s' i = Suc (nc_next s i)" by (simp add: nc_next_def s')
    have pos: "nc_pos b s' (nc_next s' i) = unat l" unfolding nx using f'(7) l by (simp add: nc_pos_def s')
    have len_ok: "length (nc_got s i) < length (drop (nc_from s i) (nc_log s))" using k by (simp add: nc_next_def)
    have got: "nc_got s i @ [m] = take (Suc (length (nc_got s i))) (drop (nc_from s i) (nc_log s))"
      using rd len_ok by (simp add: take_Suc_conv_app_nth nc_reader_def m_def nc_next_def)
    have e: "nc_got s' i = nc_got s i @ [m]" "nc_from s' i = nc_from s i" "nc_log s' = nc_log s"
      "nc_at s' i = Some (unat l)" "nc_queue s' = nc_queue s" by (simp_all add: s')
    have "nc_reader b s' i"
      unfolding nc_reader_def e length_append_singleton nx pos [unfolded nx] l
      using k f'(8) by (intro conjI got refl Suc_leI)
    then have r: "nc_reader_pc b s' i p'" by (simp add: p' s')
    have "nc_at s i = Some p" using rd unfolding nc_reader_def p_def by blast
    moreover have "p \<le> unat l" using nu_payload_after [OF _ f'(1), of "length m"] l by simp
    ultimately show ?thesis by (intro nc_good_readerI [OF good i _ _ _ _ r]) (auto simp: s')
  next
    case False
    then have lt: "length bs < length m" using len sz by simp
    have at: "(nu_payload (2 ^ b) p (length m) + length bs) mod 2 ^ b = unat start + length bs"
      unfolding start by (rule nu_bytes_at(2) [OF _ f'(1,2) lt]) simp
    have "(nu_payload (2 ^ b) p (length m) + length bs) mod 2 ^ b < 2 ^ b" by simp
    then have st': "p' = NcBytes l start sz (bs @ [m ! length bs])" "s' = s"
      using st False at f'(6) [OF lt] by (simp_all add: Let_def nc_sharedD(2) [OF sh])
    have "bs @ [m ! length bs] = take (Suc (length bs)) m"
      using bs lt by (metis take_Suc_conv_app_nth)
    then have "nc_reader_pc b s i p'"
      unfolding st' nc_reader_pc.simps Let_def m_def [symmetric] p_def [symmetric] using w' lt by simp
    then show ?thesis unfolding st' by (intro nc_good_readerI [OF good i]) simp_all
  qed
qed


lemma nc_step_inv:
  assumes inv: "nc_inv b n s ps" and i: "i < length ps"
    and st: "(p', s') \<in> set (nc_step n msgs i (ps ! i) s)"
  shows "nc_inv b n s' (ps[i := p'])"
  unfolding nc_inv_def
proof
  assume ok: "nc_ok s'"
  show "nc_good b n s' (ps[i := p'])"
  proof (cases "i = 0")
    case True
    then have st0: "(p', s') \<in> set (nc_step n msgs 0 (ps ! 0) s)" using st by simp
    then consider (idle) m where "ps ! 0 = NwIdle" "p' = NwLoad m" "s' = s"
      | (serialize) "(p', s') \<in> set (nc_serialize n (ps ! 0) s)"
      by (auto simp: nc_step_def split: if_splits)
    then have "nc_good b n s' (ps[0 := p'])"
    proof cases
      case idle
      with inv ok have good: "nc_good b n s ps" by (simp add: nc_inv_def)
      from nc_goodD [OF good] idle show ?thesis by (intro nc_good_writerI [OF good]) simp_all
    next
      case serialize
      have "nc_ok s" using serialize ok by (cases "ps ! 0") (auto simp: Let_def split: if_splits)
      with inv have good: "nc_good b n s ps" by (simp add: nc_inv_def)
      show ?thesis
      proof (cases "ps ! 0")
        case (NwLoad m)
        with serialize have e: "p' = NwSize (nu_writer_pos (nc_queue s)) 0 m" "s' = s\<lparr>nc_ok := nc_ok s \<and> nc_room n m s\<rparr>"
          by simp_all
        have room: "nc_room n m s" using ok e by simp
        have w: "nc_writer_pc b n s' p'" using room by (simp add: e nc_room_def)
        have "nc_shared b s'" using nc_goodD(3) [OF good] by (simp add: e nc_shared_def nc_pos_def)
        moreover have "nc_reader_pc b s' j q" if q: "nc_reader_pc b s j q" for j q
        proof (rule nc_reader_pc_keeps [OF q])
          show "nc_log s' = nc_log s @ []" by (simp add: e)
          show "nc_reader b s j \<Longrightarrow> nc_reader b s' j" by (simp add: e nc_reader_def nc_next_def nc_pos_def)
        qed (simp_all add: e)
        moreover have "nc_at s' 0 = None" using nc_goodD(4) [OF good] by (simp add: e)
        ultimately show ?thesis by (intro nc_good_writerI [OF good _ _ w])
      next
        case (NwSize a j m)
        with serialize show ?thesis by (intro nc_size_step [OF good NwSize]) simp
      next
        case (NwBytes a j m)
        with serialize show ?thesis by (intro nc_bytes_step [OF good NwBytes]) simp
      next
        case (NwPublish a m)
        with serialize show ?thesis by (intro nc_publish_step [OF good NwPublish]) simp
      qed (use serialize in simp_all)
    qed
    with True show ?thesis by simp
  next
    case False
    have "nc_ok s" using st ok False by (cases "ps ! i") (auto simp: nc_step_def Let_def split: if_splits)
    with inv have good: "nc_good b n s ps" by (simp add: nc_inv_def)
    note i' = False [folded neq0_conv] i [unfolded nc_goodD(2) [OF good]]
    have old: "nc_reader_pc b s i (ps ! i)" using nc_goodD(6) [OF good] i' by simp
    have same: "nc_good b n s (ps[i := q])" if "nc_reader_pc b s i q" for q
      using that by (intro nc_good_readerI [OF good]) (use i' in auto)
    show ?thesis
    proof (cases "ps ! i")
      case NcNew
      note sh = nc_goodD(3) [OF good]
      have e: "p' = NcIdle (nu_writer_pos (nc_queue s))"
        "s' = s\<lparr>nc_at := (nc_at s)(i \<mapsto> unat (nu_writer_pos (nc_queue s))), nc_from := (nc_from s)(i := length (nc_log s))\<rparr>"
        using st NcNew False by (simp_all add: nc_step_def)
      have "nc_got s i = []" using old NcNew by simp
      then have "nc_reader_pc b s' i p'"
        using nc_sharedD(3) [OF sh] by (simp add: e nc_reader_def nc_next_def nc_pos_def)
      then show ?thesis by (intro nc_good_readerI [OF good]) (use i' in \<open>auto simp: e\<close>)
    next
      case (NcLoad l)
      have e: "s' = s" "p' = (if nu_writer_pos (nc_queue s) = l then NcRet l None else NcSize l [])"
        using st NcLoad False by (simp_all add: nc_step_def)
      have "nc_reader_pc b s i (NcSize l [])" if ne: "nu_writer_pos (nc_queue s) \<noteq> l"
      proof -
        have rd: "nc_reader b s i" and l: "nc_at s i = Some (unat l)" using old NcLoad by simp_all
        have "nc_next s i \<noteq> length (nc_log s)"
          using rd l ne nc_sharedD(3) [OF nc_goodD(3) [OF good]] by (auto simp: nc_reader_def word_unat_eq_iff)
        with rd l show ?thesis by (auto simp: nc_reader_def)
      qed
      then show ?thesis using old NcLoad unfolding e by (intro same) simp
    next
      case (NcSize l bs)
      with st False show ?thesis by (intro nc_size_read_step [OF good _ _ NcSize]) (use i' in \<open>simp_all add: nc_step_def\<close>)
    next
      case (NcBytes l start sz bs)
      with st False show ?thesis by (intro nc_bytes_read_step [OF good _ _ NcBytes]) (use i' in \<open>simp_all add: nc_step_def\<close>)
    qed (use st False old in \<open>auto simp: nc_step_def intro!: same\<close>)
  qed
qed

interpretation nc: protocol "nc_step n msgs" "nc_start b n" "nc_inv b n"
proof
  show "nc_inv b n s ps" if "nc_start b n (s, ps)" for s ps
    using that by (auto simp: nc_inv_def nc_good_def nc_start_def nc_shared_def nu_geom_def nu_init_def nc_pos_def)
qed (rule nc_step_inv)


section \<open>Properties\<close>

lemma nc_reader_at_rest:
  assumes rd: "nc_reader b s i" and sh: "nc_shared b s" and at: "nc_at s i = Some (unat (nu_writer_pos (nc_queue s)))"
  shows "nc_got s i = drop (nc_from s i) (nc_log s)"
proof -
  have "\<not> nc_next s i < length (nc_log s)"
  proof
    assume k: "nc_next s i < length (nc_log s)"
    note f = nc_reader_first [OF rd sh k]
    have "nc_pos b s (nc_next s i) + 4 \<le> nu_payload (2 ^ b) (nc_pos b s (nc_next s i)) (length (nc_log s ! nc_next s i))"
      by (rule nu_payload_after [OF _ f(1)]) simp
    moreover note nu_holds_le [OF _ f(8)]
    moreover have "nc_pos b s (nc_next s i) = unat (nu_writer_pos (nc_queue s))" using rd at by (simp add: nc_reader_def)
    ultimately show False by simp
  qed
  then have "length (drop (nc_from s i) (nc_log s)) \<le> length (nc_got s i)" by (simp add: nc_next_def)
  with rd show ?thesis unfolding nc_reader_def by (metis take_all)
qed

text \<open>C9. Writer and consumers at once, every interleaving of their accesses, byte by byte, on an
  array with any contents: as long as every message had room when its \<open>seirialize\<close> began, no access
  is outside the array; every consumer is given the messages published from its creation on, whole,
  in order, none missing and none twice; and one whose position is the writer's has been given all
  of them.\<close>

theorem spmc_non_uniform_in_order:
  assumes "reach (nc_start b n) (interleave (nc_step n msgs)) (s, ps)" "nc_ok s"
  shows "NwOob \<notin> set ps \<and> NcOob \<notin> set ps
    \<and> (\<forall>i < n. 0 < i \<longrightarrow> ps ! i \<noteq> NcNone \<and> ps ! i \<noteq> NcNew \<longrightarrow>
        nc_got s i = take (length (nc_got s i)) (drop (nc_from s i) (nc_log s)))
    \<and> (\<forall>i < n. 0 < i \<and> ps ! i = NcIdle (nu_writer_pos (nc_queue s)) \<longrightarrow>
        nc_got s i = drop (nc_from s i) (nc_log s))"
proof (intro conjI allI impI)
  have good: "nc_good b n s ps" using nc.reach_inv [OF assms(1)] assms(2) by (simp add: nc_inv_def)
  note g = nc_goodD [OF good]
  have "ps ! i \<noteq> NwOob \<and> ps ! i \<noteq> NcOob" if "i < length ps" for i
    using g(2,5) g(6) [of i] that by (cases "i = 0") auto
  then show "NwOob \<notin> set ps" "NcOob \<notin> set ps" by (metis in_set_conv_nth)+
  fix i assume i: "i < n"
  show "nc_got s i = take (length (nc_got s i)) (drop (nc_from s i) (nc_log s))"
    if "0 < i" "ps ! i \<noteq> NcNone \<and> ps ! i \<noteq> NcNew"
    using g(6) [OF i that(1)] that(2) by (cases "ps ! i") (auto simp: nc_reader_def)
  show "nc_got s i = drop (nc_from s i) (nc_log s)" if "0 < i \<and> ps ! i = NcIdle (nu_writer_pos (nc_queue s))"
    using g(6) [OF i] that by (intro nc_reader_at_rest [OF _ g(3)]) auto
qed

lemma all_less_two: "(\<forall>i < (2::nat). P i) \<longleftrightarrow> P 0 \<and> P 1"
  by (auto simp: less_Suc_eq numeral_2_eq_2)

lemmas nc_run = replicate_unroll all_less_two Let_def nc_step_def nu_store_def nu_wraps_def nu_begin_def nu_after_def nc_room_def nu_init_def nu_size_def
  le32_def un_le32_def nu_payload_def

text \<open>A message of two bytes in a ring of 16 is published while a consumer waits and then read.\<close>

theorem spmc_non_uniform_in_order_witness:
  "\<exists>s :: nc_state. nc_ok s \<and> nc_log s = [[7, 9]] \<and> nc_got s 1 = [[7, 9]] \<and> NcOob \<notin> set [NwIdle, NcIdle 6]"
proof -
  let ?s = "\<lparr>nc_queue = nu_init (replicate 16 0), nc_log = [], nc_from = (\<lambda>i. 0), nc_got = (\<lambda>i. []), nc_at = Map.empty, nc_ok = True\<rparr>"
  let ?sched = "replicate 3 (1, 0) @ replicate 3 (0, 0) @ replicate 2 (1, 0) @ replicate 8 (0, 0) @ replicate 11 (1, 0)"
  have "\<exists>s. run_sched (nc_step 2 [[7, 9]]) ?sched (?s, [NwIdle, NcNone]) = Some (s, [NwIdle, NcIdle 6])
      \<and> nc_ok s \<and> nc_log s = [[7, 9]] \<and> nu_writer_pos (nc_queue s) = 6 \<and> nc_from s 1 = 0"
    by (simp add: nc_run)
  then obtain s where s: "run_sched (nc_step 2 [[7, 9]]) ?sched (?s, [NwIdle, NcNone]) = Some (s, [NwIdle, NcIdle 6])"
    "nc_ok s" "nc_log s = [[7, 9]]" "nu_writer_pos (nc_queue s) = 6" "nc_from s 1 = 0" by (elim exE conjE) (rule that)
  have "reach (nc_start 4 2) (interleave (nc_step 2 [[7, 9]])) (s, [NwIdle, NcIdle 6])"
    by (rule run_sched_reach_start [OF _ s(1)])
      (simp_all add: nc_start_def all_less_two exI [of _ "replicate 16 0"])
  from spmc_non_uniform_in_order [OF this s(2)] s(2-5) show ?thesis
    by (intro exI [of _ s]) (simp add: all_less_two)
qed

end
