(* ===== verification/Nu_Alone.thy ===== *)
theory Nu_Alone
  imports Nu_Concurrent
begin

text \<open>
  The two models of \<open>spmc_bounded_non_uniform_queue\<close> agree: a thread that runs a whole
  \<open>seirialize\<close> or \<open>try_deserialize\<close> while the others stand still, access by access as in
  \<open>Nu_Concurrent\<close>, does what the functions of \<open>Spmc_Non_Uniform\<close> say.
\<close>

section \<open>Loops of stores and reads\<close>

text \<open>The array after the first \<open>j\<close> of the bytes \<open>bs\<close> were stored from \<open>k\<close> on.\<close>

definition put_bytes :: "nat \<Rightarrow> nat \<Rightarrow> u8 list \<Rightarrow> u8 list \<Rightarrow> u8 list" where
  "put_bytes k j bs buf = take k buf @ take j bs @ drop (k + j) buf"

lemma put_bytes_0 [simp]: "put_bytes k 0 bs buf = buf"
  by (simp add: put_bytes_def)

lemma put_bytes_Suc:
  assumes "k + j < length buf" "j < length bs"
  shows "(put_bytes k j bs buf)[k + j := bs ! j] = put_bytes k (Suc j) bs buf"
proof -
  have "drop (k + j) buf = buf ! (k + j) # drop (k + Suc j) buf" using assms(1) by (simp add: Cons_nth_drop_Suc)
  moreover have "take (Suc j) bs = take j bs @ [bs ! j]" by (rule take_Suc_conv_app_nth [OF assms(2)])
  ultimately show ?thesis using assms by (simp add: put_bytes_def list_update_append)
qed

lemma put_bytes_length: "j \<le> length bs \<Longrightarrow> k + j \<le> length buf \<or> j = 0 \<Longrightarrow> length (put_bytes k j bs buf) = length buf"
  by (auto simp: put_bytes_def)

lemma put_bytes_put: "k + length bs \<le> length buf \<Longrightarrow> nu_put buf k bs = Some (put_bytes k (length bs) bs buf)"
  by (simp add: put_bytes_def nu_put_def)


lemma nu_size_buffer [simp]: "length b' = length (nu_buffer q) \<Longrightarrow> nu_size (q\<lparr>nu_buffer := b'\<rparr>) = nu_size q"
  by (simp add: nu_size_def)

definition nc_put :: "nat \<Rightarrow> nat \<Rightarrow> u8 list \<Rightarrow> nc_state \<Rightarrow> nc_state" where
  "nc_put k j bs s = s\<lparr>nc_queue := (nc_queue s)\<lparr>nu_buffer := put_bytes k j bs (nu_buffer (nc_queue s))\<rparr>\<rparr>"

lemma nc_put_0 [simp]: "nc_put k 0 bs s = s"
  by (simp add: nc_put_def)

lemma nc_put_step:
  assumes "k + j < length (nu_buffer (nc_queue s))" "j < length bs"
  shows "nu_store (k + j) (bs ! j) (nc_put k j bs s) = nc_put k (Suc j) bs s"
    and "nu_size (nc_queue (nc_put k j bs s)) = nu_size (nc_queue s)"
    and "length (nu_buffer (nc_queue (nc_put k j bs s))) = length (nu_buffer (nc_queue s))"
  using put_bytes_Suc [OF assms] put_bytes_length [of j bs k "nu_buffer (nc_queue s)"] assms
  by (simp_all add: nc_put_def nu_store_def)

lemma nc_size_run:
  assumes "d \<le> 4"
    and k: "k = unat (a AND (nu_size (nc_queue s) - 1))" "k + d \<le> length (nu_buffer (nc_queue s)) \<or> d = 0"
  shows "moves_alone (nc_step n msgs) 0 d (NwSize a 0 m, s) (NwSize a d m, nc_put k d (le32 (of_nat (length m))) s)"
proof -
  have "nc_step n msgs 0 (NwSize a j m) (nc_put k j (le32 (of_nat (length m))) s)
      = [(NwSize a (Suc j) m, nc_put k (Suc j) (le32 (of_nat (length m))) s)]" if "j < d" for j
    using nc_put_step [of k j s "le32 (of_nat (length m))"] that assms(1) k(2)
    by (simp add: nc_step_def Let_def flip: k(1))
  from moves_alone_loop [where ts = "nc_step n msgs" and P = "\<lambda>j. NwSize a j m" and S = "\<lambda>j. nc_put k j (le32 (of_nat (length m))) s", OF this]
  show ?thesis by simp
qed

lemma nu_begin_size: "nu_size q' = nu_size q \<Longrightarrow> nu_begin q' a sz = nu_begin q a sz"
  "nu_size q' = nu_size q \<Longrightarrow> nu_after q' a sz = nu_after q a sz"
  by (simp_all add: nu_begin_def nu_after_def nu_wraps_def)

lemma nc_bytes_run:
  assumes "d \<le> length m"
    and k: "k = unat (nu_begin (nc_queue s) a (of_nat (length m)))" "k + d \<le> length (nu_buffer (nc_queue s)) \<or> d = 0"
  shows "moves_alone (nc_step n msgs) 0 d (NwBytes a 0 m, s) (NwBytes a d m, nc_put k d m s)"
proof -
  have "nc_step n msgs 0 (NwBytes a j m) (nc_put k j m s) = [(NwBytes a (Suc j) m, nc_put k (Suc j) m s)]" if "j < d" for j
  proof -
    have j: "k + j < length (nu_buffer (nc_queue s))" "j < length m" using that assms(1) k(2) by auto
    note p = nc_put_step [OF j]
    show ?thesis using j p nu_begin_size(1) [OF p(2), of a "of_nat (length m)"] by (simp add: nc_step_def Let_def flip: k(1))
  qed
  from moves_alone_loop [where ts = "nc_step n msgs" and P = "\<lambda>j. NwBytes a j m" and S = "\<lambda>j. nc_put k j m s", OF this]
  show ?thesis by simp
qed

lemma nc_size_read_run:
  assumes "0 < i" "d \<le> 4"
    and k: "k = unat (l AND (nu_size (nc_queue s) - 1))" "k + d \<le> length (nu_buffer (nc_queue s)) \<or> d = 0"
  shows "moves_alone (nc_step n msgs) i d (NcSize l [], s) (NcSize l (take d (drop k (nu_buffer (nc_queue s)))), s)"
proof -
  let ?P = "\<lambda>j. NcSize l (take j (drop k (nu_buffer (nc_queue s))))"
  have "nc_step n msgs i (?P j) s = [(?P (Suc j), s)]" if "j < d" for j
  proof -
    have j: "k + j < length (nu_buffer (nc_queue s))" "j \<noteq> 4" using that assms(2) k(2) by auto
    then have "take (Suc j) (drop k (nu_buffer (nc_queue s))) = take j (drop k (nu_buffer (nc_queue s))) @ [nu_buffer (nc_queue s) ! (k + j)]"
      by (simp add: take_Suc_conv_app_nth)
    moreover have "length (take j (drop k (nu_buffer (nc_queue s)))) = j" using j by simp
    ultimately show ?thesis using j assms(1) by (simp add: nc_step_def Let_def del: length_take flip: k(1))
  qed
  from moves_alone_loop [where ts = "nc_step n msgs" and P = ?P and S = "\<lambda>j. s", OF this] show ?thesis by simp
qed

lemma nc_bytes_read_run:
  assumes "0 < i" "d \<le> unat sz" "unat start + d \<le> length (nu_buffer (nc_queue s)) \<or> d = 0"
  shows "moves_alone (nc_step n msgs) i d (NcBytes l start sz [], s) (NcBytes l start sz (take d (drop (unat start) (nu_buffer (nc_queue s)))), s)"
proof -
  let ?P = "\<lambda>j. NcBytes l start sz (take j (drop (unat start) (nu_buffer (nc_queue s))))"
  have "nc_step n msgs i (?P j) s = [(?P (Suc j), s)]" if "j < d" for j
  proof -
    have j: "unat start + j < length (nu_buffer (nc_queue s))" "j \<noteq> unat sz" using that assms(2,3) by auto
    then have "take (Suc j) (drop (unat start) (nu_buffer (nc_queue s)))
        = take j (drop (unat start) (nu_buffer (nc_queue s))) @ [nu_buffer (nc_queue s) ! (unat start + j)]"
      by (simp add: take_Suc_conv_app_nth)
    moreover have "length (take j (drop (unat start) (nu_buffer (nc_queue s)))) = j" using j by simp
    ultimately show ?thesis using j assms(1) by (simp add: nc_step_def Let_def del: length_take)
  qed
  from moves_alone_loop [where ts = "nc_step n msgs" and P = ?P and S = "\<lambda>j. s", OF this] show ?thesis by simp
qed


text \<open>A loop of stores that ends, and one that runs over the end of the array.\<close>

lemma nc_put_same:
  assumes "j \<le> length bs" "k + j \<le> length (nu_buffer (nc_queue s)) \<or> j = 0"
  shows "length (nu_buffer (nc_queue (nc_put k j bs s))) = length (nu_buffer (nc_queue s))"
    "nu_size (nc_queue (nc_put k j bs s)) = nu_size (nc_queue s)"
  using put_bytes_length [OF assms] by (simp_all add: nc_put_def)

lemma unat_of_nat_le: "unat (of_nat n :: u64) \<le> n"
  by (simp add: unat_of_nat)

lemma nu_begin_le: "unat (nu_begin q a 0) \<le> length (nu_buffer q)"
proof -
  have "nu_begin q a 0 \<le> nu_size q" by (auto simp: nu_begin_def nu_wraps_def)
  then have "unat (nu_begin q a 0) \<le> unat (nu_size q)" by (simp add: word_le_nat_alt)
  also have "\<dots> \<le> length (nu_buffer q)" unfolding nu_size_def by (rule unat_of_nat_le)
  finally show ?thesis .
qed

lemma nu_put_cases:
  fixes buf :: "u8 list"
  assumes "bs \<noteq> [] \<or> k \<le> length buf"
  obtains (fits) "k + length bs \<le> length buf" "nu_put buf k bs = Some (put_bytes k (length bs) bs buf)"
    | (over) d where "nu_put buf k bs = None" "d < length bs" "k + d \<le> length buf \<or> d = 0" "\<not> k + d < length buf"
proof (cases "k + length bs \<le> length buf")
  case True
  then show thesis using fits put_bytes_put by blast
next
  case False
  have "length buf - k < length bs" using False assms by (cases "k \<le> length buf") auto
  then show thesis by (intro over [of "length buf - k"]) (use False in \<open>auto simp: nu_put_def\<close>)
qed

lemma nc_size_phase:
  fixes n msgs
  defines "ts \<equiv> nc_step n msgs"
  assumes k: "k = unat (a AND (nu_size (nc_queue s) - 1))"
  shows "case nu_put (nu_buffer (nc_queue s)) k (le32 (of_nat (length m))) of
      Some b \<Rightarrow> moves_alone ts 0 5 (NwSize a 0 m, s) (NwBytes a 0 m, s\<lparr>nc_queue := (nc_queue s)\<lparr>nu_buffer := b\<rparr>\<rparr>)
    | None \<Rightarrow> \<exists>d s'. moves_alone ts 0 d (NwSize a 0 m, s) (NwOob, s')"
proof (cases rule: nu_put_cases [of "le32 (of_nat (length m))" k "nu_buffer (nc_queue s)", consumes 0, case_names ne fits over])
  case ne
  show ?case by (simp add: le32_def)
next
  case fits
  let ?t = "nc_put k 4 (le32 (of_nat (length m))) s"
  have "moves_alone ts 0 4 (NwSize a 0 m, s) (NwSize a 4 m, ?t)"
    unfolding ts_def by (rule nc_size_run) (use fits k in simp_all)
  moreover have "moves_alone ts 0 1 (NwSize a 4 m, ?t) (NwBytes a 0 m, ?t)"
    by (rule moves_alone_one) (simp add: ts_def nc_step_def)
  ultimately have "moves_alone ts 0 (4 + 1) (NwSize a 0 m, s) (NwBytes a 0 m, ?t)" by (rule moves_alone_trans)
  with fits show ?thesis by (simp add: nc_put_def)
next
  case (over d)
  let ?t = "nc_put k d (le32 (of_nat (length m))) s"
  note same = nc_put_same [OF less_imp_le [OF over(2)] over(3)]
  have d: "d < 4" using over(2) by simp
  have "moves_alone ts 0 d (NwSize a 0 m, s) (NwSize a d m, ?t)"
    unfolding ts_def by (rule nc_size_run) (use over k d in simp_all)
  moreover have "moves_alone ts 0 1 (NwSize a d m, ?t) (NwOob, ?t)"
    by (rule moves_alone_one) (use d over(4) in \<open>simp add: ts_def nc_step_def Let_def same flip: k\<close>)
  ultimately have "moves_alone ts 0 (d + 1) (NwSize a 0 m, s) (NwOob, ?t)" by (rule moves_alone_trans)
  with over(1) show ?thesis by auto
qed

lemma nc_bytes_phase:
  fixes n msgs
  defines "ts \<equiv> nc_step n msgs"
  assumes k: "k = unat (nu_begin (nc_queue s) a (of_nat (length m)))"
  shows "case nu_put (nu_buffer (nc_queue s)) k m of
      Some b \<Rightarrow> moves_alone ts 0 (length m + 1) (NwBytes a 0 m, s) (NwPublish a m, s\<lparr>nc_queue := (nc_queue s)\<lparr>nu_buffer := b\<rparr>\<rparr>)
    | None \<Rightarrow> \<exists>d s'. moves_alone ts 0 d (NwBytes a 0 m, s) (NwOob, s')"
proof (cases rule: nu_put_cases [of m k "nu_buffer (nc_queue s)", consumes 0, case_names ne fits over])
  case ne
  show ?case using nu_begin_le [of "nc_queue s" a] k by auto
next
  case fits
  let ?t = "nc_put k (length m) m s"
  have "moves_alone ts 0 (length m) (NwBytes a 0 m, s) (NwBytes a (length m) m, ?t)"
    unfolding ts_def by (rule nc_bytes_run) (use fits k in simp_all)
  moreover have "moves_alone ts 0 1 (NwBytes a (length m) m, ?t) (NwPublish a m, ?t)"
    by (rule moves_alone_one) (simp add: ts_def nc_step_def)
  ultimately have "moves_alone ts 0 (length m + 1) (NwBytes a 0 m, s) (NwPublish a m, ?t)" by (rule moves_alone_trans)
  with fits show ?thesis by (simp add: nc_put_def)
next
  case (over d)
  let ?t = "nc_put k d m s"
  note same = nc_put_same [OF less_imp_le [OF over(2)] over(3)]
  have "moves_alone ts 0 d (NwBytes a 0 m, s) (NwBytes a d m, ?t)"
    unfolding ts_def by (rule nc_bytes_run) (use over k in simp_all)
  moreover have "moves_alone ts 0 1 (NwBytes a d m, ?t) (NwOob, ?t)"
    by (rule moves_alone_one)
      (use over(2,4) in \<open>simp add: ts_def nc_step_def Let_def same nu_begin_size(1) [OF same(2)] flip: k\<close>)
  ultimately have "moves_alone ts 0 (d + 1) (NwBytes a 0 m, s) (NwOob, ?t)" by (rule moves_alone_trans)
  with over(1) show ?thesis by auto
qed

text \<open>A whole call, alone, does what \<open>nu_serialize\<close> says, with an access outside the array where it
  has none.\<close>

lemma nc_serialize_alone:
  assumes m: "length m < 2 ^ 64"
  shows "case nu_serialize m (of_nat (length m)) (nc_queue s) of
      Some q \<Rightarrow> (\<exists>s'. moves_alone (nc_step n msgs) 0 (length m + 8) (NwLoad m, s) (NwIdle, s') \<and> nc_queue s' = q
        \<and> nc_log s' = nc_log s @ [m])
    | None \<Rightarrow> (\<exists>d s'. moves_alone (nc_step n msgs) 0 d (NwLoad m, s) (NwOob, s'))"
proof -
  let ?ts = "nc_step n msgs" and ?q = "nc_queue s"
  define a where "a = nu_writer_pos ?q"
  define s1 where "s1 = s\<lparr>nc_ok := nc_ok s \<and> nc_room n m s\<rparr>"
  define k where "k = unat (a AND (nu_size ?q - 1))"
  define start where "start = unat (nu_begin ?q a (of_nat (length m)))"
  have "unat (of_nat (length m) :: u64) = length m" using m by (rule unat_of_nat_64)
  then have hd: "le32 (ucast (of_nat (length m) :: u64)) = le32 (of_nat (length m))" by (metis of_nat_unat)
  have seq: "nu_serialize m (of_nat (length m)) ?q =
      (case nu_put (nu_buffer ?q) k (le32 (of_nat (length m))) of None \<Rightarrow> None
       | Some b \<Rightarrow> (case nu_put b start m of None \<Rightarrow> None
         | Some b' \<Rightarrow> Some (?q\<lparr>nu_buffer := b', nu_writer_pos := nu_after ?q a (of_nat (length m))\<rparr>)))"
    unfolding nu_serialize_def nu_write_size_def Let_def hd start_def k_def a_def nu_begin_def nu_after_def nu_wraps_def ..
  have load: "moves_alone ?ts 0 1 (NwLoad m, s) (NwSize a 0 m, s1)"
    by (rule moves_alone_one) (simp add: nc_step_def a_def s1_def)
  have "k = unat (a AND (nu_size (nc_queue s1) - 1))" by (simp add: k_def s1_def)
  note one = nc_size_phase [OF this, where m = m and n = n and msgs = msgs]
  show ?thesis
  proof (cases "nu_put (nu_buffer ?q) k (le32 (of_nat (length m)))")
    case None
    with one obtain d s' where "moves_alone ?ts 0 d (NwSize a 0 m, s1) (NwOob, s')" by (auto simp: s1_def)
    from moves_alone_trans [OF load this] None show ?thesis by (auto simp: seq)
  next
    case (Some b)
    define s2 where "s2 = s1\<lparr>nc_queue := (nc_queue s1)\<lparr>nu_buffer := b\<rparr>\<rparr>"
    from Some one have two: "moves_alone ?ts 0 5 (NwSize a 0 m, s1) (NwBytes a 0 m, s2)" by (simp add: s1_def s2_def)
    have "length b = length (nu_buffer ?q)" using Some by (auto simp: nu_put_def split: if_splits)
    then have sz: "nu_size (nc_queue s2) = nu_size ?q" by (simp add: s1_def s2_def)
    have "start = unat (nu_begin (nc_queue s2) a (of_nat (length m)))" unfolding start_def nu_begin_size(1) [OF sz] ..
    note three = nc_bytes_phase [OF this, where n = n and msgs = msgs]
    note begun = moves_alone_trans [OF load two]
    show ?thesis
    proof (cases "nu_put b start m")
      case None
      with three obtain d s' where "moves_alone ?ts 0 d (NwBytes a 0 m, s2) (NwOob, s')" by (auto simp: s2_def)
      from moves_alone_trans [OF begun this] None Some show ?thesis by (auto simp: seq)
    next
      case (Some b')
      define s3 where "s3 = s2\<lparr>nc_queue := (nc_queue s2)\<lparr>nu_buffer := b'\<rparr>\<rparr>"
      define s4 where "s4 = s3\<lparr>nc_queue := (nc_queue s3)\<lparr>nu_writer_pos := nu_after ?q a (of_nat (length m))\<rparr>, nc_log := nc_log s3 @ [m]\<rparr>"
      from Some three have "moves_alone ?ts 0 (length m + 1) (NwBytes a 0 m, s2) (NwPublish a m, s3)"
        by (simp add: s2_def s3_def)
      note written = moves_alone_trans [OF begun this]
      have "length b' = length (nu_buffer (nc_queue s2))" using Some by (auto simp: nu_put_def s2_def split: if_splits)
      then have "nu_size (nc_queue s3) = nu_size ?q" using sz by (simp add: s3_def)
      note aft = nu_begin_size(2) [OF this, of a "of_nat (length m)"]
      have "moves_alone ?ts 0 1 (NwPublish a m, s3) (NwIdle, s4)"
        by (rule moves_alone_one) (simp add: nc_step_def s4_def aft)
      from moves_alone_trans [OF written this] have "moves_alone ?ts 0 (length m + 8) (NwLoad m, s) (NwIdle, s4)"
        by (simp add: numeral_eq_Suc)
      moreover have "nc_queue s4 = ?q\<lparr>nu_buffer := b', nu_writer_pos := nu_after ?q a (of_nat (length m))\<rparr>"
        "nc_log s4 = nc_log s @ [m]"
        by (simp_all add: s4_def s3_def s2_def s1_def)
      ultimately show ?thesis using \<open>nu_put (nu_buffer ?q) k _ = Some b\<close> Some by (auto simp: seq)
    qed
  qed
qed


lemma nu_get_cases:
  fixes buf :: "u8 list"
  assumes "n \<noteq> 0 \<or> k \<le> length buf"
  obtains (fits) "k + n \<le> length buf" "nu_get buf k n = Some (take n (drop k buf))"
    | (over) d where "nu_get buf k n = None" "d < n" "k + d \<le> length buf \<or> d = 0" "\<not> k + d < length buf"
proof (cases "k + n \<le> length buf")
  case True
  then show thesis using fits by (simp add: nu_get_def)
next
  case False
  have "length buf - k < n" using False assms by (cases "k \<le> length buf") auto
  then show thesis by (intro over [of "length buf - k"]) (use False in \<open>auto simp: nu_get_def\<close>)
qed

lemma nc_size_read_phase:
  fixes n msgs
  defines "ts \<equiv> nc_step n msgs"
  assumes i: "0 < i"
  shows "case nu_read_size (l AND (nu_size (nc_queue s) - 1)) (nu_buffer (nc_queue s)) of
      Some sz \<Rightarrow> moves_alone ts i 5 (NcSize l [], s)
        (NcBytes (nu_after (nc_queue s) l (ucast sz)) (nu_begin (nc_queue s) l (ucast sz)) sz [], s)
    | None \<Rightarrow> \<exists>d s'. moves_alone ts i d (NcSize l [], s) (NcOob, s')"
proof -
  define k where "k = unat (l AND (nu_size (nc_queue s) - 1))"
  let ?bs = "\<lambda>d. take d (drop k (nu_buffer (nc_queue s)))"
  show ?thesis
  proof (cases rule: nu_get_cases [of 4 k "nu_buffer (nc_queue s)", consumes 0, case_names ne fits over])
    case fits
    have "moves_alone ts i 4 (NcSize l [], s) (NcSize l (?bs 4), s)"
      unfolding ts_def by (rule nc_size_read_run [OF i]) (use fits in \<open>simp_all add: k_def\<close>)
    moreover have "length (?bs 4) = 4" using fits(1) by simp
    then have "moves_alone ts i 1 (NcSize l (?bs 4), s) (NcBytes (nu_after (nc_queue s) l (ucast (un_le32 (?bs 4))))
        (nu_begin (nc_queue s) l (ucast (un_le32 (?bs 4)))) (un_le32 (?bs 4)) [], s)"
      by (intro moves_alone_one) (use i in \<open>simp add: ts_def nc_step_def Let_def del: length_take\<close>)
    ultimately have "moves_alone ts i (4 + 1) (NcSize l [], s) (NcBytes (nu_after (nc_queue s) l (ucast (un_le32 (?bs 4))))
        (nu_begin (nc_queue s) l (ucast (un_le32 (?bs 4)))) (un_le32 (?bs 4)) [], s)" by (rule moves_alone_trans)
    with fits(2) show ?thesis by (simp add: nu_read_size_def flip: k_def)
  next
    case (over d)
    have len: "length (?bs d) = d" using over by auto
    have "moves_alone ts i d (NcSize l [], s) (NcSize l (?bs d), s)"
      unfolding ts_def by (rule nc_size_read_run [OF i]) (use over in \<open>simp_all add: k_def\<close>)
    moreover have "moves_alone ts i 1 (NcSize l (?bs d), s) (NcOob, s)"
      by (rule moves_alone_one) (use over(2,4) i in \<open>simp add: ts_def nc_step_def Let_def len del: length_take take_all take_all_iff flip: k_def\<close>)
    ultimately have "moves_alone ts i (d + 1) (NcSize l [], s) (NcOob, s)" by (rule moves_alone_trans)
    with over(1) show ?thesis by (auto simp: nu_read_size_def simp flip: k_def)
  qed simp
qed

lemma nc_bytes_read_phase:
  fixes n msgs
  defines "ts \<equiv> nc_step n msgs"
  assumes i: "0 < i" and start: "sz \<noteq> 0 \<or> unat start \<le> length (nu_buffer (nc_queue s))"
  shows "case nu_get (nu_buffer (nc_queue s)) (unat start) (unat sz) of
      Some bs \<Rightarrow> \<exists>s'. moves_alone ts i (unat sz + 1) (NcBytes l start sz [], s) (NcRet l (Some bs), s')
        \<and> nc_queue s' = nc_queue s \<and> nc_log s' = nc_log s
    | None \<Rightarrow> \<exists>d s'. moves_alone ts i d (NcBytes l start sz [], s) (NcOob, s')"
proof -
  let ?bs = "\<lambda>d. take d (drop (unat start) (nu_buffer (nc_queue s)))"
  show ?thesis
  proof (cases rule: nu_get_cases [of "unat sz" "unat start" "nu_buffer (nc_queue s)", consumes 0, case_names ne fits over])
    case ne
    then show ?case using start by (auto simp: unat_eq_0)
  next
    case fits
    let ?s = "s\<lparr>nc_at := (nc_at s)(i \<mapsto> unat l), nc_got := (nc_got s)(i := nc_got s i @ [?bs (unat sz)])\<rparr>"
    have "moves_alone ts i (unat sz) (NcBytes l start sz [], s) (NcBytes l start sz (?bs (unat sz)), s)"
      unfolding ts_def by (rule nc_bytes_read_run [OF i]) (use fits in simp_all)
    moreover have "length (?bs (unat sz)) = unat sz" using fits(1) by simp
    then have "moves_alone ts i 1 (NcBytes l start sz (?bs (unat sz)), s) (NcRet l (Some (?bs (unat sz))), ?s)"
      by (intro moves_alone_one) (use i in \<open>simp add: ts_def nc_step_def Let_def del: length_take\<close>)
    ultimately have "moves_alone ts i (unat sz + 1) (NcBytes l start sz [], s) (NcRet l (Some (?bs (unat sz))), ?s)"
      by (rule moves_alone_trans)
    with fits(2) show ?thesis by (auto intro!: exI [of _ ?s])
  next
    case (over d)
    have len: "length (?bs d) = d" using over by auto
    have "moves_alone ts i d (NcBytes l start sz [], s) (NcBytes l start sz (?bs d), s)"
      unfolding ts_def by (rule nc_bytes_read_run [OF i]) (use over in simp_all)
    moreover have "moves_alone ts i 1 (NcBytes l start sz (?bs d), s) (NcOob, s)"
      by (rule moves_alone_one) (use over(2,4) i in \<open>simp add: ts_def nc_step_def Let_def len del: length_take take_all take_all_iff\<close>)
    ultimately have "moves_alone ts i (d + 1) (NcBytes l start sz [], s) (NcOob, s)" by (rule moves_alone_trans)
    with over(1) show ?thesis by auto
  qed
qed

lemma nc_deserialize_alone:
  assumes i: "0 < i"
  shows "case nu_try_deserialize (nc_queue s) l of
      Some (r, l') \<Rightarrow> (\<exists>d s'. moves_alone (nc_step n msgs) i d (NcLoad l, s) (NcRet l' r, s')
        \<and> nc_queue s' = nc_queue s \<and> nc_log s' = nc_log s)
    | None \<Rightarrow> (\<exists>d s'. moves_alone (nc_step n msgs) i d (NcLoad l, s) (NcOob, s'))"
proof (cases "nu_writer_pos (nc_queue s) = l")
  case True
  then have "moves_alone (nc_step n msgs) i 1 (NcLoad l, s) (NcRet l None, s)"
    using i by (intro moves_alone_one) (simp add: nc_step_def)
  with True show ?thesis by (auto simp: nu_try_deserialize_def)
next
  case False
  let ?ts = "nc_step n msgs" and ?q = "nc_queue s"
  have load: "moves_alone ?ts i 1 (NcLoad l, s) (NcSize l [], s)"
    using i False by (intro moves_alone_one) (simp add: nc_step_def)
  have seq: "nu_try_deserialize ?q l =
      (case nu_read_size (l AND (nu_size ?q - 1)) (nu_buffer ?q) of None \<Rightarrow> None
       | Some sz \<Rightarrow> (case nu_get (nu_buffer ?q) (unat (nu_begin ?q l (ucast sz))) (unat sz) of None \<Rightarrow> None
         | Some bs \<Rightarrow> Some (Some bs, nu_after ?q l (ucast sz))))"
    using False unfolding nu_try_deserialize_def nu_begin_def nu_after_def nu_wraps_def Let_def
    by (simp add: ac_simps split: option.split)
  note one = nc_size_read_phase [OF i, where l = l and s = s and n = n and msgs = msgs]
  show ?thesis
  proof (cases "nu_read_size (l AND (nu_size ?q - 1)) (nu_buffer ?q)")
    case None
    with one obtain d s' where "moves_alone ?ts i d (NcSize l [], s) (NcOob, s')" by auto
    from moves_alone_trans [OF load this] None show ?thesis by (auto simp: seq)
  next
    case (Some sz)
    let ?l = "nu_after ?q l (ucast sz)" and ?start = "nu_begin ?q l (ucast sz)"
    from one Some have "moves_alone ?ts i 5 (NcSize l [], s) (NcBytes ?l ?start sz [], s)" by simp
    note begun = moves_alone_trans [OF load this]
    have "sz \<noteq> 0 \<or> unat ?start \<le> length (nu_buffer ?q)" using nu_begin_le [of ?q l] by auto
    note two = nc_bytes_read_phase [OF i this, where l = ?l and n = n and msgs = msgs]
    show ?thesis
    proof (cases "nu_get (nu_buffer ?q) (unat ?start) (unat sz)")
      case None
      with two obtain d s' where "moves_alone ?ts i d (NcBytes ?l ?start sz [], s) (NcOob, s')" by auto
      from moves_alone_trans [OF begun this] None Some show ?thesis by (auto simp: seq)
    next
      case (Some bs)
      with two obtain s' where "moves_alone ?ts i (unat sz + 1) (NcBytes ?l ?start sz [], s) (NcRet ?l (Some bs), s')"
        "nc_queue s' = ?q" "nc_log s' = nc_log s" by auto
      with moves_alone_trans [OF begun this(1)] Some \<open>nu_read_size _ _ = Some sz\<close> show ?thesis by (auto simp: seq)
    qed
  qed
qed


section \<open>Properties\<close>

text \<open>C24. A call that does not overlap others, run access by access, is the call of the sequential
  model: \<open>seirialize\<close> takes \<open>length m + 8\<close> steps to the same array and position, and where the
  sequential model has an access outside the array there is one; \<open>try_deserialize\<close> returns the same
  answer and the same position and changes nothing.\<close>

theorem spmc_non_uniform_alone:
  assumes "length m < 2 ^ 64" "0 < i"
  shows "(case nu_serialize m (of_nat (length m)) (nc_queue s) of
      Some q \<Rightarrow> (\<exists>s'. moves_alone (nc_step n msgs) 0 (length m + 8) (NwLoad m, s) (NwIdle, s') \<and> nc_queue s' = q
        \<and> nc_log s' = nc_log s @ [m])
    | None \<Rightarrow> (\<exists>d s'. moves_alone (nc_step n msgs) 0 d (NwLoad m, s) (NwOob, s')))
   \<and> (case nu_try_deserialize (nc_queue s) l of
      Some (r, l') \<Rightarrow> (\<exists>d s'. moves_alone (nc_step n msgs) i d (NcLoad l, s) (NcRet l' r, s')
        \<and> nc_queue s' = nc_queue s \<and> nc_log s' = nc_log s)
    | None \<Rightarrow> (\<exists>d s'. moves_alone (nc_step n msgs) i d (NcLoad l, s) (NcOob, s')))"
  using nc_serialize_alone [OF assms(1), where s = s and n = n and msgs = msgs]
    nc_deserialize_alone [OF assms(2), where s = s and l = l and n = n and msgs = msgs] by blast

theorem spmc_non_uniform_alone_witness:
  "\<exists>q. nu_serialize [7, 9] 2 (nu_init (replicate 16 0)) = Some q
     \<and> (\<exists>s'. moves_alone (nc_step 2 []) 0 10
          (NwLoad [7, 9], \<lparr>nc_queue = nu_init (replicate 16 0), nc_log = [], nc_from = (\<lambda>i. 0), nc_got = (\<lambda>i. []), nc_at = Map.empty, nc_ok = True\<rparr>)
          (NwIdle, s') \<and> nc_queue s' = q)"
proof -
  let ?s = "\<lparr>nc_queue = nu_init (replicate 16 0), nc_log = [], nc_from = (\<lambda>i. 0), nc_got = (\<lambda>i. []), nc_at = Map.empty, nc_ok = True\<rparr>"
  have "nu_serialize [7, 9] 2 (nu_init (replicate 16 0)) \<noteq> None"
    by (simp add: nu_serialize_def nu_init_def nu_size_def nu_write_size_def nu_put_def Let_def)
  then obtain q where q: "nu_serialize [7, 9] 2 (nu_init (replicate 16 0)) = Some q" by blast
  have "length [7 :: u8, 9] < 2 ^ 64" "0 < (1 :: nat)" by simp_all
  from spmc_non_uniform_alone [OF this, where s = ?s and n = 2 and msgs = "[]"] q show ?thesis
    by (intro exI [of _ q]) (auto simp: of_nat_numeral)
qed

end
