(* ===== verification/Nu_Sample.thy ===== *)
theory Nu_Sample
  imports Nu_Concurrent "HOL-Library.Monad_Syntax"
begin

text \<open>
  The program \<open>samples/spmc_bounded_non_uniform_queue/main.cpp\<close>: a client of
  \<open>spmc_bounded_non_uniform_queue\<close> with 1024 bytes. Its first five parts use the queue from one
  thread; they are functions over the calls of \<open>Spmc_Non_Uniform\<close>, each with a new queue whose
  array has any contents. Its last part has a producer and a consumer thread with a counter of the
  messages outstanding; it is composed with the steps of \<open>Nu_Concurrent\<close>. An \<open>int\<close> is a \<open>32 word\<close>,
  stored with the lowest byte first.
\<close>

section \<open>The parts with one thread\<close>

text \<open>What is written to the output, piece by piece.\<close>

datatype piece = Put string | Put_int u32 | Endl

definition serialize_int :: "u32 \<Rightarrow> nu_state \<Rightarrow> nu_state option" where
  "serialize_int v q = nu_serialize (le32 v) 4 q"

text \<open>The callbacks: \<open>memcpy\<close> of at most four bytes over \<open>v\<close>, and of four bytes if there are.\<close>

definition copy_min :: "u32 \<Rightarrow> u8 list \<Rightarrow> u32" where
  "copy_min v bs = un_le32 (take 4 bs @ drop (length bs) (le32 v))"

definition copy_int :: "u32 \<Rightarrow> u8 list \<Rightarrow> u32" where
  "copy_int v bs = (if 4 \<le> length bs then un_le32 (take 4 bs) else v)"

text \<open>A part gives its output and whether \<open>main\<close> goes on; \<open>None\<close> is an access outside the array.\<close>

type_synonym part = "(piece list \<times> bool) option"

definition empty_consumer :: "nu_state \<Rightarrow> part" where
  "empty_consumer q = do {
     (r, c) \<leftarrow> nu_try_deserialize q (nu_create_consumer q);
     Some ([Put ''--- empty consumer ---'', Endl,
            Put (if r \<noteq> None then ''unexpected message'' else ''no message (ok)''), Endl], r = None)
   }"

definition single_int :: "nu_state \<Rightarrow> part" where
  "single_int q0 = do {
     let c = nu_create_consumer q0;
     q \<leftarrow> serialize_int 10 q0;
     (r, c) \<leftarrow> nu_try_deserialize q c;
     Some (case r of
         None \<Rightarrow> ([Put ''--- single int ---'', Endl, Put ''failed to read'', Endl], False)
       | Some bs \<Rightarrow> ([Put ''--- single int ---'', Endl, Put ''value: '', Put_int (copy_min 0 bs), Endl], True))
   }"

fun serialize_ints :: "u32 list \<Rightarrow> nu_state \<Rightarrow> nu_state option" where
  "serialize_ints [] q = Some q"
| "serialize_ints (v # vs) q = do { q \<leftarrow> serialize_int v q; serialize_ints vs q }"

fun read_ints :: "u32 list \<Rightarrow> nu_state \<Rightarrow> u64 \<Rightarrow> part" where
  "read_ints [] q c = Some ([Endl], True)"
| "read_ints (i # is) q c = do {
     (r, c) \<leftarrow> nu_try_deserialize q c;
     case r of
       None \<Rightarrow> Some ([Put ''missing '', Put_int i, Endl], False)
     | Some bs \<Rightarrow> do {
         (out, ok) \<leftarrow> read_ints is q c;
         Some (Put_int (copy_int (- 1) bs) # Put '' '' # out, ok)
       }
   }"

definition five_ints :: "nu_state \<Rightarrow> part" where
  "five_ints q0 = do {
     let c = nu_create_consumer q0;
     q \<leftarrow> serialize_ints [0, 1, 2, 3, 4] q0;
     (out, ok) \<leftarrow> read_ints [0, 1, 2, 3, 4] q c;
     Some (Put ''--- five ints in order ---'' # Endl # out, ok)
   }"

definition consumer_after_writes :: "nu_state \<Rightarrow> part" where
  "consumer_after_writes q0 = do {
     q \<leftarrow> serialize_ints [1, 2, 3] q0;
     let c = nu_create_consumer q;
     q \<leftarrow> serialize_int 4 q;
     (r, c) \<leftarrow> nu_try_deserialize q c;
     Some (case r of
         None \<Rightarrow> ([Put ''--- consumer after some writes ---'', Endl, Put ''failed'', Endl], False)
       | Some bs \<Rightarrow> ([Put ''--- consumer after some writes ---'', Endl,
           Put ''first seen after attach: '', Put_int (copy_int (- 1) bs), Put '' (expect 4)'', Endl], True))
   }"

definition read_into :: "u32 \<Rightarrow> u8 list option \<Rightarrow> u32" where
  "read_into v r = (case r of None \<Rightarrow> v | Some bs \<Rightarrow> copy_int v bs)"

definition two_consumers :: "nu_state \<Rightarrow> part" where
  "two_consumers q0 = do {
     let a = nu_create_consumer q0;
     let b = nu_create_consumer q0;
     q \<leftarrow> serialize_int 100 q0;
     q \<leftarrow> serialize_int 200 q;
     (ra, a) \<leftarrow> nu_try_deserialize q a;
     (rb, b) \<leftarrow> nu_try_deserialize q b;
     let va = read_into (- 1) ra;
     let vb = read_into (- 1) rb;
     (ra', a) \<leftarrow> nu_try_deserialize q a;
     (rb', b) \<leftarrow> nu_try_deserialize q b;
     let va' = read_into va ra';
     let vb' = read_into vb rb';
     Some ([Put ''--- two consumers (broadcast) ---'', Endl,
            Put ''consumer A first: '', Put_int va, Put '' consumer B first: '', Put_int vb, Endl,
            Put ''consumer A second: '', Put_int va', Put '' consumer B second: '', Put_int vb', Endl], True)
   }"

fun run_parts :: "part list \<Rightarrow> part" where
  "run_parts [] = Some ([], True)"
| "run_parts (p # ps) = do {
     (out, ok) \<leftarrow> p;
     if ok then do { (out', ok') \<leftarrow> run_parts ps; Some (out @ out', ok') } else Some (out, False)
   }"

definition sample_sequential :: "(nat \<Rightarrow> u8 list) \<Rightarrow> part" where
  "sample_sequential bufs = run_parts
     [empty_consumer (nu_init (bufs 0)), single_int (nu_init (bufs 1)), five_ints (nu_init (bufs 2)),
      consumer_after_writes (nu_init (bufs 3)), two_consumers (nu_init (bufs 4))]"


subsection \<open>Messages of four bytes\<close>

lemma serialize_ints_all: "serialize_ints vs q = nu_serialize_all (map le32 vs) q"
  by (induction vs arbitrary: q) (auto simp: serialize_int_def split: option.split Option.bind_split)

lemma nu_payload_int:
  assumes "8 dvd p"
  shows "nu_payload 1024 p 4 = p + 4" "p mod 1024 + 4 \<le> 1024"
proof -
  obtain j where j: "p = 8 * j" using assms by blast
  have "p mod 1024 = 8 * (j mod 128)" unfolding j using mult_mod_right [of 8 j 128] by simp
  moreover have "j mod 128 < 128" by simp
  ultimately have "p mod 1024 + 8 \<le> 1024" by linarith
  then show "nu_payload 1024 p 4 = p + 4" "p mod 1024 + 4 \<le> 1024" by (simp_all add: nu_payload_def)
qed

lemma nu_fits_ints: "8 dvd p \<Longrightarrow> nu_fits 1024 p (map le32 vs) \<and> nu_end 1024 p (map le32 vs) = p + 8 * length vs"
proof (induction vs arbitrary: p)
  case (Cons v vs)
  then have "8 dvd p + 8" by simp
  from Cons.IH [OF this] nu_payload_int [OF Cons.prems] show ?case by (simp add: ac_simps)
qed simp

text \<open>Up to 128 numbers, written one after another from a position with nothing unread, are read
  back by a consumer that stands there.\<close>

definition q_at :: "nat \<Rightarrow> nu_state \<Rightarrow> bool" where
  "q_at p q \<longleftrightarrow> length (nu_buffer q) = 1024 \<and> unat (nu_writer_pos q) = p \<and> 8 dvd p \<and> p < 2 ^ 62"

lemma ints_written:
  assumes "q_at p q" "length vs \<le> 128"
  obtains q' where "serialize_ints vs q = Some q'" "q_at (p + 8 * length vs) q' \<or> 2 ^ 62 \<le> p + 8 * length vs"
    and "nu_read_many (length vs) q' (nu_create_consumer q) = Some (map (Some \<circ> le32) vs, nu_writer_pos q')"
proof -
  have g: "nu_geom 10 q" "unat (nu_writer_pos q) = p" "8 dvd p" "p < 2 ^ 62" using assms(1) by (simp_all add: q_at_def nu_geom_def)
  note f = nu_fits_ints [OF g(3), of vs]
  have pw: "(2::nat) ^ 10 = 1024" by simp
  obtain q' where q': "nu_serialize_all (map le32 vs) q = Some q'" "nu_geom 10 q'"
    "unat (nu_writer_pos q') = p + 8 * length vs" "nu_holds 1024 (nu_buffer q') p (map le32 vs) (p + 8 * length vs)"
    using nu_write_batch [OF g(1,2), of "map le32 vs" p "[]"] f g(4) assms(2) by (auto simp: pw)
  have "nu_read_many (length (map le32 vs)) q' (nu_writer_pos q) = Some (map Some (map le32 vs), nu_writer_pos q')"
    using q'(3,4) g(2,4) assms(2) by (intro nu_read_batch [OF q'(2)]) (auto simp: pw)
  then have "nu_read_many (length vs) q' (nu_create_consumer q) = Some (map (Some \<circ> le32) vs, nu_writer_pos q')"
    by (simp add: nu_create_consumer_def)
  moreover have "q_at (p + 8 * length vs) q' \<or> 2 ^ 62 \<le> p + 8 * length vs"
    using q'(2,3) g(3) by (auto simp: q_at_def nu_geom_def)
  ultimately show thesis using that q'(1) by (simp add: serialize_ints_all)
qed


lemma nu_read_many_SucD:
  assumes "nu_read_many (Suc n) q c = Some (r # rs, c2)"
  obtains c1 where "nu_try_deserialize q c = Some (r, c1)" "nu_read_many n q c1 = Some (rs, c2)"
  using assms by (auto split: option.splits prod.splits)

lemma copy_int_le32 [simp]: "copy_int v (le32 w) = w" "copy_min v (le32 w) = w"
  by (simp_all add: copy_int_def copy_min_def un_le32_le32)

lemma read_ints_ok:
  "nu_read_many (length vs) q c = Some (map (Some \<circ> le32) vs, c') \<Longrightarrow> length is = length vs \<Longrightarrow>
    read_ints is q c = Some (concat (map (\<lambda>v. [Put_int v, Put '' '']) vs) @ [Endl], True)"
proof (induction vs arbitrary: c "is")
  case (Cons v vs)
  then obtain i is' where is': "is = i # is'" "length is' = length vs" by (cases "is") auto
  from Cons.prems(1) have "nu_read_many (Suc (length vs)) q c = Some (Some (le32 v) # map (Some \<circ> le32) vs, c')" by simp
  then obtain c1 where c1: "nu_try_deserialize q c = Some (Some (le32 v), c1)"
    "nu_read_many (length vs) q c1 = Some (map (Some \<circ> le32) vs, c')" by (rule nu_read_many_SucD)
  with Cons.IH [OF c1(2) is'(2)] show ?case by (simp add: is'(1))
qed simp

lemma q_at_init: "length buf = 1024 \<Longrightarrow> q_at 0 (nu_init buf)"
  by (simp add: q_at_def nu_init_def)


section \<open>The part with two threads\<close>

text \<open>\<open>ns_sum\<close> and \<open>ns_outstanding\<close> are the atomics \<open>sum\<close> and \<open>outstanding\<close>; \<open>k\<close> is \<open>k_items\<close>.
  The producer is thread 0 and the consumer thread 1; the consumer object is created before.\<close>

record ns_state =
  ns_queue :: nc_state
  ns_sum :: u32
  ns_outstanding :: u32

datatype ns_pc =
  NsFor nat                   \<comment> \<open>producer: before \<open>i < k_items\<close>\<close>
| NsWait nat                  \<comment> \<open>before \<open>outstanding.load\<close>\<close>
| NsAdd nat                   \<comment> \<open>before \<open>outstanding.fetch_add\<close>\<close>
| NsCall nat nc_pc            \<comment> \<open>in \<open>serialize_int\<close>\<close>
| NsProduced
| NsLoop nat u64              \<comment> \<open>consumer: before \<open>received < k_items\<close>\<close>
| NsRead nat nc_pc            \<comment> \<open>in \<open>try_deserialize\<close>, up to \<open>sum.fetch_add\<close>\<close>
| NsSub nat u64 "u8 list"     \<comment> \<open>before \<open>outstanding.fetch_sub\<close>\<close>
| NsConsumed u64

definition ns_init :: "u8 list \<Rightarrow> ns_state" where
  "ns_init buf = \<lparr>ns_queue = \<lparr>nc_queue = nu_init buf, nc_log = [], nc_from = (\<lambda>i. 0), nc_got = (\<lambda>i. []),
     nc_at = Map.empty(1 \<mapsto> 0), nc_ok = True\<rparr>, ns_sum = 0, ns_outstanding = 0\<rparr>"

fun ns_step :: "nat \<Rightarrow> (ns_state, ns_pc) thread_step" where
  "ns_step k t (NsFor i) s = [(if i < k then NsWait i else NsProduced, s)]"
| "ns_step k t (NsWait i) s = [(if sint (ns_outstanding s) \<ge> 32 then NsWait i else NsAdd i, s)]"
| "ns_step k t (NsAdd i) s =
     [(NsCall i (NwLoad (le32 (of_nat i))), s\<lparr>ns_outstanding := ns_outstanding s + 1\<rparr>)]"
| "ns_step k t (NsCall i p) s =
     (if p = NwIdle then [(NsFor (Suc i), s)]
      else map (\<lambda>(p', q). (NsCall i p', s\<lparr>ns_queue := q\<rparr>)) (nc_serialize 2 p (ns_queue s)))"
| "ns_step k t NsProduced s = []"
| "ns_step k t (NsLoop r l) s = [(if r < k then NsRead r (NcLoad l) else NsConsumed l, s)]"
| "ns_step k t (NsRead r p) s =
     (case p of
        NcRet l None \<Rightarrow> [(NsLoop r l, s)]
      | NcRet l (Some bs) \<Rightarrow> [(NsSub r l bs, s\<lparr>ns_sum := ns_sum s + copy_int 0 bs\<rparr>)]
      | _ \<Rightarrow> map (\<lambda>(p', q). (NsRead r p', s\<lparr>ns_queue := q\<rparr>)) (nc_deserialize 1 p (ns_queue s)))"
| "ns_step k t (NsSub r l bs) s = [(NsLoop (Suc r) l, s\<lparr>ns_outstanding := ns_outstanding s - 1\<rparr>)]"
| "ns_step k t (NsConsumed l) s = []"

definition ns_start :: "(ns_state, ns_pc) system \<Rightarrow> bool" where
  "ns_start t \<longleftrightarrow> (\<exists>buf. length buf = 1024 \<and> fst t = ns_init buf) \<and> snd t = [NsFor 0, NsLoop 0 0]"


subsection \<open>The invariant\<close>

fun ns_abs_pc :: "ns_pc \<Rightarrow> nc_pc" where
  "ns_abs_pc (NsCall i p) = p"
| "ns_abs_pc (NsLoop r l) = NcIdle l"
| "ns_abs_pc (NsRead r p) = p"
| "ns_abs_pc (NsSub r l bs) = NcRet l (Some bs)"
| "ns_abs_pc (NsConsumed l) = NcIdle l"
| "ns_abs_pc p = NwIdle"

fun ns_message :: "nc_pc \<Rightarrow> u8 list option" where
  "ns_message (NwLoad m) = Some m"
| "ns_message (NwSize a j m) = Some m"
| "ns_message (NwBytes a j m) = Some m"
| "ns_message (NwPublish a m) = Some m"
| "ns_message p = None"

text \<open>Which program counters the producer can have, with the number of messages it has published
  and the number of times it has raised \<open>outstanding\<close>.\<close>

fun ns_producer :: "nat \<Rightarrow> ns_pc \<Rightarrow> nat \<Rightarrow> nat \<Rightarrow> bool" where
  "ns_producer k (NsFor i) logged added = (i \<le> k \<and> logged = i \<and> added = i)"
| "ns_producer k (NsWait i) logged added = (i < k \<and> logged = i \<and> added = i)"
| "ns_producer k (NsAdd i) logged added = (i < k \<and> logged = i \<and> added = i)"
| "ns_producer k (NsCall i p) logged added = (i < k \<and> added = Suc i
     \<and> (if p = NwIdle then logged = Suc i else logged = i \<and> ns_message p = Some (le32 (of_nat i))))"
| "ns_producer k NsProduced logged added = (logged = k \<and> added = k)"
| "ns_producer k p logged added = False"

text \<open>The same for the consumer: how many messages it has read, added to \<open>sum\<close>, and taken off
  \<open>outstanding\<close>.\<close>

fun ns_consumer :: "nat \<Rightarrow> ns_pc \<Rightarrow> nat \<Rightarrow> nat \<Rightarrow> nat \<Rightarrow> bool" where
  "ns_consumer k (NsLoop r l) got counted subbed = (r \<le> k \<and> got = r \<and> counted = r \<and> subbed = r)"
| "ns_consumer k (NsRead r p) got counted subbed = (r < k \<and> counted = r \<and> subbed = r \<and>
     (case p of
        NcLoad l \<Rightarrow> got = r
      | NcSize l bs \<Rightarrow> got = r
      | NcBytes l start sz bs \<Rightarrow> got = r
      | NcRet l None \<Rightarrow> got = r
      | NcRet l (Some bs) \<Rightarrow> got = Suc r \<and> bs = le32 (of_nat r)
      | _ \<Rightarrow> False))"
| "ns_consumer k (NsSub r l bs) got counted subbed = (r < k \<and> got = Suc r \<and> counted = Suc r \<and> subbed = r)"
| "ns_consumer k (NsConsumed l) got counted subbed = (got = k \<and> counted = k \<and> subbed = k)"
| "ns_consumer k p got counted subbed = False"

definition ns_inv :: "nat \<Rightarrow> ns_state \<Rightarrow> ns_pc list \<Rightarrow> bool" where
  [inv_defs]: "ns_inv k s ps \<longleftrightarrow> nc_ok (ns_queue s) \<and> nc_good 10 2 (ns_queue s) (map ns_abs_pc ps)
     \<and> nc_from (ns_queue s) 1 = 0
     \<and> nc_log (ns_queue s) = map (\<lambda>j. le32 (of_nat j)) [0..<length (nc_log (ns_queue s))]
     \<and> (\<exists>added counted subbed.
          ns_producer k (ps ! 0) (length (nc_log (ns_queue s))) added
        \<and> ns_consumer k (ps ! 1) (length (nc_got (ns_queue s) 1)) counted subbed
        \<and> subbed \<le> added \<and> added \<le> subbed + 32 \<and> (\<forall>i. ps ! 0 = NsAdd i \<longrightarrow> added < subbed + 32)
        \<and> ns_outstanding s = of_nat (added - subbed) \<and> ns_sum s = of_nat (\<Sum>j<counted. j))"

lemma ns_invD:
  assumes "ns_inv k s ps"
  obtains pw pc added counted subbed where "ps = [pw, pc]" "nc_ok (ns_queue s)"
    "nc_good 10 2 (ns_queue s) [ns_abs_pc pw, ns_abs_pc pc]" "nc_from (ns_queue s) 1 = 0"
    "nc_log (ns_queue s) = map (\<lambda>j. le32 (of_nat j)) [0..<length (nc_log (ns_queue s))]"
    "ns_producer k pw (length (nc_log (ns_queue s))) added"
    "ns_consumer k pc (length (nc_got (ns_queue s) 1)) counted subbed"
    "subbed \<le> added" "added \<le> subbed + 32" "\<And>i. pw = NsAdd i \<Longrightarrow> added < subbed + 32"
    "ns_outstanding s = of_nat (added - subbed)" "ns_sum s = of_nat (\<Sum>j<counted. j)"
proof -
  have "length ps = 2" using assms nc_goodD(2) [of 10 2 "ns_queue s" "map ns_abs_pc ps"] by (simp add: ns_inv_def)
  then obtain pw pc where ps: "ps = [pw, pc]" by (auto simp: numeral_2_eq_2 length_Suc_conv)
  show thesis using assms unfolding ns_inv_def ps by (auto intro: that [OF ps])
qed

lemma ns_invI:
  assumes "nc_ok (ns_queue s)"
    "nc_good 10 2 (ns_queue s) [ns_abs_pc pw, ns_abs_pc pc]" "nc_from (ns_queue s) 1 = 0"
    "nc_log (ns_queue s) = map (\<lambda>j. le32 (of_nat j)) [0..<length (nc_log (ns_queue s))]"
    "ns_producer k pw (length (nc_log (ns_queue s))) added"
    "ns_consumer k pc (length (nc_got (ns_queue s) 1)) counted subbed"
    "subbed \<le> added" "added \<le> subbed + 32" "\<And>i. pw = NsAdd i \<Longrightarrow> added < subbed + 32"
    "ns_outstanding s = of_nat (added - subbed)" "ns_sum s = of_nat (\<Sum>j<counted. j)"
  shows "ns_inv k s [pw, pc]"
  unfolding ns_inv_def
  by (intro conjI exI [of _ added] exI [of _ counted] exI [of _ subbed] allI impI) (use assms in simp_all)

text \<open>The queue seen by the two threads: positions are eight bytes a message, and there is room.\<close>

lemma ns_pos:
  assumes "nc_log q = map (\<lambda>j. le32 (of_nat j)) [0..<length (nc_log q)]" "j \<le> length (nc_log q)"
  shows "nc_pos 10 q j = 8 * j"
proof -
  have "take j (nc_log q) = map le32 (map of_nat [0..<j])"
    using assms(2) by (subst assms(1)) (simp add: take_map)
  moreover have "nu_end 1024 0 (map le32 (map of_nat [0..<j])) = 0 + 8 * length (map of_nat [0..<j] :: u32 list)"
    using nu_fits_ints [of 0 "map of_nat [0..<j]"] by blast
  ultimately show ?thesis by (simp add: nc_pos_def)
qed

lemma ns_room:
  assumes good: "nc_good 10 2 q [p0, p1]" and log: "nc_log q = map (\<lambda>j. le32 (of_nat j)) [0..<length (nc_log q)]"
    and rd: "nc_reader 10 q 1" "nc_from q 1 = 0" and lt: "length (nc_log q) < length (nc_got q 1) + 32"
    and k: "length (nc_log q) < 2 ^ 50"
  shows "nc_room 2 (le32 v) q"
proof -
  note sh = nc_goodD(3) [OF good]
  have len: "length (nu_buffer (nc_queue q)) = 1024" using nc_sharedD(2) [OF sh] by simp
  have w: "unat (nu_writer_pos (nc_queue q)) = 8 * length (nc_log q)"
    using nc_sharedD(3) [OF sh] ns_pos [OF log, of "length (nc_log q)"] by simp
  have "nc_next q 1 = length (nc_got q 1)" using rd(2) by (simp add: nc_next_def)
  then have at: "nc_at q 1 = Some (8 * length (nc_got q 1))"
    using rd(1) ns_pos [OF log] by (simp add: nc_reader_def)
  note pay = nu_payload_int [of "8 * length (nc_log q)", simplified]
  have at0: "nc_at q 0 = None" by (rule nc_goodD(4) [OF good])
  show ?thesis
    using lt k pay unfolding nc_room_def Let_def len w by (simp add: all_less_two at [simplified] at0)
qed


subsection \<open>Every step keeps it\<close>

text \<open>What the calls of the queue leave as it is.\<close>

lemma nc_serialize_frame:
  assumes "(p', q') \<in> set (nc_serialize n p q)"
  shows "nc_from q' = nc_from q" "nc_got q' = nc_got q"
    and "p' = NwIdle \<Longrightarrow> nc_log q' = nc_log q @ [the (ns_message p)]"
    and "p' \<noteq> NwOob \<Longrightarrow> p' \<noteq> NwIdle \<Longrightarrow> nc_log q' = nc_log q \<and> ns_message p' = ns_message p"
proof -
  show "nc_from q' = nc_from q" "nc_got q' = nc_got q"
    using assms by (cases p; simp add: Let_def nu_store_def split: if_splits)+
  show "p' = NwIdle \<Longrightarrow> nc_log q' = nc_log q @ [the (ns_message p)]"
    "p' \<noteq> NwOob \<Longrightarrow> p' \<noteq> NwIdle \<Longrightarrow> nc_log q' = nc_log q \<and> ns_message p' = ns_message p"
    using assms by (cases p; simp add: Let_def nu_store_def split: if_splits)+
qed

lemma nc_serialize_ok:
  "(p', q') \<in> set (nc_serialize n p q) \<Longrightarrow> \<forall>m. p \<noteq> NwLoad m \<Longrightarrow> nc_ok q' = nc_ok q"
  by (cases p) (simp_all add: Let_def nu_store_def split: if_splits)

lemma ns_reader:
  assumes "nc_good 10 2 q [p0, p1]" "p1 \<noteq> NcNone" "p1 \<noteq> NcNew"
  shows "nc_reader 10 q 1"
  using nc_goodD(6) [OF assms(1), of 1] assms(2,3) by (cases p1) auto

lemma ns_consumer_reader:
  assumes "ns_consumer k pc got counted subbed" "nc_good 10 2 q [p0, ns_abs_pc pc]"
  shows "nc_reader 10 q 1"
  using assms by (intro ns_reader [OF assms(2)]; cases pc; auto split: nc_pc.splits)+

lemma nc_good_step:
  assumes "nc_good 10 2 q [p0, p1]" "nc_ok q'" "i < 2"
    and "(p', q') \<in> set (nc_step 2 msgs i ([p0, p1] ! i) q)"
  shows "nc_good 10 2 q' ([p0, p1][i := p'])"
  using nc_step_inv [of 10 2 q "[p0, p1]" i p' q' msgs] assms by (simp add: nc_inv_def)

lemma ns_call_step:
  assumes inv: "ns_inv k s [NsCall i p, pc]" and k: "k < 2 ^ 50"
    and st: "(pw', s') \<in> set (ns_step k 0 (NsCall i p) s)"
  shows "ns_inv k s' [pw', pc]"
proof (rule ns_invD [OF inv])
  fix pw0 pc0 added counted subbed
  assume ps: "[NsCall i p, pc] = [pw0, pc0]" and ok: "nc_ok (ns_queue s)"
    and good: "nc_good 10 2 (ns_queue s) [ns_abs_pc pw0, ns_abs_pc pc0]" and frm: "nc_from (ns_queue s) 1 = 0"
    and log: "nc_log (ns_queue s) = map (\<lambda>j. le32 (of_nat j)) [0..<length (nc_log (ns_queue s))]"
    and prod: "ns_producer k pw0 (length (nc_log (ns_queue s))) added"
    and cons: "ns_consumer k pc0 (length (nc_got (ns_queue s) 1)) counted subbed"
    and acc: "subbed \<le> added" "added \<le> subbed + 32"
      "ns_outstanding s = of_nat (added - subbed)" "ns_sum s = of_nat (\<Sum>j<counted. j)"
  have e: "pw0 = NsCall i p" "pc0 = pc" using ps by simp_all
  note good = good [unfolded e ns_abs_pc.simps] and prod = prod [unfolded e ns_producer.simps] and cons = cons [unfolded e]
  show ?thesis
  proof (cases "p = NwIdle")
    case True
    with st have "pw' = NsFor (Suc i)" "s' = s" by simp_all
    with True prod good ok frm log cons acc show ?thesis
      by (intro ns_invI [where added = added and counted = counted and subbed = subbed]) simp_all
  next
    case False
    with st obtain p' q' where st': "(p', q') \<in> set (nc_serialize 2 p (ns_queue s))" "pw' = NsCall i p'" "s' = s\<lparr>ns_queue := q'\<rparr>"
      by auto
    note fr = nc_serialize_frame [OF st'(1)]
    have msg: "ns_message p = Some (le32 (of_nat i))" "length (nc_log (ns_queue s)) = i" "added = Suc i" "i < k"
      using prod False by simp_all
    have "nc_ok q'"
    proof (cases "\<exists>m. p = NwLoad m")
      case True
      then have "p = NwLoad (le32 (of_nat i))" using msg(1) by auto
      moreover have "subbed \<le> length (nc_got (ns_queue s) 1)"
        using cons by (cases pc) (auto split: nc_pc.splits option.splits)
      then have "nc_room 2 (le32 (of_nat i)) (ns_queue s)"
        using msg acc(2) k by (intro ns_room [OF good log ns_consumer_reader [OF cons good] frm]) simp_all
      ultimately show ?thesis using st'(1) ok by simp
    next
      case False
      with nc_serialize_ok [OF st'(1)] ok show ?thesis by blast
    qed
    have "(p', q') \<in> set (nc_step 2 [] 0 ([p, ns_abs_pc pc] ! 0) (ns_queue s))"
      using st'(1) False by (simp add: nc_step_def)
    from nc_good_step [OF good \<open>nc_ok q'\<close> _ this] have good': "nc_good 10 2 q' [p', ns_abs_pc pc]" by simp
    have "p' \<noteq> NwOob" using nc_goodD(5) [OF good'] by auto
    note log' = fr(3) fr(4) [OF this]
    show ?thesis
      unfolding st'
    proof (rule ns_invI [where added = added and counted = counted and subbed = subbed])
      show "nc_log (ns_queue (s\<lparr>ns_queue := q'\<rparr>)) = map (\<lambda>j. le32 (of_nat j)) [0..<length (nc_log (ns_queue (s\<lparr>ns_queue := q'\<rparr>)))]"
        using log' log msg(1,2) by (cases "p' = NwIdle") simp_all
      show "ns_producer k (NsCall i p') (length (nc_log (ns_queue (s\<lparr>ns_queue := q'\<rparr>)))) added"
        using log' msg by (cases "p' = NwIdle") simp_all
    qed (use \<open>nc_ok q'\<close> good' frm cons acc fr in simp_all)
  qed
qed


lemma sint_small: "d < 2 ^ 31 \<Longrightarrow> sint (of_nat d :: u32) = int d"
  by (simp add: signed_of_nat signed_take_bit_int_eq_self)

lemma ns_producer_step:
  assumes inv: "ns_inv k s [pw, pc]" and k: "k < 2 ^ 50"
    and st: "(pw', s') \<in> set (ns_step k 0 pw s)"
  shows "ns_inv k s' [pw', pc]"
proof (cases "\<exists>i p. pw = NsCall i p")
  case True
  then show ?thesis using ns_call_step [OF _ k] inv st by blast
next
  case False
  show ?thesis
  proof (rule ns_invD [OF inv])
    fix pw0 pc0 added counted subbed
    assume ps: "[pw, pc] = [pw0, pc0]" and ok: "nc_ok (ns_queue s)"
      and good0: "nc_good 10 2 (ns_queue s) [ns_abs_pc pw0, ns_abs_pc pc0]" and frm: "nc_from (ns_queue s) 1 = 0"
      and log: "nc_log (ns_queue s) = map (\<lambda>j. le32 (of_nat j)) [0..<length (nc_log (ns_queue s))]"
      and prod0: "ns_producer k pw0 (length (nc_log (ns_queue s))) added"
      and cons0: "ns_consumer k pc0 (length (nc_got (ns_queue s) 1)) counted subbed"
      and acc: "subbed \<le> added" "added \<le> subbed + 32" and lt: "\<And>i. pw0 = NsAdd i \<Longrightarrow> added < subbed + 32"
      and cnt: "ns_outstanding s = of_nat (added - subbed)" "ns_sum s = of_nat (\<Sum>j<counted. j)"
    have e: "pw0 = pw" "pc0 = pc" using ps by simp_all
    note good = good0 [unfolded e] and prod = prod0 [unfolded e] and cons = cons0 [unfolded e]
    have out: "sint (ns_outstanding s) = int (added - subbed)" unfolding cnt(1) using acc(2) by (intro sint_small) simp
    have idle: ?thesis if "s' = s" "ns_abs_pc pw' = ns_abs_pc pw" "ns_producer k pw' (length (nc_log (ns_queue s))) added"
        "\<And>i. pw' = NsAdd i \<Longrightarrow> added < subbed + 32"
      unfolding that(1) using good that(2)
      by (intro ns_invI [OF ok _ frm log that(3) cons acc that(4) cnt]) simp_all
    show ?thesis
    proof (cases pw)
      case (NsFor i)
      with st prod show ?thesis by (intro idle) (auto split: if_splits)
    next
      case (NsWait i)
      with st prod out acc show ?thesis by (intro idle) (auto split: if_splits)
    next
      case (NsAdd i)
      with st have st': "pw' = NsCall i (NwLoad (le32 (of_nat i)))" "s' = s\<lparr>ns_outstanding := ns_outstanding s + 1\<rparr>" by simp_all
      have "(NwLoad (le32 (of_nat i)), ns_queue s) \<in> set (nc_step 2 [le32 (of_nat i)] 0 ([NwIdle, ns_abs_pc pc] ! 0) (ns_queue s))"
        by (simp add: nc_step_def)
      from nc_good_step [OF _ ok _ this] good NsAdd
      have good': "nc_good 10 2 (ns_queue s) [NwLoad (le32 (of_nat i)), ns_abs_pc pc]" by simp
      have "Suc added - subbed = Suc (added - subbed)" using acc(1) by simp
      then show ?thesis
        unfolding st' using good' ok frm log prod cons acc lt [unfolded e, OF NsAdd] cnt NsAdd
        by (intro ns_invI [where added = "Suc added" and counted = counted and subbed = subbed]) simp_all
    qed (use st prod False in auto)
  qed
qed

lemma nc_deserialize_frame:
  assumes "(p', q') \<in> set (nc_deserialize i p q)" "p \<noteq> NcNew"
  shows "nc_from q' = nc_from q" "nc_log q' = nc_log q" "nc_ok q' = nc_ok q" "nc_queue q' = nc_queue q"
    and "(\<exists>l. p = NcLoad l \<and> p' = NcRet l None \<and> nc_got q' = nc_got q)
      \<or> (\<exists>l bs. p' = NcSize l bs \<and> nc_got q' = nc_got q) \<or> (\<exists>l st sz bs. p' = NcBytes l st sz bs \<and> nc_got q' = nc_got q)
      \<or> (\<exists>l bs. p' = NcRet l (Some bs) \<and> nc_got q' i = nc_got q i @ [bs]) \<or> p' = NcOob"
  using assms by (cases p; simp add: Let_def split: if_splits)+

lemma ns_read_step:
  assumes inv: "ns_inv k s [pw, NsRead r p]" and p: "\<forall>l x. p \<noteq> NcRet l x"
    and st: "(pc', s') \<in> set (ns_step k 1 (NsRead r p) s)"
  shows "ns_inv k s' [pw, pc']"
proof (rule ns_invD [OF inv])
  fix pw0 pc0 added counted subbed
  assume ps: "[pw, NsRead r p] = [pw0, pc0]" and ok: "nc_ok (ns_queue s)"
    and good0: "nc_good 10 2 (ns_queue s) [ns_abs_pc pw0, ns_abs_pc pc0]" and frm: "nc_from (ns_queue s) 1 = 0"
    and log: "nc_log (ns_queue s) = map (\<lambda>j. le32 (of_nat j)) [0..<length (nc_log (ns_queue s))]"
    and prod0: "ns_producer k pw0 (length (nc_log (ns_queue s))) added"
    and cons0: "ns_consumer k pc0 (length (nc_got (ns_queue s) 1)) counted subbed"
    and acc: "subbed \<le> added" "added \<le> subbed + 32" and lt: "\<And>i. pw0 = NsAdd i \<Longrightarrow> added < subbed + 32"
    and cnt: "ns_outstanding s = of_nat (added - subbed)" "ns_sum s = of_nat (\<Sum>j<counted. j)"
  have e: "pw0 = pw" "pc0 = NsRead r p" using ps by simp_all
  note good = good0 [unfolded e ns_abs_pc.simps] and prod = prod0 [unfolded e] and cons = cons0 [unfolded e ns_consumer.simps]
  from cons p have new: "p \<noteq> NcNew" "p \<noteq> NcNone" "\<forall>l. p \<noteq> NcIdle l" and r: "r < k" "counted = r" "subbed = r" "length (nc_got (ns_queue s) 1) = r"
    by (auto split: nc_pc.splits)
  from st p obtain p' q' where st': "(p', q') \<in> set (nc_deserialize 1 p (ns_queue s))" "pc' = NsRead r p'" "s' = s\<lparr>ns_queue := q'\<rparr>"
    by (auto split: nc_pc.splits)
  note fr = nc_deserialize_frame [OF st'(1) new(1)]
  have "nc_step 2 [] 1 ([ns_abs_pc pw, p] ! 1) (ns_queue s) = nc_deserialize 1 p (ns_queue s)"
    using new p by (simp add: nc_step_def split: nc_pc.split)
  then have good': "nc_good 10 2 q' [ns_abs_pc pw, p']"
    using nc_good_step [OF good, of q' 1 p' "[]"] fr(3) ok st'(1) by simp
  have cons': "ns_consumer k (NsRead r p') (length (nc_got q' 1)) r r"
    using fr(5)
  proof (elim disjE exE conjE)
    fix l bs assume ret: "p' = NcRet l (Some bs)" "nc_got q' 1 = nc_got (ns_queue s) 1 @ [bs]"
    have "nc_reader 10 q' 1" using nc_goodD(6) [OF good', of 1] ret(1) by simp
    then have *: "nc_got q' 1 = take (length (nc_got q' 1)) (nc_log (ns_queue s))" "length (nc_got q' 1) \<le> length (nc_log (ns_queue s))"
      using fr(1,2) frm by (simp_all add: nc_reader_def nc_next_def)
    have len: "length (nc_got q' 1) = Suc r" using ret(2) r(4) by simp
    have "bs = nc_got q' 1 ! r" using ret(2) r(4) by (simp add: nth_append)
    also have "\<dots> = nc_log (ns_queue s) ! r" using *(1) len by (metis lessI nth_take)
    also have "\<dots> = le32 (of_nat r)" using log *(2) len by (metis (no_types, lifting) Suc_le_lessD nth_map_upt add_0 diff_zero)
    finally show ?thesis using ret r len by simp
  next
    assume "p' = NcOob"
    then show ?thesis using nc_goodD(6) [OF good', of 1] by simp
  qed (use r in simp_all)
  show ?thesis
    unfolding st' by (rule ns_invI [where added = added and counted = counted and subbed = subbed])
      (use ok good' frm log prod cons' acc lt cnt fr r e in simp_all)
qed


lemma ns_consumer_step:
  assumes inv: "ns_inv k s [pw, pc]" and st: "(pc', s') \<in> set (ns_step k 1 pc s)"
  shows "ns_inv k s' [pw, pc']"
proof (cases "\<exists>r p. pc = NsRead r p \<and> (\<forall>l x. p \<noteq> NcRet l x)")
  case True
  then show ?thesis using ns_read_step inv st by blast
next
  case False
  show ?thesis
  proof (rule ns_invD [OF inv])
    fix pw0 pc0 added counted subbed
    assume ps: "[pw, pc] = [pw0, pc0]" and ok: "nc_ok (ns_queue s)"
      and good0: "nc_good 10 2 (ns_queue s) [ns_abs_pc pw0, ns_abs_pc pc0]" and frm: "nc_from (ns_queue s) 1 = 0"
      and log: "nc_log (ns_queue s) = map (\<lambda>j. le32 (of_nat j)) [0..<length (nc_log (ns_queue s))]"
      and prod0: "ns_producer k pw0 (length (nc_log (ns_queue s))) added"
      and cons0: "ns_consumer k pc0 (length (nc_got (ns_queue s) 1)) counted subbed"
      and acc: "subbed \<le> added" "added \<le> subbed + 32" and lt: "\<And>i. pw0 = NsAdd i \<Longrightarrow> added < subbed + 32"
      and cnt: "ns_outstanding s = of_nat (added - subbed)" "ns_sum s = of_nat (\<Sum>j<counted. j)"
    have e: "pw0 = pw" "pc0 = pc" using ps by simp_all
    note good = good0 [unfolded e] and prod = prod0 [unfolded e] and cons = cons0 [unfolded e]
    have move: "nc_good 10 2 (ns_queue s) [ns_abs_pc pw, p']"
      if "(p', ns_queue s) \<in> set (nc_step 2 [] 1 (ns_abs_pc pc) (ns_queue s))" for p'
      using nc_good_step [OF good ok, of 1 p' "[]"] that by simp
    show ?thesis
    proof (cases pc)
      case (NsLoop r l)
      have "nc_good 10 2 (ns_queue s) [ns_abs_pc pw, ns_abs_pc pc']"
        using move [of "NcLoad l"] good st NsLoop by (auto simp: nc_step_def split: if_splits)
      with st NsLoop cons ok frm log prod acc lt cnt e show ?thesis
        by (intro ns_invI [where added = added and counted = counted and subbed = subbed]) (auto split: if_splits)
    next
      case (NsRead r p)
      with False obtain l x where p: "p = NcRet l x" by auto
      show ?thesis
      proof (cases x)
        case None
        have "nc_good 10 2 (ns_queue s) [ns_abs_pc pw, NcIdle l]"
          using move [of "NcIdle l"] NsRead p by (simp add: nc_step_def)
        with st NsRead p None cons ok frm log prod acc lt cnt e show ?thesis
          by (intro ns_invI [where added = added and counted = counted and subbed = subbed]) simp_all
      next
        case (Some bs)
        with st NsRead p have st': "pc' = NsSub r l bs" "s' = s\<lparr>ns_sum := ns_sum s + copy_int 0 bs\<rparr>" by simp_all
        with NsRead p Some cons good ok frm log prod acc lt cnt e show ?thesis
          by (intro ns_invI [where added = added and counted = "Suc r" and subbed = r]) simp_all
      qed
    next
      case (NsSub r l bs)
      with st have st': "pc' = NsLoop (Suc r) l" "s' = s\<lparr>ns_outstanding := ns_outstanding s - 1\<rparr>" by simp_all
      have got: "length (nc_got (ns_queue s) 1) = Suc r" "subbed = r" "counted = Suc r" "r < k" using cons NsSub by simp_all
      have "nc_reader 10 (ns_queue s) 1" by (rule ns_consumer_reader [OF cons good])
      then have "Suc r \<le> length (nc_log (ns_queue s))" using got frm by (simp add: nc_reader_def nc_next_def)
      moreover have "length (nc_log (ns_queue s)) \<le> added" using prod by (cases pw) (auto split: if_splits)
      ultimately have ra: "Suc r \<le> added" by simp
      then have "added - r = Suc (added - Suc r)" by simp
      moreover have "nc_good 10 2 (ns_queue s) [ns_abs_pc pw, NcIdle l]"
        using move [of "NcIdle l"] NsSub by (simp add: nc_step_def)
      ultimately show ?thesis
        unfolding st' using got ok frm log prod acc lt cnt e ra
        by (intro ns_invI [where added = added and counted = "Suc r" and subbed = "Suc r"]) auto
    qed (use st cons in auto)
  qed
qed

lemma ns_start_inv:
  assumes "ns_start (s, ps)"
  shows "ns_inv k s ps"
proof -
  obtain buf where buf: "length buf = 1024" "s = ns_init buf" and ps: "ps = [NsFor 0, NsLoop 0 0]"
    using assms by (auto simp: ns_start_def)
  show ?thesis
    unfolding ps
    by (rule ns_invI [where added = 0 and counted = 0 and subbed = 0])
      (use buf in \<open>simp_all add: ns_init_def nc_good_def nc_shared_def nu_geom_def nu_init_def nc_pos_def
        nc_reader_def nc_next_def all_less_two\<close>)
qed

interpretation ns: protocol "ns_step (k mod 2 ^ 50)" ns_start "ns_inv (k mod 2 ^ 50)"
proof
  fix s ps i p' s'
  assume inv: "ns_inv (k mod 2 ^ 50) s ps" and i: "i < length ps" and st: "(p', s') \<in> set (ns_step (k mod 2 ^ 50) i (ps ! i) s)"
  have small: "k mod 2 ^ 50 < 2 ^ 50" by simp
  obtain pw pc where ps: "ps = [pw, pc]" by (rule ns_invD [OF inv])
  have "ns_step (k mod 2 ^ 50) i (ps ! i) s = ns_step (k mod 2 ^ 50) i' (ps ! i) s" for i'
    by (cases "ps ! i") simp_all
  with i ps st consider "i = 0" "(p', s') \<in> set (ns_step (k mod 2 ^ 50) 0 pw s)"
    | "i = 1" "(p', s') \<in> set (ns_step (k mod 2 ^ 50) 1 pc s)" by (auto simp: less_Suc_eq)
  then show "ns_inv (k mod 2 ^ 50) s' (ps[i := p'])"
  proof cases
    case 1
    then show ?thesis using ns_producer_step [OF inv [unfolded ps] small] ps by simp
  next
    case 2
    then show ?thesis using ns_consumer_step [OF inv [unfolded ps]] ps by simp
  qed
qed (rule ns_start_inv)


section \<open>Properties\<close>

lemma empty_consumer_ok:
  "empty_consumer (nu_init buf) = Some
    ([Put ''--- empty consumer ---'', Endl, Put ''no message (ok)'', Endl], True)"
  by (simp add: empty_consumer_def nu_try_deserialize_def nu_create_consumer_def)

lemma serialize_ints_one: "serialize_ints [v] q = serialize_int v q"
  by (cases "serialize_int v q") simp_all

lemma single_int_ok:
  assumes "length buf = 1024"
  shows "single_int (nu_init buf) = Some
    ([Put ''--- single int ---'', Endl, Put ''value: '', Put_int 10, Endl], True)"
proof (rule ints_written [OF q_at_init [OF assms], of "[10]"])
  fix q
  assume q: "serialize_ints [10] (nu_init buf) = Some q"
    "nu_read_many (length [10 :: u32]) q (nu_create_consumer (nu_init buf)) = Some (map (Some \<circ> le32) [10], nu_writer_pos q)"
  have "nu_read_many (Suc 0) q (nu_create_consumer (nu_init buf)) = Some (Some (le32 10) # [], nu_writer_pos q)"
    using q(2) by simp
  then obtain c where "nu_try_deserialize q (nu_create_consumer (nu_init buf)) = Some (Some (le32 10), c)"
    by (rule nu_read_many_SucD)
  with q(1) [unfolded serialize_ints_one] show ?thesis by (simp add: single_int_def)
qed simp

lemma five_ints_ok:
  assumes "length buf = 1024"
  shows "five_ints (nu_init buf) = Some (Put ''--- five ints in order ---'' # Endl
    # concat (map (\<lambda>v. [Put_int v, Put '' '']) [0, 1, 2, 3, 4]) @ [Endl], True)"
proof (rule ints_written [OF q_at_init [OF assms], of "[0, 1, 2, 3, 4]"])
  fix q
  assume q: "serialize_ints [0, 1, 2, 3, 4] (nu_init buf) = Some q"
    "nu_read_many (length [0, 1, 2, 3, 4 :: u32]) q (nu_create_consumer (nu_init buf))
      = Some (map (Some \<circ> le32) [0, 1, 2, 3, 4], nu_writer_pos q)"
  have "read_ints [0, 1, 2, 3, 4] q (nu_create_consumer (nu_init buf)) =
      Some (concat (map (\<lambda>v. [Put_int v, Put '' '']) [0, 1, 2, 3, 4]) @ [Endl], True)"
    by (rule read_ints_ok [OF q(2)]) simp
  with q(1) show ?thesis unfolding five_ints_def Let_def by (simp del: serialize_ints.simps read_ints.simps)
qed simp

lemma consumer_after_writes_ok:
  assumes "length buf = 1024"
  shows "consumer_after_writes (nu_init buf) = Some ([Put ''--- consumer after some writes ---'', Endl,
    Put ''first seen after attach: '', Put_int 4, Put '' (expect 4)'', Endl], True)"
proof (rule ints_written [OF q_at_init [OF assms], of "[1, 2, 3]"])
  fix q
  assume q: "serialize_ints [1, 2, 3] (nu_init buf) = Some q"
    "q_at (0 + 8 * length [1, 2, 3 :: u32]) q \<or> 2 ^ 62 \<le> 0 + 8 * length [1, 2, 3 :: u32]"
  then have at: "q_at 24 q" by simp
  show ?thesis
  proof (rule ints_written [OF at, of "[4]"])
    fix q'
    assume q': "serialize_ints [4] q = Some q'"
      "nu_read_many (length [4 :: u32]) q' (nu_create_consumer q) = Some (map (Some \<circ> le32) [4], nu_writer_pos q')"
    have "nu_read_many (Suc 0) q' (nu_create_consumer q) = Some (Some (le32 4) # [], nu_writer_pos q')"
      using q'(2) by simp
    then obtain c where "nu_try_deserialize q' (nu_create_consumer q) = Some (Some (le32 4), c)"
      by (rule nu_read_many_SucD)
    with q(1) q'(1) [unfolded serialize_ints_one] show ?thesis
      unfolding consumer_after_writes_def by (simp del: serialize_ints.simps)
  qed simp
qed simp

lemma two_consumers_ok:
  assumes "length buf = 1024"
  shows "two_consumers (nu_init buf) = Some ([Put ''--- two consumers (broadcast) ---'', Endl,
    Put ''consumer A first: '', Put_int 100, Put '' consumer B first: '', Put_int 100, Endl,
    Put ''consumer A second: '', Put_int 200, Put '' consumer B second: '', Put_int 200, Endl], True)"
proof (rule ints_written [OF q_at_init [OF assms], of "[100, 200]"])
  fix q
  assume q: "serialize_ints [100, 200] (nu_init buf) = Some q"
    "nu_read_many (length [100, 200 :: u32]) q (nu_create_consumer (nu_init buf)) = Some (map (Some \<circ> le32) [100, 200], nu_writer_pos q)"
  have "nu_read_many (Suc (Suc 0)) q (nu_create_consumer (nu_init buf)) = Some (Some (le32 100) # [Some (le32 200)], nu_writer_pos q)"
    using q(2) by simp
  then obtain c where c: "nu_try_deserialize q (nu_create_consumer (nu_init buf)) = Some (Some (le32 100), c)"
    "nu_read_many (Suc 0) q c = Some ([Some (le32 200)], nu_writer_pos q)"
    by (rule nu_read_many_SucD)
  from c(2) obtain c' where "nu_try_deserialize q c = Some (Some (le32 200), c')" by (rule nu_read_many_SucD)
  moreover obtain q1 where "serialize_int 100 (nu_init buf) = Some q1" "serialize_int 200 q1 = Some q"
    using q(1) by (auto split: Option.bind_splits)
  ultimately show ?thesis using c(1) by (simp add: two_consumers_def read_into_def Let_def)
qed simp

text \<open>C33. The parts of the sample with one thread, from queues whose arrays have any contents, store
  and read nothing outside the array, never return 1, and print what they should: no message, the
  value 10, the values 0 to 4 in order, 4 as the first message seen after attaching, and 100 and 200
  at both consumers.\<close>

theorem sample_sequential_output:
  assumes "\<forall>k < 5. length (bufs k) = 1024"
  shows "sample_sequential bufs = Some (
    [Put ''--- empty consumer ---'', Endl, Put ''no message (ok)'', Endl,
     Put ''--- single int ---'', Endl, Put ''value: '', Put_int 10, Endl,
     Put ''--- five ints in order ---'', Endl, Put_int 0, Put '' '', Put_int 1, Put '' '', Put_int 2, Put '' '',
     Put_int 3, Put '' '', Put_int 4, Put '' '', Endl,
     Put ''--- consumer after some writes ---'', Endl,
     Put ''first seen after attach: '', Put_int 4, Put '' (expect 4)'', Endl,
     Put ''--- two consumers (broadcast) ---'', Endl,
     Put ''consumer A first: '', Put_int 100, Put '' consumer B first: '', Put_int 100, Endl,
     Put ''consumer A second: '', Put_int 200, Put '' consumer B second: '', Put_int 200, Endl], True)"
proof -
  have "length (bufs 1) = 1024" "length (bufs 2) = 1024" "length (bufs 3) = 1024" "length (bufs 4) = 1024"
    using assms by simp_all
  then show ?thesis
    unfolding sample_sequential_def
    by (simp add: empty_consumer_ok single_int_ok five_ints_ok consumer_after_writes_ok two_consumers_ok)
qed

theorem sample_sequential_output_witness:
  "\<exists>out. sample_sequential (\<lambda>k. replicate 1024 7) = Some (out, True) \<and> length out = 40"
  using sample_sequential_output [of "\<lambda>k. replicate 1024 7"] by simp

text \<open>C17. The part of the sample with a producer and a consumer thread, for any number \<open>k\<close> of
  messages below \<open>2 ^ 50\<close>: no access is outside the array; when both threads are through, \<open>sum\<close> is the
  sum of the numbers below \<open>k\<close> as an \<open>int\<close>, the value the program calls expected (2016 for its 64), and nothing is
  outstanding; and whenever the consumer is still to receive something and finds the queue empty,
  the producer is neither through nor kept waiting by \<open>outstanding\<close>.\<close>

theorem sample_threads_sum:
  assumes "reach ns_start (interleave (ns_step k)) (s, ps)" "k < 2 ^ 50"
  shows "ns_abs_pc (ps ! 0) \<noteq> NwOob \<and> ns_abs_pc (ps ! 1) \<noteq> NcOob
    \<and> (\<forall>l. ps ! 0 = NsProduced \<and> ps ! 1 = NsConsumed l \<longrightarrow> ns_sum s = of_nat ((k - 1) * k div 2) \<and> ns_outstanding s = 0)
    \<and> (\<forall>r l. ps ! 1 = NsLoop r l \<and> r < k \<and> l = nu_writer_pos (nc_queue (ns_queue s)) \<longrightarrow>
        ps ! 0 \<noteq> NsProduced \<and> sint (ns_outstanding s) < 32)"
proof -
  have inv: "ns_inv k s ps" using ns.reach_inv [of k s ps] assms by simp
  show ?thesis
  proof (rule ns_invD [OF inv])
    fix pw pc added counted subbed
    assume ps: "ps = [pw, pc]" and good: "nc_good 10 2 (ns_queue s) [ns_abs_pc pw, ns_abs_pc pc]" and frm: "nc_from (ns_queue s) 1 = 0"
      and prod: "ns_producer k pw (length (nc_log (ns_queue s))) added"
      and cons: "ns_consumer k pc (length (nc_got (ns_queue s) 1)) counted subbed"
      and acc: "subbed \<le> added" "added \<le> subbed + 32"
      and cnt: "ns_outstanding s = of_nat (added - subbed)" "ns_sum s = of_nat (\<Sum>j<counted. j)"
    have sum: "(\<Sum>j<k. j) = (k - 1) * k div 2" by (simp add: lessThan_atLeast0 Sum_Ico_nat mult.commute)
    have out: "sint (ns_outstanding s) = int (added - subbed)" unfolding cnt(1) using acc(2) by (intro sint_small) simp
    have "ps ! 0 \<noteq> NsProduced \<and> sint (ns_outstanding s) < 32"
      if pc: "pc = NsLoop r l" "r < k" "l = nu_writer_pos (nc_queue (ns_queue s))" for r l
    proof -
      have "nc_reader 10 (ns_queue s) 1" by (rule ns_consumer_reader [OF cons good])
      moreover have "nc_at (ns_queue s) 1 = Some (unat (nu_writer_pos (nc_queue (ns_queue s))))"
        using nc_goodD(6) [OF good, of 1] pc by simp
      ultimately have "nc_got (ns_queue s) 1 = nc_log (ns_queue s)"
        using nc_reader_at_rest [OF _ nc_goodD(3) [OF good], of 1] frm by simp
      then have "length (nc_log (ns_queue s)) = r" "subbed = r" using cons pc(1) by simp_all
      with prod pc(2) out show ?thesis unfolding ps by (cases pw) (auto split: if_splits)
    qed
    moreover have "ns_sum s = of_nat ((k - 1) * k div 2) \<and> ns_outstanding s = 0" if "pw = NsProduced" "pc = NsConsumed l" for l
    proof -
      have "counted = k" "added = k" "subbed = k" using prod cons that by simp_all
      then show ?thesis using cnt unfolding \<open>counted = k\<close> sum by simp
    qed
    moreover have "ns_abs_pc pw \<noteq> NwOob" using nc_goodD(5) [OF good] by auto
    moreover have "ns_abs_pc pc \<noteq> NcOob" using nc_goodD(6) [OF good, of 1] by auto
    ultimately show ?thesis unfolding ps by auto
  qed
qed


text \<open>Two messages, to the end of both threads.\<close>

theorem sample_threads_sum_witness:
  "\<exists>s :: ns_state. reach ns_start (interleave (ns_step 2)) (s, [NsProduced, NsConsumed 16]) \<and> ns_sum s = 1 \<and> ns_outstanding s = 0"
proof -
  obtain buf :: "u8 list" where buf: "length buf = 1024" by (rule that [of "replicate 1024 0"]) (rule length_replicate)
  let ?sched = "replicate 33 (0, 0) @ replicate 29 (1, 0)"
  have "map_option snd (run_sched (ns_step 2) ?sched (ns_init buf, [NsFor 0, NsLoop 0 0])) = Some [NsProduced, NsConsumed 16]"
    using buf by (simp add: ns_init_def nc_run nth_list_update copy_int_def)
  then obtain s where s: "run_sched (ns_step 2) ?sched (ns_init buf, [NsFor 0, NsLoop 0 0]) = Some (s, [NsProduced, NsConsumed 16])"
    by auto
  have r: "reach ns_start (interleave (ns_step 2)) (s, [NsProduced, NsConsumed 16])"
    by (rule run_sched_reach_start [OF _ s]) (use buf in \<open>auto simp: ns_start_def\<close>)
  from sample_threads_sum [OF r] have "ns_sum s = of_nat ((2 - 1) * 2 div 2) \<and> ns_outstanding s = 0" by simp
  with r show ?thesis by auto
qed

end
