(* ===== verification/Sync_Sample.thy ===== *)
theory Sync_Sample
  imports Recursive_RW_Spinlock
begin

text \<open>
  The program \<open>samples/sync/main.cpp\<close>: threads that push into a vector in an
  \<open>object_safe_wrapper\<close> over \<open>recursive_rw_spinlock\<close>, and threads that lock the wrapper shared
  three times and walk through the vector. The threads \<open>0, ..., n - 1\<close> push, \<open>m\<close> times each their
  number; the others walk \<open>rounds\<close> times. It is composed with the steps of
  \<open>Recursive_RW_Spinlock\<close>; \<open>push_back\<close> reads the vector in one step and writes it in another, and a
  walk reads the size and then the elements one by one. \<open>sy_seen\<close> records what the walks gave.
\<close>

record sy_state =
  sy_guard :: rrw_state
  sy_vector :: "nat list"
  sy_seen :: "nat list list"

datatype sy_pc =
  SyLock nat rrw_pc          \<comment> \<open>pusher with that many pushes done: the constructor of its proxy\<close>
| SyRead nat                 \<comment> \<open>push_back: before the vector is read\<close>
| SyWrite nat "nat list"     \<comment> \<open>push_back: before it is written\<close>
| SyUnlock nat rrw_pc        \<comment> \<open>the destructor of the proxy\<close>
| SyEnter nat rrw_pc         \<comment> \<open>walker with that many rounds done: its three shared locks\<close>
| SyWalk nat nat "nat list"  \<comment> \<open>in the loop: the size, the elements so far\<close>
| SyExit nat rrw_pc          \<comment> \<open>the destructors of the three locks\<close>
| SyOob                      \<comment> \<open>an element past the end\<close>

definition sy_init :: sy_state where
  "sy_init = \<lparr>sy_guard = rrw_init, sy_vector = [], sy_seen = []\<rparr>"

fun sy_pusher :: "bool \<Rightarrow> u32 \<Rightarrow> nat \<Rightarrow> nat \<Rightarrow> sy_pc \<Rightarrow> sy_state \<Rightarrow> (sy_pc \<times> sy_state) list" where
  "sy_pusher checks me m i (SyLock j q) s =
     (if q = QReady [] then (if j < m then [(SyLock j (QxCheck []), s)] else [])
      else if q = QReady [Excl] then [(SyRead j, s)]
      else case rrw_lock checks me q (sy_guard s) of (q', g) \<Rightarrow> [(SyLock j q', s\<lparr>sy_guard := g\<rparr>)])"
| "sy_pusher checks me m i (SyRead j) s = [(SyWrite j (sy_vector s), s)]"
| "sy_pusher checks me m i (SyWrite j xs) s = [(SyUnlock j (QxDec [Excl]), s\<lparr>sy_vector := xs @ [i]\<rparr>)]"
| "sy_pusher checks me m i (SyUnlock j q) s =
     (if q = QReady [] then [(SyLock (Suc j) (QReady []), s)]
      else case rrw_unlock checks me q (sy_guard s) of (q', g) \<Rightarrow> [(SyUnlock j q', s\<lparr>sy_guard := g\<rparr>)])"
| "sy_pusher checks me m i p s = []"

fun sy_walker :: "bool \<Rightarrow> u32 \<Rightarrow> nat \<Rightarrow> sy_pc \<Rightarrow> sy_state \<Rightarrow> (sy_pc \<times> sy_state) list" where
  "sy_walker checks me rounds (SyEnter r q) s =
     (case q of
        QReady st \<Rightarrow>
          (if st = [Shrd, Shrd, Shrd] then [(SyWalk r (length (sy_vector s)) [], s)]
           else if st = [] \<and> r = rounds then []
           else [(SyEnter r (QsCheck st), s)])
      | _ \<Rightarrow> (case rrw_lock_shared checks me q (sy_guard s) of (q', g) \<Rightarrow> [(SyEnter r q', s\<lparr>sy_guard := g\<rparr>)]))"
| "sy_walker checks me rounds (SyWalk r sz xs) s =
     (if length xs = sz then [(SyExit r (QReady [Shrd, Shrd, Shrd]), s\<lparr>sy_seen := sy_seen s @ [xs]\<rparr>)]
      else if length xs < length (sy_vector s) then [(SyWalk r sz (xs @ [sy_vector s ! length xs]), s)]
      else [(SyOob, s)])"
| "sy_walker checks me rounds (SyExit r q) s =
     (case q of
        QReady st \<Rightarrow> (if st = [] then [(SyEnter (Suc r) (QReady []), s)] else [(SyExit r (QsTest st), s)])
      | _ \<Rightarrow> (case rrw_unlock_shared q (sy_guard s) of (q', g) \<Rightarrow> [(SyExit r q', s\<lparr>sy_guard := g\<rparr>)]))"
| "sy_walker checks me rounds p s = []"

definition sy_step :: "bool \<Rightarrow> (nat \<Rightarrow> u32) \<Rightarrow> nat \<Rightarrow> nat \<Rightarrow> nat \<Rightarrow> (sy_state, sy_pc) thread_step" where
  "sy_step checks tid n m rounds i p s =
     (if i < n then sy_pusher checks (tid i) m i p s else sy_walker checks (tid i) rounds p s)"

definition sy_start :: "(nat \<Rightarrow> u32) \<Rightarrow> nat \<Rightarrow> (sy_state, sy_pc) system \<Rightarrow> bool" where
  "sy_start tid n t \<longleftrightarrow> fst t = sy_init \<and> n \<le> length (snd t)
     \<and> rrw_start tid (rrw_init, replicate (length (snd t)) (QReady []))
     \<and> (\<forall>i < length (snd t). snd t ! i = (if i < n then SyLock 0 (QReady []) else SyEnter 0 (QReady [])))"


section \<open>The lock inside\<close>

fun sy_lock_pc :: "sy_pc \<Rightarrow> rrw_pc" where
  "sy_lock_pc (SyLock j q) = q"
| "sy_lock_pc (SyRead j) = QReady [Excl]"
| "sy_lock_pc (SyWrite j xs) = QReady [Excl]"
| "sy_lock_pc (SyUnlock j q) = q"
| "sy_lock_pc (SyEnter r q) = q"
| "sy_lock_pc (SyWalk r sz xs) = QReady [Shrd, Shrd, Shrd]"
| "sy_lock_pc (SyExit r q) = q"
| "sy_lock_pc SyOob = QReady [Shrd, Shrd, Shrd]"

fun sy_pushed :: "sy_pc \<Rightarrow> nat" where
  "sy_pushed (SyLock j q) = j"
| "sy_pushed (SyRead j) = j"
| "sy_pushed (SyWrite j xs) = j"
| "sy_pushed (SyUnlock j q) = Suc j"
| "sy_pushed p = 0"

text \<open>The program counters of the two kinds of threads, with the brackets they may have open.\<close>

fun sy_shape :: "bool \<Rightarrow> sy_pc \<Rightarrow> bool" where
  "sy_shape pusher (SyLock j q) = (pusher \<and> (rrw_stack q = [] \<or> q = QReady [Excl]))"
| "sy_shape pusher (SyRead j) = pusher"
| "sy_shape pusher (SyWrite j xs) = pusher"
| "sy_shape pusher (SyUnlock j q) = (pusher \<and> (rrw_stack q = [Excl] \<or> rrw_stack q = []))"
| "sy_shape pusher (SyEnter r q) = (\<not> pusher \<and> (rrw_stack q \<in> {[], [Shrd], [Shrd, Shrd]} \<or> q = QReady [Shrd, Shrd, Shrd]))"
| "sy_shape pusher (SyWalk r sz xs) = (\<not> pusher)"
| "sy_shape pusher (SyExit r q) = (\<not> pusher \<and> rrw_stack q \<in> {[], [Shrd], [Shrd, Shrd], [Shrd, Shrd, Shrd]})"
| "sy_shape pusher SyOob = False"

text \<open>What a thread in the middle of a use knows of the vector.\<close>

fun sy_knows :: "nat list \<Rightarrow> sy_pc \<Rightarrow> bool" where
  "sy_knows v (SyWrite j xs) = (xs = v)"
| "sy_knows v (SyWalk r sz xs) = (sz = length v \<and> length xs \<le> sz \<and> xs = take (length xs) v)"
| "sy_knows v p = True"

definition sy_inv :: "(nat \<Rightarrow> u32) \<Rightarrow> nat \<Rightarrow> sy_state \<Rightarrow> sy_pc list \<Rightarrow> bool" where
  [inv_defs]: "sy_inv tid n s ps \<longleftrightarrow> n \<le> length ps \<and> rrw_inv tid (sy_guard s) (map sy_lock_pc ps)
     \<and> (\<forall>i < length ps. sy_shape (i < n) (ps ! i) \<and> sy_knows (sy_vector s) (ps ! i))
     \<and> (\<forall>i < n. count_list (sy_vector s) i = sy_pushed (ps ! i)) \<and> set (sy_vector s) \<subseteq> {..<n}
     \<and> (\<forall>xs \<in> set (sy_seen s). \<exists>k. xs = take k (sy_vector s))"

lemma sy_knows_held:
  "sy_knows v p \<or> rrw_writing (sy_lock_pc p) \<or> rrw_reading (sy_lock_pc p)"
  by (cases p) (simp_all add: rrw_writing_def rrw_reading_def)

lemma sy_pusher_step:
  assumes "(p', s') \<in> set (sy_pusher checks (tid i) m i p s)" "sy_shape True p"
  shows "sy_shape True p'"
    and "(sy_lock_pc p', sy_guard s') = (sy_lock_pc p, sy_guard s)
      \<or> (sy_lock_pc p', sy_guard s') \<in> set (rrw_step checks tid i (sy_lock_pc p) (sy_guard s))"
    and "sy_vector s' = sy_vector s \<and> sy_pushed p' = sy_pushed p \<and> (sy_knows (sy_vector s) p \<longrightarrow> sy_knows (sy_vector s) p')
      \<or> (\<exists>j xs. p = SyWrite j xs \<and> sy_vector s' = xs @ [i] \<and> sy_pushed p' = Suc (sy_pushed p) \<and> (\<forall>v. sy_knows v p'))"
    and "sy_seen s' = sy_seen s"
proof -
  show "sy_seen s' = sy_seen s" using assms(1) by (cases p) (auto split: if_splits prod.splits)
  show "sy_vector s' = sy_vector s \<and> sy_pushed p' = sy_pushed p \<and> (sy_knows (sy_vector s) p \<longrightarrow> sy_knows (sy_vector s) p')
      \<or> (\<exists>j xs. p = SyWrite j xs \<and> sy_vector s' = xs @ [i] \<and> sy_pushed p' = Suc (sy_pushed p) \<and> (\<forall>v. sy_knows v p'))"
    using assms(1) by (cases p) (auto split: if_splits prod.splits)
  have lock: "sy_shape True (SyLock j q')
      \<and> ((q', g) = (q, sy_guard s) \<or> (q', g) \<in> set (rrw_step checks tid i q (sy_guard s)))"
    if "rrw_lock checks (tid i) q (sy_guard s) = (q', g)" "rrw_stack q = []" for j q q' g
    using that by (cases q) (auto simp: rrw_step_def split: if_splits)
  have unlock: "sy_shape True (SyUnlock j q')
      \<and> ((q', g) = (q, sy_guard s) \<or> (q', g) \<in> set (rrw_step checks tid i q (sy_guard s)))"
    if "rrw_unlock checks (tid i) q (sy_guard s) = (q', g)" "rrw_stack q = [Excl] \<or> rrw_stack q = []" for j q q' g
    using that by (cases q) (auto simp: rrw_step_def split: if_splits)
  have "sy_shape True p' \<and> ((sy_lock_pc p', sy_guard s') = (sy_lock_pc p, sy_guard s)
      \<or> (sy_lock_pc p', sy_guard s') \<in> set (rrw_step checks tid i (sy_lock_pc p) (sy_guard s)))"
  proof (cases p)
    case (SyLock j q)
    show ?thesis
    proof (cases "q = QReady [] \<or> q = QReady [Excl]")
      case True
      with assms SyLock show ?thesis by (auto simp: rrw_step_def rrw_calls_def split: if_splits)
    next
      case False
      obtain q' g where q': "rrw_lock checks (tid i) q (sy_guard s) = (q', g)" by fastforce
      with False assms SyLock have "p' = SyLock j q'" "s' = s\<lparr>sy_guard := g\<rparr>" "rrw_stack q = []" by auto
      with lock [OF q'] SyLock show ?thesis by simp
    qed
  next
    case (SyUnlock j q)
    show ?thesis
    proof (cases "q = QReady []")
      case True
      with assms SyUnlock show ?thesis by simp
    next
      case False
      obtain q' g where q': "rrw_unlock checks (tid i) q (sy_guard s) = (q', g)" by fastforce
      with False assms SyUnlock have "p' = SyUnlock j q'" "s' = s\<lparr>sy_guard := g\<rparr>" by auto
      with unlock [OF q'] assms(2) SyUnlock show ?thesis by simp
    qed
  qed (use assms in \<open>auto simp: rrw_step_def rrw_calls_def\<close>)
  then show "sy_shape True p'" "(sy_lock_pc p', sy_guard s') = (sy_lock_pc p, sy_guard s)
      \<or> (sy_lock_pc p', sy_guard s') \<in> set (rrw_step checks tid i (sy_lock_pc p) (sy_guard s))" by blast+
qed

lemma sy_walker_step:
  assumes "(p', s') \<in> set (sy_walker checks (tid i) rounds p s)" "sy_shape False p" "sy_knows (sy_vector s) p"
  shows "sy_shape False p'"
    and "(sy_lock_pc p', sy_guard s') = (sy_lock_pc p, sy_guard s)
      \<or> (sy_lock_pc p', sy_guard s') \<in> set (rrw_step checks tid i (sy_lock_pc p) (sy_guard s))"
    and "sy_vector s' = sy_vector s" "sy_knows (sy_vector s) p'"
    and "sy_seen s' = sy_seen s \<or> sy_seen s' = sy_seen s @ [sy_vector s]"
proof -
  have stacks: "sy_shape False (SyEnter r q')
      \<and> ((q', g) = (q, sy_guard s) \<or> (q', g) \<in> set (rrw_step checks tid i q (sy_guard s)))"
    if "rrw_lock_shared checks (tid i) q (sy_guard s) = (q', g)" "rrw_stack q \<in> {[], [Shrd], [Shrd, Shrd]}" for r q q' g
    using that by (cases q) (auto simp: rrw_step_def split: if_splits)
  have unlock: "sy_shape False (SyExit r q')
      \<and> ((q', g) = (q, sy_guard s) \<or> (q', g) \<in> set (rrw_step checks tid i q (sy_guard s)))"
    if "rrw_unlock_shared q (sy_guard s) = (q', g)" "rrw_stack q \<in> {[], [Shrd], [Shrd, Shrd], [Shrd, Shrd, Shrd]}" for r q q' g
    using that by (cases q) (auto simp: rrw_step_def split: if_splits)
  have "sy_shape False p' \<and> ((sy_lock_pc p', sy_guard s') = (sy_lock_pc p, sy_guard s)
      \<or> (sy_lock_pc p', sy_guard s') \<in> set (rrw_step checks tid i (sy_lock_pc p) (sy_guard s)))
    \<and> sy_vector s' = sy_vector s \<and> sy_knows (sy_vector s) p'
    \<and> (sy_seen s' = sy_seen s \<or> sy_seen s' = sy_seen s @ [sy_vector s])"
  proof (cases p)
    case (SyEnter r q)
    show ?thesis
    proof (cases "\<exists>st. q = QReady st")
      case True
      with assms SyEnter show ?thesis by (auto simp: rrw_step_def rrw_calls_def split: if_splits)
    next
      case False
      obtain q' g where q': "rrw_lock_shared checks (tid i) q (sy_guard s) = (q', g)" by fastforce
      with False assms SyEnter have e: "p' = SyEnter r q'" "s' = s\<lparr>sy_guard := g\<rparr>" "rrw_stack q \<in> {[], [Shrd], [Shrd, Shrd]}"
        by (auto split: rrw_pc.splits)
      from stacks [OF q' e(3), of r] show ?thesis using SyEnter by (auto simp: e(1,2))
    qed
  next
    case (SyExit r q)
    show ?thesis
    proof (cases "\<exists>st. q = QReady st")
      case True
      with assms SyExit show ?thesis by (auto simp: rrw_step_def rrw_calls_def split: if_splits)
    next
      case False
      obtain q' g where q': "rrw_unlock_shared q (sy_guard s) = (q', g)" by fastforce
      with False assms SyExit have e: "p' = SyExit r q'" "s' = s\<lparr>sy_guard := g\<rparr>"
        "rrw_stack q \<in> {[], [Shrd], [Shrd, Shrd], [Shrd, Shrd, Shrd]}"
        by (auto split: rrw_pc.splits)
      from unlock [OF q' e(3), of r] show ?thesis using SyExit by (auto simp: e(1,2))
    qed
  next
    case (SyWalk r sz xs)
    with assms show ?thesis by (auto simp: take_Suc_conv_app_nth split: if_splits)
  qed (use assms in auto)
  then show "sy_shape False p'"
    and "(sy_lock_pc p', sy_guard s') = (sy_lock_pc p, sy_guard s)
      \<or> (sy_lock_pc p', sy_guard s') \<in> set (rrw_step checks tid i (sy_lock_pc p) (sy_guard s))"
    and "sy_vector s' = sy_vector s" "sy_knows (sy_vector s) p'"
    and "sy_seen s' = sy_seen s \<or> sy_seen s' = sy_seen s @ [sy_vector s]" by blast+
qed


lemma take_prefix_append: "\<exists>k. xs = take k v \<Longrightarrow> \<exists>k. xs = take k (v @ w)"
proof (elim exE)
  fix k assume "xs = take k v"
  then have "xs = take (min k (length v)) (v @ w)" by (cases "k \<le> length v") (simp_all add: min_def)
  then show "\<exists>k. xs = take k (v @ w)" by blast
qed

interpretation sy: simulation "sy_step checks tid n m rounds" "sy_start tid n" "sy_inv tid n" "rrw_step checks tid" "rrw_start tid"
  sy_guard sy_lock_pc
proof
  fix s :: sy_state and ps
  assume st: "sy_start tid n (s, ps)"
  have pc: "ps ! i = (if i < n then SyLock 0 (QReady []) else SyEnter 0 (QReady []))" if "i < length ps" for i
    using st that by (simp add: sy_start_def)
  then have m: "map sy_lock_pc ps = replicate (length ps) (QReady [])" by (auto intro!: nth_equalityI)
  with st show r: "rrw_start tid (sy_guard s, map sy_lock_pc ps)" by (simp add: sy_start_def sy_init_def)
  have "n \<le> length ps" using st by (simp add: sy_start_def)
  with rrw.start_inv [OF r] pc st show "sy_inv tid n s ps" by (simp add: sy_inv_def sy_start_def sy_init_def)
next
  fix s :: sy_state and ps i p' s'
  assume inv: "sy_inv tid n s ps" and i: "i < length ps" and st: "(p', s') \<in> set (sy_step checks tid n m rounds i (ps ! i) s)"
  have n: "n \<le> length ps" and lk: "rrw_inv tid (sy_guard s) (map sy_lock_pc ps)"
    and sh: "\<And>j. j < length ps \<Longrightarrow> sy_shape (j < n) (ps ! j)" and kn: "\<And>j. j < length ps \<Longrightarrow> sy_knows (sy_vector s) (ps ! j)"
    and cnt: "\<And>j. j < n \<Longrightarrow> count_list (sy_vector s) j = sy_pushed (ps ! j)" and sub: "set (sy_vector s) \<subseteq> {..<n}"
    and seen: "\<And>xs. xs \<in> set (sy_seen s) \<Longrightarrow> \<exists>k. xs = take k (sy_vector s)"
    using inv unfolding sy_inv_def by blast+
  have both: "sy_shape (i < n) p' \<and> ((sy_lock_pc p', sy_guard s') = (sy_lock_pc (ps ! i), sy_guard s)
      \<or> (sy_lock_pc p', sy_guard s') \<in> set (rrw_step checks tid i (sy_lock_pc (ps ! i)) (sy_guard s)))"
    using st sh [OF i] kn [OF i] sy_pusher_step(1,2) [of p' s' checks tid i m] sy_walker_step(1,2) [of p' s' checks tid i rounds]
    by (cases "i < n") (simp_all add: sy_step_def)
  then show "(sy_lock_pc p', sy_guard s') = (sy_lock_pc (ps ! i), sy_guard s)
    \<or> (sy_lock_pc p', sy_guard s') \<in> set (rrw_step checks tid i (sy_lock_pc (ps ! i)) (sy_guard s))" by blast
  have lk': "rrw_inv tid (sy_guard s') (map sy_lock_pc (ps[i := p']))"
    by (rule rrw.keeps_inside [OF lk i both [THEN conjunct2]])
  have sh': "sy_shape (j < n) (ps[i := p'] ! j)" if "j < length ps" for j
    using both sh [OF that] i by (cases "j = i") simp_all
  have go: "sy_inv tid n s' (ps[i := p'])"
    if "\<And>j. j < length ps \<Longrightarrow> sy_knows (sy_vector s') (ps[i := p'] ! j)"
      "\<And>j. j < n \<Longrightarrow> count_list (sy_vector s') j = sy_pushed (ps[i := p'] ! j)" "set (sy_vector s') \<subseteq> {..<n}"
      "\<And>xs. xs \<in> set (sy_seen s') \<Longrightarrow> \<exists>k. xs = take k (sy_vector s')"
    using that n lk' sh' unfolding sy_inv_def length_list_update by blast
  show "sy_inv tid n s' (ps[i := p'])"
  proof (cases "i < n")
    case False
    have wst: "(p', s') \<in> set (sy_walker checks (tid i) rounds (ps ! i) s)" using st False by (simp add: sy_step_def)
    have "sy_shape False (ps ! i)" using sh [OF i] False by simp
    note w = sy_walker_step(3-5) [where tid = tid and i = i, OF wst this kn [OF i]]
    show ?thesis
    proof (rule go, unfold w(1))
      show "sy_knows (sy_vector s) (ps[i := p'] ! j)" if "j < length ps" for j
        using kn [OF that] w(2) i by (cases "j = i") simp_all
      show "count_list (sy_vector s) j = sy_pushed (ps[i := p'] ! j)" if "j < n" for j
        using cnt [OF that] that False by (cases "j = i") simp_all
      show "\<exists>k. xs = take k (sy_vector s)" if "xs \<in> set (sy_seen s')" for xs
      proof -
        have "\<exists>k. sy_vector s = take k (sy_vector s)" by (rule exI [of _ "length (sy_vector s)"]) simp
        then show ?thesis using that w(3) seen [of xs] by auto
      qed
    qed (rule sub)
  next
    case True
    have shi: "sy_shape True (ps ! i)" using sh [OF i] True by simp
    have pst: "(p', s') \<in> set (sy_pusher checks (tid i) m i (ps ! i) s)" using st True by (simp add: sy_step_def)
    note w = sy_pusher_step(3,4) [where tid = tid and i = i, OF pst shi]
    from w(1) show ?thesis
    proof
      assume v: "sy_vector s' = sy_vector s \<and> sy_pushed p' = sy_pushed (ps ! i)
        \<and> (sy_knows (sy_vector s) (ps ! i) \<longrightarrow> sy_knows (sy_vector s) p')"
      show ?thesis
      proof (rule go, unfold conjunct1 [OF v] w(2))
        show "sy_knows (sy_vector s) (ps[i := p'] ! j)" if "j < length ps" for j
          using kn [OF that] v i by (cases "j = i") simp_all
        show "count_list (sy_vector s) j = sy_pushed (ps[i := p'] ! j)" if "j < n" for j
          using cnt [OF that] v i by (cases "j = i") simp_all
      qed (rule sub, rule seen)
    next
      assume "\<exists>j xs. ps ! i = SyWrite j xs \<and> sy_vector s' = xs @ [i] \<and> sy_pushed p' = Suc (sy_pushed (ps ! i)) \<and> (\<forall>v. sy_knows v p')"
      then obtain j xs where v: "ps ! i = SyWrite j xs" "sy_vector s' = xs @ [i]" "sy_pushed p' = Suc (sy_pushed (ps ! i))"
        "\<And>v. sy_knows v p'" by blast
      have xs: "xs = sy_vector s" using kn [OF i] v(1) by simp
      have wr: "rrw_writing (map sy_lock_pc ps ! i)" using v(1) i by (simp add: rrw_writing_def)
      show ?thesis
      proof (rule go, unfold v(2) xs w(2))
        show "sy_knows (sy_vector s @ [i]) (ps[i := p'] ! l)" if "l < length ps" for l
        proof (cases "l = i")
          case False
          then have "\<not> rrw_writing (sy_lock_pc (ps ! l)) \<and> \<not> rrw_reading (sy_lock_pc (ps ! l))"
            using rrw.inv_writer [OF lk, of i l] i that wr by simp
          with sy_knows_held [of "sy_vector s @ [i]" "ps ! l"] False show ?thesis by simp
        qed (use v(4) i in simp)
        show "count_list (sy_vector s @ [i]) l = sy_pushed (ps[i := p'] ! l)" if "l < n" for l
          using cnt [OF that] v(3) i by (cases "l = i") simp_all
        show "set (sy_vector s @ [i]) \<subseteq> {..<n}" using sub True by simp
        show "\<exists>k. xs = take k (sy_vector s @ [i])" if "xs \<in> set (sy_seen s)" for xs
          by (rule take_prefix_append [OF seen [OF that]])
      qed
    qed
  qed
qed

section \<open>Properties\<close>

text \<open>C16. The composition of the sample with \<open>recursive_rw_spinlock\<close>, for any numbers of pushers,
  walkers, pushes and rounds, under every interleaving, where \<open>get_thread_id\<close> gives the threads
  different numbers other than 0: no push is lost, so when the pushers are through every number is in
  the vector exactly \<open>m\<close> times; every walk sees a prefix of the vector, taken at one moment; none
  runs past the end, no assert fails, and the lock is used as it prescribes.\<close>

theorem sync_sample_no_lost_push:
  assumes "reach (sy_start tid n) (interleave (sy_step checks tid n m rounds)) (s, ps)"
  shows "(\<forall>i < n. count_list (sy_vector s) i = sy_pushed (ps ! i))
    \<and> ((\<forall>i < n. ps ! i = SyLock m (QReady [])) \<longrightarrow> length (sy_vector s) = n * m \<and> (\<forall>i < n. count_list (sy_vector s) i = m))
    \<and> (\<forall>xs \<in> set (sy_seen s). \<exists>k. xs = take k (sy_vector s))
    \<and> SyOob \<notin> set ps \<and> QAborted \<notin> sy_lock_pc ` set ps
    \<and> reach (rrw_start tid) (interleave (rrw_step checks tid)) (sy_guard s, map sy_lock_pc ps)"
proof (intro conjI)
  note inv = sy.reach_inv [OF assms]
  show cnt: "\<forall>i < n. count_list (sy_vector s) i = sy_pushed (ps ! i)" using inv unfolding sy_inv_def by blast
  show "(\<forall>i < n. ps ! i = SyLock m (QReady [])) \<longrightarrow> length (sy_vector s) = n * m \<and> (\<forall>i < n. count_list (sy_vector s) i = m)"
  proof
    assume "\<forall>i < n. ps ! i = SyLock m (QReady [])"
    with cnt have c: "\<forall>i < n. count_list (sy_vector s) i = m" by simp
    have "set (sy_vector s) \<subseteq> {..<n}" using inv unfolding sy_inv_def by blast
    then have "length (sy_vector s) = (\<Sum>i<n. count_list (sy_vector s) i)"
      by (intro sum_count_set [symmetric]) simp_all
    with c show "length (sy_vector s) = n * m \<and> (\<forall>i < n. count_list (sy_vector s) i = m)" by simp
  qed
  show "\<forall>xs \<in> set (sy_seen s). \<exists>k. xs = take k (sy_vector s)" using inv unfolding sy_inv_def by blast
  show "SyOob \<notin> set ps" using inv by (auto simp: sy_inv_def in_set_conv_nth)
  have "rrw_inv tid (sy_guard s) (map sy_lock_pc ps)" using inv unfolding sy_inv_def by blast
  then have "rrw_local q" if "q \<in> set (map sy_lock_pc ps)" for q
    using that rrw_invD(1) by (metis in_set_conv_nth)
  then have "QAborted \<notin> set (map sy_lock_pc ps)" by (metis rrw_local.simps(21))
  then show "QAborted \<notin> sy_lock_pc ` set ps" by simp
  show "reach (rrw_start tid) (interleave (rrw_step checks tid)) (sy_guard s, map sy_lock_pc ps)"
    using sy.reach_abs [OF assms] by simp
qed


lemmas sy_run = replicate_unroll sy_step_def sy_init_def rrw_init_def rrw_owner_def rrw_writer_bits_def seq_tids_def
  thread_id_mask_def exclusive_mask_def shared_mask_def rrw_this_id_def push_bit_eq_mult drop_bit_eq_div

text \<open>A push and then a walk.\<close>

theorem sync_sample_no_lost_push_witness:
  "\<exists>s :: sy_state. sy_vector s = [0] \<and> (\<exists>k. [0] = take k (sy_vector s)) \<and> count_list (sy_vector s) 0 = 1 \<and> sy_seen s = [[0]]"
proof -
  let ?sched = "replicate 13 (0, 0) @ replicate 12 (1, 0)"
  have "\<exists>s. run_sched (sy_step True seq_tids 1 1 1) ?sched (sy_init, [SyLock 0 (QReady []), SyEnter 0 (QReady [])])
      = Some (s, [SyLock 1 (QReady []), SyExit 0 (QReady [Shrd, Shrd, Shrd])]) \<and> sy_vector s = [0] \<and> sy_seen s = [[0]]"
    by (simp add: sy_run)
  then obtain s where s: "run_sched (sy_step True seq_tids 1 1 1) ?sched (sy_init, [SyLock 0 (QReady []), SyEnter 0 (QReady [])])
      = Some (s, [SyLock 1 (QReady []), SyExit 0 (QReady [Shrd, Shrd, Shrd])])" "sy_vector s = [0]" "sy_seen s = [[0]]"
    by (elim exE conjE) (rule that)
  have "reach (sy_start seq_tids 1) (interleave (sy_step True seq_tids 1 1 1))
      (s, [SyLock 1 (QReady []), SyExit 0 (QReady [Shrd, Shrd, Shrd])])"
    by (rule run_sched_reach_start [OF _ s(1)])
      (use seq_tids_start in \<open>auto simp: sy_start_def less_Suc_eq numeral_2_eq_2\<close>)
  from sync_sample_no_lost_push [OF this] s(2,3) show ?thesis by (intro exI [of _ s]) simp
qed

text \<open>On Linux, where \<open>get_thread_id\<close> is 0, the sample does not work: compiled with assertions the
  first push fails one; without, two pushers hold the lock at once and a push is lost.\<close>

theorem sync_sample_linux:
  "(\<exists>s. run_sched (sy_step True (\<lambda>i. thread_id32 Linux (native i)) 2 1 0) (replicate 3 (0, 0))
      (sy_init, [SyLock 0 (QReady []), SyLock 0 (QReady [])]) = Some (s, [SyLock 0 QAborted, SyLock 0 (QReady [])]))
   \<and> (\<exists>s. run_sched (sy_step False (\<lambda>i. thread_id32 Linux (native i)) 2 1 0)
      (replicate 6 (0, 0) @ replicate 6 (1, 0) @ replicate 4 (0, 0) @ replicate 6 (1, 0))
      (sy_init, [SyLock 0 (QReady []), SyLock 0 (QReady [])]) = Some (s, [SyLock 1 (QReady []), SyLock 1 (QReady [])])
      \<and> sy_vector s = [1])"
  by (simp add: sy_run)

end
