(* ===== verification/Sutter_Queue.thy ===== *)
theory Sutter_Queue
  imports Heap_Chain
begin

text \<open>
  The class \<open>sutter_queue\<close> of \<open>containers/queue/sutter_queue.h\<close>: a queue of one producer
  (thread 0) and one consumer (thread 1) that share the atomic pointers \<open>m_divider\<close> and
  \<open>m_last\<close>. The producer deletes the nodes before the divider. \<open>SuCrash\<close> is the access to a
  deleted node. The state carries the log of what was published and of what was taken.
\<close>

record 'a su_state =
  su_heap :: "'a qheap"
  su_fresh :: nat       \<comment> \<open>the next address \<open>new\<close> returns\<close>
  su_first :: nat
  su_divider :: nat
  su_last :: nat

type_synonym 'a queue_log = "'a list \<times> 'a list"

datatype 'a su_pc =
  SuIdle
| SuLoad 'a           \<comment> \<open>enqueue: before \<open>m_last.load\<close>\<close>
| SuNew 'a nat        \<comment> \<open>enqueue: before the new node is linked\<close>
| SuPublish nat       \<comment> \<open>produce_impl: before \<open>m_last.store\<close>\<close>
| SuClean             \<comment> \<open>produce_impl: before \<open>m_divider.load\<close>\<close>
| SuTest nat          \<comment> \<open>produce_impl: the loop condition and its body\<close>
| SuEnqueued
| SuDivider           \<comment> \<open>dequeue: before \<open>m_divider.load\<close>\<close>
| SuCompare nat       \<comment> \<open>dequeue: before \<open>m_last.load\<close>\<close>
| SuItem nat          \<comment> \<open>dequeue: before the value is read\<close>
| SuStore nat 'a      \<comment> \<open>dequeue: before \<open>m_divider.store\<close>\<close>
| SuDequeued "'a option"
| SuCrash

definition su_init :: "'a \<Rightarrow> 'a su_state" where
  "su_init d = \<lparr>su_heap = [0 \<mapsto> \<lparr>node_next = None, node_value = d\<rparr>], su_fresh = 1,
     su_first = 0, su_divider = 0, su_last = 0\<rparr>"

fun su_enqueue :: "'a su_pc \<Rightarrow> 'a su_state \<Rightarrow> 'a su_pc \<times> 'a su_state" where
  "su_enqueue (SuLoad v) s = (SuNew v (su_last s), s)"
| "su_enqueue (SuNew v l) s =
     (if su_heap s l = None then (SuCrash, s)
      else (SuPublish l, s\<lparr>su_fresh := su_fresh s + 1, su_heap := set_next l (Some (su_fresh s))
             ((su_heap s)(su_fresh s \<mapsto> \<lparr>node_next = None, node_value = v\<rparr>))\<rparr>))"
| "su_enqueue (SuPublish l) s =
     (case follow (su_heap s) l of
        Some n \<Rightarrow> (SuClean, s\<lparr>su_last := n\<rparr>)
      | None \<Rightarrow> (SuCrash, s))"
| "su_enqueue SuClean s = (SuTest (su_divider s), s)"
| "su_enqueue (SuTest d) s =
     (if su_first s = d then (SuEnqueued, s)
      else (case follow (su_heap s) (su_first s) of
              Some n \<Rightarrow> (SuClean, s\<lparr>su_heap := delete_node (su_first s) (su_heap s), su_first := n\<rparr>)
            | None \<Rightarrow> (SuCrash, s)))"
| "su_enqueue p s = (p, s)"

fun su_dequeue :: "'a su_pc \<Rightarrow> 'a su_state \<Rightarrow> 'a su_pc \<times> 'a su_state" where
  "su_dequeue SuDivider s = (SuCompare (su_divider s), s)"
| "su_dequeue (SuCompare d) s = (if d \<noteq> su_last s then SuItem d else SuDequeued None, s)"
| "su_dequeue (SuItem d) s =
     (case Option.bind (follow (su_heap s) d) (su_heap s) of
        Some x \<Rightarrow> (SuStore d (node_value x), s)
      | None \<Rightarrow> (SuCrash, s))"
| "su_dequeue (SuStore d v) s =
     (case follow (su_heap s) d of
        Some n \<Rightarrow> (SuDequeued (Some v), s\<lparr>su_divider := n\<rparr>)
      | None \<Rightarrow> (SuCrash, s))"
| "su_dequeue p s = (p, s)"

text \<open>The destructor.\<close>

definition su_destroy :: "nat \<Rightarrow> 'a su_state \<Rightarrow> 'a qheap option" where
  "su_destroy fuel s = free_chain fuel (su_heap s) (Some (su_first s))"

text \<open>A value is sent when \<open>m_last\<close> moves past its node, and got when the divider does.\<close>

definition su_record :: "'a su_pc \<Rightarrow> 'a su_state \<Rightarrow> 'a queue_log \<Rightarrow> 'a queue_log" where
  "su_record p s w =
     (case p of
        SuPublish l \<Rightarrow> (case Option.bind (follow (su_heap s) l) (su_heap s) of
            Some x \<Rightarrow> (fst w @ [node_value x], snd w)
          | None \<Rightarrow> w)
      | SuStore d v \<Rightarrow> (fst w, snd w @ [v])
      | _ \<Rightarrow> w)"

definition su_step :: "'a list \<Rightarrow> ('a su_state \<times> 'a queue_log, 'a su_pc) thread_step" where
  "su_step vals i p sh =
     (case p of
        SuIdle \<Rightarrow> if i = 0 then map (\<lambda>v. (SuLoad v, sh)) vals else [(SuDivider, sh)]
      | SuEnqueued \<Rightarrow> [(SuIdle, sh)]
      | SuDequeued r \<Rightarrow> [(SuIdle, sh)]
      | SuCrash \<Rightarrow> []
      | _ \<Rightarrow> (case (if i = 0 then su_enqueue else su_dequeue) p (fst sh) of
                (p', s') \<Rightarrow> [(p', s', su_record p (fst sh) (snd sh))]))"

definition su_start :: "'a \<Rightarrow> ('a su_state \<times> 'a queue_log, 'a su_pc) system \<Rightarrow> bool" where
  "su_start d t \<longleftrightarrow> t = ((su_init d, [], []), [SuIdle, SuIdle])"


section \<open>The invariant\<close>

text \<open>The nodes: \<open>xs\<close> to be deleted, the divider, \<open>ys\<close> published, \<open>pend\<close> linked only.\<close>

definition su_shape :: "'a su_state \<Rightarrow> (nat \<times> 'a) list \<Rightarrow> 'a \<Rightarrow> (nat \<times> 'a) list \<Rightarrow> (nat \<times> 'a) list \<Rightarrow> bool" where
  "su_shape s xs x0 ys pend \<longleftrightarrow>
     chain (su_heap s) (xs @ (su_divider s, x0) # ys @ pend) None
     \<and> distinct (map fst (xs @ (su_divider s, x0) # ys @ pend))
     \<and> (\<forall>a \<in> fst ` set (xs @ (su_divider s, x0) # ys @ pend). a < su_fresh s)
     \<and> dom (su_heap s) = fst ` set (xs @ (su_divider s, x0) # ys @ pend)
     \<and> su_first s = fst (hd (xs @ [(su_divider s, x0)]))
     \<and> su_last s = fst (last ((su_divider s, x0) # ys))"

fun su_producer_ok :: "'a su_state \<Rightarrow> (nat \<times> 'a) list \<Rightarrow> (nat \<times> 'a) list \<Rightarrow> 'a su_pc \<Rightarrow> bool" where
  "su_producer_ok s xs pend SuIdle = (pend = [])"
| "su_producer_ok s xs pend (SuLoad v) = (pend = [])"
| "su_producer_ok s xs pend (SuNew v l) = (pend = [] \<and> l = su_last s)"
| "su_producer_ok s xs pend (SuPublish l) = ((\<exists>n v. pend = [(n, v)]) \<and> l = su_last s)"
| "su_producer_ok s xs pend SuClean = (pend = [])"
| "su_producer_ok s xs pend (SuTest d) = (pend = [] \<and> d \<in> insert (su_divider s) (fst ` set xs))"
| "su_producer_ok s xs pend SuEnqueued = (pend = [])"
| "su_producer_ok s xs pend p = False"

fun su_consumer_ok :: "'a su_state \<Rightarrow> (nat \<times> 'a) list \<Rightarrow> 'a su_pc \<Rightarrow> bool" where
  "su_consumer_ok s ys SuIdle = True"
| "su_consumer_ok s ys SuDivider = True"
| "su_consumer_ok s ys (SuCompare d) = (d = su_divider s)"
| "su_consumer_ok s ys (SuItem d) = (d = su_divider s \<and> ys \<noteq> [])"
| "su_consumer_ok s ys (SuStore d v) = (d = su_divider s \<and> (\<exists>n ys'. ys = (n, v) # ys'))"
| "su_consumer_ok s ys (SuDequeued r) = True"
| "su_consumer_ok s ys p = False"

definition su_inv :: "'a su_state \<times> 'a queue_log \<Rightarrow> 'a su_pc list \<Rightarrow> bool" where
  [inv_defs]: "su_inv sh ps \<longleftrightarrow> (\<exists>p0 p1 xs x0 ys pend. ps = [p0, p1]
     \<and> su_shape (fst sh) xs x0 ys pend \<and> fst (snd sh) = snd (snd sh) @ map snd ys
     \<and> su_producer_ok (fst sh) xs pend p0 \<and> su_consumer_ok (fst sh) ys p1)"

lemma su_invI:
  "su_shape s xs x0 ys pend \<Longrightarrow> sent = got @ map snd ys \<Longrightarrow> su_producer_ok s xs pend p0 \<Longrightarrow>
    su_consumer_ok s ys p1 \<Longrightarrow> su_inv (s, sent, got) [p0, p1]"
  by (auto simp: su_inv_def)

definition su_contents :: "'a su_state \<Rightarrow> 'a list" where
  "su_contents s = values_after (su_fresh s) (su_heap s) (su_divider s) (Some (su_last s))"

lemma su_shape_contents: "su_shape s xs x0 ys pend \<Longrightarrow> su_contents s = map snd ys"
proof -
  assume sh: "su_shape s xs x0 ys pend"
  have "length (xs @ (su_divider s, x0) # ys @ pend) \<le> su_fresh s"
    using sh by (intro chain_length) (simp_all add: su_shape_def)
  then have len: "length ys < su_fresh s" by simp
  have "values_after (su_fresh s) (su_heap s) (su_divider s) (Some (fst (last ((su_divider s, x0) # ys)))) = map snd ys"
    by (rule values_after_last [OF _ _ len, of _ _ _ pend None]) (use sh in \<open>auto simp: su_shape_def\<close>)
  then show ?thesis using sh by (simp only: su_contents_def su_shape_def)
qed

text \<open>What the producer does to the nodes.\<close>

lemma su_new_shape:
  assumes sh: "su_shape s xs x0 ys []"
  shows "su_heap s (su_last s) \<noteq> None"
    and "su_shape (s\<lparr>su_fresh := su_fresh s + 1, su_heap := set_next (su_last s) (Some (su_fresh s))
             ((su_heap s)(su_fresh s \<mapsto> \<lparr>node_next = None, node_value = v\<rparr>))\<rparr>) xs x0 ys [(su_fresh s, v)]"
proof -
  let ?cs = "xs @ (su_divider s, x0) # ys"
  let ?h = "(su_heap s)(su_fresh s \<mapsto> \<lparr>node_next = None, node_value = v\<rparr>)"
  obtain zs a y where z: "?cs = zs @ [(a, y)]" "(su_divider s, x0) # ys = drop (length xs) zs @ [(a, y)]"
  proof -
    have "last ((su_divider s, x0) # ys) = last ?cs" by simp
    obtain a y where "last ((su_divider s, x0) # ys) = (a, y)" by (cases "last ((su_divider s, x0) # ys)")
    then have "(su_divider s, x0) # ys = butlast ((su_divider s, x0) # ys) @ [(a, y)]"
      by (metis append_butlast_last_id list.distinct(1))
    then show thesis by (intro that [of "xs @ butlast ((su_divider s, x0) # ys)" a y]) simp_all
  qed
  have last: "su_last s = a" using sh z by (simp add: su_shape_def)
  have "\<forall>b \<in> fst ` set ?cs. b < su_fresh s" using sh by (simp add: su_shape_def)
  then have fresh: "su_fresh s \<notin> fst ` set ?cs" by (metis less_irrefl)
  have "chain (su_heap s) (zs @ [(a, y)]) None" "distinct (map fst (zs @ [(a, y)]))"
    using sh unfolding su_shape_def z(1) [symmetric] by simp_all
  then have "chain ?h (zs @ [(a, y)]) None" "distinct (map fst (zs @ [(a, y), (su_fresh s, v)]))"
    using fresh unfolding z(1) by auto
  then have "chain (set_next a (Some (su_fresh s)) ?h) (zs @ [(a, y), (su_fresh s, v)]) None"
    by (rule chain_link) simp
  then have ch: "chain (set_next a (Some (su_fresh s)) ?h) (?cs @ [(su_fresh s, v)]) None"
    unfolding z(1) by simp
  have "a \<in> fst ` set ?cs" unfolding z(1) by simp
  moreover have dom: "dom (su_heap s) = fst ` set ?cs" using sh by (simp add: su_shape_def)
  ultimately show "su_heap s (su_last s) \<noteq> None" using last by blast
  show "su_shape (s\<lparr>su_fresh := su_fresh s + 1, su_heap := set_next (su_last s) (Some (su_fresh s)) ?h\<rparr>)
      xs x0 ys [(su_fresh s, v)]"
  proof -
    have "distinct (map fst (?cs @ [(su_fresh s, v)]))"
      using sh fresh by (auto simp: su_shape_def)
    moreover have "\<forall>b \<in> fst ` set (?cs @ [(su_fresh s, v)]). b < su_fresh s + 1"
      using sh by (auto simp: su_shape_def less_Suc_eq)
    moreover have "dom (set_next a (Some (su_fresh s)) ?h) = fst ` set (?cs @ [(su_fresh s, v)])"
      using dom by auto
    moreover have "su_first s = fst (hd (xs @ [(su_divider s, x0)]))" "su_last s = fst (last ((su_divider s, x0) # ys))"
      using sh by (simp_all add: su_shape_def)
    ultimately show ?thesis using ch last unfolding su_shape_def
      by (simp only: su_state.simps append.simps append_assoc append_Nil2) simp
  qed
qed

lemma su_publish_shape:
  assumes sh: "su_shape s xs x0 ys [(n, v)]"
  shows "follow (su_heap s) (su_last s) = Some n" and "su_heap s n = Some \<lparr>node_next = None, node_value = v\<rparr>"
    and "su_shape (s\<lparr>su_last := n\<rparr>) xs x0 (ys @ [(n, v)]) []"
proof -
  have ch: "chain (su_heap s) ((su_divider s, x0) # ys @ [(n, v)]) None" using sh by (simp add: su_shape_def)
  have "(su_divider s, x0) # ys = butlast ((su_divider s, x0) # ys) @ [last ((su_divider s, x0) # ys)]"
    by (metis append_butlast_last_id list.distinct(1))
  then have "chain (su_heap s) (butlast ((su_divider s, x0) # ys) @ [last ((su_divider s, x0) # ys)] @ [(n, v)]) None"
    using ch by (metis append_Cons append_assoc)
  then show "follow (su_heap s) (su_last s) = Some n"
    using sh by (cases "last ((su_divider s, x0) # ys)") (auto simp: su_shape_def follow_def)
  show "su_heap s n = Some \<lparr>node_next = None, node_value = v\<rparr>" using ch by simp
  show "su_shape (s\<lparr>su_last := n\<rparr>) xs x0 (ys @ [(n, v)]) []" using sh by (simp add: su_shape_def)
qed

lemma su_delete_shape:
  assumes sh: "su_shape s xs x0 ys pend" and d: "d \<in> insert (su_divider s) (fst ` set xs)" "su_first s \<noteq> d"
  obtains n xs' where "follow (su_heap s) (su_first s) = Some n" "d \<in> insert (su_divider s) (fst ` set xs')"
    and "su_shape (s\<lparr>su_heap := delete_node (su_first s) (su_heap s), su_first := n\<rparr>) xs' x0 ys pend"
proof -
  obtain a x xs' where xs: "xs = (a, x) # xs'" "su_first s = a"
    using sh d by (cases xs) (auto simp: su_shape_def)
  let ?n = "fst (hd (xs' @ [(su_divider s, x0)]))"
  have "head_of (xs' @ (su_divider s, x0) # ys @ pend) None = Some ?n"
    by (cases xs') auto
  then have "follow (su_heap s) (su_first s) = Some ?n" using sh xs by (simp add: su_shape_def follow_def)
  moreover have "d \<in> insert (su_divider s) (fst ` set xs')" using d xs by auto
  moreover have "su_shape (s\<lparr>su_heap := delete_node (su_first s) (su_heap s), su_first := ?n\<rparr>) xs' x0 ys pend"
  proof -
    let ?cs = "xs' @ (su_divider s, x0) # ys @ pend"
    have cs: "chain (su_heap s) ((a, x) # ?cs) None" "distinct (map fst ((a, x) # ?cs))"
      "dom (su_heap s) = insert a (fst ` set ?cs)" "\<forall>b \<in> fst ` set ?cs. b < su_fresh s"
      using sh unfolding su_shape_def xs(1) by simp_all
    from cs(2) have a: "a \<notin> fst ` set ?cs" by (simp add: image_Un)
    have "chain (delete_node a (su_heap s)) ?cs None" using cs(1) a unfolding chain_delete [OF a] by simp
    moreover have "dom (delete_node a (su_heap s)) = fst ` set ?cs"
      unfolding dom_delete cs(3) by (rule Diff_insert_absorb [OF a])
    ultimately show ?thesis using sh cs(2,4) xs(2) unfolding su_shape_def by simp
  qed
  ultimately show thesis by (rule that)
qed

text \<open>What the consumer does.\<close>

lemma su_item_shape:
  assumes sh: "su_shape s xs x0 ((n, v) # ys) pend"
  shows "follow (su_heap s) (su_divider s) = Some n"
    and "\<exists>x. su_heap s n = Some x \<and> node_value x = v"
    and "su_shape (s\<lparr>su_divider := n\<rparr>) (xs @ [(su_divider s, x0)]) v ys pend"
proof -
  show "follow (su_heap s) (su_divider s) = Some n" "\<exists>x. su_heap s n = Some x \<and> node_value x = v"
    using sh by (simp_all add: su_shape_def follow_def)
  show "su_shape (s\<lparr>su_divider := n\<rparr>) (xs @ [(su_divider s, x0)]) v ys pend"
    using sh by (cases xs) (auto simp: su_shape_def)
qed

lemma su_invE:
  assumes "su_inv (s, sent, got) ps"
  obtains p0 p1 xs x0 ys pend where "ps = [p0, p1]" "su_shape s xs x0 ys pend" "sent = got @ map snd ys"
    "su_producer_ok s xs pend p0" "su_consumer_ok s ys p1"
  using assms by (auto simp: su_inv_def)

lemma su_consumer_cong:
  "su_consumer_ok s ys p \<Longrightarrow> su_divider s' = su_divider s \<Longrightarrow> su_consumer_ok s' (ys @ zs) p"
  by (cases p) auto

lemma su_producer_step:
  assumes sh: "su_shape s xs x0 ys pend" and log: "sent = got @ map snd ys"
    and ok: "su_producer_ok s xs pend p0" "su_consumer_ok s ys p1"
    and st: "(p', s', sent', got') \<in> set (su_step vals 0 p0 (s, sent, got))"
  shows "su_inv (s', sent', got') [p', p1]"
proof (cases p0)
  case SuIdle
  with st ok obtain v where "p' = SuLoad v" "s' = s" "sent' = sent" "got' = got"
    by (auto simp: su_step_def)
  with SuIdle sh log ok show ?thesis by (auto intro: su_invI)
next
  case (SuLoad v)
  with st have "p' = SuNew v (su_last s)" "s' = s" "sent' = sent" "got' = got"
    by (simp_all add: su_step_def su_record_def)
  with SuLoad sh log ok show ?thesis by (auto intro: su_invI)
next
  case (SuNew v l)
  then have l: "l = su_last s" and pend: "pend = []" using ok by simp_all
  note new = su_new_shape(1) [OF sh [unfolded pend]] su_new_shape(2) [OF sh [unfolded pend], of v]
  from SuNew l new(1) st have e: "p' = SuPublish l" "sent' = sent" "got' = got"
    "s' = s\<lparr>su_fresh := su_fresh s + 1, su_heap := set_next (su_last s) (Some (su_fresh s))
             ((su_heap s)(su_fresh s \<mapsto> \<lparr>node_next = None, node_value = v\<rparr>))\<rparr>"
    by (auto simp: su_step_def su_record_def)
  have "su_consumer_ok s' ys p1" using su_consumer_cong [OF ok(2), where s' = s' and zs = "[]"] e by simp
  then show ?thesis using new(2) log l e by (intro su_invI [of s' xs x0 ys "[(su_fresh s, v)]"]) simp_all
next
  case (SuPublish l)
  then obtain n v where pend: "pend = [(n, v)]" and l: "l = su_last s" using ok by auto
  note pub = su_publish_shape [OF sh [unfolded pend]]
  from SuPublish l pub st have e: "p' = SuClean" "sent' = sent @ [v]" "got' = got" "s' = s\<lparr>su_last := n\<rparr>"
    by (simp_all add: su_step_def su_record_def)
  have "su_consumer_ok s' (ys @ [(n, v)]) p1" using su_consumer_cong [OF ok(2)] e by simp
  then show ?thesis using pub(3) log e by (intro su_invI [of s' xs x0 "ys @ [(n, v)]" "[]"]) simp_all
next
  case SuClean
  with st have "p' = SuTest (su_divider s)" "s' = s" "sent' = sent" "got' = got"
    by (simp_all add: su_step_def su_record_def)
  with SuClean sh log ok show ?thesis by (auto intro: su_invI)
next
  case (SuTest d)
  then have pend: "pend = []" and d: "d \<in> insert (su_divider s) (fst ` set xs)" using ok by simp_all
  show ?thesis
  proof (cases "su_first s = d")
    case True
    with SuTest st have "p' = SuEnqueued" "s' = s" "sent' = sent" "got' = got"
      by (simp_all add: su_step_def su_record_def)
    with sh log ok pend show ?thesis by (auto intro: su_invI)
  next
    case False
    obtain n xs' where n: "follow (su_heap s) (su_first s) = Some n"
      and sh': "su_shape (s\<lparr>su_heap := delete_node (su_first s) (su_heap s), su_first := n\<rparr>) xs' x0 ys pend"
      using su_delete_shape [OF sh d False] by metis
    from SuTest False n st have e: "p' = SuClean" "sent' = sent" "got' = got"
      "s' = s\<lparr>su_heap := delete_node (su_first s) (su_heap s), su_first := n\<rparr>"
      by (simp_all add: su_step_def su_record_def)
    have "su_consumer_ok s' ys p1" using su_consumer_cong [OF ok(2), where s' = s' and zs = "[]"] e by simp
    then show ?thesis using sh' log e pend by (intro su_invI [of s' xs' x0 ys "[]"]) simp_all
  qed
next
  case SuEnqueued
  with st have "p' = SuIdle" "s' = s" "sent' = sent" "got' = got" by (simp_all add: su_step_def)
  with SuEnqueued sh log ok show ?thesis by (auto intro: su_invI)
qed (use ok in simp_all)

lemma su_consumer_step:
  assumes sh: "su_shape s xs x0 ys pend" and log: "sent = got @ map snd ys"
    and ok: "su_producer_ok s xs pend p0" "su_consumer_ok s ys p1"
    and st: "(p', s', sent', got') \<in> set (su_step vals 1 p1 (s, sent, got))"
  shows "su_inv (s', sent', got') [p0, p']"
proof (cases p1)
  case SuIdle
  with st have "p' = SuDivider" "s' = s" "sent' = sent" "got' = got" by (simp_all add: su_step_def)
  with sh log ok show ?thesis by (auto intro: su_invI)
next
  case SuDivider
  with st have "p' = SuCompare (su_divider s)" "s' = s" "sent' = sent" "got' = got"
    by (simp_all add: su_step_def su_record_def)
  with sh log ok show ?thesis by (auto intro: su_invI)
next
  case (SuCompare d)
  then have "p' = (if su_divider s \<noteq> su_last s then SuItem (su_divider s) else SuDequeued None)"
    "s' = s" "sent' = sent" "got' = got"
    using st ok by (simp_all add: su_step_def su_record_def)
  moreover have "su_divider s \<noteq> su_last s \<Longrightarrow> ys \<noteq> []" using sh by (auto simp: su_shape_def)
  ultimately show ?thesis using sh log ok by (auto intro!: su_invI)
next
  case (SuItem d)
  then obtain n v ys' where d: "d = su_divider s" and ys: "ys = (n, v) # ys'"
    using ok by (cases ys) auto
  note it = su_item_shape [OF sh [unfolded ys]]
  from it SuItem d st have "p' = SuStore d v" "s' = s" "sent' = sent" "got' = got"
    by (auto simp: su_step_def su_record_def)
  with sh log ok d ys show ?thesis by (auto intro!: su_invI)
next
  case (SuStore d v)
  then obtain n ys' where d: "d = su_divider s" and ys: "ys = (n, v) # ys'" using ok by auto
  note it = su_item_shape [OF sh [unfolded ys]]
  from it SuStore d st have e: "p' = SuDequeued (Some v)" "s' = s\<lparr>su_divider := n\<rparr>" "sent' = sent" "got' = got @ [v]"
    by (auto simp: su_step_def su_record_def)
  have "su_producer_ok s' (xs @ [(su_divider s, x0)]) pend p0"
    using ok(1) e by (cases p0) auto
  then show ?thesis using it(3) log e ys
    by (intro su_invI [of s' "xs @ [(su_divider s, x0)]" v ys' pend]) simp_all
next
  case (SuDequeued r)
  with st have "p' = SuIdle" "s' = s" "sent' = sent" "got' = got" by (simp_all add: su_step_def)
  with sh log ok show ?thesis by (auto intro: su_invI)
qed (use ok in simp_all)

interpretation su: queue_protocol "su_step vals" "su_start d" su_inv "\<lambda>sh. fst (snd sh)" "\<lambda>sh. snd (snd sh)"
  "\<lambda>sh. su_contents (fst sh)" "\<lambda>p. p = SuCrash"
proof
  fix sh ps
  assume "su_start d (sh, ps)"
  then show "su_inv sh ps"
    by (auto simp: su_start_def su_init_def su_shape_def intro!: su_invI [of _ "[]" d "[]" "[]"])
next
  fix sh ps i p' sh'
  assume inv: "su_inv sh ps" and i: "i < length ps" and st: "(p', sh') \<in> set (su_step vals i (ps ! i) sh)"
  obtain s sent got where sh: "sh = (s, sent, got)" by (cases sh)
  obtain s' sent' got' where sh': "sh' = (s', sent', got')" by (cases sh')
  from inv [unfolded sh] obtain p0 p1 xs x0 ys pend where ps: "ps = [p0, p1]"
    and ok: "su_shape s xs x0 ys pend" "sent = got @ map snd ys" "su_producer_ok s xs pend p0" "su_consumer_ok s ys p1"
    by (rule su_invE)
  from i ps consider "i = 0" | "i = 1" by fastforce
  then show "su_inv sh' (ps[i := p'])"
  proof cases
    case 1
    with su_producer_step [OF ok] st sh sh' ps show ?thesis by simp
  next
    case 2
    with su_consumer_step [OF ok] st sh sh' ps show ?thesis by simp
  qed
next
  fix sh ps
  assume "su_inv sh ps"
  then show "fst (snd sh) = snd (snd sh) @ su_contents (fst sh)"
    by (auto simp: su_inv_def dest: su_shape_contents)
next
  fix sh ps p
  assume "su_inv sh ps" "p \<in> set ps"
  then show "p \<noteq> SuCrash" by (auto simp: su_inv_def)
qed


section \<open>Properties\<close>

text \<open>C7. One producer and one consumer of \<open>sutter_queue\<close>, under every interleaving: what the
  consumer gets is a beginning of what the producer published, in order; the rest is between the
  divider and \<open>m_last\<close>; and no deleted node is ever accessed.\<close>

theorem sutter_queue_fifo:
  assumes "reach (su_start d) (interleave (su_step vals)) ((s, sent, got), ps)"
  shows "sent = got @ su_contents s \<and> SuCrash \<notin> set ps"
  using su.reach_fifo [OF assms] su.reach_safe [OF assms] by (metis append_take_drop_id fst_conv snd_conv)

text \<open>The destructor of \<open>sutter_queue\<close>, when no call is under way, ends within as many
  rounds as \<open>new\<close> was called, deletes every node exactly once and leaves none.\<close>

theorem sutter_queue_destroy:
  assumes "reach (su_start d) (interleave (su_step vals)) ((s, sent, got), [SuIdle, SuIdle])"
  shows "su_destroy (su_fresh s) s = Some Map.empty"
proof -
  have "su_inv (s, sent, got) [SuIdle, SuIdle]" using assms by (rule su.reach_inv)
  then obtain xs x0 ys where sh: "su_shape s xs x0 ys []" by (auto simp: su_inv_def)
  let ?cs = "xs @ (su_divider s, x0) # ys"
  have cs: "chain (su_heap s) ?cs None" "distinct (map fst ?cs)" "dom (su_heap s) = fst ` set ?cs"
    "\<forall>a \<in> fst ` set ?cs. a < su_fresh s"
    using sh by (simp_all add: su_shape_def)
  have "free_chain (length ?cs) (su_heap s) (head_of ?cs None) = Some Map.empty"
    by (rule free_chain_chain [OF cs(1-3)])
  moreover have "head_of ?cs None = Some (su_first s)"
    using sh by (cases xs) (auto simp: su_shape_def)
  moreover have "length ?cs \<le> su_fresh s" using cs(2,4) by (rule chain_length)
  ultimately show ?thesis unfolding su_destroy_def by (metis free_chain_mono)
qed

text \<open>The producer pushes twice and cleans up while the consumer pops.\<close>

abbreviation su_schedule :: "(nat \<times> nat) list" where
  "su_schedule \<equiv> map (\<lambda>i. (i, 0)) [0, 0, 0, 0, 1, 1, 1, 0, 1, 1, 1, 0, 0, 0, 0, 0, 0, 0, 0, 0, 0, 0]"

lemma su_run:
  "\<exists>s. run_sched (su_step [7]) su_schedule ((su_init (0::nat), [], []), [SuIdle, SuIdle])
     = Some ((s, [7, 7], [7]), [SuIdle, SuIdle])
   \<and> dom (su_heap s) = {1, 2} \<and> su_fresh s = 3"
  by (auto simp: su_step_def su_init_def su_record_def follow_def set_next_apply delete_node_def)

lemma su_run_reach:
  obtains s where "reach (su_start (0::nat)) (interleave (su_step [7])) ((s, [7, 7], [7]), [SuIdle, SuIdle])"
    and "dom (su_heap s) = {1, 2}" "su_fresh s = 3"
proof -
  obtain s where "run_sched (su_step [7]) su_schedule ((su_init (0::nat), [], []), [SuIdle, SuIdle])
     = Some ((s, [7, 7], [7]), [SuIdle, SuIdle])" "dom (su_heap s) = {1, 2}" "su_fresh s = 3"
    using su_run by (elim exE conjE) (rule that)
  then show thesis
    by (intro that [of s] run_sched_reach_start [OF _ \<open>run_sched _ _ _ = _\<close>]) (simp_all add: su_start_def)
qed

theorem sutter_queue_fifo_witness:
  "\<exists>s. dom (su_heap s) = {1, 2} \<and> [7, 7 :: nat] = [7] @ su_contents s"
proof -
  obtain s where s: "reach (su_start (0::nat)) (interleave (su_step [7])) ((s, [7, 7], [7]), [SuIdle, SuIdle])"
    "dom (su_heap s) = {1, 2}" by (rule su_run_reach)
  from sutter_queue_fifo [OF s(1)] s(2) show ?thesis by blast
qed

theorem sutter_queue_destroy_witness:
  "\<exists>s :: nat su_state. dom (su_heap s) = {1, 2} \<and> su_destroy 3 s = Some Map.empty"
proof -
  obtain s where s: "reach (su_start (0::nat)) (interleave (su_step [7])) ((s, [7, 7], [7]), [SuIdle, SuIdle])"
    "dom (su_heap s) = {1, 2}" "su_fresh s = 3" by (rule su_run_reach)
  from sutter_queue_destroy [OF s(1)] s(2,3) show ?thesis by auto
qed

end
