(* ===== verification/Spsc_Queue.thy ===== *)
theory Spsc_Queue
  imports Heap_Chain
begin

text \<open>
  The class \<open>spsc_queue\<close> of \<open>containers/queue/spsc_queue.h\<close> with the accesses \<open>lc\<close> and
  \<open>sr\<close> of \<open>synchronization/lcsr.h\<close>: thread 0 produces, thread 1 consumes. The nodes before
  the tail are the producer's cache, from \<open>m_first\<close> to \<open>m_tail_copy\<close>, an old copy of the
  tail; a node is taken from there before a new one is made, and none is deleted before the
  destructor runs.
\<close>

record 'a sp_state =
  sp_heap :: "'a qheap"
  sp_fresh :: nat
  sp_tail :: nat
  sp_head :: nat
  sp_first :: nat
  sp_tail_copy :: nat

datatype 'a sp_pc =
  SpIdle
| SpAlloc 'a         \<comment> \<open>alloc_node: before the first comparison\<close>
| SpReload 'a        \<comment> \<open>alloc_node: before \<open>lc(&m_tail)\<close>\<close>
| SpClear nat        \<comment> \<open>enqueue: before \<open>n->next = nullptr\<close>\<close>
| SpLink nat         \<comment> \<open>enqueue: before \<open>sr(&m_head->next, n)\<close>\<close>
| SpEnqueued
| SpTest             \<comment> \<open>try_dequeue: before \<open>lc(&m_tail->next)\<close>\<close>
| SpRead             \<comment> \<open>try_dequeue: before the value is read\<close>
| SpMove 'a          \<comment> \<open>try_dequeue: before \<open>sr(&m_tail, m_tail->next)\<close>\<close>
| SpDequeued "'a option"
| SpCrash

text \<open>The constructor before the pre-allocation.\<close>

definition sp_base :: "'a \<Rightarrow> 'a sp_state" where
  "sp_base d = \<lparr>sp_heap = [0 \<mapsto> \<lparr>node_next = None, node_value = d\<rparr>], sp_fresh = 1,
     sp_tail = 0, sp_head = 0, sp_first = 0, sp_tail_copy = 0\<rparr>"

definition sp_create_from_internal :: "'a \<Rightarrow> 'a sp_state \<Rightarrow> 'a sp_pc \<times> 'a sp_state" where
  "sp_create_from_internal v s =
     (case follow (sp_heap s) (sp_first s) of
        Some m \<Rightarrow> (SpClear (sp_first s),
          s\<lparr>sp_first := m, sp_heap := set_value (sp_first s) v (sp_heap s)\<rparr>)
      | None \<Rightarrow> (SpCrash, s))"

fun sp_enqueue :: "'a sp_pc \<Rightarrow> 'a sp_state \<Rightarrow> 'a sp_pc \<times> 'a sp_state" where
  "sp_enqueue (SpAlloc v) s =
     (if sp_first s \<noteq> sp_tail_copy s then sp_create_from_internal v s else (SpReload v, s))"
| "sp_enqueue (SpReload v) s =
     (let s1 = s\<lparr>sp_tail_copy := sp_tail s\<rparr> in
      if sp_first s1 \<noteq> sp_tail_copy s1 then sp_create_from_internal v s1
      else (SpClear (sp_fresh s1), s1\<lparr>sp_fresh := sp_fresh s1 + 1,
              sp_heap := (sp_heap s1)(sp_fresh s1 \<mapsto> \<lparr>node_next = None, node_value = v\<rparr>)\<rparr>))"
| "sp_enqueue (SpClear n) s = (SpLink n, s\<lparr>sp_heap := set_next n None (sp_heap s)\<rparr>)"
| "sp_enqueue (SpLink n) s =
     (if sp_heap s (sp_head s) = None then (SpCrash, s)
      else (SpEnqueued, s\<lparr>sp_heap := set_next (sp_head s) (Some n) (sp_heap s), sp_head := n\<rparr>))"
| "sp_enqueue p s = (p, s)"

fun sp_try_dequeue :: "'a sp_pc \<Rightarrow> 'a sp_state \<Rightarrow> 'a sp_pc \<times> 'a sp_state" where
  "sp_try_dequeue SpTest s =
     (if sp_heap s (sp_tail s) = None then (SpCrash, s)
      else if follow (sp_heap s) (sp_tail s) = None then (SpDequeued None, s) else (SpRead, s))"
| "sp_try_dequeue SpRead s =
     (case Option.bind (follow (sp_heap s) (sp_tail s)) (sp_heap s) of
        Some x \<Rightarrow> (SpMove (node_value x), s)
      | None \<Rightarrow> (SpCrash, s))"
| "sp_try_dequeue (SpMove v) s =
     (case follow (sp_heap s) (sp_tail s) of
        Some n \<Rightarrow> (SpDequeued (Some v), s\<lparr>sp_tail := n\<rparr>)
      | None \<Rightarrow> (SpCrash, s))"
| "sp_try_dequeue p s = (p, s)"

text \<open>Calls that run alone, and the whole constructor.\<close>

definition sp_push :: "'a \<Rightarrow> 'a sp_state \<Rightarrow> bool \<times> 'a sp_state" where
  "sp_push v s = (case run_alone sp_enqueue (\<lambda>p. p = SpEnqueued) 4 (SpAlloc v) s of
     Some (p, s') \<Rightarrow> (True, s') | None \<Rightarrow> (False, s))"

definition sp_pop :: "'a sp_state \<Rightarrow> 'a option \<times> 'a sp_state" where
  "sp_pop s = (case run_alone sp_try_dequeue (\<lambda>p. \<exists>r. p = SpDequeued r) 3 SpTest s of
     Some (SpDequeued r, s') \<Rightarrow> (r, s') | _ \<Rightarrow> (None, s))"

definition sp_init :: "nat \<Rightarrow> 'a \<Rightarrow> 'a sp_state" where
  "sp_init pre_alloc d =
     snd (deq_many sp_pop pre_alloc (snd (enq_all sp_push (replicate pre_alloc d) (sp_base d))))"

definition sp_destroy :: "nat \<Rightarrow> 'a sp_state \<Rightarrow> 'a qheap option" where
  "sp_destroy fuel s = free_chain fuel (sp_heap s) (Some (sp_first s))"

text \<open>A value is sent when its node is linked, and got when the tail moves to it.\<close>

definition sp_record :: "'a sp_pc \<Rightarrow> 'a sp_state \<Rightarrow> 'a list \<times> 'a list \<Rightarrow> 'a list \<times> 'a list" where
  "sp_record p s w =
     (case p of
        SpLink n \<Rightarrow> (case sp_heap s n of Some x \<Rightarrow> (fst w @ [node_value x], snd w) | None \<Rightarrow> w)
      | SpMove v \<Rightarrow> (fst w, snd w @ [v])
      | _ \<Rightarrow> w)"

definition sp_step :: "'a list \<Rightarrow> ('a sp_state \<times> 'a list \<times> 'a list, 'a sp_pc) thread_step" where
  "sp_step vals i p sh =
     (case p of
        SpIdle \<Rightarrow> if i = 0 then map (\<lambda>v. (SpAlloc v, sh)) vals else [(SpTest, sh)]
      | SpEnqueued \<Rightarrow> [(SpIdle, sh)]
      | SpDequeued r \<Rightarrow> [(SpIdle, sh)]
      | SpCrash \<Rightarrow> []
      | _ \<Rightarrow> (case (if i = 0 then sp_enqueue else sp_try_dequeue) p (fst sh) of
                (p', s') \<Rightarrow> [(p', s', sp_record p (fst sh) (snd sh))]))"

definition sp_start :: "nat \<Rightarrow> 'a \<Rightarrow> ('a sp_state \<times> 'a list \<times> 'a list, 'a sp_pc) system \<Rightarrow> bool" where
  "sp_start pre_alloc d t \<longleftrightarrow> t = ((sp_init pre_alloc d, [], []), [SpIdle, SpIdle])"


section \<open>The invariant\<close>

text \<open>The nodes in the order of the links: \<open>xs\<close> the cache, the tail, \<open>ys\<close> the contents;
  \<open>own\<close> is the node the producer has taken and not linked yet.\<close>

definition sp_shape :: "'a sp_state \<Rightarrow> (nat \<times> 'a) list \<Rightarrow> 'a \<Rightarrow> (nat \<times> 'a) list \<Rightarrow> nat set \<Rightarrow> bool" where
  "sp_shape s xs x0 ys own \<longleftrightarrow>
     chain (sp_heap s) (xs @ (sp_tail s, x0) # ys) None
     \<and> distinct (map fst (xs @ (sp_tail s, x0) # ys))
     \<and> dom (sp_heap s) = fst ` set (xs @ (sp_tail s, x0) # ys) \<union> own
     \<and> fst ` set (xs @ (sp_tail s, x0) # ys) \<inter> own = {}
     \<and> (\<forall>a \<in> dom (sp_heap s). a < sp_fresh s)
     \<and> sp_first s = fst (hd (xs @ [(sp_tail s, x0)]))
     \<and> sp_head s = fst (last ((sp_tail s, x0) # ys))
     \<and> sp_tail_copy s \<in> insert (sp_tail s) (fst ` set xs)"

fun sp_own :: "'a sp_pc \<Rightarrow> nat set" where
  "sp_own (SpClear n) = {n}"
| "sp_own (SpLink n) = {n}"
| "sp_own p = {}"

fun sp_producer_ok :: "'a sp_state \<Rightarrow> 'a sp_pc \<Rightarrow> bool" where
  "sp_producer_ok s SpIdle = True"
| "sp_producer_ok s (SpAlloc v) = True"
| "sp_producer_ok s (SpReload v) = True"
| "sp_producer_ok s (SpClear n) = True"
| "sp_producer_ok s (SpLink n) = (\<exists>v. sp_heap s n = Some \<lparr>node_next = None, node_value = v\<rparr>)"
| "sp_producer_ok s SpEnqueued = True"
| "sp_producer_ok s p = False"

fun sp_consumer_ok :: "(nat \<times> 'a) list \<Rightarrow> 'a sp_pc \<Rightarrow> bool" where
  "sp_consumer_ok ys SpIdle = True"
| "sp_consumer_ok ys SpTest = True"
| "sp_consumer_ok ys SpRead = (ys \<noteq> [])"
| "sp_consumer_ok ys (SpMove v) = (\<exists>n ys'. ys = (n, v) # ys')"
| "sp_consumer_ok ys (SpDequeued r) = True"
| "sp_consumer_ok ys p = False"

definition sp_inv :: "'a sp_state \<times> 'a list \<times> 'a list \<Rightarrow> 'a sp_pc list \<Rightarrow> bool" where
  [inv_defs]: "sp_inv sh ps \<longleftrightarrow> (\<exists>p0 p1 xs x0 ys. ps = [p0, p1] \<and> sp_shape (fst sh) xs x0 ys (sp_own p0)
     \<and> fst (snd sh) = snd (snd sh) @ map snd ys
     \<and> sp_producer_ok (fst sh) p0 \<and> sp_consumer_ok ys p1)"

lemma sp_invI:
  "sp_shape s xs x0 ys (sp_own p0) \<Longrightarrow> sent = got @ map snd ys \<Longrightarrow> sp_producer_ok s p0 \<Longrightarrow>
    sp_consumer_ok ys p1 \<Longrightarrow> sp_inv (s, sent, got) [p0, p1]"
  by (auto simp: sp_inv_def)

lemma sp_consumer_more: "sp_consumer_ok ys p \<Longrightarrow> sp_consumer_ok (ys @ zs) p"
  by (cases p) auto

definition sp_contents :: "'a sp_state \<Rightarrow> 'a list" where
  "sp_contents s = values_after (sp_fresh s) (sp_heap s) (sp_tail s) None"

lemma sp_shape_contents:
  assumes sh: "sp_shape s xs x0 ys own"
  shows "sp_contents s = map snd ys"
proof -
  have "length (xs @ (sp_tail s, x0) # ys) \<le> sp_fresh s"
    using sh by (intro chain_length) (simp_all add: sp_shape_def)
  then have "length ys < sp_fresh s" by simp
  with sh show ?thesis
    unfolding sp_contents_def by (intro values_after_end [of _ _ x0]) (simp_all add: sp_shape_def)
qed

text \<open>A node of the cache is taken.\<close>

lemma sp_take_shape:
  assumes sh: "sp_shape s xs x0 ys {}" and ne: "sp_first s \<noteq> sp_tail_copy s"
  obtains m xs' where "follow (sp_heap s) (sp_first s) = Some m" "length xs = Suc (length xs')"
    and "sp_shape (s\<lparr>sp_first := m, sp_heap := set_value (sp_first s) v (sp_heap s)\<rparr>) xs' x0 ys {sp_first s}"
proof -
  obtain a x xs' where xs: "xs = (a, x) # xs'" "sp_first s = a"
    using sh ne by (cases xs) (auto simp: sp_shape_def)
  let ?cs = "xs' @ (sp_tail s, x0) # ys"
  let ?m = "fst (hd (xs' @ [(sp_tail s, x0)]))"
  have cs: "chain (sp_heap s) ((a, x) # ?cs) None" "distinct (map fst ((a, x) # ?cs))"
    "dom (sp_heap s) = insert a (fst ` set ?cs)" "\<forall>b \<in> dom (sp_heap s). b < sp_fresh s"
    using sh unfolding sp_shape_def xs(1) by simp_all
  from cs(2) have a: "a \<notin> fst ` set ?cs" by (simp add: image_Un)
  have "head_of ?cs None = Some ?m" by (cases xs') auto
  then have "follow (sp_heap s) (sp_first s) = Some ?m" using cs(1) xs(2) by (simp add: follow_def)
  moreover have "chain (set_value a v (sp_heap s)) ?cs None" unfolding chain_set_value [OF a] using cs(1) by simp
  then have "sp_shape (s\<lparr>sp_first := ?m, sp_heap := set_value (sp_first s) v (sp_heap s)\<rparr>) xs' x0 ys {sp_first s}"
    using sh cs(2,3,4) a xs ne unfolding sp_shape_def by auto
  moreover have "length xs = Suc (length xs')" using xs(1) by simp
  ultimately show thesis by (intro that)
qed

lemma sp_new_shape:
  assumes sh: "sp_shape s xs x0 ys {}"
  shows "sp_shape (s\<lparr>sp_fresh := sp_fresh s + 1,
      sp_heap := (sp_heap s)(sp_fresh s \<mapsto> \<lparr>node_next = None, node_value = v\<rparr>)\<rparr>) xs x0 ys {sp_fresh s}"
proof -
  let ?cs = "xs @ (sp_tail s, x0) # ys"
  have cs: "chain (sp_heap s) ?cs None" "dom (sp_heap s) = fst ` set ?cs" "\<forall>b \<in> dom (sp_heap s). b < sp_fresh s"
    using sh by (simp_all add: sp_shape_def)
  then have out: "sp_fresh s \<notin> fst ` set ?cs" by (metis less_irrefl)
  then have "chain ((sp_heap s)(sp_fresh s \<mapsto> \<lparr>node_next = None, node_value = v\<rparr>)) ?cs None"
    unfolding chain_upd [OF out] using cs(1) by simp
  moreover have "fst ` set ?cs \<inter> {sp_fresh s} = {}"
    by (simp only: Int_insert_right_if0 [OF out] Int_empty_right)
  moreover have "\<forall>b \<in> insert (sp_fresh s) (fst ` set ?cs). b < sp_fresh s + 1"
    using cs(2,3) by (auto simp: less_Suc_eq)
  ultimately show ?thesis using sh cs(2) unfolding sp_shape_def by simp
qed

lemma sp_reload_shape:
  "sp_shape s xs x0 ys own \<Longrightarrow> sp_shape (s\<lparr>sp_tail_copy := sp_tail s\<rparr>) xs x0 ys own"
  by (simp add: sp_shape_def)

lemma sp_clear_shape:
  assumes sh: "sp_shape s xs x0 ys {n}"
  shows "sp_shape (s\<lparr>sp_heap := set_next n None (sp_heap s)\<rparr>) xs x0 ys {n}"
    and "\<exists>v. set_next n None (sp_heap s) n = Some \<lparr>node_next = None, node_value = v\<rparr>"
proof -
  let ?cs = "xs @ (sp_tail s, x0) # ys"
  have out: "n \<notin> fst ` set ?cs" using sh by (auto simp: sp_shape_def)
  have "chain (set_next n None (sp_heap s)) ?cs None"
    unfolding chain_set_next [OF out] using sh by (simp add: sp_shape_def)
  then show "sp_shape (s\<lparr>sp_heap := set_next n None (sp_heap s)\<rparr>) xs x0 ys {n}"
    using sh unfolding sp_shape_def by simp
  have "n \<in> dom (sp_heap s)" using sh by (simp add: sp_shape_def)
  then obtain x where "sp_heap s n = Some x" by blast
  then show "\<exists>v. set_next n None (sp_heap s) n = Some \<lparr>node_next = None, node_value = v\<rparr>"
    by (cases x) (simp add: set_next_apply)
qed

lemma sp_link_shape:
  assumes sh: "sp_shape s xs x0 ys {n}" and n: "sp_heap s n = Some \<lparr>node_next = None, node_value = v\<rparr>"
  shows "sp_heap s (sp_head s) \<noteq> None"
    and "sp_shape (s\<lparr>sp_heap := set_next (sp_head s) (Some n) (sp_heap s), sp_head := n\<rparr>) xs x0 (ys @ [(n, v)]) {}"
proof -
  let ?cs = "xs @ (sp_tail s, x0) # ys"
  obtain zs a y where z: "?cs = zs @ [(a, y)]" and a: "sp_head s = a"
  proof -
    obtain a y where l: "last ((sp_tail s, x0) # ys) = (a, y)" by (cases "last ((sp_tail s, x0) # ys)")
    then have "(sp_tail s, x0) # ys = butlast ((sp_tail s, x0) # ys) @ [(a, y)]"
      by (metis append_butlast_last_id list.distinct(1))
    then show thesis using l sh
      by (intro that [of "xs @ butlast ((sp_tail s, x0) # ys)" a y]) (simp_all add: sp_shape_def)
  qed
  have out: "n \<notin> fst ` set ?cs" using sh by (auto simp: sp_shape_def)
  have "chain (sp_heap s) (zs @ [(a, y)]) None" "distinct (map fst (zs @ [(a, y)]))"
    using sh unfolding sp_shape_def z [symmetric] by simp_all
  moreover have "distinct (map fst (zs @ [(a, y), (n, v)]))" using out calculation(2) unfolding z by auto
  ultimately have "chain (set_next a (Some n) (sp_heap s)) (zs @ [(a, y), (n, v)]) None"
    using n by (intro chain_link)
  then have ch: "chain (set_next a (Some n) (sp_heap s)) (?cs @ [(n, v)]) None" unfolding z by simp
  have "a \<in> fst ` set ?cs" unfolding z by simp
  moreover have dom: "dom (sp_heap s) = insert n (fst ` set ?cs)" using sh by (simp add: sp_shape_def)
  ultimately show "sp_heap s (sp_head s) \<noteq> None" using a by blast
  have "distinct (map fst (?cs @ [(n, v)]))" using sh out by (auto simp: sp_shape_def)
  moreover have "dom (set_next a (Some n) (sp_heap s)) = fst ` set (?cs @ [(n, v)])" using dom by auto
  moreover have "\<forall>b \<in> dom (set_next a (Some n) (sp_heap s)). b < sp_fresh s" using sh by (simp add: sp_shape_def)
  moreover have "sp_first s = fst (hd (xs @ [(sp_tail s, x0)]))" "sp_tail_copy s \<in> insert (sp_tail s) (fst ` set xs)"
    using sh by (simp_all add: sp_shape_def)
  ultimately show "sp_shape (s\<lparr>sp_heap := set_next (sp_head s) (Some n) (sp_heap s), sp_head := n\<rparr>) xs x0 (ys @ [(n, v)]) {}"
    using ch a unfolding sp_shape_def by (simp only: sp_state.simps append.simps append_assoc) simp
qed

text \<open>The consumer.\<close>

lemma sp_front_shape:
  assumes sh: "sp_shape s xs x0 ((n, v) # ys) own"
  shows "follow (sp_heap s) (sp_tail s) = Some n" and "\<exists>x. sp_heap s n = Some x \<and> node_value x = v"
    and "sp_shape (s\<lparr>sp_tail := n\<rparr>) (xs @ [(sp_tail s, x0)]) v ys own"
proof -
  show "follow (sp_heap s) (sp_tail s) = Some n" "\<exists>x. sp_heap s n = Some x \<and> node_value x = v"
    using sh by (simp_all add: sp_shape_def follow_def)
  show "sp_shape (s\<lparr>sp_tail := n\<rparr>) (xs @ [(sp_tail s, x0)]) v ys own"
    using sh by (cases xs) (auto simp: sp_shape_def)
qed

lemma sp_empty_shape: "sp_shape s xs x0 [] own \<Longrightarrow> follow (sp_heap s) (sp_tail s) = None"
  by (simp add: sp_shape_def follow_def)

lemma sp_tail_live: "sp_shape s xs x0 ys own \<Longrightarrow> sp_heap s (sp_tail s) \<noteq> None"
  by (auto simp: sp_shape_def)

lemma sp_producer_step:
  assumes sh: "sp_shape s xs x0 ys (sp_own p0)" and log: "sent = got @ map snd ys"
    and ok: "sp_producer_ok s p0" "sp_consumer_ok ys p1"
    and st: "(p', s', sent', got') \<in> set (sp_step vals 0 p0 (s, sent, got))"
  shows "sp_inv (s', sent', got') [p', p1]"
proof -
  have take: "sp_inv (snd (sp_create_from_internal v t), sent, got) [fst (sp_create_from_internal v t), p1]"
    if t: "sp_shape t xs x0 ys {}" "sp_first t \<noteq> sp_tail_copy t" for v t
  proof -
    obtain m xs' where m: "follow (sp_heap t) (sp_first t) = Some m"
      and sh': "sp_shape (t\<lparr>sp_first := m, sp_heap := set_value (sp_first t) v (sp_heap t)\<rparr>) xs' x0 ys {sp_first t}"
      by (rule sp_take_shape [OF t, of v])
    then show ?thesis using log ok(2) by (auto simp: sp_create_from_internal_def intro!: sp_invI)
  qed
  show ?thesis
  proof (cases p0)
    case SpIdle
    with st ok obtain v where "p' = SpAlloc v" "s' = s" "sent' = sent" "got' = got"
      by (auto simp: sp_step_def)
    with SpIdle sh log ok show ?thesis by (auto intro!: sp_invI)
  next
    case (SpAlloc v)
    show ?thesis
    proof (cases "sp_first s \<noteq> sp_tail_copy s")
      case True
      then have "p' = fst (sp_create_from_internal v s)" "s' = snd (sp_create_from_internal v s)" "sent' = sent" "got' = got"
        using st SpAlloc by (cases "sp_create_from_internal v s"; simp add: sp_step_def sp_record_def)+
      with take [of s v] True sh SpAlloc show ?thesis by simp
    next
      case False
      then have "p' = SpReload v" "s' = s" "sent' = sent" "got' = got"
        using st SpAlloc by (simp_all add: sp_step_def sp_record_def)
      with SpAlloc sh log ok show ?thesis by (auto intro!: sp_invI)
    qed
  next
    case (SpReload v)
    let ?t = "s\<lparr>sp_tail_copy := sp_tail s\<rparr>"
    have sh': "sp_shape ?t xs x0 ys {}" using sp_reload_shape [OF sh] SpReload by simp
    show ?thesis
    proof (cases "sp_first ?t \<noteq> sp_tail_copy ?t")
      case True
      then have "p' = fst (sp_create_from_internal v ?t)" "s' = snd (sp_create_from_internal v ?t)" "sent' = sent" "got' = got"
        using st SpReload
        by (cases "sp_create_from_internal v ?t"; simp add: sp_step_def sp_record_def Let_def)+
      with take [OF sh' True, of v] show ?thesis by simp
    next
      case False
      then have "p' = SpClear (sp_fresh ?t)" "sent' = sent" "got' = got"
        "s' = ?t\<lparr>sp_fresh := sp_fresh ?t + 1, sp_heap := (sp_heap ?t)(sp_fresh ?t \<mapsto> \<lparr>node_next = None, node_value = v\<rparr>)\<rparr>"
        using st SpReload by (simp_all add: sp_step_def sp_record_def Let_def)
      with sp_new_shape [OF sh', of v] log ok show ?thesis by (auto intro!: sp_invI)
    qed
  next
    case (SpClear n)
    note cl = sp_clear_shape [OF sh [unfolded SpClear sp_own.simps]]
    have "p' = SpLink n" "s' = s\<lparr>sp_heap := set_next n None (sp_heap s)\<rparr>" "sent' = sent" "got' = got"
      using st SpClear by (simp_all add: sp_step_def sp_record_def)
    with cl log ok show ?thesis by (auto intro!: sp_invI)
  next
    case (SpLink n)
    then obtain v where n: "sp_heap s n = Some \<lparr>node_next = None, node_value = v\<rparr>" using ok by auto
    note ln = sp_link_shape [OF sh [unfolded SpLink sp_own.simps] n]
    have "p' = SpEnqueued" "s' = s\<lparr>sp_heap := set_next (sp_head s) (Some n) (sp_heap s), sp_head := n\<rparr>"
      "sent' = sent @ [v]" "got' = got"
      using st SpLink ln(1) n by (auto simp: sp_step_def sp_record_def)
    with ln(2) log sp_consumer_more [OF ok(2)] show ?thesis by (auto intro!: sp_invI)
  next
    case SpEnqueued
    with st have "p' = SpIdle" "s' = s" "sent' = sent" "got' = got" by (simp_all add: sp_step_def)
    with SpEnqueued sh log ok show ?thesis by (auto intro!: sp_invI)
  qed (use ok in simp_all)
qed

lemma sp_consumer_step:
  assumes sh: "sp_shape s xs x0 ys (sp_own p0)" and log: "sent = got @ map snd ys"
    and ok: "sp_producer_ok s p0" "sp_consumer_ok ys p1"
    and st: "(p', s', sent', got') \<in> set (sp_step vals 1 p1 (s, sent, got))"
  shows "sp_inv (s', sent', got') [p0, p']"
proof (cases p1)
  case SpIdle
  with st have "p' = SpTest" "s' = s" "sent' = sent" "got' = got" by (simp_all add: sp_step_def)
  with sh log ok show ?thesis by (auto intro!: sp_invI)
next
  case SpTest
  show ?thesis
  proof (cases ys)
    case Nil
    then have "p' = SpDequeued None" "s' = s" "sent' = sent" "got' = got"
      using st SpTest sp_empty_shape [of s xs x0 "sp_own p0"] sp_tail_live [OF sh] sh
      by (auto simp: sp_step_def sp_record_def)
    with sh log ok show ?thesis by (auto intro!: sp_invI)
  next
    case (Cons c ys')
    then have "follow (sp_heap s) (sp_tail s) = Some (fst c)"
      using sp_front_shape(1) [of s xs x0 "fst c" "snd c" ys'] sh by simp
    then have "p' = SpRead" "s' = s" "sent' = sent" "got' = got"
      using st SpTest sp_tail_live [OF sh] by (auto simp: sp_step_def sp_record_def)
    with sh log ok Cons show ?thesis by (auto intro!: sp_invI)
  qed
next
  case SpRead
  then obtain n v ys' where ys: "ys = (n, v) # ys'" using ok by (cases ys) auto
  note fr = sp_front_shape [OF sh [unfolded ys]]
  have "p' = SpMove v" "s' = s" "sent' = sent" "got' = got"
    using st SpRead fr(1,2) by (auto simp: sp_step_def sp_record_def)
  with sh log ok ys show ?thesis by (auto intro!: sp_invI)
next
  case (SpMove v)
  then obtain n ys' where ys: "ys = (n, v) # ys'" using ok by auto
  note fr = sp_front_shape [OF sh [unfolded ys]]
  have e: "p' = SpDequeued (Some v)" "s' = s\<lparr>sp_tail := n\<rparr>" "sent' = sent" "got' = got @ [v]"
    using st SpMove fr(1) by (auto simp: sp_step_def sp_record_def)
  have "sp_producer_ok s' p0" using ok(1) e by (cases p0) auto
  with fr(3) e log ys show ?thesis by (auto intro!: sp_invI)
next
  case (SpDequeued r)
  with st have "p' = SpIdle" "s' = s" "sent' = sent" "got' = got" by (simp_all add: sp_step_def)
  with sh log ok show ?thesis by (auto intro!: sp_invI)
qed (use ok in simp_all)


section \<open>Calls that do not overlap\<close>

text \<open>The number of nodes in the cache, the contents, and the number of nodes ever made.\<close>

definition sp_view :: "'a sp_state \<Rightarrow> nat \<Rightarrow> 'a list \<Rightarrow> nat \<Rightarrow> bool" where
  "sp_view s c vs f \<longleftrightarrow>
     (\<exists>xs x0 ys. sp_shape s xs x0 ys {} \<and> length xs = c \<and> map snd ys = vs \<and> sp_fresh s = f)"

lemma sp_viewI: "sp_shape s xs x0 ys {} \<Longrightarrow> length xs = c \<Longrightarrow> map snd ys = vs \<Longrightarrow> sp_fresh s = f \<Longrightarrow> sp_view s c vs f"
  by (auto simp: sp_view_def)

lemma sp_finish:
  assumes sh: "sp_shape s xs x0 ys {n}" and x: "sp_heap s n = Some x" "node_value x = v"
  obtains s' where "run_alone sp_enqueue (\<lambda>p. p = SpEnqueued) 2 (SpClear n) s = Some (SpEnqueued, s')"
    and "sp_view s' (length xs) (map snd ys @ [v]) (sp_fresh s)"
proof -
  let ?s1 = "s\<lparr>sp_heap := set_next n None (sp_heap s)\<rparr>"
  let ?s2 = "?s1\<lparr>sp_heap := set_next (sp_head s) (Some n) (sp_heap ?s1), sp_head := n\<rparr>"
  have n: "sp_heap ?s1 n = Some \<lparr>node_next = None, node_value = v\<rparr>"
    using x by (cases x) (simp add: set_next_apply)
  note ln = sp_link_shape [OF sp_clear_shape(1) [OF sh] n]
  have "run_alone sp_enqueue (\<lambda>p. p = SpEnqueued) 2 (SpClear n) s = Some (SpEnqueued, ?s2)"
    using ln(1) by (auto simp: run_alone_unfold)
  moreover have "sp_shape ?s2 xs x0 (ys @ [(n, v)]) {}" using ln(2) by simp
  then have "sp_view ?s2 (length xs) (map snd ys @ [v]) (sp_fresh s)"
    by (rule sp_viewI) simp_all
  ultimately show thesis by (rule that)
qed

lemma sp_take_alone:
  assumes sh: "sp_shape s xs x0 ys {}" and ne: "sp_first s \<noteq> sp_tail_copy s"
  obtains s' n where "fst (sp_create_from_internal v s) = SpClear n"
    "run_alone sp_enqueue (\<lambda>p. p = SpEnqueued) 2 (SpClear n) (snd (sp_create_from_internal v s)) = Some (SpEnqueued, s')"
    "0 < length xs" "sp_view s' (length xs - 1) (map snd ys @ [v]) (sp_fresh s)"
proof -
  obtain m xs' where m: "follow (sp_heap s) (sp_first s) = Some m" "length xs = Suc (length xs')"
    and sh': "sp_shape (s\<lparr>sp_first := m, sp_heap := set_value (sp_first s) v (sp_heap s)\<rparr>) xs' x0 ys {sp_first s}"
    by (rule sp_take_shape [OF sh ne, of v])
  obtain y where y: "sp_heap s (sp_first s) = Some y" using m(1) by (auto simp: follow_def bind_eq_Some_conv)
  then have x: "sp_heap (s\<lparr>sp_first := m, sp_heap := set_value (sp_first s) v (sp_heap s)\<rparr>) (sp_first s)
      = Some (y\<lparr>node_value := v\<rparr>)"
    by (simp add: set_value_def)
  obtain s' where r: "run_alone sp_enqueue (\<lambda>p. p = SpEnqueued) 2 (SpClear (sp_first s))
      (s\<lparr>sp_first := m, sp_heap := set_value (sp_first s) v (sp_heap s)\<rparr>) = Some (SpEnqueued, s')"
    and v: "sp_view s' (length xs') (map snd ys @ [v]) (sp_fresh s)"
    using sp_finish [OF sh' x, of v] by auto
  show thesis
    by (rule that [of "sp_first s" s']) (use m r v in \<open>simp_all add: sp_create_from_internal_def\<close>)
qed

lemma sp_push_view:
  assumes "sp_view s c vs f"
  shows "\<exists>s'. sp_push v s = (True, s') \<and> sp_view s' (c - 1) (vs @ [v]) (if c = 0 then f + 1 else f)"
proof -
  obtain xs x0 ys where sh: "sp_shape s xs x0 ys {}" and c: "length xs = c" "map snd ys = vs" "sp_fresh s = f"
    using assms by (auto simp: sp_view_def)
  let ?t = "s\<lparr>sp_tail_copy := sp_tail s\<rparr>"
  have sh': "sp_shape ?t xs x0 ys {}" using sh by (rule sp_reload_shape)
  consider "sp_first s \<noteq> sp_tail_copy s" | "sp_first s = sp_tail_copy s" "sp_first s \<noteq> sp_tail s"
    | "sp_first s = sp_tail_copy s" "sp_first s = sp_tail s" by blast
  then show ?thesis
  proof cases
    case 1
    obtain s' n where r: "fst (sp_create_from_internal v s) = SpClear n"
      "run_alone sp_enqueue (\<lambda>p. p = SpEnqueued) 2 (SpClear n) (snd (sp_create_from_internal v s)) = Some (SpEnqueued, s')"
      "0 < length xs" "sp_view s' (length xs - 1) (map snd ys @ [v]) (sp_fresh s)"
      by (rule sp_take_alone [OF sh 1])
    have "run_alone sp_enqueue (\<lambda>p. p = SpEnqueued) 3 (SpAlloc v) s = Some (SpEnqueued, s')"
      using 1 r(1,2) by (cases "sp_create_from_internal v s") (simp add: run_alone_numeral)
    from run_alone_mono [OF this, of 4] r(3,4) c show ?thesis by (auto simp: sp_push_def)
  next
    case 2
    then have ne: "sp_first ?t \<noteq> sp_tail_copy ?t" by simp
    obtain s' n where r: "fst (sp_create_from_internal v ?t) = SpClear n"
      "run_alone sp_enqueue (\<lambda>p. p = SpEnqueued) 2 (SpClear n) (snd (sp_create_from_internal v ?t)) = Some (SpEnqueued, s')"
      "0 < length xs" "sp_view s' (length xs - 1) (map snd ys @ [v]) (sp_fresh ?t)"
      by (rule sp_take_alone [OF sh' ne])
    have "run_alone sp_enqueue (\<lambda>p. p = SpEnqueued) 4 (SpAlloc v) s = Some (SpEnqueued, s')"
      using 2 r(1,2) by (cases "sp_create_from_internal v ?t") (simp add: run_alone_numeral Let_def)
    with r(3,4) c show ?thesis by (auto simp: sp_push_def)
  next
    case 3
    have xs: "xs = []" using sh 3(2) by (cases xs) (auto simp: sp_shape_def)
    let ?u = "?t\<lparr>sp_fresh := sp_fresh ?t + 1,
      sp_heap := (sp_heap ?t)(sp_fresh ?t \<mapsto> \<lparr>node_next = None, node_value = v\<rparr>)\<rparr>"
    have hu: "sp_heap ?u (sp_fresh ?t) = Some \<lparr>node_next = None, node_value = v\<rparr>" by simp
    obtain s' where r: "run_alone sp_enqueue (\<lambda>p. p = SpEnqueued) 2 (SpClear (sp_fresh ?t)) ?u = Some (SpEnqueued, s')"
      "sp_view s' (length xs) (map snd ys @ [v]) (sp_fresh ?u)"
      using sp_finish [OF sp_new_shape [OF sh', of v] hu, of v] by auto
    have "run_alone sp_enqueue (\<lambda>p. p = SpEnqueued) 4 (SpAlloc v) s = Some (SpEnqueued, s')"
      using 3 r(1) by (simp add: run_alone_numeral Let_def)
    with r(2) c xs show ?thesis by (auto simp: sp_push_def)
  qed
qed

lemma sp_pop_view: "sp_view s c (v # vs) f \<Longrightarrow> \<exists>s'. sp_pop s = (Some v, s') \<and> sp_view s' (c + 1) vs f"
proof -
  assume "sp_view s c (v # vs) f"
  then obtain xs x0 n ys where sh: "sp_shape s xs x0 ((n, v) # ys) {}" and c: "length xs = c" "map snd ys = vs" "sp_fresh s = f"
    by (auto simp: sp_view_def map_eq_Cons_conv)
  note fr = sp_front_shape [OF sh]
  have "sp_pop s = (Some v, s\<lparr>sp_tail := n\<rparr>)"
    using fr(1,2) sp_tail_live [OF sh] by (auto simp: sp_pop_def run_alone_unfold)
  moreover have "sp_view (s\<lparr>sp_tail := n\<rparr>) (c + 1) vs f"
    by (rule sp_viewI [OF fr(3)]) (use c in simp_all)
  ultimately show ?thesis by blast
qed

lemma sp_pop_empty: "sp_view s c [] f \<Longrightarrow> sp_pop s = (None, s)"
proof -
  assume "sp_view s c [] f"
  then obtain xs x0 where sh: "sp_shape s xs x0 [] {}" by (auto simp: sp_view_def)
  from sp_empty_shape [OF this] sp_tail_live [OF this] show ?thesis
    by (auto simp: sp_pop_def run_alone_unfold)
qed

lemma sp_view_contents: "sp_view s c vs f \<Longrightarrow> sp_contents s = vs"
  by (auto simp: sp_view_def dest: sp_shape_contents)

definition sp_wf :: "'a sp_state \<Rightarrow> bool" where
  "sp_wf s \<longleftrightarrow> (\<exists>c f. sp_view s c (sp_contents s) f)"

lemma sp_wfI: "sp_view s c vs f \<Longrightarrow> sp_wf s"
  using sp_view_contents by (fastforce simp: sp_wf_def)

text \<open>Called one after the other the operations are those of an unbounded queue.\<close>

interpretation spq: fifo sp_push sp_pop sp_contents sp_wf "\<lambda>s. n" for n
proof
  fix s :: "'a sp_state" and x b s'
  assume "sp_wf s" and p: "sp_push x s = (b, s')"
  then obtain c f where "sp_view s c (sp_contents s) f" by (auto simp: sp_wf_def)
  from sp_push_view [OF this, of x] p have "b" "sp_view s' (c - 1) (sp_contents s @ [x]) (if c = 0 then f + 1 else f)"
    by auto
  then show "b \<and> sp_wf s' \<and> sp_contents s' = sp_contents s @ [x] \<and> n \<le> Suc n"
    by (auto intro: sp_wfI dest: sp_view_contents)
next
  fix s :: "'a sp_state" and r s'
  assume "sp_wf s" and p: "sp_pop s = (r, s')"
  then obtain c f where v: "sp_view s c (sp_contents s) f" by (auto simp: sp_wf_def)
  show "sp_wf s' \<and> spec_deq (sp_contents s) = (r, sp_contents s')"
  proof (cases "sp_contents s")
    case Nil
    with v sp_pop_empty [of s c f] p \<open>sp_wf s\<close> show ?thesis by auto
  next
    case (Cons x vs)
    with v sp_pop_view [of s c x vs f] p show ?thesis by (auto intro: sp_wfI dest: sp_view_contents)
  qed
qed

lemma sp_pushes_view: "sp_view s c us f \<Longrightarrow>
    sp_view (snd (enq_all sp_push vs s)) (c - length vs) (us @ vs) (f + (length vs - c))"
proof (induction vs arbitrary: s c us f)
  case Nil
  then show ?case by simp
next
  case (Cons v vs)
  from sp_push_view [OF Cons.prems, of v] obtain s' where s': "sp_push v s = (True, s')"
    "sp_view s' (c - 1) (us @ [v]) (if c = 0 then f + 1 else f)" by blast
  from Cons.IH [OF s'(2)] s'(1) show ?case by (cases c) (auto split: prod.splits)
qed

lemma sp_pops_view: "sp_view s c (us @ vs) f \<Longrightarrow>
    sp_view (snd (deq_many sp_pop (length us) s)) (c + length us) vs f"
proof (induction us arbitrary: s c)
  case Nil
  then show ?case by simp
next
  case (Cons u us)
  from Cons.prems have "sp_view s c (u # us @ vs) f" by simp
  from sp_pop_view [OF this] obtain s' where s': "sp_pop s = (Some u, s')" "sp_view s' (c + 1) (us @ vs) f" by blast
  from Cons.IH [OF s'(2)] s'(1) show ?case by (auto split: prod.splits)
qed

lemma sp_init_view: "sp_view (sp_init n d) n [] (n + 1)"
proof -
  have "sp_shape (sp_base d) [] d [] {}" by (simp add: sp_shape_def sp_base_def)
  then have "sp_view (sp_base d) 0 [] 1" by (rule sp_viewI) (simp_all add: sp_base_def)
  from sp_pushes_view [OF this, of "replicate n d"]
  have "sp_view (snd (enq_all sp_push (replicate n d) (sp_base d))) 0 (replicate n d @ []) (n + 1)" by simp
  from sp_pops_view [OF this] show ?thesis by (simp add: sp_init_def)
qed

interpretation spc: queue_protocol "sp_step vals" "sp_start n d" sp_inv "\<lambda>sh. fst (snd sh)" "\<lambda>sh. snd (snd sh)"
  "\<lambda>sh. sp_contents (fst sh)" "\<lambda>p. p = SpCrash"
proof
  fix sh ps
  assume "sp_start n d (sh, ps)"
  then have e: "sh = (sp_init n d, [], [])" "ps = [SpIdle, SpIdle]" by (simp_all add: sp_start_def)
  obtain xs x0 where "sp_shape (sp_init n d) xs x0 [] {}" using sp_init_view [of n d] by (auto simp: sp_view_def)
  then show "sp_inv sh ps" unfolding e by (intro sp_invI [of _ xs x0 "[]"]) simp_all
next
  fix sh ps i p' sh'
  assume inv: "sp_inv sh ps" and i: "i < length ps" and st: "(p', sh') \<in> set (sp_step vals i (ps ! i) sh)"
  obtain s sent got where sh: "sh = (s, sent, got)" by (cases sh)
  obtain s' sent' got' where sh': "sh' = (s', sent', got')" by (cases sh')
  from inv sh obtain p0 p1 xs x0 ys where ps: "ps = [p0, p1]" and ok: "sp_shape s xs x0 ys (sp_own p0)"
    "sent = got @ map snd ys" "sp_producer_ok s p0" "sp_consumer_ok ys p1"
    unfolding sp_inv_def by auto
  from i ps consider "i = 0" | "i = 1" by fastforce
  then show "sp_inv sh' (ps[i := p'])"
  proof cases
    case 1
    with sp_producer_step [OF ok] st sh sh' ps show ?thesis by simp
  next
    case 2
    with sp_consumer_step [OF ok] st sh sh' ps show ?thesis by simp
  qed
next
  fix sh ps
  assume "sp_inv sh ps"
  then show "fst (snd sh) = snd (snd sh) @ sp_contents (fst sh)"
    by (auto simp: sp_inv_def dest: sp_shape_contents)
next
  fix sh ps p
  assume "sp_inv sh ps" "p \<in> set ps"
  then show "p \<noteq> SpCrash" by (auto simp: sp_inv_def)
qed


section \<open>Properties\<close>

text \<open>C8. One producer and one consumer of \<open>spsc_queue\<close>, from the constructor with any
  pre-allocation and under every interleaving: what the consumer gets is a beginning of what the
  producer linked, in order, and the rest is what the nodes after the tail hold; a node that is
  used again is never one the consumer may still read.\<close>

theorem spsc_queue_fifo:
  assumes "reach (sp_start n d) (interleave (sp_step vals)) ((s, sent, got), ps)"
  shows "sent = got @ sp_contents s \<and> SpCrash \<notin> set ps"
  using spc.reach_fifo [OF assms] spc.reach_safe [OF assms] by (metis append_take_drop_id fst_conv snd_conv)

text \<open>The pre-allocation of \<open>spsc_queue\<close> does what it is for: after the constructor with
  \<open>pre_alloc = n\<close>, which makes \<open>n + 1\<close> nodes, the first \<open>n\<close> calls of \<open>enqueue\<close> make none,
  every further one makes one, and all values are inside in order.\<close>

theorem spsc_queue_prealloc:
  "sp_fresh (snd (enq_all sp_push vs (sp_init n d))) = n + 1 + (length vs - n)
   \<and> sp_contents (snd (enq_all sp_push vs (sp_init n d))) = vs"
proof -
  have v: "sp_view (snd (enq_all sp_push vs (sp_init n d))) (n - length vs) ([] @ vs) (n + 1 + (length vs - n))"
    by (rule sp_pushes_view [OF sp_init_view])
  then show ?thesis using sp_view_contents [OF v] by (auto simp: sp_view_def)
qed

text \<open>The destructor of \<open>spsc_queue\<close>, when no call is under way, ends within as many
  rounds as \<open>new\<close> was called and deletes every node, cached or in use, exactly once.\<close>

theorem spsc_queue_destroy:
  assumes "reach (sp_start n d) (interleave (sp_step vals)) ((s, sent, got), [SpIdle, p])"
  shows "sp_destroy (sp_fresh s) s = Some Map.empty"
proof -
  have "sp_inv (s, sent, got) [SpIdle, p]" using assms by (rule spc.reach_inv)
  then obtain xs x0 ys where sh: "sp_shape s xs x0 ys {}" by (auto simp: sp_inv_def)
  let ?cs = "xs @ (sp_tail s, x0) # ys"
  have cs: "chain (sp_heap s) ?cs None" "distinct (map fst ?cs)" "dom (sp_heap s) = fst ` set ?cs"
    "\<forall>a \<in> dom (sp_heap s). a < sp_fresh s"
    using sh by (simp_all add: sp_shape_def)
  have "free_chain (length ?cs) (sp_heap s) (head_of ?cs None) = Some Map.empty"
    by (rule free_chain_chain [OF cs(1-3)])
  moreover have "head_of ?cs None = Some (sp_first s)"
    using sh by (cases xs) (auto simp: sp_shape_def)
  moreover have "length ?cs \<le> sp_fresh s" using cs(3,4) by (intro chain_length [OF cs(2)]) (simp only:)
  ultimately show ?thesis unfolding sp_destroy_def by (metis free_chain_mono)
qed

text \<open>A node goes through the cache: two values are pushed and popped, a third uses the first node.\<close>

abbreviation sp_schedule :: "(nat \<times> nat) list" where
  "sp_schedule \<equiv> map (\<lambda>i. (i, 0)) [0, 0, 0, 0, 0, 0, 1, 1, 1, 1, 1, 0, 0, 0, 0, 0, 0]"

lemma sp_run:
  "\<exists>s. run_sched (sp_step [7]) sp_schedule ((sp_init 0 (0::nat), [], []), [SpIdle, SpIdle])
     = Some ((s, [7, 7], [7]), [SpIdle, SpIdle]) \<and> sp_fresh s = 2 \<and> dom (sp_heap s) = {0, 1}"
  by (auto simp: sp_step_def sp_init_def sp_base_def sp_record_def sp_create_from_internal_def follow_def
      set_next_apply set_value_def Let_def)

lemma sp_run_reach:
  obtains s where "reach (sp_start 0 (0::nat)) (interleave (sp_step [7])) ((s, [7, 7], [7]), [SpIdle, SpIdle])"
    and "sp_fresh s = 2" "dom (sp_heap s) = {0, 1}"
proof -
  obtain s where "run_sched (sp_step [7]) sp_schedule ((sp_init 0 (0::nat), [], []), [SpIdle, SpIdle])
     = Some ((s, [7, 7], [7]), [SpIdle, SpIdle])" "sp_fresh s = 2" "dom (sp_heap s) = {0, 1}"
    using sp_run by (elim exE conjE) (rule that)
  then show thesis
    by (intro that [of s] run_sched_reach_start [OF _ \<open>run_sched _ _ _ = _\<close>]) (simp_all add: sp_start_def)
qed

theorem spsc_queue_fifo_witness:
  "\<exists>s. dom (sp_heap s) = {0, 1} \<and> [7, 7 :: nat] = [7] @ sp_contents s"
proof -
  obtain s where s: "reach (sp_start 0 (0::nat)) (interleave (sp_step [7])) ((s, [7, 7], [7]), [SpIdle, SpIdle])"
    "dom (sp_heap s) = {0, 1}" by (rule sp_run_reach)
  from spsc_queue_fifo [OF s(1)] s(2) show ?thesis by blast
qed

theorem spsc_queue_destroy_witness:
  "\<exists>s :: nat sp_state. dom (sp_heap s) = {0, 1} \<and> sp_destroy 2 s = Some Map.empty"
proof -
  obtain s where s: "reach (sp_start 0 (0::nat)) (interleave (sp_step [7])) ((s, [7, 7], [7]), [SpIdle, SpIdle])"
    "sp_fresh s = 2" "dom (sp_heap s) = {0, 1}" by (rule sp_run_reach)
  from spsc_queue_destroy [OF s(1)] s(2,3) show ?thesis by auto
qed

end
