(* ===== verification/Shared_Memory.thy ===== *)
theory Shared_Memory
  imports Prelude
begin

text \<open>
  \<open>platform/shared_memory.h\<close>: named shared memory on POSIX and on Windows. The calls of the
  operating system are parameters, the fields of \<open>posix\<close> and \<open>windows\<close>; a pointer argument
  is an \<open>option\<close>, with \<open>None\<close> for null. What the functions rely on is in \<open>posix_laws\<close> and
  \<open>windows_laws\<close>: how the documented calls change the open descriptors (handles) and the
  mapped regions of the process.
\<close>

unbundle bit_operations_syntax

section \<open>POSIX\<close>

record 'os posix =
  shm_open :: "string \<Rightarrow> 'os \<Rightarrow> int \<times> 'os"              \<comment> \<open>negative: failed\<close>
  fstat_size :: "int \<Rightarrow> 'os \<Rightarrow> int option \<times> 'os"       \<comment> \<open>\<open>st_size\<close>, or failed\<close>
  ftruncate :: "int \<Rightarrow> int \<Rightarrow> 'os \<Rightarrow> bool \<times> 'os"        \<comment> \<open>returned 0\<close>
  mmap :: "u64 \<Rightarrow> int \<Rightarrow> 'os \<Rightarrow> nat option \<times> 'os"       \<comment> \<open>the address, or \<open>MAP_FAILED\<close>\<close>
  munmap :: "nat \<Rightarrow> u64 \<Rightarrow> 'os \<Rightarrow> 'os"
  close_fd :: "int \<Rightarrow> 'os \<Rightarrow> 'os"
  shm_unlink :: "string \<Rightarrow> 'os \<Rightarrow> bool \<times> 'os"           \<comment> \<open>returned 0\<close>

record shared_memory_segment =
  seg_data :: "nat option"
  seg_size :: u64
  seg_fd :: int
  seg_created_new :: bool

datatype errno = EINVAL | ENAMETOOLONG

definition segment_init :: shared_memory_segment where
  "segment_init = \<lparr>seg_data = None, seg_size = 0, seg_fd = -1, seg_created_new = False\<rparr>"

definition posix_shm_name_max :: nat where
  "posix_shm_name_max = 31"

text \<open>\<open>apple\<close> says whether \<open>__APPLE__\<close> is defined.\<close>

definition is_valid_shared_memory_name :: "bool \<Rightarrow> string \<Rightarrow> bool" where
  "is_valid_shared_memory_name apple name =
     (case name of
        [] \<Rightarrow> False
      | c # cs \<Rightarrow> c = CHR ''/'' \<and> list_all (\<lambda>x. x \<noteq> CHR ''/'') cs
          \<and> \<not> (apple \<and> posix_shm_name_max < length name))"

definition map_fd :: "'os posix \<Rightarrow> int \<Rightarrow> u64 \<Rightarrow> shared_memory_segment \<Rightarrow> 'os \<Rightarrow>
  (bool \<times> shared_memory_segment) \<times> 'os"
where
  "map_fd P fd map_size out os =
     (case mmap P map_size fd os of
        (None, os') \<Rightarrow> ((False, out), os')
      | (Some p, os') \<Rightarrow> ((True, out\<lparr>seg_data := Some p, seg_size := map_size, seg_fd := fd\<rparr>), os'))"

text \<open>The rounds of the loop from \<open>attempt\<close> on: the answer, \<open>out\<close>, and the error set by the
  function itself.\<close>

function shm_attempt :: "'os posix \<Rightarrow> string \<Rightarrow> u64 \<Rightarrow> shared_memory_segment \<Rightarrow> nat \<Rightarrow> 'os \<Rightarrow>
  (bool \<times> shared_memory_segment \<times> errno option) \<times> 'os"
where
  "shm_attempt P name size_bytes out attempt os =
     (if attempt < 2 then
        (case shm_open P name os of (fd, os1) \<Rightarrow>
          if fd < 0 then ((False, out, None), os1)
          else (case fstat_size P fd os1 of
              (None, os2) \<Rightarrow> ((False, out, None), close_fd P fd os2)
            | (Some st_size, os2) \<Rightarrow>
                if st_size = 0 then
                  (case ftruncate P fd (sint size_bytes) os2 of
                     (False, os3) \<Rightarrow> ((False, out, None), close_fd P fd os3)
                   | (True, os3) \<Rightarrow>
                       (case map_fd P fd size_bytes out os3 of
                          ((False, out'), os4) \<Rightarrow> ((False, out', None), close_fd P fd os4)
                        | ((True, out'), os4) \<Rightarrow> ((True, out'\<lparr>seg_created_new := True\<rparr>, None), os4)))
                else if (of_int st_size :: u64) < size_bytes then
                  (let os3 = close_fd P fd os2 in
                   if attempt = 0 then shm_attempt P name size_bytes out (attempt + 1) (snd (shm_unlink P name os3))
                   else ((False, out, Some EINVAL), os3))
                else
                  (case map_fd P fd size_bytes out os2 of
                     ((False, out'), os3) \<Rightarrow> ((False, out', None), close_fd P fd os3)
                   | ((True, out'), os3) \<Rightarrow> ((True, out'\<lparr>seg_created_new := False\<rparr>, None), os3))))
      else ((False, out, None), os))"
  by pat_completeness auto

termination by (relation "measure (\<lambda>(P, name, size_bytes, out, attempt, os). 2 - attempt)") auto

declare shm_attempt.simps [simp del]

definition create_or_open_shared_memory :: "bool \<Rightarrow> 'os posix \<Rightarrow> string option \<Rightarrow> u64 \<Rightarrow>
  shared_memory_segment option \<Rightarrow> 'os \<Rightarrow> (bool \<times> shared_memory_segment option \<times> errno option) \<times> 'os"
where
  "create_or_open_shared_memory apple P name size_bytes out os =
     (case (out, name) of
        (Some seg, Some nm) \<Rightarrow>
          if size_bytes = 0 then ((False, out, None), os)
          else if \<not> is_valid_shared_memory_name apple nm then
            ((False, out, Some (if apple \<and> nm \<noteq> [] \<and> hd nm = CHR ''/'' \<and> posix_shm_name_max < length nm
                                then ENAMETOOLONG else EINVAL)), os)
          else (case shm_attempt P nm size_bytes seg 0 os of
                  ((ok, seg', e), os') \<Rightarrow> ((ok, Some seg', e), os'))
      | _ \<Rightarrow> ((False, out, None), os))"

definition close_shared_memory :: "'os posix \<Rightarrow> shared_memory_segment \<Rightarrow> 'os \<Rightarrow> shared_memory_segment \<times> 'os" where
  "close_shared_memory P seg os =
     (let os1 = (case seg_data seg of
                   Some p \<Rightarrow> if 0 < seg_size seg then munmap P p (seg_size seg) os else os
                 | None \<Rightarrow> os);
          os2 = (if 0 \<le> seg_fd seg then close_fd P (seg_fd seg) os1 else os1)
      in (\<lparr>seg_data = None, seg_size = 0, seg_fd = -1, seg_created_new = False\<rparr>, os2))"

definition unlink_shared_memory :: "'os posix \<Rightarrow> string option \<Rightarrow> 'os \<Rightarrow> bool \<times> 'os" where
  "unlink_shared_memory P name os = (case name of None \<Rightarrow> (False, os) | Some nm \<Rightarrow> shm_unlink P nm os)"

text \<open>The documented effect of the calls on the open descriptors and the mapped regions.\<close>

definition posix_laws :: "'os posix \<Rightarrow> ('os \<Rightarrow> int set) \<Rightarrow> ('os \<Rightarrow> (nat \<times> u64) set) \<Rightarrow> bool" where
  "posix_laws P fds maps \<longleftrightarrow>
     (\<forall>n os fd os'. shm_open P n os = (fd, os') \<longrightarrow> maps os' = maps os
        \<and> (if fd < 0 then fds os' = fds os else fd \<notin> fds os \<and> fds os' = insert fd (fds os)))
     \<and> (\<forall>fd os r os'. fstat_size P fd os = (r, os') \<longrightarrow> fds os' = fds os \<and> maps os' = maps os)
     \<and> (\<forall>fd n os r os'. ftruncate P fd n os = (r, os') \<longrightarrow> fds os' = fds os \<and> maps os' = maps os)
     \<and> (\<forall>n fd os r os'. mmap P n fd os = (r, os') \<longrightarrow> fds os' = fds os
        \<and> (case r of None \<Rightarrow> maps os' = maps os | Some p \<Rightarrow> (p, n) \<notin> maps os \<and> maps os' = insert (p, n) (maps os)))
     \<and> (\<forall>p n os. fds (munmap P p n os) = fds os \<and> maps (munmap P p n os) = maps os - {(p, n)})
     \<and> (\<forall>fd os. fds (close_fd P fd os) = fds os - {fd} \<and> maps (close_fd P fd os) = maps os)
     \<and> (\<forall>n os r os'. shm_unlink P n os = (r, os') \<longrightarrow> fds os' = fds os \<and> maps os' = maps os)"

lemma posix_lawsD:
  assumes "posix_laws P fds maps"
  shows "shm_open P n os = (fd, os') \<Longrightarrow> maps os' = maps os
      \<and> (if fd < 0 then fds os' = fds os else fd \<notin> fds os \<and> fds os' = insert fd (fds os))"
    and "fstat_size P fd os = (sz, os') \<Longrightarrow> fds os' = fds os \<and> maps os' = maps os"
    and "ftruncate P fd i os = (b, os') \<Longrightarrow> fds os' = fds os \<and> maps os' = maps os"
    and "mmap P m fd os = (r, os') \<Longrightarrow> fds os' = fds os
        \<and> (case r of None \<Rightarrow> maps os' = maps os | Some p \<Rightarrow> (p, m) \<notin> maps os \<and> maps os' = insert (p, m) (maps os))"
    and "fds (munmap P p m os) = fds os \<and> maps (munmap P p m os) = maps os - {(p, m)}"
    and "fds (close_fd P fd os) = fds os - {fd} \<and> maps (close_fd P fd os) = maps os"
    and "fds (snd (shm_unlink P n os)) = fds os \<and> maps (snd (shm_unlink P n os)) = maps os"
proof -
  note laws = assms [unfolded posix_laws_def]
  show "shm_open P n os = (fd, os') \<Longrightarrow> maps os' = maps os
      \<and> (if fd < 0 then fds os' = fds os else fd \<notin> fds os \<and> fds os' = insert fd (fds os))"
    using conjunct1 [OF laws] by (elim allE) (erule (1) mp)
  note laws = conjunct2 [OF laws]
  show "fstat_size P fd os = (sz, os') \<Longrightarrow> fds os' = fds os \<and> maps os' = maps os"
    using conjunct1 [OF laws] by (elim allE) (erule (1) mp)
  note laws = conjunct2 [OF laws]
  show "ftruncate P fd i os = (b, os') \<Longrightarrow> fds os' = fds os \<and> maps os' = maps os"
    using conjunct1 [OF laws] by (elim allE) (erule (1) mp)
  note laws = conjunct2 [OF laws]
  show "mmap P m fd os = (r, os') \<Longrightarrow> fds os' = fds os
      \<and> (case r of None \<Rightarrow> maps os' = maps os | Some p \<Rightarrow> (p, m) \<notin> maps os \<and> maps os' = insert (p, m) (maps os))"
    using conjunct1 [OF laws] by (elim allE) (erule (1) mp)
  note laws = conjunct2 [OF laws]
  show "fds (munmap P p m os) = fds os \<and> maps (munmap P p m os) = maps os - {(p, m)}"
    using conjunct1 [OF laws] by (elim allE)
  note laws = conjunct2 [OF laws]
  show "fds (close_fd P fd os) = fds os - {fd} \<and> maps (close_fd P fd os) = maps os"
    using conjunct1 [OF laws] by (elim allE)
  note laws = conjunct2 [OF laws]
  show "fds (snd (shm_unlink P n os)) = fds os \<and> maps (snd (shm_unlink P n os)) = maps os"
    using laws by (cases "shm_unlink P n os") auto
qed

text \<open>One call of the loop: unchanged on failure, one descriptor and one region more on success.\<close>

definition shm_outcome :: "('os \<Rightarrow> int set) \<Rightarrow> ('os \<Rightarrow> (nat \<times> u64) set) \<Rightarrow> u64 \<Rightarrow> shared_memory_segment \<Rightarrow> 'os \<Rightarrow>
  (bool \<times> shared_memory_segment \<times> errno option) \<times> 'os \<Rightarrow> bool"
where
  "shm_outcome fds maps size_bytes out os r =
     (case r of ((ok, out', e), os') \<Rightarrow>
        if ok then (\<exists>p. seg_data out' = Some p \<and> seg_size out' = size_bytes \<and> 0 \<le> seg_fd out'
             \<and> seg_fd out' \<notin> fds os \<and> (p, size_bytes) \<notin> maps os
             \<and> fds os' = insert (seg_fd out') (fds os) \<and> maps os' = insert (p, size_bytes) (maps os))
        else out' = out \<and> fds os' = fds os \<and> maps os' = maps os)"

lemma shm_outcome_same:
  assumes "shm_outcome fds maps size_bytes out t r" "fds t = fds os" "maps t = maps os"
  shows "shm_outcome fds maps size_bytes out os r"
  using assms(1) unfolding shm_outcome_def assms(2,3) .

lemma map_fd_outcome:
  assumes laws: "posix_laws P fds maps" and fd: "0 \<le> fd" "fd \<notin> fds os0" "fds os = insert fd (fds os0)" "maps os = maps os0"
  shows "shm_outcome fds maps size_bytes out os0
    (case map_fd P fd size_bytes out os of
       ((False, out'), os4) \<Rightarrow> ((False, out', None), close_fd P fd os4)
     | ((True, out'), os4) \<Rightarrow> ((True, out'\<lparr>seg_created_new := c\<rparr>, None), os4))"
proof (cases "mmap P size_bytes fd os")
  case (Pair r os')
  note m = posix_lawsD(4) [OF laws Pair]
  show ?thesis
    using Pair m fd posix_lawsD(6) [OF laws, of fd os']
    by (cases r) (auto simp: map_fd_def shm_outcome_def)
qed

lemma shm_attempt_outcome:
  assumes laws: "posix_laws P fds maps"
  shows "shm_outcome fds maps size_bytes out os (shm_attempt P name size_bytes out attempt os)"
  using laws
proof (induction P name size_bytes out attempt os rule: shm_attempt.induct)
  case (1 P name size_bytes out attempt os)
  note laws = "1.prems"
  show ?case
  proof (cases "attempt < 2")
    case False
    then show ?thesis by (simp add: shm_attempt.simps shm_outcome_def)
  next
    case att: True
    obtain fd os1 where op: "shm_open P name os = (fd, os1)" by (cases "shm_open P name os")
    note o1 = posix_lawsD(1) [OF laws op]
    show ?thesis
    proof (cases "fd < 0")
      case True
      with o1 op att show ?thesis by (simp add: shm_attempt.simps shm_outcome_def)
    next
      case fd: False
      obtain sz os2 where st: "fstat_size P fd os1 = (sz, os2)" by (cases "fstat_size P fd os1")
      note o2 = posix_lawsD(2) [OF laws st]
      have at2: "0 \<le> fd" "fd \<notin> fds os" "fds os2 = insert fd (fds os)" "maps os2 = maps os"
        using fd o1 o2 by simp_all
      have closed: "fds (close_fd P fd t) = fds os \<and> maps (close_fd P fd t) = maps os"
        if "fds t = insert fd (fds os)" "maps t = maps os" for t
        using posix_lawsD(6) [OF laws, of fd t] that at2(2) by simp
      show ?thesis
      proof (cases sz)
        case None
        with op fd st att closed [OF at2(3,4)] show ?thesis by (simp add: shm_attempt.simps shm_outcome_def)
      next
        case (Some st_size)
        consider "st_size = 0" | "st_size \<noteq> 0" "(of_int st_size :: u64) < size_bytes"
          | "st_size \<noteq> 0" "\<not> (of_int st_size :: u64) < size_bytes" by blast
        then show ?thesis
        proof cases
          case 1
          obtain b os3 where tr: "ftruncate P fd (sint size_bytes) os2 = (b, os3)"
            by (cases "ftruncate P fd (sint size_bytes) os2")
          note o3 = posix_lawsD(3) [OF laws tr]
          have at3: "fds os3 = insert fd (fds os)" "maps os3 = maps os" using at2 o3 by simp_all
          show ?thesis
          proof (cases b)
            case True
            have "shm_attempt P name size_bytes out attempt os = (case map_fd P fd size_bytes out os3 of
                ((False, out'), os4) \<Rightarrow> ((False, out', None), close_fd P fd os4)
              | ((True, out'), os4) \<Rightarrow> ((True, out'\<lparr>seg_created_new := True\<rparr>, None), os4))"
              using att op fd st Some 1 tr True by (subst shm_attempt.simps) simp
            with map_fd_outcome [OF laws at2(1,2) at3] show ?thesis by simp
          next
            case False
            have "shm_attempt P name size_bytes out attempt os = ((False, out, None), close_fd P fd os3)"
              using att op fd st Some 1 tr False by (subst shm_attempt.simps) simp
            with closed [OF at3] show ?thesis by (simp add: shm_outcome_def)
          qed
        next
          case 2
          show ?thesis
          proof (cases "attempt = 0")
            case True
            let ?os = "snd (shm_unlink P name (close_fd P fd os2))"
            have e: "shm_attempt P name size_bytes out attempt os = shm_attempt P name size_bytes out (attempt + 1) ?os"
              using att op fd st Some 2 True by (subst shm_attempt.simps) (simp add: Let_def)
            have "shm_outcome fds maps size_bytes out ?os (shm_attempt P name size_bytes out (attempt + 1) ?os)"
              using "1.IH" [OF att op [symmetric] fd st [symmetric] Some 2(1) 2(2) refl True laws] by simp
            moreover have "fds ?os = fds os" "maps ?os = maps os"
              using posix_lawsD(7) [OF laws, of name "close_fd P fd os2"] closed [OF at2(3,4)] by simp_all
            ultimately show ?thesis unfolding e by (rule shm_outcome_same)
          next
            case False
            have "shm_attempt P name size_bytes out attempt os = ((False, out, Some EINVAL), close_fd P fd os2)"
              using att op fd st Some 2 False by (subst shm_attempt.simps) (simp add: Let_def)
            with closed [OF at2(3,4)] show ?thesis by (simp add: shm_outcome_def)
          qed
        next
          case 3
          have "shm_attempt P name size_bytes out attempt os = (case map_fd P fd size_bytes out os2 of
              ((False, out'), os3) \<Rightarrow> ((False, out', None), close_fd P fd os3)
            | ((True, out'), os3) \<Rightarrow> ((True, out'\<lparr>seg_created_new := False\<rparr>, None), os3))"
            using att op fd st Some 3 by (subst shm_attempt.simps) simp
          with map_fd_outcome [OF laws at2] show ?thesis by simp
        qed
      qed
    qed
  qed
qed

lemma close_shared_memory_outcome:
  assumes laws: "posix_laws P fds maps" and cs: "close_shared_memory P seg os = (seg', os')"
    and seg: "seg_data seg = Some p" "0 < seg_size seg" "0 \<le> seg_fd seg"
  shows "seg' = segment_init \<and> fds os' = fds os - {seg_fd seg} \<and> maps os' = maps os - {(p, seg_size seg)}"
  using cs seg posix_lawsD(5) [OF laws, of p "seg_size seg" os]
    posix_lawsD(6) [OF laws, of "seg_fd seg" "munmap P p (seg_size seg) os"]
  by (auto simp: close_shared_memory_def segment_init_def Let_def)

lemma list_all_neq: "list_all (\<lambda>x. x \<noteq> c) cs \<longleftrightarrow> c \<notin> set cs"
  by (induction cs) auto

lemma is_valid_shared_memory_name_iff:
  "is_valid_shared_memory_name apple name \<longleftrightarrow>
     (\<exists>cs. name = CHR ''/'' # cs \<and> CHR ''/'' \<notin> set cs \<and> (apple \<longrightarrow> length name \<le> 31))"
  by (cases name) (simp_all add: is_valid_shared_memory_name_def posix_shm_name_max_def list_all_neq not_less conj_ac)

text \<open>C20. Opening a segment on POSIX either fails and leaves \<open>out\<close>, the open descriptors and the
  mapped regions as they were, or succeeds, and then the name starts with its only \<open>/\<close> (and has at
  most 31 characters on macOS), the size is not 0, one descriptor and one region of the asked size
  are new, \<open>out\<close> holds them, and \<open>close_shared_memory\<close> takes exactly these two away again.\<close>

theorem shared_memory_no_leak:
  assumes "posix_laws P fds maps"
    and "create_or_open_shared_memory apple P name size_bytes out os = ((ok, out', e), os')"
  shows "if ok then \<exists>nm cs seg p. name = Some nm \<and> nm = CHR ''/'' # cs \<and> CHR ''/'' \<notin> set cs
             \<and> (apple \<longrightarrow> length nm \<le> 31) \<and> 0 < size_bytes \<and> out' = Some seg
             \<and> seg_data seg = Some p \<and> seg_size seg = size_bytes \<and> 0 \<le> seg_fd seg
             \<and> seg_fd seg \<notin> fds os \<and> fds os' = insert (seg_fd seg) (fds os)
             \<and> (p, size_bytes) \<notin> maps os \<and> maps os' = insert (p, size_bytes) (maps os)
             \<and> (\<exists>os''. close_shared_memory P seg os' = (segment_init, os'') \<and> fds os'' = fds os \<and> maps os'' = maps os)
         else out' = out \<and> fds os' = fds os \<and> maps os' = maps os"
proof (cases "\<exists>seg0 nm. out = Some seg0 \<and> name = Some nm \<and> 0 < size_bytes \<and> is_valid_shared_memory_name apple nm")
  case True
  then obtain seg0 nm where out: "out = Some seg0" and nm: "name = Some nm"
    and size: "0 < size_bytes" and valid: "is_valid_shared_memory_name apple nm" by blast
  obtain seg where at: "shm_attempt P nm size_bytes seg0 0 os = ((ok, seg, e), os')" and out': "out' = Some seg"
    using assms(2) out nm size valid
    by (cases "shm_attempt P nm size_bytes seg0 0 os") (auto simp: create_or_open_shared_memory_def word_gt_0)
  have o: "shm_outcome fds maps size_bytes seg0 os ((ok, seg, e), os')"
    using shm_attempt_outcome [OF assms(1), of size_bytes seg0 os nm 0] unfolding at .
  show ?thesis
  proof (cases ok)
    case ok: True
    with o obtain p where seg: "seg_data seg = Some p" "seg_size seg = size_bytes" "0 \<le> seg_fd seg"
      "seg_fd seg \<notin> fds os" "(p, size_bytes) \<notin> maps os"
      "fds os' = insert (seg_fd seg) (fds os)" "maps os' = insert (p, size_bytes) (maps os)"
      unfolding shm_outcome_def by auto
    obtain seg' os'' where cs: "close_shared_memory P seg os' = (seg', os'')"
      by (cases "close_shared_memory P seg os'")
    have "seg' = segment_init \<and> fds os'' = fds os \<and> maps os'' = maps os"
      using close_shared_memory_outcome [OF assms(1) cs seg(1) _ seg(3)] size seg by simp
    then show ?thesis
      using ok nm valid size out' seg cs unfolding is_valid_shared_memory_name_iff by auto
  next
    case False
    with o out out' show ?thesis by (simp add: shm_outcome_def)
  qed
next
  case False
  then have "(ok, out', os') = (False, out, os)"
    using assms(2) by (auto simp: create_or_open_shared_memory_def word_gt_0 split: option.splits if_splits)
  then show ?thesis by simp
qed

text \<open>A small instance of the calls, for the examples: one size for every object, and descriptors
  and addresses counted up.\<close>

record tiny_os =
  tiny_size :: int
  tiny_next :: nat
  tiny_fds :: "int set"
  tiny_maps :: "(nat \<times> u64) set"

definition tiny_posix :: "tiny_os posix" where
  "tiny_posix =
     \<lparr>shm_open = (\<lambda>n os. let fd = int (tiny_next os) in
        if fd \<in> tiny_fds os then (-1, os)
        else (fd, os\<lparr>tiny_next := tiny_next os + 1, tiny_fds := insert fd (tiny_fds os)\<rparr>)),
      fstat_size = (\<lambda>fd os. (Some (tiny_size os), os)),
      ftruncate = (\<lambda>fd n os. (True, os\<lparr>tiny_size := n\<rparr>)),
      mmap = (\<lambda>n fd os. if (tiny_next os, n) \<in> tiny_maps os then (None, os)
        else (Some (tiny_next os), os\<lparr>tiny_next := tiny_next os + 1, tiny_maps := insert (tiny_next os, n) (tiny_maps os)\<rparr>)),
      munmap = (\<lambda>p n os. os\<lparr>tiny_maps := tiny_maps os - {(p, n)}\<rparr>),
      close_fd = (\<lambda>fd os. os\<lparr>tiny_fds := tiny_fds os - {fd}\<rparr>),
      shm_unlink = (\<lambda>n os. (True, os\<lparr>tiny_size := 0\<rparr>))\<rparr>"

lemma tiny_posix_laws: "posix_laws tiny_posix tiny_fds tiny_maps"
  unfolding posix_laws_def tiny_posix_def by (intro conjI allI) (auto simp: Let_def split: if_splits)

definition tiny_empty :: tiny_os where
  "tiny_empty = \<lparr>tiny_size = 0, tiny_next = 3, tiny_fds = {}, tiny_maps = {}\<rparr>"

lemmas tiny_run = create_or_open_shared_memory_def is_valid_shared_memory_name_def segment_init_def
  tiny_posix_def tiny_empty_def map_fd_def shm_attempt.simps Let_def

theorem shared_memory_no_leak_witness:
  "\<exists>seg os'. create_or_open_shared_memory True tiny_posix (Some ''/seg'') 100 (Some segment_init) tiny_empty
      = ((True, Some seg, None), os') \<and> tiny_fds os' = {3} \<and> tiny_maps os' = {(4, 100)}
      \<and> (\<exists>os''. close_shared_memory tiny_posix seg os' = (segment_init, os'') \<and> tiny_fds os'' = {} \<and> tiny_maps os'' = {})"
proof -
  let ?seg = "\<lparr>seg_data = Some 4, seg_size = 100, seg_fd = 3, seg_created_new = True\<rparr>"
  let ?os = "\<lparr>tiny_size = 100, tiny_next = 5, tiny_fds = {3}, tiny_maps = {(4, 100)}\<rparr>"
  have run: "create_or_open_shared_memory True tiny_posix (Some ''/seg'') 100 (Some segment_init) tiny_empty
      = ((True, Some ?seg, None), ?os)"
    by (simp add: tiny_run posix_shm_name_max_def)
  have e: "tiny_fds tiny_empty = {}" "tiny_maps tiny_empty = {}" by (simp_all add: tiny_empty_def)
  show ?thesis
    using shared_memory_no_leak [OF tiny_posix_laws run] run e by simp
qed

text \<open>Opening a name that already exists: an object larger than the asked size is accepted and
  only the asked bytes are mapped, and a smaller one does not fail the call: its name is
  unlinked, the name is opened again, and when the object found then is empty it is sized and
  mapped as a new one. The other processes keep the old object, which has no name any more.\<close>

theorem shared_memory_other_size:
  assumes "is_valid_shared_memory_name apple nm" "0 < size_bytes"
    and "shm_open P nm os = (fd, os1)" "0 \<le> fd" "fstat_size P fd os1 = (Some st_size, os2)" "0 < st_size" "st_size < 2 ^ 63"
  shows "(unat size_bytes < nat st_size \<and> mmap P size_bytes fd os2 = (Some p, os3) \<longrightarrow>
            create_or_open_shared_memory apple P (Some nm) size_bytes (Some seg) os
              = ((True, Some \<lparr>seg_data = Some p, seg_size = size_bytes, seg_fd = fd, seg_created_new = False\<rparr>, None), os3))
         \<and> (nat st_size < unat size_bytes \<and> shm_open P nm (snd (shm_unlink P nm (close_fd P fd os2))) = (fd', os3)
            \<and> 0 \<le> fd' \<and> fstat_size P fd' os3 = (Some 0, os4) \<and> ftruncate P fd' (sint size_bytes) os4 = (True, os5)
            \<and> mmap P size_bytes fd' os5 = (Some p, os6) \<longrightarrow>
            create_or_open_shared_memory apple P (Some nm) size_bytes (Some seg) os
              = ((True, Some \<lparr>seg_data = Some p, seg_size = size_bytes, seg_fd = fd', seg_created_new = True\<rparr>, None), os6))"
proof -
  have less: "(of_int st_size :: u64) < size_bytes \<longleftrightarrow> nat st_size < unat size_bytes"
  proof -
    obtain n where n: "st_size = int n" using assms(6) by (cases st_size) simp_all
    then have "n < 2 ^ 63" using assms(7) by simp
    with n show ?thesis by (simp add: word_less_nat_alt unsigned_of_nat take_bit_nat_eq_self)
  qed
  have start: "create_or_open_shared_memory apple P (Some nm) size_bytes (Some seg) os =
      (case shm_attempt P nm size_bytes seg 0 os of ((ok, seg', e), os') \<Rightarrow> ((ok, Some seg', e), os'))"
    using assms(1,2) by (simp add: create_or_open_shared_memory_def word_gt_0)
  show ?thesis
    unfolding start using assms(3-6) less
    by (auto simp: map_fd_def shm_attempt.simps Let_def)
qed

theorem shared_memory_other_size_witness:
  "create_or_open_shared_memory True tiny_posix (Some ''/seg'') 100 (Some segment_init) (tiny_empty\<lparr>tiny_size := 4096\<rparr>)
     = ((True, Some \<lparr>seg_data = Some 4, seg_size = 100, seg_fd = 3, seg_created_new = False\<rparr>, None),
        \<lparr>tiny_size = 4096, tiny_next = 5, tiny_fds = {3}, tiny_maps = {(4, 100)}\<rparr>)"
proof -
  let ?os = "tiny_empty\<lparr>tiny_size := 4096\<rparr>"
  let ?os1 = "\<lparr>tiny_size = 4096, tiny_next = 4, tiny_fds = {3}, tiny_maps = {}\<rparr>"
  let ?os3 = "\<lparr>tiny_size = 4096, tiny_next = 5, tiny_fds = {3}, tiny_maps = {(4, 100)}\<rparr>"
  have "is_valid_shared_memory_name True ''/seg''" "(0::u64) < 100" "shm_open tiny_posix ''/seg'' ?os = (3, ?os1)"
    "(0::int) \<le> 3" "fstat_size tiny_posix 3 ?os1 = (Some 4096, ?os1)" "(0::int) < 4096" "(4096::int) < 2 ^ 63"
    and m: "mmap tiny_posix 100 3 ?os1 = (Some 4, ?os3)"
    by (simp_all add: tiny_run posix_shm_name_max_def)
  from shared_memory_other_size [OF this(1-7), THEN conjunct1] m show ?thesis by simp
qed

section \<open>Windows\<close>

text \<open>\<open>create_mapping\<close> answers the handle and whether \<open>GetLastError\<close> is \<open>ERROR_ALREADY_EXISTS\<close>
  after it; \<open>virtual_query\<close> answers \<open>RegionSize\<close>, or \<open>None\<close> for 0 bytes written.\<close>

record 'os windows =
  create_mapping :: "32 word \<Rightarrow> 32 word \<Rightarrow> string \<Rightarrow> 'os \<Rightarrow> (nat option \<times> bool) \<times> 'os"
  map_view :: "nat \<Rightarrow> u64 \<Rightarrow> 'os \<Rightarrow> nat option \<times> 'os"
  virtual_query :: "nat \<Rightarrow> 'os \<Rightarrow> u64 option"
  unmap_view :: "nat \<Rightarrow> 'os \<Rightarrow> 'os"
  close_handle :: "nat \<Rightarrow> 'os \<Rightarrow> 'os"

record windows_segment =
  ws_data :: "nat option"
  ws_size :: u64
  ws_mapping :: "nat option"
  ws_created_new :: bool

definition windows_segment_init :: windows_segment where
  "windows_segment_init = \<lparr>ws_data = None, ws_size = 0, ws_mapping = None, ws_created_new = False\<rparr>"

definition close_handles :: "'os windows \<Rightarrow> windows_segment \<Rightarrow> 'os \<Rightarrow> windows_segment \<times> 'os" where
  "close_handles W s os =
     (let os1 = (case ws_data s of Some p \<Rightarrow> unmap_view W p os | None \<Rightarrow> os);
          os2 = (case ws_mapping s of Some h \<Rightarrow> close_handle W h os1 | None \<Rightarrow> os1)
      in (s\<lparr>ws_data := None, ws_mapping := None\<rparr>, os2))"

text \<open>The view of the section, and the size mapped: all of an existing section is mapped, and the
  view is kept when its region has the size asked for.\<close>

definition windows_view :: "'os windows \<Rightarrow> nat \<Rightarrow> bool \<Rightarrow> u64 \<Rightarrow> 'os \<Rightarrow> (nat \<times> u64) option \<times> 'os" where
  "windows_view W mapping created_new size_bytes os =
     (if created_new then
        (case map_view W mapping size_bytes os of
           (None, os1) \<Rightarrow> (None, os1)
         | (Some view, os1) \<Rightarrow> (Some (view, size_bytes), os1))
      else
        (case map_view W mapping 0 os of
           (None, os1) \<Rightarrow> (None, os1)
         | (Some view, os1) \<Rightarrow>
             (case virtual_query W view os1 of
                None \<Rightarrow> (None, unmap_view W view os1)
              | Some mapped_size \<Rightarrow>
                  if mapped_size \<noteq> size_bytes then (None, unmap_view W view os1)
                  else (Some (view, mapped_size), os1))))"

definition create_or_open_shared_memory_windows :: "'os windows \<Rightarrow> string option \<Rightarrow> u64 \<Rightarrow>
  windows_segment option \<Rightarrow> 'os \<Rightarrow> (bool \<times> windows_segment option) \<times> 'os"
where
  "create_or_open_shared_memory_windows W name size_bytes out os =
     (case (out, name) of
        (Some seg, Some nm) \<Rightarrow>
          if size_bytes = 0 then ((False, out), os)
          else (case create_mapping W (ucast (drop_bit 32 size_bytes)) (ucast (size_bytes AND 0xffffffff)) nm os of
              ((None, _), os1) \<Rightarrow> ((False, out), os1)
            | ((Some mapping, already_exists), os1) \<Rightarrow>
                (case windows_view W mapping (\<not> already_exists) size_bytes os1 of
                   (None, os2) \<Rightarrow> ((False, out), close_handle W mapping os2)
                 | (Some (view, mapped_size), os2) \<Rightarrow>
                     ((True, Some (seg\<lparr>ws_data := Some view, ws_size := mapped_size, ws_mapping := Some mapping,
                                       ws_created_new := \<not> already_exists\<rparr>)), os2)))
      | _ \<Rightarrow> ((False, out), os))"

definition close_shared_memory_windows :: "'os windows \<Rightarrow> windows_segment \<Rightarrow> 'os \<Rightarrow> windows_segment \<times> 'os" where
  "close_shared_memory_windows W seg os =
     (case close_handles W seg os of (seg', os') \<Rightarrow> (seg'\<lparr>ws_size := 0, ws_created_new := False\<rparr>, os'))"

definition unlink_shared_memory_windows :: "string option \<Rightarrow> bool" where
  "unlink_shared_memory_windows name = True"

definition windows_laws :: "'os windows \<Rightarrow> ('os \<Rightarrow> nat set) \<Rightarrow> ('os \<Rightarrow> nat set) \<Rightarrow> bool" where
  "windows_laws W handles views \<longleftrightarrow>
     (\<forall>hi lo n os h e os'. create_mapping W hi lo n os = ((h, e), os') \<longrightarrow> views os' = views os
        \<and> (case h of None \<Rightarrow> handles os' = handles os | Some m \<Rightarrow> m \<notin> handles os \<and> handles os' = insert m (handles os)))
     \<and> (\<forall>m n os v os'. map_view W m n os = (v, os') \<longrightarrow> handles os' = handles os
        \<and> (case v of None \<Rightarrow> views os' = views os | Some p \<Rightarrow> p \<notin> views os \<and> views os' = insert p (views os)))
     \<and> (\<forall>p os. handles (unmap_view W p os) = handles os \<and> views (unmap_view W p os) = views os - {p})
     \<and> (\<forall>m os. handles (close_handle W m os) = handles os - {m} \<and> views (close_handle W m os) = views os)"

lemma windows_lawsD:
  assumes "windows_laws W handles views"
  shows "create_mapping W hi lo n os = ((h, e), os') \<Longrightarrow> views os' = views os
      \<and> (case h of None \<Rightarrow> handles os' = handles os | Some m \<Rightarrow> m \<notin> handles os \<and> handles os' = insert m (handles os))"
    and "map_view W m sz os = (v, os') \<Longrightarrow> handles os' = handles os
      \<and> (case v of None \<Rightarrow> views os' = views os | Some p \<Rightarrow> p \<notin> views os \<and> views os' = insert p (views os))"
    and "handles (unmap_view W p os) = handles os \<and> views (unmap_view W p os) = views os - {p}"
    and "handles (close_handle W m os) = handles os - {m} \<and> views (close_handle W m os) = views os"
proof -
  note laws = assms [unfolded windows_laws_def]
  show "create_mapping W hi lo n os = ((h, e), os') \<Longrightarrow> views os' = views os
      \<and> (case h of None \<Rightarrow> handles os' = handles os | Some m \<Rightarrow> m \<notin> handles os \<and> handles os' = insert m (handles os))"
    using conjunct1 [OF laws] by (elim allE) (erule (1) mp)
  note laws = conjunct2 [OF laws]
  show "map_view W m sz os = (v, os') \<Longrightarrow> handles os' = handles os
      \<and> (case v of None \<Rightarrow> views os' = views os | Some p \<Rightarrow> p \<notin> views os \<and> views os' = insert p (views os))"
    using conjunct1 [OF laws] by (elim allE) (erule (1) mp)
  note laws = conjunct2 [OF laws]
  show "handles (unmap_view W p os) = handles os \<and> views (unmap_view W p os) = views os - {p}"
    using conjunct1 [OF laws] by (elim allE)
  show "handles (close_handle W m os) = handles os - {m} \<and> views (close_handle W m os) = views os"
    using conjunct2 [OF laws] by (elim allE)
qed

lemma windows_view_outcome:
  assumes laws: "windows_laws W handles views" and v: "windows_view W mapping new size_bytes os = (r, os')"
  shows "handles os' = handles os
    \<and> (case r of None \<Rightarrow> views os' = views os
       | Some (p, n) \<Rightarrow> n = size_bytes \<and> p \<notin> views os \<and> views os' = insert p (views os))"
proof -
  obtain q os1 where m: "map_view W mapping (if new then size_bytes else 0) os = (q, os1)"
    by (cases "map_view W mapping (if new then size_bytes else 0) os")
  note l = windows_lawsD(2) [OF laws m]
  show ?thesis
    using v m l windows_lawsD(3) [OF laws, of _ os1]
    by (auto simp: windows_view_def split: option.splits if_splits)
qed

text \<open>C35. On Windows opening a segment either fails and leaves \<open>out\<close>, the handles and the views as
  they were, or succeeds with one new handle and one new view of the asked size in \<open>out\<close>, which
  \<open>close_shared_memory\<close> takes away again.\<close>

theorem shared_memory_windows_no_leak:
  assumes "windows_laws W handles views"
    and "create_or_open_shared_memory_windows W name size_bytes out os = ((ok, out'), os')"
  shows "if ok then \<exists>seg h p. name \<noteq> None \<and> 0 < size_bytes \<and> out' = Some seg \<and> ws_size seg = size_bytes
             \<and> ws_mapping seg = Some h \<and> h \<notin> handles os \<and> handles os' = insert h (handles os)
             \<and> ws_data seg = Some p \<and> p \<notin> views os \<and> views os' = insert p (views os)
             \<and> (\<exists>os''. close_shared_memory_windows W seg os' = (windows_segment_init, os'')
                  \<and> handles os'' = handles os \<and> views os'' = views os)
         else out' = out \<and> handles os' = handles os \<and> views os' = views os"
proof (cases "\<exists>seg0 nm. out = Some seg0 \<and> name = Some nm \<and> size_bytes \<noteq> 0")
  case True
  then obtain seg0 nm where out: "out = Some seg0" and nm: "name = Some nm" and size: "size_bytes \<noteq> 0" by blast
  obtain h e os1 where c:
    "create_mapping W (ucast (drop_bit 32 size_bytes)) (ucast (size_bytes AND 0xffffffff)) nm os = ((h, e), os1)"
    by (metis surj_pair)
  note l1 = windows_lawsD(1) [OF assms(1) c]
  show ?thesis
  proof (cases h)
    case None
    with c l1 assms(2) out nm size show ?thesis by (simp add: create_or_open_shared_memory_windows_def)
  next
    case (Some m)
    obtain r os2 where v: "windows_view W m (\<not> e) size_bytes os1 = (r, os2)"
      by (cases "windows_view W m (\<not> e) size_bytes os1")
    note l2 = windows_view_outcome [OF assms(1) v]
    show ?thesis
    proof (cases r)
      case None
      with c v Some l1 l2 windows_lawsD(4) [OF assms(1), of m os2] assms(2) out nm size
      show ?thesis by (auto simp: create_or_open_shared_memory_windows_def)
    next
      case (Some pn)
      obtain p n where pn: "pn = (p, n)" by (cases pn)
      have res: "ok" "os' = os2" "out' = Some (seg0\<lparr>ws_data := Some p, ws_size := n, ws_mapping := Some m,
          ws_created_new := \<not> e\<rparr>)"
        using c v \<open>h = Some m\<close> Some pn assms(2) out nm size
        by (simp_all add: create_or_open_shared_memory_windows_def)
      show ?thesis
        using res l1 l2 \<open>h = Some m\<close> Some pn nm size windows_lawsD(3) [OF assms(1), of p os2]
          windows_lawsD(4) [OF assms(1), of m "unmap_view W p os2"]
        by (auto simp: close_shared_memory_windows_def close_handles_def windows_segment_init_def word_gt_0)
    qed
  qed
next
  case False
  then have "(ok, out', os') = (False, out, os)"
    using assms(2) by (auto simp: create_or_open_shared_memory_windows_def split: option.splits if_splits)
  then show ?thesis by simp
qed

record small_os =
  so_exists :: bool
  so_next :: nat
  so_handles :: "nat set"
  so_views :: "nat set"

text \<open>One named section; a view of all of it is a page long.\<close>

definition small_windows :: "small_os windows" where
  "small_windows =
     \<lparr>create_mapping = (\<lambda>hi lo n os. if so_next os \<in> so_handles os then ((None, False), os)
        else ((Some (so_next os), so_exists os), os\<lparr>so_exists := True, so_next := so_next os + 1,
              so_handles := insert (so_next os) (so_handles os)\<rparr>)),
      map_view = (\<lambda>m n os. if so_next os \<in> so_views os then (None, os)
        else (Some (so_next os), os\<lparr>so_next := so_next os + 1, so_views := insert (so_next os) (so_views os)\<rparr>)),
      virtual_query = (\<lambda>p os. Some 4096),
      unmap_view = (\<lambda>p os. os\<lparr>so_views := so_views os - {p}\<rparr>),
      close_handle = (\<lambda>m os. os\<lparr>so_handles := so_handles os - {m}\<rparr>)\<rparr>"

lemma small_windows_laws: "windows_laws small_windows so_handles so_views"
  unfolding windows_laws_def small_windows_def by (intro conjI allI) (auto split: if_splits)

lemmas small_run = create_or_open_shared_memory_windows_def windows_view_def windows_segment_init_def
  small_windows_def

theorem shared_memory_windows_no_leak_witness:
  "\<exists>seg os' os''. create_or_open_shared_memory_windows small_windows (Some ''seg'') 100 (Some windows_segment_init)
      \<lparr>so_exists = False, so_next = 1, so_handles = {}, so_views = {}\<rparr> = ((True, Some seg), os')
      \<and> so_handles os' = {1} \<and> so_views os' = {2}
      \<and> close_shared_memory_windows small_windows seg os' = (windows_segment_init, os'')
      \<and> so_handles os'' = {} \<and> so_views os'' = {}"
proof -
  let ?seg = "\<lparr>ws_data = Some 2, ws_size = 100, ws_mapping = Some 1, ws_created_new = True\<rparr>"
  let ?os = "\<lparr>so_exists = True, so_next = 3, so_handles = {1}, so_views = {2}\<rparr>"
  have run: "create_or_open_shared_memory_windows small_windows (Some ''seg'') 100 (Some windows_segment_init)
      \<lparr>so_exists = False, so_next = 1, so_handles = {}, so_views = {}\<rparr> = ((True, Some ?seg), ?os)"
    by (simp add: small_run)
  show ?thesis
    using shared_memory_windows_no_leak [OF small_windows_laws run] run by simp
qed

text \<open>\<open>RegionSize\<close> is a number of whole pages, so on Windows a size that is not a multiple of
  the page can never be opened a second time: with the very size and name its creator succeeded
  with, every later call fails.\<close>

theorem shared_memory_windows_unaligned:
  assumes "\<forall>view os region. virtual_query W view os = Some region \<longrightarrow> page dvd unat region"
    and "\<not> page dvd unat size_bytes"
    and "create_mapping W (ucast (drop_bit 32 size_bytes)) (ucast (size_bytes AND 0xffffffff)) nm os = ((h, True), os1)"
  shows "fst (create_or_open_shared_memory_windows W (Some nm) size_bytes out os) = (False, out)"
proof -
  have "r = None" if "windows_view W m False size_bytes os1 = (r, os2)" for m r os2
    using that assms(1,2) by (auto simp: windows_view_def split: option.splits prod.splits if_splits)
  then show ?thesis
    using assms(3) by (fastforce simp: create_or_open_shared_memory_windows_def split: option.splits prod.splits)
qed

theorem shared_memory_windows_unaligned_witness:
  "fst (create_or_open_shared_memory_windows small_windows (Some ''seg'') 100 (Some windows_segment_init)
      \<lparr>so_exists = True, so_next = 1, so_handles = {}, so_views = {}\<rparr>)
     = (False, Some windows_segment_init)"
  by (rule shared_memory_windows_unaligned [where page = 4096 and h = "Some 1"])
    (simp_all add: small_windows_def)

end
