(* ===== verification/Worker_Thread.thy ===== *)
theory Worker_Thread
  imports Mpsc_Queue Interfaces
begin

text \<open>
  \<open>runtime/worker_thread.h\<close>: \<open>async_worker\<close> and \<open>async_worker_impl\<close>, composed with the
  model of \<open>mpsc_queue\<close> as the code composes them. Thread 0 is the thread started by the
  constructor, in \<open>run\<close>; every other thread calls \<open>add\<close>, and thread 1 may call \<open>stop\<close> once.
  \<open>wk_done\<close> lists the values the payload was called with. A thread in \<open>atomic::wait\<close> is either
  before its comparison or parked; \<open>notify_one\<close> unparks it and it compares again.
\<close>

record 'a wk_state =
  queued_work :: "'a mp_state \<times> 'a list \<times> 'a list"   \<comment> \<open>with the values sent and got so far\<close>
  work_added :: bool
  stop_requested :: bool
  parked :: bool
  exited :: bool
  wk_done :: "'a list"

datatype 'a wk_pc =
  WkIdle
| WkAdd "'a mp_pc"       \<comment> \<open>add: inside \<open>enqueue\<close>\<close>
| WkAddStore             \<comment> \<open>add: before \<open>m_work_added.store(true)\<close>\<close>
| WkAddNotify            \<comment> \<open>add: before \<open>notify_one\<close>\<close>
| WkStop                 \<comment> \<open>stop: before \<open>request_stop\<close>\<close>
| WkStopStore
| WkStopNotify
| WkJoin                 \<comment> \<open>stop: \<open>m_thread_impl = {}\<close> joins the thread\<close>
| WkStopped
| WkTest                 \<comment> \<open>run: before \<open>stop_requested\<close>\<close>
| WkTake "'a mp_pc"      \<comment> \<open>run: inside \<open>try_dequeue\<close>\<close>
| WkWork 'a              \<comment> \<open>run: before the call of the payload\<close>
| WkClear                \<comment> \<open>run: before \<open>m_work_added.store(false)\<close>\<close>
| WkWait                 \<comment> \<open>run: before the comparison of \<open>wait(false)\<close>\<close>
| WkParked
| WkExit

definition wk_init :: "'a \<Rightarrow> 'a wk_state" where
  "wk_init d = \<lparr>queued_work = (mp_init d, [], []), work_added = False, stop_requested = False,
     parked = False, exited = False, wk_done = []\<rparr>"

text \<open>\<open>notify_one\<close>.\<close>

definition wk_notify :: "'a wk_state \<Rightarrow> 'a wk_state" where
  "wk_notify s = s\<lparr>parked := False\<rparr>"

fun wk_add :: "'a \<Rightarrow> (nat \<Rightarrow> 'a list) \<Rightarrow> nat \<Rightarrow> 'a wk_pc \<Rightarrow> 'a wk_state \<Rightarrow> ('a wk_pc \<times> 'a wk_state) list" where
  "wk_add d vals i (WkAdd p) s =
     (if p = MpEnqueued then [(WkAddStore, s)]
      else map (\<lambda>(p', q). (WkAdd p', s\<lparr>queued_work := q\<rparr>)) (mp_step New_Only d vals i p (queued_work s)))"
| "wk_add d vals i WkAddStore s = [(WkAddNotify, s\<lparr>work_added := True\<rparr>)]"
| "wk_add d vals i WkAddNotify s = [(WkIdle, wk_notify s)]"
| "wk_add d vals i p s = []"

fun wk_stop :: "'a wk_pc \<Rightarrow> 'a wk_state \<Rightarrow> ('a wk_pc \<times> 'a wk_state) list" where
  "wk_stop WkStop s = [(WkStopStore, s\<lparr>stop_requested := True\<rparr>)]"
| "wk_stop WkStopStore s = [(WkStopNotify, s\<lparr>work_added := True\<rparr>)]"
| "wk_stop WkStopNotify s = [(WkJoin, wk_notify s)]"
| "wk_stop WkJoin s = (if exited s then [(WkStopped, s)] else [])"
| "wk_stop p s = []"

fun wk_run :: "'a \<Rightarrow> (nat \<Rightarrow> 'a list) \<Rightarrow> 'a wk_pc \<Rightarrow> 'a wk_state \<Rightarrow> ('a wk_pc \<times> 'a wk_state) list" where
  "wk_run d vals WkTest s =
     (if stop_requested s then [(WkExit, s\<lparr>exited := True\<rparr>)] else [(WkTake MpNext, s)])"
| "wk_run d vals (WkTake p) s =
     (case p of
        MpDequeued (Some v) \<Rightarrow> [(WkWork v, s)]
      | MpDequeued None \<Rightarrow> [(WkClear, s)]
      | _ \<Rightarrow> map (\<lambda>(p', q). (WkTake p', s\<lparr>queued_work := q\<rparr>)) (mp_step New_Only d vals 0 p (queued_work s)))"
| "wk_run d vals (WkWork v) s = [(WkTake MpNext, s\<lparr>wk_done := wk_done s @ [v]\<rparr>)]"
| "wk_run d vals WkClear s = [(WkWait, s\<lparr>work_added := False\<rparr>)]"
| "wk_run d vals WkWait s = (if work_added s then [(WkTest, s)] else [(WkParked, s\<lparr>parked := True\<rparr>)])"
| "wk_run d vals WkParked s = (if parked s then [] else [(WkWait, s)])"
| "wk_run d vals p s = []"

definition wk_step :: "'a \<Rightarrow> (nat \<Rightarrow> 'a list) \<Rightarrow> ('a wk_state, 'a wk_pc) thread_step" where
  "wk_step d vals i p s =
     (if i = 0 then wk_run d vals p s
      else if p = WkIdle then map (\<lambda>v. (WkAdd (MpNew v), s)) (vals i) @ (if i = 1 then [(WkStop, s)] else [])
      else wk_add d vals i p s @ wk_stop p s)"

definition wk_start :: "'a \<Rightarrow> ('a wk_state, 'a wk_pc) system \<Rightarrow> bool" where
  "wk_start d t \<longleftrightarrow> fst t = wk_init d \<and> snd t \<noteq> [] \<and> snd t ! 0 = WkTest
     \<and> (\<forall>i < length (snd t). i \<noteq> 0 \<longrightarrow> snd t ! i = WkIdle)"


section \<open>The queue inside\<close>

text \<open>Where a thread stands in the queue.\<close>

fun wk_queue_pc :: "'a wk_pc \<Rightarrow> 'a mp_pc" where
  "wk_queue_pc (WkAdd p) = p"
| "wk_queue_pc (WkTake p) = p"
| "wk_queue_pc p = MpIdle"

fun wk_worker :: "'a wk_pc \<Rightarrow> bool" where
  "wk_worker WkTest = True"
| "wk_worker (WkTake p) = True"
| "wk_worker (WkWork v) = True"
| "wk_worker WkClear = True"
| "wk_worker WkWait = True"
| "wk_worker WkParked = True"
| "wk_worker WkExit = True"
| "wk_worker p = False"

text \<open>The value popped and not yet handed to the payload.\<close>

fun wk_hand :: "'a wk_pc \<Rightarrow> 'a list" where
  "wk_hand (WkTake (MpReset a v)) = [v]"
| "wk_hand (WkTake (MpDelete a v)) = [v]"
| "wk_hand (WkTake (MpDequeued (Some v))) = [v]"
| "wk_hand (WkWork v) = [v]"
| "wk_hand p = []"

definition wk_inv :: "'a wk_state \<Rightarrow> 'a wk_pc list \<Rightarrow> bool" where
  [inv_defs]: "wk_inv s ps \<longleftrightarrow> mp_inv (queued_work s) (map wk_queue_pc ps) \<and> ps \<noteq> []
     \<and> (\<forall>i < length ps. wk_worker (ps ! i) \<longleftrightarrow> i = 0)
     \<and> snd (snd (queued_work s)) = wk_done s @ wk_hand (ps ! 0)"

lemma wk_invD:
  assumes "wk_inv s ps"
  shows "mp_inv (queued_work s) (map wk_queue_pc ps)" "0 < length ps"
    and "snd (snd (queued_work s)) = wk_done s @ wk_hand (ps ! 0)"
  using assms by (simp_all add: wk_inv_def)

lemma mp_invD:
  assumes "mp_inv (q, sent, got) ps"
  shows "ps \<noteq> []" "\<exists>P cs. mp_consumer_ok P cs (ps ! 0)"
    and "i < length ps \<Longrightarrow> i \<noteq> 0 \<Longrightarrow> \<exists>cs. mp_producer_ok q cs (ps ! i)"
  using assms by (auto simp: mp_inv_def mp_ok_def)

text \<open>What a step of the queue does to the list of the values got.\<close>

lemma consumer_hand:
  assumes "(p', sh') \<in> set (mp_step New_Only d vals 0 p sh)" "mp_consumer_ok P cs p" "p \<noteq> MpIdle" "\<nexists>r. p = MpDequeued r"
  shows "wk_hand (WkTake p) = [] \<and> snd (snd sh') = snd (snd sh) @ wk_hand (WkTake p')
      \<or> wk_hand (WkTake p') = wk_hand (WkTake p) \<and> snd (snd sh') = snd (snd sh) \<or> p' = MpCrash"
  using assms by (cases p) (auto simp: mp_step_def mp_record_def split: option.splits if_splits)

lemma producer_got:
  assumes "(p', sh') \<in> set (mp_step New_Only d vals i p sh)" "i \<noteq> 0" "mp_producer_ok q cs p"
  shows "snd (snd sh') = snd (snd sh)"
  using assms by (cases p) (auto simp: mp_step_def mp_record_def mp_new_def split: option.splits if_splits)

text \<open>A step of the program is a step of the queue, or leaves the queue alone.\<close>

lemma wk_step_queue:
  assumes inv: "wk_inv s ps" and i: "i < length ps" and st: "(p', s') \<in> set (wk_step d vals i (ps ! i) s)"
  shows "(wk_queue_pc p', queued_work s') = (wk_queue_pc (ps ! i), queued_work s)
    \<or> (wk_queue_pc p', queued_work s') \<in> set (mp_step New_Only d vals i (wk_queue_pc (ps ! i)) (queued_work s))"
proof (cases "i = 0")
  case True
  with st show ?thesis
    by (cases "ps ! i")
      (auto simp: wk_step_def wk_notify_def mp_step_def [of New_Only d vals _ MpIdle] mp_step_def [of New_Only d vals _ "MpDequeued r" for r]
        split: if_splits mp_pc.splits option.splits)
next
  case False
  with st show ?thesis
    by (cases "ps ! i")
      (auto simp: wk_step_def wk_notify_def mp_step_def [of New_Only d vals _ MpIdle] mp_step_def [of New_Only d vals _ MpEnqueued]
        split: if_splits)
qed

lemma wk_step_role:
  assumes "(p', s') \<in> set (wk_step d vals i p s)" "wk_worker p \<longleftrightarrow> i = 0"
  shows "wk_worker p' \<longleftrightarrow> i = 0"
  using assms by (cases p) (auto simp: wk_step_def split: if_splits mp_pc.splits option.splits)

lemma wk_step_done:
  assumes inv: "wk_inv s ps" and i: "i < length ps" and st: "(p', s') \<in> set (wk_step d vals i (ps ! i) s)"
    and safe: "wk_queue_pc p' \<noteq> MpCrash"
  shows "snd (snd (queued_work s')) = wk_done s' @ wk_hand (ps[i := p'] ! 0)"
proof -
  obtain q sent got where q: "queued_work s = (q, sent, got)" by (cases "queued_work s")
  have m: "mp_inv (q, sent, got) (map wk_queue_pc ps)" and got: "got = wk_done s @ wk_hand (ps ! 0)"
    and w: "wk_worker (ps ! i) \<longleftrightarrow> i = 0"
    using inv i by (simp_all add: wk_inv_def flip: q) (simp add: q)
  show ?thesis
  proof (cases "i = 0")
    case False
    obtain cs where "mp_producer_ok q cs (wk_queue_pc (ps ! i))" using mp_invD(3) [OF m, of i] i False by auto
    then have "snd (snd (queued_work s')) = snd (snd (queued_work s)) \<and> wk_done s' = wk_done s"
      using st w False
      by (cases "ps ! i") (auto simp: wk_step_def wk_notify_def dest: producer_got split: if_splits)
    then show ?thesis using got False q by simp
  next
    case True
    obtain P cs where ok: "mp_consumer_ok P cs (wk_queue_pc (ps ! 0))" using mp_invD(1,2) [OF m] by auto
    have z: "(p', s') \<in> set (wk_run d vals (ps ! 0) s)" using st True by (simp add: wk_step_def)
    have "snd (snd (queued_work s')) = wk_done s' @ wk_hand p'"
    proof (cases "\<exists>p. ps ! 0 = WkTake p \<and> p \<noteq> MpIdle \<and> (\<nexists>r. p = MpDequeued r)")
      case T: True
      then obtain p where p: "ps ! 0 = WkTake p" "p \<noteq> MpIdle" "\<nexists>r. p = MpDequeued r" by blast
      then obtain p'' q'' where step: "(p'', q'') \<in> set (mp_step New_Only d vals 0 p (queued_work s))"
        and p': "p' = WkTake p''" and s': "s' = s\<lparr>queued_work := q''\<rparr>"
        using z by (cases p) auto
      have "p'' \<noteq> MpCrash" using safe p' by simp
      then show ?thesis using consumer_hand [OF step _ p(2,3), of P cs] ok p(1) p' s' got q by auto
    next
      case False
      with z got q show ?thesis
        by (cases "ps ! 0") (auto simp: mp_step_def split: if_splits mp_pc.splits option.splits)
    qed
    then show ?thesis using True i by simp
  qed
qed

lemma wk_start_inv: "wk_start d (s, ps) \<Longrightarrow> mp_start d (queued_work s, map wk_queue_pc ps) \<and> wk_inv s ps"
proof -
  assume st: "wk_start d (s, ps)"
  then have "\<forall>i < length ps. wk_queue_pc (ps ! i) = MpIdle"
    by (auto simp: wk_start_def)
  then have "\<forall>p \<in> set (map wk_queue_pc ps). p = MpIdle" by (auto simp: in_set_conv_nth)
  with st have m: "mp_start d (queued_work s, map wk_queue_pc ps)"
    by (simp add: wk_start_def mp_start_def wk_init_def)
  have "\<forall>i < length ps. wk_worker (ps ! i) \<longleftrightarrow> i = 0"
    using st by (auto simp: wk_start_def)
  with m mpq.start_inv [OF m] st show ?thesis by (simp add: wk_inv_def wk_start_def wk_init_def)
qed

interpretation wk: simulation "wk_step d vals" "wk_start d" wk_inv "mp_step New_Only d vals" "mp_start d"
  queued_work wk_queue_pc
proof
  fix s :: "'a wk_state" and ps i p' s'
  assume inv: "wk_inv s ps" and i: "i < length ps" and st: "(p', s') \<in> set (wk_step d vals i (ps ! i) s)"
  note q = wk_step_queue [OF inv i st]
  then show "(wk_queue_pc p', queued_work s') = (wk_queue_pc (ps ! i), queued_work s)
    \<or> (wk_queue_pc p', queued_work s') \<in> set (mp_step New_Only d vals i (wk_queue_pc (ps ! i)) (queued_work s))" .
  have m: "mp_inv (queued_work s) (map wk_queue_pc ps)" using inv by (simp add: wk_inv_def)
  have m': "mp_inv (queued_work s') (map wk_queue_pc (ps[i := p']))" by (rule mpq.keeps_inside [OF m i q])
  have "wk_queue_pc p' \<noteq> MpCrash" using mpq.inv_safe [OF m', of "wk_queue_pc p'"] i by (simp add: map_update set_update_memI)
  from wk_step_done [OF inv i st this] m' inv wk_step_role [OF st] i
  show "wk_inv s' (ps[i := p'])" by (auto simp: wk_inv_def nth_list_update)
qed (simp_all add: wk_start_inv)

section \<open>The worker alone\<close>

text \<open>The steps left, when no other thread moves.\<close>

fun wk_rank_pc :: "'a wk_pc \<Rightarrow> nat" where
  "wk_rank_pc WkTest = 5"
| "wk_rank_pc (WkTake (MpReset a v)) = 8"
| "wk_rank_pc (WkTake (MpDelete a v)) = 7"
| "wk_rank_pc (WkTake (MpDequeued (Some v))) = 6"
| "wk_rank_pc (WkWork v) = 5"
| "wk_rank_pc (WkTake MpNext) = 4"
| "wk_rank_pc (WkTake (MpValue n)) = 3"
| "wk_rank_pc (WkTake (MpAdvance n v)) = 2"
| "wk_rank_pc (WkTake (MpDequeued None)) = 3"
| "wk_rank_pc WkClear = 2"
| "wk_rank_pc WkWait = 1"
| "wk_rank_pc p = 0"

definition wk_rank :: "'a wk_state \<Rightarrow> 'a wk_pc \<Rightarrow> nat" where
  "wk_rank s p = 7 * (length (fst (snd (queued_work s))) - length (snd (snd (queued_work s)))) + wk_rank_pc p"

text \<open>The worker's side of the state while the other threads are idle and no stop is asked for.\<close>

fun wk_drained :: "'a wk_state \<Rightarrow> 'a wk_pc \<Rightarrow> bool" where
  "wk_drained s WkTest = True"
| "wk_drained s (WkTake p) = (case p of
     MpIdle \<Rightarrow> False
   | MpDequeued None \<Rightarrow> fst (snd (queued_work s)) = snd (snd (queued_work s))
   | _ \<Rightarrow> True)"
| "wk_drained s (WkWork v) = True"
| "wk_drained s WkClear = (fst (snd (queued_work s)) = snd (snd (queued_work s)))"
| "wk_drained s WkWait = (fst (snd (queued_work s)) = snd (snd (queued_work s)) \<and> \<not> work_added s)"
| "wk_drained s WkParked = (fst (snd (queued_work s)) = snd (snd (queued_work s)))"
| "wk_drained s p = False"

definition wk_alone :: "'a list \<Rightarrow> 'a wk_pc list \<Rightarrow> 'a wk_state \<Rightarrow> 'a wk_pc \<Rightarrow> bool" where
  "wk_alone sent ps s p \<longleftrightarrow> wk_inv s (ps[0 := p]) \<and> wk_drained s p \<and> \<not> stop_requested s
     \<and> fst (snd (queued_work s)) = sent"

lemma mp_inv_consumer:
  assumes inv: "mp_inv (q, sent, got) ps" and idle: "\<forall>i < length ps. i \<noteq> 0 \<longrightarrow> ps ! i = MpIdle"
  obtains cs where "mp_ok (q, sent, got) cs ps" "0 < length ps" "claims mp_pend ps = {}"
proof -
  obtain cs where ok: "mp_ok (q, sent, got) cs ps" using inv by (auto simp: mp_inv_def)
  have len: "0 < length ps" using ok by (simp add: mp_ok_def)
  have "mp_pend (ps ! 0) = {}" using mp_okD(5) [OF ok] by (cases "ps ! 0") simp_all
  then have "mp_pend (ps ! i) = {}" if "i < length ps" for i
    using idle that by (cases "i = 0") simp_all
  then have "claims mp_pend ps = {}" by (auto simp: claims_iff)
  with ok len show thesis by (rule that)
qed

text \<open>One step of the queue by the worker alone.\<close>

lemma mp_alone_step:
  assumes inv: "mp_inv (q, sent, got) ps" and idle: "\<forall>i < length ps. i \<noteq> 0 \<longrightarrow> ps ! i = MpIdle"
    and z: "ps ! 0 = p" "p \<noteq> MpIdle" "\<nexists>r. p = MpDequeued r"
  shows "\<exists>p' q' got'. mp_step New_Only d vals 0 p (q, sent, got) = [(p', q', sent, got')]
    \<and> wk_drained (s\<lparr>queued_work := (q', sent, got')\<rparr>) (WkTake p')
    \<and> 7 * (length sent - length got') + wk_rank_pc (WkTake p')
      < 7 * (length sent - length got) + wk_rank_pc (WkTake p)"
proof -
  obtain cs where ok: "mp_ok (q, sent, got) cs ps" and len: "0 < length ps" and no: "claims mp_pend ps = {}"
    using mp_inv_consumer [OF inv idle] .
  note sh = mp_okD(3) [OF ok, unfolded no] and log = mp_okD(4) [OF ok]
  have con: "mp_consumer_ok {} cs p" using mp_okD(5) [OF ok] no z(1) by simp
  show ?thesis
  proof (cases p)
    case MpNext
    obtain x ds where cs: "cs = (mp_tail q, x) # ds"
      and t: "mp_heap q (mp_tail q) = Some \<lparr>node_next = (if ds = [] then None else Some (fst (hd ds))), node_value = x\<rparr>"
      using mp_tail_cell [OF sh] by auto
    show ?thesis
      using t log cs MpNext by (cases "ds = []") (simp_all add: mp_step_def mp_record_def)
  next
    case (MpValue n)
    from mp_value_ok [OF ok] MpValue z(1) obtain x where "mp_heap q n = Some x" by blast
    with MpValue show ?thesis by (simp add: mp_step_def mp_record_def)
  next
    case (MpAdvance n v)
    then obtain c ds where "cs = c # (n, v) # ds" using con by auto
    with log MpAdvance show ?thesis by (simp add: mp_step_def mp_record_def)
  next
    case (MpReset a v)
    with mp_reset_ok(1) [OF ok] z(1) show ?thesis by (auto simp: mp_step_def mp_record_def)
  next
    case (MpDelete a v)
    with mp_delete_ok(1) [OF ok] z(1) show ?thesis by (auto simp: mp_step_def mp_record_def)
  qed (use con z in simp_all)
qed

lemma wk_alone_step:
  assumes P: "wk_alone sent ps s p" and p: "p \<noteq> WkParked"
    and ps: "0 < length ps" "\<forall>i < length ps. i \<noteq> 0 \<longrightarrow> ps ! i = WkIdle"
  shows "\<exists>p' s'. wk_step d vals 0 p s = [(p', s')] \<and> wk_alone sent ps s' p' \<and> wk_rank s' p' < wk_rank s p"
proof -
  obtain q se got where q: "queued_work s = (q, se, got)" by (cases "queued_work s")
  have inv: "wk_inv s (ps[0 := p])" and dr: "wk_drained s p" and ns: "\<not> stop_requested s" and se: "se = sent"
    using P q by (simp_all add: wk_alone_def)
  have keep: "wk_inv s' (ps[0 := p'])" if "wk_step d vals 0 p s = [(p', s')]" for p' s'
  proof -
    have "(p', s') \<in> set (wk_step d vals 0 (ps[0 := p] ! 0) s)" using that ps(1) by simp
    from wk.step_inv [OF inv _ this] ps(1) show ?thesis by simp
  qed
  show ?thesis
  proof (cases "\<exists>m. p = WkTake m \<and> (\<nexists>r. m = MpDequeued r)")
    case True
    then obtain m where m: "p = WkTake m" "\<nexists>r. m = MpDequeued r" by blast
    have ni: "m \<noteq> MpIdle" using dr m by auto
    have mi: "mp_inv (q, sent, got) (map wk_queue_pc (ps[0 := p]))"
      using wk_invD(1) [OF inv] unfolding q se .
    have idle: "\<forall>i < length (map wk_queue_pc (ps[0 := p])). i \<noteq> 0 \<longrightarrow> map wk_queue_pc (ps[0 := p]) ! i = MpIdle"
      using ps(2) by simp
    have z: "map wk_queue_pc (ps[0 := p]) ! 0 = m" using ps(1) m(1) by simp
    from mp_alone_step [OF mi idle z ni m(2), of d vals s] obtain p' q' got' where
      st: "mp_step New_Only d vals 0 m (q, sent, got) = [(p', q', sent, got')]"
      "wk_drained (s\<lparr>queued_work := (q', sent, got')\<rparr>) (WkTake p')"
      "7 * (length sent - length got') + wk_rank_pc (WkTake p') < 7 * (length sent - length got) + wk_rank_pc (WkTake m)"
      by blast
    have run: "wk_step d vals 0 p s = [(WkTake p', s\<lparr>queued_work := (q', sent, got')\<rparr>)]"
      using st(1) m ni q se by (cases m) (simp_all add: wk_step_def)
    show ?thesis
      using run keep [OF run] st(2,3) m q se ns by (simp add: wk_alone_def wk_rank_def)
  next
    case False
    then obtain p' s' where run: "wk_step d vals 0 p s = [(p', s')]" and "wk_drained s' p'"
      "\<not> stop_requested s'" "queued_work s' = queued_work s" "wk_rank_pc p' < wk_rank_pc p"
      using dr ns p q se by (cases p) (auto simp: wk_step_def split: mp_pc.splits option.splits)
    then show ?thesis using keep [OF run] se q by (auto simp: wk_alone_def wk_rank_def)
  qed
qed


section \<open>Properties\<close>

text \<open>C12. Whatever the other threads do, \<open>async_worker\<close> uses its queue as one consumer and many
  producers: the payload is called with the values added, in the order of the queue, each at most
  once, and at most the value in the worker's hands is popped and not yet passed to it.\<close>

theorem worker_runs_in_order:
  assumes "reach (wk_start d) (interleave (wk_step d vals)) (s, ps)"
  shows "reach (mp_start d) (interleave (mp_step New_Only d vals)) (queued_work s, map wk_queue_pc ps)
    \<and> wk_done s @ wk_hand (ps ! 0) = snd (snd (queued_work s))
    \<and> wk_done s = take (length (wk_done s)) (fst (snd (queued_work s)))"
proof -
  have inv: "wk_inv s ps" by (rule wk.reach_inv [OF assms])
  note r = wk.reach_abs [OF assms, unfolded fst_conv snd_conv]
  have hand: "snd (snd (queued_work s)) = wk_done s @ wk_hand (ps ! 0)" using inv by (simp add: wk_inv_def)
  obtain q sent got where q: "queued_work s = (q, sent, got)" by (cases "queued_work s")
  have "got = take (length got) sent" using mpq.reach_fifo [of d vals "queued_work s"] r q by simp
  with hand q have "wk_done s = take (length (wk_done s)) sent"
    by (metis append_eq_conv_conj snd_conv take_take take_all_iff min_def append_eq_append_conv2 nat_le_linear length_append le_add1 take_all)
  with r hand q show ?thesis by simp
qed

text \<open>C13. From any reachable state in which the worker is at the head of its outer loop, before its
  test of \<open>stop_requested\<close>, no stop is asked for and no call of \<open>add\<close> or \<open>stop\<close> is under way, the worker alone calls the payload with everything that was
  added, within 7 steps for each value and 5 more, and parks.\<close>

theorem worker_drains:
  assumes "reach (wk_start d) (interleave (wk_step d vals)) (s, ps)"
    and "ps ! 0 = WkTest" "\<not> stop_requested s" "\<forall>i < length ps. i \<noteq> 0 \<longrightarrow> ps ! i = WkIdle"
  shows "\<exists>n s'. run_sched (wk_step d vals) (replicate n (0, 0)) (s, ps) = Some (s', ps[0 := WkParked])
    \<and> wk_done s' = fst (snd (queued_work s)) \<and> fst (snd (queued_work s')) = fst (snd (queued_work s))
    \<and> n \<le> 7 * (length (fst (snd (queued_work s))) - length (wk_done s)) + 5"
proof -
  have inv: "wk_inv s ps" by (rule wk.reach_inv [OF assms(1)])
  then have len: "0 < length ps" and d: "snd (snd (queued_work s)) = wk_done s"
    using assms(2) by (simp_all add: wk_inv_def)
  have "ps[0 := ps ! 0] = ps" by (rule list_update_id)
  then have P: "wk_alone (fst (snd (queued_work s))) ps s (ps ! 0)"
    using inv assms(2,3) by (simp add: wk_alone_def)
  from run_sched_ends [where P = "wk_alone (fst (snd (queued_work s))) ps" and fin = "\<lambda>p. p = WkParked"
      and rank = wk_rank and ts = "wk_step d vals" and i = 0, OF wk_alone_step [OF _ _ len assms(4)] P len]
  obtain n s' p' where run: "run_sched (wk_step d vals) (replicate n (0, 0)) (s, ps) = Some (s', ps[0 := p'])"
    "p' = WkParked" and P': "wk_alone (fst (snd (queued_work s))) ps s' p'" and n: "n \<le> wk_rank s (ps ! 0)"
    by blast
  have "wk_done s' = snd (snd (queued_work s'))" "snd (snd (queued_work s')) = fst (snd (queued_work s'))"
    "fst (snd (queued_work s')) = fst (snd (queued_work s))"
    using P' wk_invD(3) [of s' "ps[0 := WkParked]"] len unfolding run(2) by (auto simp: wk_alone_def)
  with run n assms(2) d show ?thesis by (auto simp: wk_rank_def)
qed

lemmas wk_run = wk_step_def wk_init_def wk_notify_def mp_step_def mp_init_def mp_new_def mp_record_def
  set_next_apply set_value_def delete_node_def

text \<open>Two values are added, and the worker, not yet started, finds them.\<close>

lemma wk_two_added:
  obtains s where "reach (wk_start (0::nat)) (interleave (wk_step 0 (\<lambda>i. [10 * i]))) (s, [WkTest, WkIdle, WkIdle])"
    and "fst (snd (queued_work s)) = [10, 20]" "wk_done s = []" "\<not> stop_requested s"
proof -
  have "\<exists>s. run_sched (wk_step (0::nat) (\<lambda>i. [10 * i])) (replicate 7 (1, 0) @ replicate 7 (2, 0))
      (wk_init 0, [WkTest, WkIdle, WkIdle]) = Some (s, [WkTest, WkIdle, WkIdle])
    \<and> fst (snd (queued_work s)) = [10, 20] \<and> wk_done s = [] \<and> \<not> stop_requested s"
    by (simp add: wk_run numeral_nat)
  then obtain s where "run_sched (wk_step (0::nat) (\<lambda>i. [10 * i])) (replicate 7 (1, 0) @ replicate 7 (2, 0))
      (wk_init 0, [WkTest, WkIdle, WkIdle]) = Some (s, [WkTest, WkIdle, WkIdle])"
    "fst (snd (queued_work s)) = [10, 20]" "wk_done s = []" "\<not> stop_requested s" by (elim exE conjE) (rule that)
  then show thesis
    by (intro that [of s] run_sched_reach_start [OF _ \<open>run_sched _ _ _ = _\<close>])
      (simp_all add: wk_start_def nth_Cons split: nat.splits)
qed

theorem worker_drains_witness:
  "\<exists>s s' :: nat wk_state. \<exists>n \<le> 19. fst (snd (queued_work s)) = [10, 20] \<and> wk_done s = []
    \<and> run_sched (wk_step 0 (\<lambda>i. [10 * i])) (replicate n (0, 0)) (s, [WkTest, WkIdle, WkIdle])
      = Some (s', [WkParked, WkIdle, WkIdle])
    \<and> wk_done s' = [10, 20]"
proof -
  obtain s where s: "reach (wk_start (0::nat)) (interleave (wk_step 0 (\<lambda>i. [10 * i]))) (s, [WkTest, WkIdle, WkIdle])"
    "fst (snd (queued_work s)) = [10, 20]" "wk_done s = []" "\<not> stop_requested s" by (rule wk_two_added)
  from worker_drains [OF s(1) _ s(4)] s(2,3) show ?thesis
    by (force simp: nth_Cons split: nat.splits)
qed

theorem worker_runs_in_order_witness:
  "\<exists>s :: nat wk_state. wk_done s = [10] \<and> fst (snd (queued_work s)) = [10, 20]
    \<and> reach (mp_start 0) (interleave (mp_step New_Only 0 (\<lambda>i. [10 * i]))) (queued_work s, [MpNext, MpIdle, MpIdle])"
proof -
  have "\<exists>s. run_sched (wk_step (0::nat) (\<lambda>i. [10 * i])) (replicate 7 (1, 0) @ replicate 7 (2, 0) @ replicate 8 (0, 0))
      (wk_init 0, [WkTest, WkIdle, WkIdle]) = Some (s, [WkTake MpNext, WkIdle, WkIdle])
    \<and> fst (snd (queued_work s)) = [10, 20] \<and> wk_done s = [10]"
    by (simp add: wk_run numeral_nat)
  then obtain s where s: "run_sched (wk_step (0::nat) (\<lambda>i. [10 * i])) (replicate 7 (1, 0) @ replicate 7 (2, 0) @ replicate 8 (0, 0))
      (wk_init 0, [WkTest, WkIdle, WkIdle]) = Some (s, [WkTake MpNext, WkIdle, WkIdle])"
    "fst (snd (queued_work s)) = [10, 20]" "wk_done s = [10]" by (elim exE conjE) (rule that)
  have "reach (wk_start (0::nat)) (interleave (wk_step 0 (\<lambda>i. [10 * i]))) (s, [WkTake MpNext, WkIdle, WkIdle])"
    by (rule run_sched_reach_start [OF _ s(1)]) (simp add: wk_start_def nth_Cons split: nat.splits)
  from worker_runs_in_order [OF this] s(2,3) show ?thesis by (intro exI [of _ s]) simp
qed

section \<open>A wake-up that is lost\<close>

text \<open>The steps of the program as long as no call stores true into \<open>m_work_added\<close>.\<close>

definition wk_silent :: "'a \<Rightarrow> (nat \<Rightarrow> 'a list) \<Rightarrow> ('a wk_state, 'a wk_pc) thread_step" where
  "wk_silent d vals i p s = (if p = WkAddStore \<or> p = WkStopStore then [] else wk_step d vals i p s)"

text \<open>The worker is in its wait and the flag is false; \<open>joins\<close> says that thread 1 is joining it.\<close>

definition wk_stuck :: "bool \<Rightarrow> 'a list \<Rightarrow> 'a wk_state \<Rightarrow> 'a wk_pc list \<Rightarrow> bool" where
  "wk_stuck joins ds s ps \<longleftrightarrow> 1 < length ps \<and> ps ! 0 \<in> {WkWait, WkParked} \<and> \<not> work_added s \<and> wk_done s = ds
     \<and> \<not> exited s \<and> (joins \<longrightarrow> ps ! 1 = WkJoin)"

lemma wk_client_keeps:
  assumes "(p', s') \<in> set (wk_step d vals i p s)" "i \<noteq> 0"
  shows "wk_done s' = wk_done s \<and> exited s' = exited s \<and> (p = WkJoin \<longrightarrow> exited s)
    \<and> (p \<noteq> WkAddStore \<longrightarrow> p \<noteq> WkStopStore \<longrightarrow> work_added s' = work_added s)"
  using assms by (cases p) (auto simp: wk_step_def wk_notify_def split: if_splits)

interpretation stuck: protocol "wk_silent d vals" "\<lambda>x. wk_stuck joins ds (fst x) (snd x)" "wk_stuck joins ds"
proof
  fix s :: "'a wk_state" and ps i p' s'
  assume inv: "wk_stuck joins ds s ps" and i: "i < length ps" and st: "(p', s') \<in> set (wk_silent d vals i (ps ! i) s)"
  then have st': "(p', s') \<in> set (wk_step d vals i (ps ! i) s)" "ps ! i \<noteq> WkAddStore" "ps ! i \<noteq> WkStopStore"
    by (auto simp: wk_silent_def split: if_splits)
  show "wk_stuck joins ds s' (ps[i := p'])"
  proof (cases "i = 0")
    case True
    moreover have "0 < length ps" using inv by (auto simp: wk_stuck_def)
    ultimately show ?thesis using inv st' by (auto simp: wk_stuck_def wk_step_def split: if_splits)
  next
    case False
    with inv wk_client_keeps [OF st'(1)] st' show ?thesis by (cases "i = 1") (auto simp: wk_stuck_def)
  qed
qed simp

text \<open>The worker has not ended while it is in its loop.\<close>

interpretation wx: protocol "wk_step d vals" "wk_start d" "\<lambda>s ps. ps \<noteq> [] \<and> (exited s \<longrightarrow> ps ! 0 = WkExit)"
proof
  fix s :: "'a wk_state" and ps i p' s'
  assume inv: "ps \<noteq> [] \<and> (exited s \<longrightarrow> ps ! 0 = WkExit)" and i: "i < length ps"
    and st: "(p', s') \<in> set (wk_step d vals i (ps ! i) s)"
  show "ps[i := p'] \<noteq> [] \<and> (exited s' \<longrightarrow> ps[i := p'] ! 0 = WkExit)"
  proof (cases "i = 0")
    case True
    with inv st show ?thesis
      by (cases "ps ! 0") (auto simp: wk_step_def split: if_splits mp_pc.splits option.splits)
  next
    case False
    with inv wk_client_keeps [OF st] show ?thesis by auto
  qed
qed (auto simp: wk_start_def wk_init_def)

text \<open>A whole \<open>add\<close>, and the worker's way into its wait.\<close>

lemma mp_head_live: "mp_inv (q, sent, got) ps \<Longrightarrow> \<exists>c. mp_heap q (mp_head q) = Some c \<and> mp_head q \<noteq> mp_fresh q"
proof -
  assume "mp_inv (q, sent, got) ps"
  then obtain cs where cs: "mp_ok (q, sent, got) cs ps" by (auto simp: mp_inv_def)
  note sh = mp_okD(3) [OF cs]
  then have "cs \<noteq> []" "fst (last cs) = mp_head q" by (simp_all add: mp_shape_def)
  then have "mp_head q \<in> fst ` set cs" by (metis imageI last_in_set)
  with sh have "mp_head q \<in> dom (mp_heap q)" by (auto simp: mp_shape_def)
  with mp_fresh_out [OF sh] show ?thesis by auto
qed

lemma wk_add_alone:
  assumes "wk_inv s ps" "i \<noteq> 0"
  obtains q' where "moves_alone (wk_step d vals) i 6 (WkAdd (MpNew v), s)
    (WkIdle, s\<lparr>queued_work := (q', fst (snd (queued_work s)) @ [v], snd (snd (queued_work s))),
      work_added := True, parked := False\<rparr>)"
proof -
  obtain q sent got where q: "queued_work s = (q, sent, got)" by (cases "queued_work s")
  obtain c where "mp_heap q (mp_head q) = Some c" "mp_head q \<noteq> mp_fresh q"
    using mp_head_live wk_invD(1) [OF assms(1)] unfolding q by blast
  with assms(2) show thesis
    by (intro that [of "q\<lparr>mp_fresh := Suc (mp_fresh q), mp_head := mp_fresh q,
        mp_heap := set_next (mp_head q) (Some (mp_fresh q))
          ((mp_heap q)(mp_fresh q \<mapsto> \<lparr>node_next = None, node_value = v\<rparr>))\<rparr>"])
      (simp add: moves_alone_def wk_run q numeral_nat)
qed

lemma wk_falls_asleep:
  "moves_alone (wk_step d vals) 0 2 (WkClear, s) (WkParked, s\<lparr>work_added := False, parked := True\<rparr>)"
  by (simp add: moves_alone_def wk_step_def numeral_2_eq_2)

lemma worker_misses_add:
  assumes inv: "wk_inv s ps" and ex: "\<not> exited s" and z: "ps ! 0 = WkClear"
    and i: "0 < i" "i < length ps" "ps ! i = WkIdle" "k < length (vals i)"
  obtains s1 where "run_sched (wk_step d vals) ((i, k) # replicate 6 (i, 0) @ replicate 2 (0, 0)) (s, ps) = Some (s1, ps[0 := WkParked])"
    and "fst (snd (queued_work s1)) = fst (snd (queued_work s)) @ [vals i ! k]"
    and "wk_stuck False (wk_done s) s1 (ps[0 := WkParked])"
proof -
  obtain q' where add: "moves_alone (wk_step d vals) i 6 (WkAdd (MpNew (vals i ! k)), s)
    (WkIdle, s\<lparr>queued_work := (q', fst (snd (queued_work s)) @ [vals i ! k], snd (snd (queued_work s))),
      work_added := True, parked := False\<rparr>)"
    by (rule wk_add_alone [OF inv, of i d vals "vals i ! k"]) (use i(1) in simp_all)
  let ?s = "s\<lparr>queued_work := (q', fst (snd (queued_work s)) @ [vals i ! k], snd (snd (queued_work s))),
      work_added := True, parked := False\<rparr>"
  have same: "ps[i := WkIdle] = ps" using i(3) by (metis list_update_id)
  have front: "ps[0 := WkClear] = ps" using z by (metis list_update_id)
  have "run_sched (wk_step d vals) (replicate 6 (i, 0)) (s, ps[i := WkAdd (MpNew (vals i ! k))]) = Some (?s, ps)"
    using add i(2) by (simp add: moves_alone_def same)
  moreover have "run_sched (wk_step d vals) (replicate 2 (0, 0)) (?s, ps)
      = Some (?s\<lparr>work_added := False, parked := True\<rparr>, ps[0 := WkParked])"
    using wk_falls_asleep [of d vals ?s] i(2) unfolding moves_alone_def fst_conv snd_conv
    by (metis front gr_zeroI not_less_zero)
  ultimately have "run_sched (wk_step d vals) ((i, k) # replicate 6 (i, 0) @ replicate 2 (0, 0)) (s, ps)
      = Some (?s\<lparr>work_added := False, parked := True\<rparr>, ps[0 := WkParked])"
    using i by (simp add: run_sched_append wk_step_def [of d vals i WkIdle] nth_append)
  moreover have "1 < length ps" "0 < length ps" using i(1,2) by linarith+
  ultimately show thesis by (elim that) (use ex in \<open>simp_all add: wk_stuck_def\<close>)
qed

lemma worker_misses_stop:
  assumes ex: "\<not> exited s" and z: "ps ! 0 = WkClear" and i: "1 < length ps" "ps ! 1 = WkIdle"
  obtains s1 where "run_sched (wk_step d vals) ((1, length (vals 1)) # replicate 3 (1, 0) @ replicate 2 (0, 0)) (s, ps)
      = Some (s1, ps[1 := WkJoin, 0 := WkParked])"
    and "wk_stuck True (wk_done s) s1 (ps[1 := WkJoin, 0 := WkParked])"
proof -
  have "ps \<noteq> []" using i(1) by auto
  then have "run_sched (wk_step d vals) ((1, length (vals 1)) # replicate 3 (1, 0) @ replicate 2 (0, 0)) (s, ps)
      = Some (s\<lparr>stop_requested := True, work_added := False, parked := True\<rparr>, ps[1 := WkJoin, 0 := WkParked])"
    using i z by (simp add: wk_step_def wk_notify_def nth_append numeral_nat)
  from that [OF this] show thesis using i ex by (cases ps) (auto simp: wk_stuck_def)
qed

text \<open>C37. A wake-up can be lost: in any reachable state in which the worker has found the queue empty
  and is before its store of false into \<open>m_work_added\<close>. A whole call of \<open>add\<close> that runs there is not
  noticed: the worker goes to sleep with the value in the queue, and in every execution from there in
  which no other call of \<open>add\<close> or \<open>stop\<close> reaches its store of true, it stays in its wait and
  calls no payload. A whole call of \<open>stop\<close> up to its \<open>join\<close> is not noticed either: then both
  threads wait, as long as no \<open>add\<close> reaches its store.\<close>

theorem worker_lost_wakeup:
  assumes "reach (wk_start d) (interleave (wk_step d vals)) (s, ps)" "ps ! 0 = WkClear"
  shows "(\<forall>i k. 0 < i \<and> i < length ps \<and> ps ! i = WkIdle \<and> k < length (vals i) \<longrightarrow>
      (\<exists>s1. run_sched (wk_step d vals) ((i, k) # replicate 6 (i, 0) @ replicate 2 (0, 0)) (s, ps) = Some (s1, ps[0 := WkParked])
        \<and> fst (snd (queued_work s1)) = fst (snd (queued_work s)) @ [vals i ! k]
        \<and> (\<forall>s2 ps2. reach (\<lambda>x. x = (s1, ps[0 := WkParked])) (interleave (wk_silent d vals)) (s2, ps2) \<longrightarrow>
             ps2 ! 0 \<in> {WkWait, WkParked} \<and> wk_done s2 = wk_done s)))
    \<and> (1 < length ps \<and> ps ! 1 = WkIdle \<longrightarrow>
      (\<exists>s1. run_sched (wk_step d vals) ((1, length (vals 1)) # replicate 3 (1, 0) @ replicate 2 (0, 0)) (s, ps)
          = Some (s1, ps[1 := WkJoin, 0 := WkParked])
        \<and> (\<forall>s2 ps2. reach (\<lambda>x. x = (s1, ps[1 := WkJoin, 0 := WkParked])) (interleave (wk_silent d vals)) (s2, ps2) \<longrightarrow>
             ps2 ! 0 \<in> {WkWait, WkParked} \<and> ps2 ! 1 = WkJoin)))"
proof -
  have inv: "wk_inv s ps" by (rule wk.reach_inv [OF assms(1)])
  have ex: "\<not> exited s" using wx.reach_inv [OF assms(1)] assms(2) by auto
  have keeps: "wk_stuck joins ds s2 ps2"
    if "wk_stuck joins ds s1 ps1" "reach (\<lambda>x. x = (s1, ps1)) (interleave (wk_silent d vals)) (s2, ps2)" for joins ds s1 ps1 s2 ps2
    by (rule stuck.reach_inv, rule reach_mono [OF _ that(2)]) (use that(1) in simp)
  have "\<exists>s1. run_sched (wk_step d vals) ((i, k) # replicate 6 (i, 0) @ replicate 2 (0, 0)) (s, ps) = Some (s1, ps[0 := WkParked])
        \<and> fst (snd (queued_work s1)) = fst (snd (queued_work s)) @ [vals i ! k]
        \<and> (\<forall>s2 ps2. reach (\<lambda>x. x = (s1, ps[0 := WkParked])) (interleave (wk_silent d vals)) (s2, ps2) \<longrightarrow>
             ps2 ! 0 \<in> {WkWait, WkParked} \<and> wk_done s2 = wk_done s)"
    if i: "0 < i" "i < length ps" "ps ! i = WkIdle" "k < length (vals i)" for i k
  proof -
    obtain s1 where run: "run_sched (wk_step d vals) ((i, k) # replicate 6 (i, 0) @ replicate 2 (0, 0)) (s, ps) = Some (s1, ps[0 := WkParked])"
      "fst (snd (queued_work s1)) = fst (snd (queued_work s)) @ [vals i ! k]"
      and st: "wk_stuck False (wk_done s) s1 (ps[0 := WkParked])"
      by (rule worker_misses_add [where vals = vals and k = k, OF inv ex assms(2) i])
    from keeps [OF st] run show ?thesis unfolding wk_stuck_def by blast
  qed
  moreover have "\<exists>s1. run_sched (wk_step d vals) ((1, length (vals 1)) # replicate 3 (1, 0) @ replicate 2 (0, 0)) (s, ps)
          = Some (s1, ps[1 := WkJoin, 0 := WkParked])
        \<and> (\<forall>s2 ps2. reach (\<lambda>x. x = (s1, ps[1 := WkJoin, 0 := WkParked])) (interleave (wk_silent d vals)) (s2, ps2) \<longrightarrow>
             ps2 ! 0 \<in> {WkWait, WkParked} \<and> ps2 ! 1 = WkJoin)"
    if i: "1 < length ps" "ps ! 1 = WkIdle"
  proof -
    obtain s1 where run: "run_sched (wk_step d vals) ((1, length (vals 1)) # replicate 3 (1, 0) @ replicate 2 (0, 0)) (s, ps)
          = Some (s1, ps[1 := WkJoin, 0 := WkParked])"
      and st: "wk_stuck True (wk_done s) s1 (ps[1 := WkJoin, 0 := WkParked])"
      by (rule worker_misses_stop [OF ex assms(2) i])
    from keeps [OF st] run show ?thesis unfolding wk_stuck_def by blast
  qed
  ultimately show ?thesis by blast
qed

theorem worker_lost_wakeup_witness:
  "\<exists>s s1 :: nat wk_state. run_sched (wk_step 0 (\<lambda>i. [7])) ((1, 0) # replicate 6 (1, 0) @ replicate 2 (0, 0)) (s, [WkClear, WkIdle])
      = Some (s1, [WkParked, WkIdle]) \<and> fst (snd (queued_work s1)) = [7] \<and> wk_done s1 = []"
proof -
  have "\<exists>s. run_sched (wk_step (0::nat) (\<lambda>i. [7])) (replicate 3 (0, 0)) (wk_init 0, [WkTest, WkIdle])
      = Some (s, [WkClear, WkIdle]) \<and> fst (snd (queued_work s)) = [] \<and> wk_done s = []"
    by (simp add: wk_run numeral_nat)
  then obtain s where s: "run_sched (wk_step (0::nat) (\<lambda>i. [7])) (replicate 3 (0, 0)) (wk_init 0, [WkTest, WkIdle])
      = Some (s, [WkClear, WkIdle])" "fst (snd (queued_work s)) = []" "wk_done s = []" by (elim exE conjE) (rule that)
  have "reach (wk_start (0::nat)) (interleave (wk_step 0 (\<lambda>i. [7]))) (s, [WkClear, WkIdle])"
    by (rule run_sched_reach_start [OF _ s(1)]) (simp add: wk_start_def nth_Cons split: nat.splits)
  from worker_lost_wakeup [OF this, THEN conjunct1, THEN spec, of 1, THEN spec, of 0] s(2)
  obtain s1 where run: "run_sched (wk_step (0::nat) (\<lambda>i. [7])) ((1, 0) # replicate 6 (1, 0) @ replicate 2 (0, 0)) (s, [WkClear, WkIdle])
      = Some (s1, [WkParked, WkIdle])" "fst (snd (queued_work s1)) = [7]"
    and "\<forall>s2 ps2. reach (\<lambda>x. x = (s1, [WkParked, WkIdle])) (interleave (wk_silent 0 (\<lambda>i. [7]))) (s2, ps2) \<longrightarrow>
      wk_done s2 = wk_done s" by auto
  then have "wk_done s1 = wk_done s" by (blast intro: reach_start)
  with run s(3) show ?thesis by (metis)
qed

end
