(* ===== verification/Object_Safe_Wrapper.thy ===== *)
theory Object_Safe_Wrapper
  imports RW_Spinlock
begin

text \<open>
  \<open>synchronization/object_safe_wrapper.h\<close>, composed with the model of \<open>rw_spinlock\<close> as
  \<open>TMutex\<close>, \<open>std::unique_lock\<close> for the exclusive and \<open>std::shared_lock\<close> for the shared
  proxies. A proxy holds its lock from its construction to the end of the full expression; in
  between the client reads the object and, through an exclusive proxy, writes it back changed by
  one of its functions \<open>ops i\<close>. \<open>ow_log\<close> lists the functions written back so far.
  \<open>const_writes\<close> says whether clients also write through the proxies of a \<open>const\<close> wrapper,
  whose \<open>operator ->\<close> gives a \<open>TObject*\<close> all the same.
\<close>

record 'o ow_state =
  ow_object :: 'o
  ow_guard :: u32
  ow_log :: "('o \<Rightarrow> 'o) list"

datatype 'o ow_pc =
  OwIdle
| OwGot 'o                       \<comment> \<open>raw: a copy of the object, without any lock\<close>
| OwLock rw_pc                   \<comment> \<open>lock, and unlock from \<open>OwLock WrHeld\<close>\<close>
| OwLockShared rw_pc             \<comment> \<open>lock_shared, and unlock_shared from \<open>OwLockShared RdHeld\<close>\<close>
| OwEnter rw_pc "'o \<Rightarrow> 'o"      \<comment> \<open>exclusive proxy: the constructor\<close>
| OwRead "'o \<Rightarrow> 'o"              \<comment> \<open>exclusive proxy: before the object is read\<close>
| OwWrite "'o \<Rightarrow> 'o" 'o          \<comment> \<open>exclusive proxy: before the object is written\<close>
| OwLeave                        \<comment> \<open>exclusive proxy: before its destructor\<close>
| OwEnterShared rw_pc "('o \<Rightarrow> 'o) option"
| OwLook "('o \<Rightarrow> 'o) option"     \<comment> \<open>shared proxy: before the first read\<close>
| OwLookAgain 'o                 \<comment> \<open>shared proxy: before the second read\<close>
| OwWriteShared "'o \<Rightarrow> 'o" 'o    \<comment> \<open>shared proxy: before a write through the \<open>TObject*\<close>\<close>
| OwSeen 'o 'o                   \<comment> \<open>shared proxy: before its destructor\<close>

fun lock_impl :: "bool \<Rightarrow> rw_pc \<Rightarrow> u32 \<Rightarrow> rw_pc \<times> u32" where
  "lock_impl lock_flag p m = (if lock_flag then rw_lock p m else (RwIdle, rw_unlock m))"

fun lock_shared_impl :: "bool \<Rightarrow> rw_pc \<Rightarrow> u32 \<Rightarrow> rw_pc \<times> u32" where
  "lock_shared_impl lock_flag p m = (if lock_flag then rw_lock_shared p m else (RwIdle, rw_unlock_shared m))"

definition ow_init :: "'o \<Rightarrow> 'o ow_state" where
  "ow_init x = \<lparr>ow_object = x, ow_guard = rw_init, ow_log = []\<rparr>"

text \<open>\<open>lock\<close>, \<open>unlock\<close>, \<open>lock_shared\<close>, \<open>unlock_shared\<close> of the wrapper itself.\<close>

fun ow_direct :: "'o ow_pc \<Rightarrow> 'o ow_state \<Rightarrow> 'o ow_pc \<times> 'o ow_state" where
  "ow_direct (OwLock p) s =
     (case lock_impl (p \<noteq> WrHeld) p (ow_guard s) of (p', m) \<Rightarrow>
        (if p = WrHeld then OwIdle else OwLock p', s\<lparr>ow_guard := m\<rparr>))"
| "ow_direct (OwLockShared p) s =
     (case lock_shared_impl (p \<noteq> RdHeld) p (ow_guard s) of (p', m) \<Rightarrow>
        (if p = RdHeld then OwIdle else OwLockShared p', s\<lparr>ow_guard := m\<rparr>))"
| "ow_direct p s = (p, s)"

text \<open>\<open>operator ->\<close> and \<open>operator *\<close>, the use of the proxy, and its destructor.\<close>

fun ow_exclusive :: "'o ow_pc \<Rightarrow> 'o ow_state \<Rightarrow> 'o ow_pc \<times> 'o ow_state" where
  "ow_exclusive (OwEnter p f) s =
     (case rw_lock p (ow_guard s) of (p', m) \<Rightarrow>
        (if p' = WrHeld then OwRead f else OwEnter p' f, s\<lparr>ow_guard := m\<rparr>))"
| "ow_exclusive (OwRead f) s = (OwWrite f (ow_object s), s)"
| "ow_exclusive (OwWrite f x) s = (OwLeave, s\<lparr>ow_object := f x, ow_log := ow_log s @ [f]\<rparr>)"
| "ow_exclusive OwLeave s = (OwIdle, s\<lparr>ow_guard := rw_unlock (ow_guard s)\<rparr>)"
| "ow_exclusive p s = (p, s)"

fun ow_shared :: "'o ow_pc \<Rightarrow> 'o ow_state \<Rightarrow> 'o ow_pc \<times> 'o ow_state" where
  "ow_shared (OwEnterShared p w) s =
     (case rw_lock_shared p (ow_guard s) of (p', m) \<Rightarrow>
        (if p' = RdHeld then OwLook w else OwEnterShared p' w, s\<lparr>ow_guard := m\<rparr>))"
| "ow_shared (OwLook w) s =
     (case w of None \<Rightarrow> OwLookAgain (ow_object s) | Some f \<Rightarrow> OwWriteShared f (ow_object s), s)"
| "ow_shared (OwLookAgain x) s = (OwSeen x (ow_object s), s)"
| "ow_shared (OwWriteShared f x) s =
     (OwSeen (f x) (f x), s\<lparr>ow_object := f x, ow_log := ow_log s @ [f]\<rparr>)"
| "ow_shared (OwSeen x y) s = (OwIdle, s\<lparr>ow_guard := rw_unlock_shared (ow_guard s)\<rparr>)"
| "ow_shared p s = (p, s)"

definition ow_step :: "bool \<Rightarrow> (nat \<Rightarrow> ('o \<Rightarrow> 'o) list) \<Rightarrow> ('o ow_state, 'o ow_pc) thread_step" where
  "ow_step const_writes ops i p s =
     (case p of
        OwIdle \<Rightarrow> [(OwGot (ow_object s), s), (OwLock WrTry, s), (OwLockShared RdTry, s), (OwEnterShared RdTry None, s)]
          @ map (\<lambda>f. (OwEnter WrTry f, s)) (ops i)
          @ (if const_writes then map (\<lambda>f. (OwEnterShared RdTry (Some f), s)) (ops i) else [])
      | OwGot x \<Rightarrow> [(OwIdle, s)]
      | OwLock q \<Rightarrow> [ow_direct p s]
      | OwLockShared q \<Rightarrow> [ow_direct p s]
      | OwEnter q f \<Rightarrow> [ow_exclusive p s]
      | OwRead f \<Rightarrow> [ow_exclusive p s]
      | OwWrite f x \<Rightarrow> [ow_exclusive p s]
      | OwLeave \<Rightarrow> [ow_exclusive p s]
      | _ \<Rightarrow> [ow_shared p s])"

definition ow_start :: "'o \<Rightarrow> ('o ow_state, 'o ow_pc) system \<Rightarrow> bool" where
  "ow_start x t \<longleftrightarrow> fst t = ow_init x \<and> length (snd t) < 4096 \<and> (\<forall>p \<in> set (snd t). p = OwIdle)"


section \<open>The lock inside\<close>

fun ow_lock_pc :: "'o ow_pc \<Rightarrow> rw_pc" where
  "ow_lock_pc (OwLock p) = p"
| "ow_lock_pc (OwLockShared p) = p"
| "ow_lock_pc (OwEnter p f) = p"
| "ow_lock_pc (OwRead f) = WrHeld"
| "ow_lock_pc (OwWrite f x) = WrHeld"
| "ow_lock_pc OwLeave = WrHeld"
| "ow_lock_pc (OwEnterShared p w) = p"
| "ow_lock_pc (OwLook w) = RdHeld"
| "ow_lock_pc (OwLookAgain x) = RdHeld"
| "ow_lock_pc (OwWriteShared f x) = RdHeld"
| "ow_lock_pc (OwSeen x y) = RdHeld"
| "ow_lock_pc p = RwIdle"

text \<open>The program counters of the lock that belong to each side, and the copies of the object that
  a thread works with.\<close>

fun ow_pc_ok :: "bool \<Rightarrow> 'o ow_pc \<Rightarrow> bool" where
  "ow_pc_ok cw (OwLock p) = (p \<in> {WrTry, WrUndo, WrSpin, WrHeld})"
| "ow_pc_ok cw (OwLockShared p) = (p \<in> {RdTry, RdUndo, RdSpin, RdHeld})"
| "ow_pc_ok cw (OwEnter p f) = (p \<in> {WrTry, WrUndo, WrSpin})"
| "ow_pc_ok cw (OwEnterShared p w) = (p \<in> {RdTry, RdUndo, RdSpin} \<and> (w \<noteq> None \<longrightarrow> cw))"
| "ow_pc_ok cw (OwLook w) = (w \<noteq> None \<longrightarrow> cw)"
| "ow_pc_ok cw (OwWriteShared f x) = cw"
| "ow_pc_ok cw p = True"

fun ow_copies :: "bool \<Rightarrow> 'o ow_pc \<Rightarrow> 'o set" where
  "ow_copies cw (OwWrite f x) = {x}"
| "ow_copies cw (OwLookAgain x) = (if cw then {} else {x})"
| "ow_copies cw (OwSeen x y) = (if cw then {} else {x, y})"
| "ow_copies cw p = {}"

definition ow_inv :: "bool \<Rightarrow> 'o \<Rightarrow> 'o ow_state \<Rightarrow> 'o ow_pc list \<Rightarrow> bool" where
  [inv_defs]: "ow_inv cw x0 s ps \<longleftrightarrow> rw_inv (ow_guard s) (map ow_lock_pc ps) \<and> (\<forall>p \<in> set ps. ow_pc_ok cw p)
     \<and> (cw \<or> ow_object s = fold (\<lambda>f. f) (ow_log s) x0)
     \<and> (\<forall>i < length ps. ow_copies cw (ps ! i) \<subseteq> {ow_object s})"

lemma ow_step_lock:
  assumes "(p', s') \<in> set (ow_step cw ops i p s)" "ow_pc_ok cw p"
  shows "ow_pc_ok cw p' \<and> ((ow_lock_pc p', ow_guard s') = (ow_lock_pc p, ow_guard s)
    \<or> (ow_lock_pc p', ow_guard s') \<in> set (rw_step i (ow_lock_pc p) (ow_guard s)))"
  using assms by (cases p) (auto simp: ow_step_def rw_step_def split: if_splits option.splits)

text \<open>The object changes only in the hands of a thread that holds the lock, and, unless clients write
  through the proxies of a \<open>const\<close> wrapper, holds it alone.\<close>

lemma ow_step_object:
  assumes "(p', s') \<in> set (ow_step cw ops i p s)" "ow_pc_ok cw p"
  shows "s' = s\<lparr>ow_guard := ow_guard s'\<rparr> \<and> (ow_copies cw p \<subseteq> {ow_object s} \<longrightarrow> ow_copies cw p' \<subseteq> {ow_object s})
    \<or> (\<exists>f x. (p = OwWrite f x \<and> p' = OwLeave \<or> cw \<and> p = OwWriteShared f x \<and> p' = OwSeen (f x) (f x))
        \<and> s' = s\<lparr>ow_object := f x, ow_log := ow_log s @ [f]\<rparr>)"
  using assms by (cases p) (auto simp: ow_step_def split: if_splits option.splits prod.splits)

lemma ow_copies_held: "ow_copies cw p \<noteq> {} \<Longrightarrow> rw_writing (ow_lock_pc p) \<or> \<not> cw \<and> rw_reading (ow_lock_pc p)"
  by (cases p) (auto split: if_splits)

interpretation ow: simulation "ow_step cw ops" "ow_start x0" "ow_inv cw x0" rw_step rw_start ow_guard ow_lock_pc
proof
  fix s :: "'a ow_state" and ps
  assume st: "ow_start x0 (s, ps)"
  then show r: "rw_start (ow_guard s, map ow_lock_pc ps)"
    by (auto simp: ow_start_def rw_start_def ow_init_def)
  show "ow_inv cw x0 s ps"
    using st rw.start_inv [OF r] by (auto simp: ow_inv_def ow_start_def ow_init_def dest: all_nthD)
next
  fix s :: "'a ow_state" and ps i p' s'
  assume inv: "ow_inv cw x0 s ps" and i: "i < length ps" and st: "(p', s') \<in> set (ow_step cw ops i (ps ! i) s)"
  have ok: "ow_pc_ok cw (ps ! i)" using inv i by (simp add: ow_inv_def)
  have m: "rw_inv (ow_guard s) (map ow_lock_pc ps)" using inv by (simp add: ow_inv_def)
  note lk = ow_step_lock [OF st ok]
  then show "(ow_lock_pc p', ow_guard s') = (ow_lock_pc (ps ! i), ow_guard s)
    \<or> (ow_lock_pc p', ow_guard s') \<in> set (rw_step i (ow_lock_pc (ps ! i)) (ow_guard s))" by blast
  have m': "rw_inv (ow_guard s') (map ow_lock_pc (ps[i := p']))"
    by (rule rw.keeps_inside [OF m i lk [THEN conjunct2]])
  have pcs: "\<forall>p \<in> set (ps[i := p']). ow_pc_ok cw p"
    using inv lk set_update_subset_insert [of ps i p'] by (auto simp: ow_inv_def)
  have cp: "\<forall>j < length ps. ow_copies cw (ps ! j) \<subseteq> {ow_object s}" using inv unfolding ow_inv_def by blast
  from ow_step_object [OF st ok] show "ow_inv cw x0 s' (ps[i := p'])"
  proof
    assume s': "s' = s\<lparr>ow_guard := ow_guard s'\<rparr>
      \<and> (ow_copies cw (ps ! i) \<subseteq> {ow_object s} \<longrightarrow> ow_copies cw p' \<subseteq> {ow_object s})"
    then have "ow_object s' = ow_object s" "ow_log s' = ow_log s"
      by (metis ow_state.select_convs ow_state.update_convs ow_state.surjective)+
    with s' cp i m' pcs inv show ?thesis by (auto simp: ow_inv_def nth_list_update)
  next
    assume "\<exists>f x. (ps ! i = OwWrite f x \<and> p' = OwLeave \<or> cw \<and> ps ! i = OwWriteShared f x \<and> p' = OwSeen (f x) (f x))
        \<and> s' = s\<lparr>ow_object := f x, ow_log := ow_log s @ [f]\<rparr>"
    then obtain f x where w: "ps ! i = OwWrite f x \<or> cw \<and> ps ! i = OwWriteShared f x" "ow_copies cw p' = {}"
      and s': "s' = s\<lparr>ow_object := f x, ow_log := ow_log s @ [f]\<rparr>" by auto
    have "ow_copies cw (ps ! j) = {}" if j: "j < length ps" "j \<noteq> i" for j
    proof (rule ccontr)
      assume "ow_copies cw (ps ! j) \<noteq> {}"
      from ow_copies_held [OF this] show False
        using rw.inv_writer [OF m, of i j] rw.inv_writer [OF m, of j i] i j w(1) by auto
    qed
    then have "ow_copies cw (ps[i := p'] ! j) \<subseteq> {ow_object s'}" if "j < length (ps[i := p'])" for j
      using that w(2) i by (cases "j = i") simp_all
    moreover have "cw \<or> ow_object s' = fold (\<lambda>f. f) (ow_log s') x0"
      using w(1) s' inv cp i by (auto simp: ow_inv_def)
    ultimately show ?thesis using m' pcs by (simp add: ow_inv_def)
  qed
qed

section \<open>Properties\<close>

text \<open>C15. The composition of \<open>object_safe_wrapper\<close> and \<open>rw_spinlock\<close>, with fewer than 4096
  threads. The lock inside is always used as \<open>rw_spinlock\<close> prescribes, and a thread writes back
  through an exclusive proxy on the object as it still is. If moreover no client writes through the
  \<open>TObject*\<close> that the proxy of a \<open>const\<close> wrapper gives out (\<open>const_writes\<close>), then the object is
  the first one with the functions applied one after the other, so that no update is lost, and a
  shared proxy sees one object for as long as it lives.\<close>

theorem object_wrapper_atomic:
  assumes "reach (ow_start x0) (interleave (ow_step const_writes ops)) (s, ps)"
  shows "reach rw_start (interleave rw_step) (ow_guard s, map ow_lock_pc ps)
    \<and> (\<forall>f x. OwWrite f x \<in> set ps \<longrightarrow> x = ow_object s)
    \<and> (\<not> const_writes \<longrightarrow> ow_object s = fold (\<lambda>f. f) (ow_log s) x0
         \<and> (\<forall>x y. OwSeen x y \<in> set ps \<longrightarrow> x = ow_object s \<and> y = ow_object s))"
proof -
  note inv = ow.reach_inv [OF assms]
  have cp: "ow_copies const_writes p \<subseteq> {ow_object s}" if "p \<in> set ps" for p
    using inv that by (auto simp: ow_inv_def in_set_conv_nth)
  have "x = ow_object s" if "OwWrite f x \<in> set ps" for f x using cp [OF that] by simp
  moreover have "x = ow_object s \<and> y = ow_object s" if "\<not> const_writes" "OwSeen x y \<in> set ps" for x y
    using cp [OF that(2)] that(1) by simp
  ultimately show ?thesis using inv ow.reach_abs [OF assms] by (auto simp: ow_inv_def)
qed

theorem object_wrapper_atomic_witness:
  "\<exists>s :: nat ow_state. ow_object s = fold (\<lambda>f. f) (ow_log s) 5 \<and> ow_object s = 6 \<and> length (ow_log s) = 1
     \<and> reach rw_start (interleave rw_step) (ow_guard s, [WrHeld, WrUndo])"
proof -
  let ?s = "\<lparr>ow_object = 6, ow_guard = 0x200000, ow_log = [Suc]\<rparr>"
  have "run_sched (ow_step False (\<lambda>i. [Suc])) [(0, 4), (0, 0), (0, 0), (1, 4), (1, 0), (0, 0)] (ow_init 5, [OwIdle, OwIdle])
      = Some (?s, [OwLeave, OwEnter WrUndo Suc])"
    by (simp add: ow_step_def ow_init_def rw_init_def rw_writer_bits_def)
  then have "reach (ow_start 5) (interleave (ow_step False (\<lambda>i. [Suc]))) (?s, [OwLeave, OwEnter WrUndo Suc])"
    by (rule run_sched_reach_start [rotated]) (simp add: ow_start_def)
  from object_wrapper_atomic [OF this] show ?thesis by (intro exI [of _ ?s]) simp
qed

text \<open>Through a \<open>const\<close> wrapper the object can be changed under a shared lock, because the
  proxy casts \<open>const\<close> away and its \<open>operator ->\<close> is chosen for a temporary that is not
  \<open>const\<close>: two threads increment 0 at once, and one of the two updates is lost.\<close>

theorem object_wrapper_const_loses_update:
  "\<exists>s. run_sched (ow_step True (\<lambda>i. [Suc]))
      [(0, 5), (0, 0), (1, 5), (1, 0), (0, 0), (1, 0), (0, 0), (1, 0)] (ow_init 0, [OwIdle, OwIdle])
      = Some (s, [OwSeen 1 1, OwSeen 1 1])
    \<and> ow_log s = [Suc, Suc] \<and> ow_object s = 1"
  by (simp add: ow_step_def ow_init_def rw_init_def rw_writer_bits_def)

end
