(* ===== verification/Chunked_Set.thy ===== *)
theory Chunked_Set
  imports RW_Spinlock
begin

text \<open>
  The class \<open>stl_chunked_set\<close> of \<open>containers/hashmap/stl_chunked_set.h\<close> with the default eight
  chunks, each a \<open>std::unordered_set\<close> (a set) and an \<open>rw_spinlock\<close>, composed with the model
  of that lock. \<open>cs_log\<close> lists the keys emplaced so far. \<open>hash\<close> is \<open>std::hash<TKey>\<close>.
\<close>

record 'k cs_state =
  cs_sets :: "'k set list"
  cs_guards :: "u32 list"
  cs_log :: "'k list"

datatype 'k cs_pc =
  CsIdle
| CsLock rw_pc 'k      \<comment> \<open>emplace: the constructor of the exclusive lock\<close>
| CsInsert 'k          \<comment> \<open>emplace: before the insertion\<close>
| CsUnlock 'k          \<comment> \<open>emplace: before the destructor of the lock\<close>
| CsLockShared rw_pc 'k
| CsFind 'k            \<comment> \<open>find: before the look-up\<close>
| CsUnlockShared 'k bool
| CsFound 'k bool

definition chunk_count :: u64 where
  "chunk_count = 8"

definition cs_init :: "'k cs_state" where
  "cs_init = \<lparr>cs_sets = replicate (unat chunk_count) {}, cs_guards = replicate (unat chunk_count) rw_init, cs_log = []\<rparr>"

definition cs_chunk :: "('k \<Rightarrow> u64) \<Rightarrow> 'k \<Rightarrow> nat" where
  "cs_chunk hash k = unat (hash k mod chunk_count)"

fun cs_emplace :: "('k \<Rightarrow> u64) \<Rightarrow> 'k cs_pc \<Rightarrow> 'k cs_state \<Rightarrow> 'k cs_pc \<times> 'k cs_state" where
  "cs_emplace hash (CsLock p k) s =
     (let c = cs_chunk hash k in
      case rw_lock p (cs_guards s ! c) of (p', m) \<Rightarrow>
        (if p' = WrHeld then CsInsert k else CsLock p' k, s\<lparr>cs_guards := (cs_guards s)[c := m]\<rparr>))"
| "cs_emplace hash (CsInsert k) s =
     (let c = cs_chunk hash k in
      (CsUnlock k, s\<lparr>cs_sets := (cs_sets s)[c := insert k (cs_sets s ! c)], cs_log := cs_log s @ [k]\<rparr>))"
| "cs_emplace hash (CsUnlock k) s =
     (let c = cs_chunk hash k in
      (CsIdle, s\<lparr>cs_guards := (cs_guards s)[c := rw_unlock (cs_guards s ! c)]\<rparr>))"
| "cs_emplace hash p s = (p, s)"

fun cs_find :: "('k \<Rightarrow> u64) \<Rightarrow> 'k cs_pc \<Rightarrow> 'k cs_state \<Rightarrow> 'k cs_pc \<times> 'k cs_state" where
  "cs_find hash (CsLockShared p k) s =
     (let c = cs_chunk hash k in
      case rw_lock_shared p (cs_guards s ! c) of (p', m) \<Rightarrow>
        (if p' = RdHeld then CsFind k else CsLockShared p' k, s\<lparr>cs_guards := (cs_guards s)[c := m]\<rparr>))"
| "cs_find hash (CsFind k) s = (CsUnlockShared k (k \<in> cs_sets s ! cs_chunk hash k), s)"
| "cs_find hash (CsUnlockShared k b) s =
     (let c = cs_chunk hash k in
      (CsFound k b, s\<lparr>cs_guards := (cs_guards s)[c := rw_unlock_shared (cs_guards s ! c)]\<rparr>))"
| "cs_find hash p s = (p, s)"

definition cs_step :: "('k \<Rightarrow> u64) \<Rightarrow> (nat \<Rightarrow> 'k list) \<Rightarrow> ('k cs_state, 'k cs_pc) thread_step" where
  "cs_step hash keys i p s =
     (case p of
        CsIdle \<Rightarrow> map (\<lambda>k. (CsLock WrTry k, s)) (keys i) @ map (\<lambda>k. (CsLockShared RdTry k, s)) (keys i)
      | CsFound k b \<Rightarrow> [(CsIdle, s)]
      | CsLock q k \<Rightarrow> [cs_emplace hash p s]
      | CsInsert k \<Rightarrow> [cs_emplace hash p s]
      | CsUnlock k \<Rightarrow> [cs_emplace hash p s]
      | _ \<Rightarrow> [cs_find hash p s])"

definition cs_start :: "('k cs_state, 'k cs_pc) system \<Rightarrow> bool" where
  "cs_start t \<longleftrightarrow> fst t = cs_init \<and> length (snd t) < 4096 \<and> (\<forall>p \<in> set (snd t). p = CsIdle)"


section \<open>The locks inside\<close>

text \<open>What a thread does with the lock of the chunk \<open>c\<close>.\<close>

fun cs_key :: "'k cs_pc \<Rightarrow> 'k option" where
  "cs_key CsIdle = None"
| "cs_key (CsFound k b) = None"
| "cs_key (CsLock p k) = Some k"
| "cs_key (CsInsert k) = Some k"
| "cs_key (CsUnlock k) = Some k"
| "cs_key (CsLockShared p k) = Some k"
| "cs_key (CsFind k) = Some k"
| "cs_key (CsUnlockShared k b) = Some k"

fun cs_rw :: "'k cs_pc \<Rightarrow> rw_pc" where
  "cs_rw (CsLock p k) = p"
| "cs_rw (CsInsert k) = WrHeld"
| "cs_rw (CsUnlock k) = WrHeld"
| "cs_rw (CsLockShared p k) = p"
| "cs_rw (CsFind k) = RdHeld"
| "cs_rw (CsUnlockShared k b) = RdHeld"
| "cs_rw p = RwIdle"

definition cs_lock_pc :: "('k \<Rightarrow> u64) \<Rightarrow> nat \<Rightarrow> 'k cs_pc \<Rightarrow> rw_pc" where
  "cs_lock_pc hash c p =
     (case cs_key p of Some k \<Rightarrow> if cs_chunk hash k = c then cs_rw p else RwIdle | None \<Rightarrow> RwIdle)"

fun cs_pc_ok :: "'k list \<Rightarrow> 'k cs_pc \<Rightarrow> bool" where
  "cs_pc_ok log (CsLock p k) = (p \<in> {WrTry, WrUndo, WrSpin})"
| "cs_pc_ok log (CsLockShared p k) = (p \<in> {RdTry, RdUndo, RdSpin})"
| "cs_pc_ok log (CsUnlock k) = (k \<in> set log)"
| "cs_pc_ok log (CsUnlockShared k b) = (b \<longrightarrow> k \<in> set log)"
| "cs_pc_ok log (CsFound k b) = (b \<longrightarrow> k \<in> set log)"
| "cs_pc_ok log p = True"

definition cs_inv :: "('k \<Rightarrow> u64) \<Rightarrow> nat \<Rightarrow> 'k cs_state \<Rightarrow> 'k cs_pc list \<Rightarrow> bool" where
  [inv_defs]: "cs_inv hash c s ps \<longleftrightarrow> rw_inv (cs_guards s ! c) (map (cs_lock_pc hash c) ps)
     \<and> (\<forall>p \<in> set ps. cs_pc_ok (cs_log s) p) \<and> length (cs_guards s) = 8 \<and> length (cs_sets s) = 8
     \<and> (\<forall>d < 8. cs_sets s ! d = {k \<in> set (cs_log s). cs_chunk hash k = d})"

lemma cs_chunk_less: "cs_chunk hash k < 8"
proof -
  have "unat (hash k mod 8) < 8" by (simp add: unat_mod)
  then show ?thesis by (simp add: cs_chunk_def chunk_count_def)
qed

lemma cs_step_lock:
  assumes "(p', s') \<in> set (cs_step hash keys i p s)" "cs_pc_ok (cs_log s) p" "length (cs_guards s) = 8"
  shows "(cs_lock_pc hash c p', cs_guards s' ! c) = (cs_lock_pc hash c p, cs_guards s ! c)
    \<or> (cs_lock_pc hash c p', cs_guards s' ! c) \<in> set (rw_step i (cs_lock_pc hash c p) (cs_guards s ! c))"
  using assms
  by (cases p)
    (auto simp: cs_step_def cs_lock_pc_def rw_step_def Let_def cs_chunk_less nth_list_update split: if_splits)

lemma cs_step_sets:
  assumes "(p', s') \<in> set (cs_step hash keys i p s)" "cs_pc_ok (cs_log s) p"
    and "length (cs_sets s) = 8" "\<forall>d < 8. cs_sets s ! d = {k \<in> set (cs_log s). cs_chunk hash k = d}"
  shows "length (cs_guards s') = length (cs_guards s) \<and> length (cs_sets s') = 8
    \<and> cs_pc_ok (cs_log s') p' \<and> set (cs_log s) \<subseteq> set (cs_log s')
    \<and> (\<forall>d < 8. cs_sets s' ! d = {k \<in> set (cs_log s'). cs_chunk hash k = d})"
  using assms cs_chunk_less [of hash]
  by (cases p)
    (auto simp: cs_step_def Let_def nth_list_update split: if_splits prod.splits)

lemma cs_pc_ok_mono: "cs_pc_ok l p \<Longrightarrow> set l \<subseteq> set l' \<Longrightarrow> cs_pc_ok l' p"
  by (cases p) auto

interpretation cs: simulation "cs_step hash keys" cs_start "cs_inv hash (c mod 8)" rw_step rw_start
  "\<lambda>s. cs_guards s ! (c mod 8)" "cs_lock_pc hash (c mod 8)" for c :: nat
proof
  fix s :: "'a cs_state" and ps
  assume st: "cs_start (s, ps)"
  then have g: "cs_guards s ! (c mod 8) = rw_init"
    by (simp add: cs_start_def cs_init_def chunk_count_def del: mod_less)
  with st show r: "rw_start (cs_guards s ! (c mod 8), map (cs_lock_pc hash (c mod 8)) ps)"
    by (auto simp: cs_start_def rw_start_def cs_lock_pc_def)
  show "cs_inv hash (c mod 8) s ps"
    using st rw.start_inv [OF r] g by (auto simp: cs_inv_def cs_start_def cs_init_def chunk_count_def)
next
  fix s :: "'a cs_state" and ps i p' s'
  assume inv: "cs_inv hash (c mod 8) s ps" and i: "i < length ps" and st: "(p', s') \<in> set (cs_step hash keys i (ps ! i) s)"
  define d where "d = c mod 8"
  note inv = inv [folded d_def]
  have ok: "cs_pc_ok (cs_log s) (ps ! i)" and m: "rw_inv (cs_guards s ! d) (map (cs_lock_pc hash d) ps)"
    and len: "length (cs_guards s) = 8" "length (cs_sets s) = 8"
    and sets: "\<forall>d < 8. cs_sets s ! d = {k \<in> set (cs_log s). cs_chunk hash k = d}"
    using inv i by (simp_all add: cs_inv_def)
  note lk = cs_step_lock [OF st ok len(1), of d]
  then show "(cs_lock_pc hash (c mod 8) p', cs_guards s' ! (c mod 8)) = (cs_lock_pc hash (c mod 8) (ps ! i), cs_guards s ! (c mod 8))
    \<or> (cs_lock_pc hash (c mod 8) p', cs_guards s' ! (c mod 8))
      \<in> set (rw_step i (cs_lock_pc hash (c mod 8) (ps ! i)) (cs_guards s ! (c mod 8)))"
    unfolding d_def .
  have m': "rw_inv (cs_guards s' ! d) (map (cs_lock_pc hash d) (ps[i := p']))" by (rule rw.keeps_inside [OF m i lk])
  note st' = cs_step_sets [OF st ok len(2) sets]
  have "\<forall>p \<in> set (ps[i := p']). cs_pc_ok (cs_log s') p"
  proof
    fix p assume "p \<in> set (ps[i := p'])"
    then consider "p = p'" | "p \<in> set ps" using set_update_subset_insert [of ps i p'] by auto
    then show "cs_pc_ok (cs_log s') p"
    proof cases
      case 2
      then have "cs_pc_ok (cs_log s) p" using inv by (simp add: cs_inv_def)
      then show ?thesis using st' by (blast intro: cs_pc_ok_mono)
    qed (use st' in simp)
  qed
  moreover have "length (cs_guards s') = 8" "length (cs_sets s') = 8"
    "\<forall>d < 8. cs_sets s' ! d = {k \<in> set (cs_log s'). cs_chunk hash k = d}" using st' len by auto
  ultimately show "cs_inv hash (c mod 8) s' (ps[i := p'])"
    using m' unfolding cs_inv_def d_def by blast
qed


section \<open>A set that many threads use\<close>

definition chunked_set_ops :: "('k \<Rightarrow> u64) \<Rightarrow> ('k cs_state, 'k cs_pc, 'k) set_ops" where
  "chunked_set_ops hash = \<lparr>so_init = cs_init, so_idle = CsIdle, so_emplace = CsLock WrTry, so_find = CsLockShared RdTry,
     so_move = (\<lambda>p s. if (\<exists>q k. p = CsLock q k) \<or> (\<exists>k. p = CsInsert k \<or> p = CsUnlock k)
       then cs_emplace hash p s else cs_find hash p s),
     so_final = (\<lambda>p. p = CsIdle \<or> (\<exists>k b. p = CsFound k b)), so_threw = (\<lambda>p. False)\<rparr>"

definition cs_all_inv :: "('k \<Rightarrow> u64) \<Rightarrow> 'k cs_state \<Rightarrow> 'k cs_pc list \<Rightarrow> bool" where
  "cs_all_inv hash s ps \<longleftrightarrow> (\<forall>c. cs_inv hash (c mod 8) s ps)"

definition cs_keys :: "'k cs_state \<Rightarrow> 'k set" where
  "cs_keys s = set (cs_log s)"

definition cs_before :: "'k \<Rightarrow> 'k cs_pc \<Rightarrow> bool" where
  "cs_before k p \<longleftrightarrow> (\<exists>q. p = CsLock q k) \<or> p = CsInsert k"

definition cs_after :: "'k cs_pc \<Rightarrow> bool" where
  "cs_after p \<longleftrightarrow> (\<exists>k. p = CsUnlock k) \<or> p = CsIdle"

fun cs_finding :: "'k cs_pc \<Rightarrow> bool" where
  "cs_finding (CsLockShared q k) = True"
| "cs_finding (CsFind k) = True"
| "cs_finding (CsUnlockShared k b) = True"
| "cs_finding (CsFound k b) = True"
| "cs_finding p = False"

lemma cs_step_moves:
  assumes "p \<noteq> CsIdle" "\<nexists>k b. p = CsFound k b"
  shows "cs_step hash keys i p s = [so_move (chunked_set_ops hash) p s]"
  using assms by (cases p) (simp_all add: cs_step_def chunked_set_ops_def)

interpretation cs_set: concurrent_set "chunked_set_ops hash" "cs_all_inv hash" cs_keys cs_before cs_after cs_finding
proof
  note sel = chunked_set_ops_def
  show "cs_all_inv hash (so_init (chunked_set_ops hash)) ps"
    if "length ps < 4096" "\<forall>p \<in> set ps. p = so_idle (chunked_set_ops hash)" for ps
    using that cs.start_inv [of "so_init (chunked_set_ops hash)" ps hash] by (simp add: cs_all_inv_def cs_start_def sel)
  show "cs_keys (so_init (chunked_set_ops hash)) = {}" by (simp add: cs_keys_def sel cs_init_def)
  have step: "cs_all_inv hash s' (ps[i := p'])"
    if "cs_all_inv hash s ps" "i < length ps" "(p', s') \<in> set (cs_step hash keys i (ps ! i) s)" for s ps i p' s' keys
    using that cs.step_inv [of hash _ s ps i p' s' keys] by (simp add: cs_all_inv_def)
  fix s ps and i :: nat and k
  assume inv: "cs_all_inv hash s ps" and i: "i < length ps"
  show "cs_all_inv hash s (ps[i := so_emplace (chunked_set_ops hash) k]) \<and> cs_all_inv hash s (ps[i := so_find (chunked_set_ops hash) k])"
    if "ps ! i = so_idle (chunked_set_ops hash)"
    using that by (intro conjI step [OF inv i, of _ _ "\<lambda>i. [k]"]) (simp_all add: cs_step_def sel)
  show "cs_all_inv hash s (ps[i := so_idle (chunked_set_ops hash)])" if "so_final (chunked_set_ops hash) (ps ! i)"
  proof (cases "ps ! i = CsIdle")
    case True
    then have "ps[i := CsIdle] = ps" using list_update_id [of ps i] by simp
    then show ?thesis using inv by (simp add: sel)
  next
    case False
    with that show ?thesis by (intro step [OF inv i, of _ _ "\<lambda>i. []"]) (auto simp: cs_step_def sel)
  qed
  show "cs_all_inv hash (snd (so_move (chunked_set_ops hash) (ps ! i) s)) (ps[i := fst (so_move (chunked_set_ops hash) (ps ! i) s)])"
    if "ps ! i \<noteq> so_idle (chunked_set_ops hash)" "\<not> so_final (chunked_set_ops hash) (ps ! i)"
  proof (rule step [OF inv i, of _ _ "\<lambda>i. []"])
    have "\<nexists>k b. ps ! i = CsFound k b" "ps ! i \<noteq> CsIdle" using that by (simp_all add: sel)
    from cs_step_moves [OF this(2,1)]
    show "(fst (so_move (chunked_set_ops hash) (ps ! i) s), snd (so_move (chunked_set_ops hash) (ps ! i) s))
        \<in> set (cs_step hash (\<lambda>i. []) i (ps ! i) s)" by simp
  qed
  fix p' s' assume mv: "so_move (chunked_set_ops hash) (ps ! i) s = (p', s')"
  show "cs_before k p' \<and> cs_keys s' = cs_keys s \<or> cs_after p' \<and> cs_keys s' = insert k (cs_keys s)" if "cs_before k (ps ! i)"
    using that mv by (auto simp: cs_before_def cs_after_def cs_keys_def sel Let_def split: prod.splits if_splits)
  show "cs_after p' \<and> cs_keys s' = cs_keys s" if "cs_after (ps ! i)" "\<not> so_final (chunked_set_ops hash) (ps ! i)"
    using that mv by (auto simp: cs_after_def cs_keys_def sel Let_def)
  show "cs_finding p' \<and> cs_keys s' = cs_keys s" if "cs_finding (ps ! i)" "\<not> so_final (chunked_set_ops hash) (ps ! i)"
    using that mv by (cases "ps ! i") (auto simp: cs_keys_def sel Let_def split: prod.splits if_splits)
qed (auto simp: cs_before_def cs_after_def chunked_set_ops_def)


section \<open>Properties\<close>

text \<open>C30. The composition of \<open>stl_chunked_set\<close> and eight \<open>rw_spinlock\<close>s, with fewer than 4096
  threads: a thread that inserts into a chunk excludes every other thread from that chunk; the
  sets of the chunks hold exactly the keys emplaced so far, each in the chunk of its hash and in no
  other; and \<open>find\<close> has found only keys that were emplaced.\<close>

theorem chunked_set_keys:
  assumes "reach cs_start (interleave (cs_step hash keys)) (s, ps)"
  shows "(\<forall>i < length ps. \<forall>j < length ps. \<forall>k k'. ps ! i = CsInsert k \<and> i \<noteq> j \<and> cs_chunk hash k = cs_chunk hash k' \<longrightarrow>
        ps ! j \<noteq> CsInsert k' \<and> ps ! j \<noteq> CsFind k')
    \<and> (\<forall>d < 8. cs_sets s ! d = {k \<in> set (cs_log s). cs_chunk hash k = d})
    \<and> (\<forall>k. k \<in> cs_sets s ! cs_chunk hash k \<longleftrightarrow> k \<in> set (cs_log s))
    \<and> (\<forall>k. CsFound k True \<in> set ps \<longrightarrow> k \<in> set (cs_log s))"
proof (intro conjI allI impI)
  fix i j k k' assume ij: "i < length ps" "j < length ps" and *: "ps ! i = CsInsert k \<and> i \<noteq> j \<and> cs_chunk hash k = cs_chunk hash k'"
  define c where "c = cs_chunk hash k"
  have "c mod 8 = c" using cs_chunk_less [of hash k] by (simp add: c_def)
  then have "rw_inv (cs_guards s ! c) (map (cs_lock_pc hash c) ps)"
    using cs.reach_inv [OF assms, of c] by (simp add: cs_inv_def)
  from rw.inv_writer [OF this, of i j] ij * show "ps ! j \<noteq> CsInsert k'" "ps ! j \<noteq> CsFind k'"
    by (auto simp: cs_lock_pc_def c_def)
next
  note inv = cs.reach_inv [OF assms, of 0]
  show sets: "cs_sets s ! d = {k \<in> set (cs_log s). cs_chunk hash k = d}" if "d < 8" for d
    using inv that by (simp add: cs_inv_def)
  show "k \<in> cs_sets s ! cs_chunk hash k \<longleftrightarrow> k \<in> set (cs_log s)" for k
    using sets [OF cs_chunk_less, of hash k] by auto
  show "k \<in> set (cs_log s)" if "CsFound k True \<in> set ps" for k
    using inv that unfolding cs_inv_def by fastforce
qed

text \<open>Two threads emplace 3 and 11, which fall into one chunk, and a third finds 3.\<close>

theorem chunked_set_keys_witness:
  "\<exists>s :: u64 cs_state. cs_log s = [3] \<and> 3 \<in> cs_sets s ! 3 \<and> 11 \<notin> cs_sets s ! 3 \<and> cs_sets s ! 4 = {}"
proof -
  have c: "cs_chunk (\<lambda>k. k) 3 = 3" "cs_chunk (\<lambda>k. k) 11 = 3"
    by (simp_all add: cs_chunk_def chunk_count_def)
  let ?sched = "[(0, 0), (0, 0), (1, 1), (1, 0), (0, 0), (0, 0), (1, 0), (1, 0), (2, 2), (2, 0), (2, 0), (2, 0)]"
  have "\<exists>s. run_sched (cs_step (\<lambda>k. k) (\<lambda>i. [3, 11])) ?sched (cs_init, [CsIdle, CsIdle, CsIdle])
    = Some (s, [CsIdle, CsLock WrTry 11, CsFound 3 True]) \<and> cs_log s = [3]"
    by (simp add: cs_step_def cs_init_def chunk_count_def c Let_def rw_init_def rw_writer_bits_def
        rw_unlock_def rw_unlock_shared_def)
  then obtain s where s: "run_sched (cs_step (\<lambda>k. k) (\<lambda>i. [3, 11])) ?sched (cs_init, [CsIdle, CsIdle, CsIdle])
    = Some (s, [CsIdle, CsLock WrTry 11, CsFound 3 True])" "cs_log s = [3]" by (elim exE conjE) (rule that)
  have "reach cs_start (interleave (cs_step (\<lambda>k. k) (\<lambda>i. [3, 11]))) (s, [CsIdle, CsLock WrTry 11, CsFound 3 True])"
    by (rule run_sched_reach_start [OF _ s(1)]) (simp add: cs_start_def)
  from chunked_set_keys [OF this] s(2) have "\<forall>d < 8. cs_sets s ! d = {k \<in> {3}. cs_chunk (\<lambda>k. k) k = d}" by simp
  then have "cs_sets s ! 3 = {3}" "cs_sets s ! 4 = {}" using c by auto
  with s(2) show ?thesis by (intro exI [of _ s]) simp
qed

end
