(* ===== verification/Perf_Sample.thy ===== *)
theory Perf_Sample
  imports Hash_Map Chunked_Set "HOL-Library.Signed_Division"
begin

text \<open>
  The program \<open>samples/hash_map_perf_test/main.cpp\<close>: \<open>run_test\<close> for any container with the
  interface \<open>set_ops\<close>, as \<open>main\<close> instantiates it (\<open>bLock\<close> is false). Thread 0 is the caller,
  which loads 100 keys, starts the threads and joins them; threads \<open>1, ..., W\<close> are the writers,
  the next \<open>R\<close> the readers. \<open>clock n\<close> is what the \<open>n\<close>-th reading of
  \<open>high_resolution_clock\<close> gives, in nanoseconds. An exception that leaves a thread ends the
  program: the thread stops at \<open>HtThrew\<close>.
\<close>

section \<open>The program\<close>

record 'sh ht_state =
  ht_set :: 'sh
  ht_clock :: nat
  ht_writers :: "u64 list"     \<comment> \<open>\<open>writers_measure\<close>\<close>
  ht_readers :: "u64 list"     \<comment> \<open>\<open>readers_measure\<close>\<close>
  ht_spawned :: nat
  ht_exited :: "nat \<Rightarrow> bool"

datatype 'pc ht_pc =
  HtLoad nat           \<comment> \<open>caller: at the head of the first loop\<close>
| HtLoading nat 'pc    \<comment> \<open>caller: in \<open>emplace\<close>\<close>
| HtResize             \<comment> \<open>caller: before the vectors are made\<close>
| HtSpawn nat          \<comment> \<open>caller: that many threads started\<close>
| HtJoin nat           \<comment> \<open>caller: before \<open>join\<close> of that thread\<close>
| HtReturn             \<comment> \<open>run_test has returned\<close>
| HtTop nat            \<comment> \<open>thread: at the head of its loop\<close>
| HtNow nat            \<comment> \<open>thread: before \<open>start\<close> is read\<close>
| HtF nat int 'pc      \<comment> \<open>thread: in \<open>f(to_emp)\<close>\<close>
| HtStop nat int       \<comment> \<open>thread: before the second reading\<close>
| HtExit
| HtThrew

fun to_string :: "nat \<Rightarrow> string" where
  "to_string n = (if n < 10 then [char_of (48 + n)] else to_string (n div 10) @ [char_of (48 + n mod 10)])"

declare to_string.simps [simp del]

definition to_emp :: "nat \<Rightarrow> nat \<Rightarrow> string" where
  "to_emp i t = to_string i @ ''_'' @ to_string t"

fun ht_main :: "('sh, 'pc, string) set_ops \<Rightarrow> nat \<Rightarrow> nat \<Rightarrow> 'pc ht_pc \<Rightarrow> 'sh ht_state \<Rightarrow> ('pc ht_pc \<times> 'sh ht_state) list" where
  "ht_main C W R (HtLoad i) s = [(if i < 100 then HtLoading i (so_emplace C (to_string i)) else HtResize, s)]"
| "ht_main C W R (HtLoading i p) s =
     (if so_final C p then [(if so_threw C p then HtThrew else HtLoad (Suc i), s)]
      else case so_move C p (ht_set s) of (p', c) \<Rightarrow> [(HtLoading i p', s\<lparr>ht_set := c\<rparr>)])"
| "ht_main C W R HtResize s = [(HtSpawn 0, s\<lparr>ht_writers := replicate W 0, ht_readers := replicate R 0\<rparr>)]"
| "ht_main C W R (HtSpawn j) s =
     (if j < W + R then [(HtSpawn (Suc j), s\<lparr>ht_spawned := Suc j\<rparr>)] else [(HtJoin 1, s)])"
| "ht_main C W R (HtJoin j) s =
     (if j \<le> W + R then (if ht_exited s j then [(HtJoin (Suc j), s)] else []) else [(HtReturn, s)])"
| "ht_main C W R p s = []"

definition ht_measured :: "nat \<Rightarrow> nat \<Rightarrow> int \<Rightarrow> 'sh ht_state \<Rightarrow> 'sh ht_state" where
  "ht_measured W i duration s =
     (if i \<le> W then s\<lparr>ht_writers := (ht_writers s)[i - 1 := ht_writers s ! (i - 1) + of_int duration]\<rparr>
      else s\<lparr>ht_readers := (ht_readers s)[i - 1 - W := ht_readers s ! (i - 1 - W) + of_int duration]\<rparr>)"

fun ht_worker :: "('sh, 'pc, string) set_ops \<Rightarrow> (nat \<Rightarrow> int) \<Rightarrow> nat \<Rightarrow> nat \<Rightarrow> nat \<Rightarrow> 'pc ht_pc \<Rightarrow> 'sh ht_state
  \<Rightarrow> ('pc ht_pc \<times> 'sh ht_state) list"
where
  "ht_worker C clock W iterations t (HtTop i) s =
     (if ht_spawned s < t then []
      else if i < iterations then [(HtNow i, s)] else [(HtExit, s\<lparr>ht_exited := (ht_exited s)(t := True)\<rparr>)])"
| "ht_worker C clock W iterations t (HtNow i) s =
     [(HtF i (clock (ht_clock s))
         (if t \<le> W then so_emplace C (to_emp i (t - 1)) else so_find C (to_emp i (t - 1 - W))),
       s\<lparr>ht_clock := ht_clock s + 1\<rparr>)]"
| "ht_worker C clock W iterations t (HtF i start p) s =
     (if so_final C p then [(if so_threw C p then HtThrew else HtStop i start, s)]
      else case so_move C p (ht_set s) of (p', c) \<Rightarrow> [(HtF i start p', s\<lparr>ht_set := c\<rparr>)])"
| "ht_worker C clock W iterations t (HtStop i start) s =
     [(HtTop (Suc i), ht_measured W t ((clock (ht_clock s) - start) sdiv 1000) (s\<lparr>ht_clock := ht_clock s + 1\<rparr>))]"
| "ht_worker C clock W iterations t p s = []"

definition ht_step :: "('sh, 'pc, string) set_ops \<Rightarrow> (nat \<Rightarrow> int) \<Rightarrow> nat \<Rightarrow> nat \<Rightarrow> nat \<Rightarrow> ('sh ht_state, 'pc ht_pc) thread_step" where
  "ht_step C clock W R iterations t p s = (if t = 0 then ht_main C W R p s else ht_worker C clock W iterations t p s)"

definition ht_init :: "('sh, 'pc, string) set_ops \<Rightarrow> 'sh ht_state" where
  "ht_init C = \<lparr>ht_set = so_init C, ht_clock = 0, ht_writers = [], ht_readers = [], ht_spawned = 0, ht_exited = (\<lambda>t. False)\<rparr>"

definition ht_start :: "('sh, 'pc, string) set_ops \<Rightarrow> nat \<Rightarrow> nat \<Rightarrow> ('sh ht_state, 'pc ht_pc) system \<Rightarrow> bool" where
  "ht_start C W R t \<longleftrightarrow> fst t = ht_init C \<and> snd t = HtLoad 0 # replicate (W + R) (HtTop 0) \<and> W + R < 4095"

text \<open>The keys \<open>run_test\<close> puts into the container.\<close>

definition ht_keys :: "nat \<Rightarrow> nat \<Rightarrow> string set" where
  "ht_keys W iterations = to_string ` {..<100} \<union> (\<lambda>(i, t). to_emp i t) ` ({..<iterations} \<times> {..<W})"


section \<open>The invariant\<close>

fun ht_call :: "('sh, 'pc, string) set_ops \<Rightarrow> 'pc ht_pc \<Rightarrow> 'pc" where
  "ht_call C (HtLoading i p) = p"
| "ht_call C (HtF i start p) = p"
| "ht_call C p = so_idle C"

definition ht_loaded :: "string set \<Rightarrow> nat \<Rightarrow> bool" where
  "ht_loaded K n \<longleftrightarrow> (\<forall>i < n. to_string i \<in> K)"

definition ht_wrote :: "string set \<Rightarrow> nat \<Rightarrow> nat \<Rightarrow> nat \<Rightarrow> bool" where
  "ht_wrote K W t n \<longleftrightarrow> (t \<le> W \<longrightarrow> (\<forall>i < n. to_emp i (t - 1) \<in> K))"

definition ht_emplacing :: "(string \<Rightarrow> 'pc \<Rightarrow> bool) \<Rightarrow> ('pc \<Rightarrow> bool) \<Rightarrow> string set \<Rightarrow> string \<Rightarrow> 'pc \<Rightarrow> bool" where
  "ht_emplacing before after K k p \<longleftrightarrow> before k p \<or> after p \<and> k \<in> K"

definition ht_ready :: "nat \<Rightarrow> nat \<Rightarrow> string set \<Rightarrow> 'sh ht_state \<Rightarrow> bool" where
  "ht_ready W R K s \<longleftrightarrow> ht_loaded K 100 \<and> length (ht_writers s) = W \<and> length (ht_readers s) = R"

fun ht_main_ok :: "(string \<Rightarrow> 'pc \<Rightarrow> bool) \<Rightarrow> ('pc \<Rightarrow> bool) \<Rightarrow> nat \<Rightarrow> nat \<Rightarrow> string set \<Rightarrow> 'sh ht_state \<Rightarrow> 'pc ht_pc \<Rightarrow> bool" where
  "ht_main_ok before after W R K s (HtLoad i) = (i \<le> 100 \<and> ht_loaded K i \<and> ht_spawned s = 0)"
| "ht_main_ok before after W R K s (HtLoading i p) =
     (i < 100 \<and> ht_loaded K i \<and> ht_emplacing before after K (to_string i) p \<and> ht_spawned s = 0)"
| "ht_main_ok before after W R K s HtResize = (ht_loaded K 100 \<and> ht_spawned s = 0)"
| "ht_main_ok before after W R K s (HtSpawn j) = (ht_ready W R K s \<and> j \<le> W + R \<and> ht_spawned s = j)"
| "ht_main_ok before after W R K s (HtJoin j) =
     (ht_ready W R K s \<and> ht_spawned s = W + R \<and> 0 < j \<and> (\<forall>t. 0 < t \<and> t < j \<longrightarrow> ht_exited s t))"
| "ht_main_ok before after W R K s HtReturn = (ht_ready W R K s \<and> (\<forall>t. 0 < t \<and> t \<le> W + R \<longrightarrow> ht_exited s t))"
| "ht_main_ok before after W R K s HtThrew = True"
| "ht_main_ok before after W R K s p = False"

fun ht_worker_ok :: "(string \<Rightarrow> 'pc \<Rightarrow> bool) \<Rightarrow> ('pc \<Rightarrow> bool) \<Rightarrow> ('pc \<Rightarrow> bool) \<Rightarrow> nat \<Rightarrow> nat \<Rightarrow> string set \<Rightarrow> nat \<Rightarrow> 'pc ht_pc \<Rightarrow> bool" where
  "ht_worker_ok before after finding W n K t (HtTop i) = (i \<le> n \<and> ht_wrote K W t i)"
| "ht_worker_ok before after finding W n K t (HtNow i) = (i < n \<and> ht_wrote K W t i)"
| "ht_worker_ok before after finding W n K t (HtF i start p) = (i < n \<and> ht_wrote K W t i
     \<and> (if t \<le> W then ht_emplacing before after K (to_emp i (t - 1)) p else finding p))"
| "ht_worker_ok before after finding W n K t (HtStop i start) = (i < n \<and> ht_wrote K W t (Suc i))"
| "ht_worker_ok before after finding W n K t HtExit = ht_wrote K W t n"
| "ht_worker_ok before after finding W n K t HtThrew = True"
| "ht_worker_ok before after finding W n K t p = False"

definition ht_inv :: "('sh, 'pc, string) set_ops \<Rightarrow> ('sh \<Rightarrow> 'pc list \<Rightarrow> bool) \<Rightarrow> ('sh \<Rightarrow> string set) \<Rightarrow> (string \<Rightarrow> 'pc \<Rightarrow> bool)
  \<Rightarrow> ('pc \<Rightarrow> bool) \<Rightarrow> ('pc \<Rightarrow> bool) \<Rightarrow> nat \<Rightarrow> nat \<Rightarrow> nat \<Rightarrow> 'sh ht_state \<Rightarrow> 'pc ht_pc list \<Rightarrow> bool"
where
  "ht_inv C cinv keys before after finding W R n s ps \<longleftrightarrow> length ps = Suc (W + R)
     \<and> cinv (ht_set s) (map (ht_call C) ps) \<and> keys (ht_set s) \<subseteq> ht_keys W n
     \<and> ht_main_ok before after W R (keys (ht_set s)) s (ps ! 0)
     \<and> (\<forall>t. 0 < t \<and> t \<le> W + R \<longrightarrow> ht_worker_ok before after finding W n (keys (ht_set s)) t (ps ! t)
          \<and> (ht_exited s t \<longleftrightarrow> ps ! t = HtExit))"

lemma ht_invD:
  assumes "ht_inv C cinv keys before after finding W R n s ps"
  shows "length ps = Suc (W + R)" "cinv (ht_set s) (map (ht_call C) ps)" "keys (ht_set s) \<subseteq> ht_keys W n"
    "ht_main_ok before after W R (keys (ht_set s)) s (ps ! 0)"
    "0 < t \<Longrightarrow> t \<le> W + R \<Longrightarrow> ht_worker_ok before after finding W n (keys (ht_set s)) t (ps ! t)"
    "0 < t \<Longrightarrow> t \<le> W + R \<Longrightarrow> ht_exited s t \<longleftrightarrow> ps ! t = HtExit"
  using assms by (simp_all add: ht_inv_def)

lemma ht_mono:
  assumes "K \<subseteq> K'"
  shows "ht_loaded K i \<Longrightarrow> ht_loaded K' i" "ht_wrote K W t i \<Longrightarrow> ht_wrote K' W t i"
    "ht_emplacing before after K k p \<Longrightarrow> ht_emplacing before after K' k p" "ht_ready W R K s \<Longrightarrow> ht_ready W R K' s"
  using assms by (auto simp: ht_loaded_def ht_wrote_def ht_emplacing_def ht_ready_def)

lemma ht_worker_ok_mono:
  assumes "ht_worker_ok before after finding W n K t p" "K \<subseteq> K'"
  shows "ht_worker_ok before after finding W n K' t p"
  using assms(1) ht_mono [OF assms(2)] by (cases p) (auto split: if_splits)

lemma ht_main_ok_mono:
  assumes "ht_main_ok before after W R K s p" "K \<subseteq> K'" "ht_spawned s' = ht_spawned s"
    and "length (ht_writers s') = length (ht_writers s)" "length (ht_readers s') = length (ht_readers s)"
    and "\<forall>t. ht_exited s t \<longrightarrow> ht_exited s' t"
  shows "ht_main_ok before after W R K' s' p"
proof -
  have "ht_ready W R K s \<Longrightarrow> ht_ready W R K' s'"
    using ht_mono(1) [OF assms(2)] assms(4,5) by (simp add: ht_ready_def)
  with assms(1,3,6) ht_mono(1,3) [OF assms(2)] show ?thesis by (cases p) auto
qed

lemma ht_calls_same:
  "i < length ps \<Longrightarrow> ht_call C p' = ht_call C (ps ! i) \<Longrightarrow> map (ht_call C) (ps[i := p']) = map (ht_call C) ps"
  by (rule nth_equalityI) (auto simp: nth_list_update)

text \<open>The contract of the container, for strings.\<close>

locale perf_container = concurrent_set C cinv keys before after finding
  for C :: "('sh, 'pc, string) set_ops"
    and cinv :: "'sh \<Rightarrow> 'pc list \<Rightarrow> bool" and keys :: "'sh \<Rightarrow> string set"
    and before :: "string \<Rightarrow> 'pc \<Rightarrow> bool" and after :: "'pc \<Rightarrow> bool" and finding :: "'pc \<Rightarrow> bool"
begin

lemma call_emplaced:
  "ht_emplacing before after K k p \<Longrightarrow> so_final C p \<Longrightarrow> k \<in> K"
  using before_open by (auto simp: ht_emplacing_def)

lemma call_begins: "ht_emplacing before after K k (so_emplace C k)"
  using begin_calls by (simp add: ht_emplacing_def)

lemma call_moves:
  assumes "cinv sh ps" "i < length ps" "\<not> so_final C (ps ! i)" "ht_emplacing before after (keys sh) k (ps ! i)"
    and "so_move C (ps ! i) sh = (p', sh')"
  shows "cinv sh' (ps[i := p'])" "keys sh \<subseteq> keys sh'" "keys sh' \<subseteq> insert k (keys sh)"
    "ht_emplacing before after (keys sh') k p'"
  using move_emplace [OF assms(1-3) _ assms(5), of k] assms(4) by (simp_all add: ht_emplacing_def)

text \<open>A step of the caller, and one of a thread.\<close>

lemma main_frame:
  assumes inv: "ht_inv C cinv keys before after finding W R n s ps"
    and c: "cinv (ht_set s') (map (ht_call C) (ps[0 := p']))" and k: "keys (ht_set s) \<subseteq> keys (ht_set s')"
    and u: "keys (ht_set s') \<subseteq> ht_keys W n" and e: "ht_exited s' = ht_exited s"
    and m: "ht_main_ok before after W R (keys (ht_set s')) s' p'"
  shows "ht_inv C cinv keys before after finding W R n s' (ps[0 := p'])"
proof -
  have "ht_worker_ok before after finding W n (keys (ht_set s')) t (ps[0 := p'] ! t)" "ht_exited s' t \<longleftrightarrow> ps[0 := p'] ! t = HtExit"
    if "0 < t" "t \<le> W + R" for t
    using ht_worker_ok_mono [OF ht_invD(5) [OF inv that] k] ht_invD(6) [OF inv that] that e by simp_all
  with c u m ht_invD(1) [OF inv] show ?thesis by (simp add: ht_inv_def)
qed

lemma worker_frame:
  assumes inv: "ht_inv C cinv keys before after finding W R n s ps" and i: "0 < i" "i \<le> W + R"
    and c: "cinv (ht_set s') (map (ht_call C) (ps[i := p']))" and k: "keys (ht_set s) \<subseteq> keys (ht_set s')"
    and u: "keys (ht_set s') \<subseteq> ht_keys W n" and sp: "ht_spawned s' = ht_spawned s"
    and len: "length (ht_writers s') = length (ht_writers s)" "length (ht_readers s') = length (ht_readers s)"
    and e: "ht_exited s' = (ht_exited s)(i := (p' = HtExit))" "ps ! i \<noteq> HtExit"
    and w: "ht_worker_ok before after finding W n (keys (ht_set s')) i p'"
  shows "ht_inv C cinv keys before after finding W R n s' (ps[i := p'])"
proof -
  have l: "i < length ps" using i ht_invD(1) [OF inv] by simp
  have ex: "\<not> ht_exited s i" using ht_invD(6) [OF inv i] e(2) by simp
  have "ht_main_ok before after W R (keys (ht_set s')) s' (ps ! 0)"
    by (rule ht_main_ok_mono [OF ht_invD(4) [OF inv] k sp len]) (use e ex in auto)
  moreover have "ht_worker_ok before after finding W n (keys (ht_set s')) t (ps[i := p'] ! t) \<and> (ht_exited s' t \<longleftrightarrow> ps[i := p'] ! t = HtExit)"
    if "0 < t" "t \<le> W + R" for t
    using ht_worker_ok_mono [OF ht_invD(5) [OF inv that] k] ht_invD(6) [OF inv that] that e w l by (cases "t = i") simp_all
  ultimately show ?thesis using c u i ht_invD(1) [OF inv] by (simp add: ht_inv_def)
qed

lemma main_step:
  assumes inv: "ht_inv C cinv keys before after finding W R n s ps" and st: "(p', s') \<in> set (ht_main C W R (ps ! 0) s)"
  shows "ht_inv C cinv keys before after finding W R n s' (ps[0 := p'])"
proof -
  note ok = ht_invD(4) [OF inv] and c = ht_invD(2) [OF inv]
  have l: "0 < length ps" using ht_invD(1) [OF inv] by simp
  have at: "map (ht_call C) ps ! 0 = ht_call C (ps ! 0)" using l by simp
  have same: "cinv (ht_set s) (map (ht_call C) (ps[0 := p']))" if "ht_call C p' = ht_call C (ps ! 0)" for p'
    using c ht_calls_same [OF l that] by simp
  have key: "to_string i \<in> ht_keys W n" if "i < 100" for i using that by (auto simp: ht_keys_def)
  show ?thesis
  proof (cases "ps ! 0")
    case (HtLoad i)
    show ?thesis
    proof (cases "i < 100")
      case True
      have "cinv (ht_set s) (map (ht_call C) (ps[0 := HtLoading i (so_emplace C (to_string i))]))"
        using begin_inv [OF c, of 0 "to_string i"] l HtLoad by (simp add: map_update)
      with True st HtLoad ok ht_invD(3) [OF inv] call_begins show ?thesis by (intro main_frame [OF inv]) auto
    next
      case False
      with st HtLoad ok ht_invD(3) [OF inv] show ?thesis by (intro main_frame [OF inv]) (auto intro: same)
    qed
  next
    case (HtLoading i p)
    note i = ok [unfolded HtLoading ht_main_ok.simps]
    show ?thesis
    proof (cases "so_final C p")
      case True
      have "cinv (ht_set s) (map (ht_call C) (ps[0 := p']))"
        using end_inv [OF c, of 0] True st HtLoading l by (simp add: map_update split: if_splits)
      moreover have "ht_loaded (keys (ht_set s)) (Suc i)"
        using i call_emplaced True by (auto simp: ht_loaded_def less_Suc_eq)
      ultimately show ?thesis using True st HtLoading i ht_invD(3) [OF inv] by (intro main_frame [OF inv]) (auto split: if_splits)
    next
      case False
      obtain q x where mv: "so_move C p (ht_set s) = (q, x)" by (cases "so_move C p (ht_set s)")
      with False st HtLoading have e: "p' = HtLoading i q" "s' = s\<lparr>ht_set := x\<rparr>" by simp_all
      have idx: "0 < length (map (ht_call C) ps)" using l by simp
      have em: "ht_emplacing before after (keys (ht_set s)) (to_string i) p" using i by blast
      note m = call_moves [OF c, of 0 "to_string i" q x, unfolded at HtLoading ht_call.simps, OF idx False em mv]
      have "insert (to_string i) (keys (ht_set s)) \<subseteq> ht_keys W n" using key i ht_invD(3) [OF inv] by blast
      with m(3) have "keys x \<subseteq> ht_keys W n" by (rule subset_trans)
      moreover have "cinv x (map (ht_call C) (ps[0 := HtLoading i q]))" using m(1) by (simp add: map_update)
      ultimately show ?thesis
        using m(2,4) i ht_mono(1) [OF m(2)] unfolding e by (intro main_frame [OF inv]) simp_all
    qed
  next
    case HtResize
    then have e: "p' = HtSpawn 0" "s' = s\<lparr>ht_writers := replicate W 0, ht_readers := replicate R 0\<rparr>" using st by simp_all
    show ?thesis using ok ht_invD(3) [OF inv] same [of "HtSpawn 0"] HtResize
      unfolding e by (intro main_frame [OF inv]) (simp_all add: ht_ready_def)
  next
    case (HtSpawn j)
    have "cinv (ht_set s) (map (ht_call C) (ps[0 := p']))" using st HtSpawn by (intro same) (auto split: if_splits)
    with HtSpawn st ok ht_invD(3) [OF inv] show ?thesis
      by (intro main_frame [OF inv]) (auto simp: ht_ready_def split: if_splits)
  next
    case (HtJoin j)
    have "cinv (ht_set s) (map (ht_call C) (ps[0 := p']))" using st HtJoin by (intro same) (auto split: if_splits)
    with HtJoin st ok ht_invD(3) [OF inv] show ?thesis
      by (intro main_frame [OF inv]) (auto simp: less_Suc_eq split: if_splits)
  qed (use st in simp_all)
qed

lemma worker_step:
  assumes inv: "ht_inv C cinv keys before after finding W R n s ps" and t: "0 < t" "t \<le> W + R"
    and st: "(p', s') \<in> set (ht_worker C clock W n t (ps ! t) s)"
  shows "ht_inv C cinv keys before after finding W R n s' (ps[t := p'])"
proof -
  note ok = ht_invD(5) [OF inv t] and c = ht_invD(2) [OF inv] and u = ht_invD(3) [OF inv]
  have l: "t < length ps" using t ht_invD(1) [OF inv] by simp
  then have at: "map (ht_call C) ps ! t = ht_call C (ps ! t)" by simp
  have same: "cinv (ht_set s) (map (ht_call C) (ps[t := p']))" if "ht_call C p' = ht_call C (ps ! t)" for p'
    using c ht_calls_same [OF l that] by simp
  have ex: "ps ! t \<noteq> HtExit \<Longrightarrow> \<not> ht_exited s t" using ht_invD(6) [OF inv t] by simp
  have upd: "(ht_exited s)(t := b) = ht_exited s" if "ht_exited s t = b" for b using that by auto
  have key: "to_emp i (t - 1) \<in> ht_keys W n" if "i < n" "t \<le> W" for i
    using that t by (force simp: ht_keys_def)
  show ?thesis
  proof (cases "ps ! t")
    case (HtTop i)
    have "cinv (ht_set s) (map (ht_call C) (ps[t := p']))" using st HtTop by (intro same) (auto split: if_splits)
    with HtTop st ok u ex upd [of False] show ?thesis by (intro worker_frame [OF inv t]) (auto split: if_splits)
  next
    case (HtNow i)
    let ?p = "if t \<le> W then so_emplace C (to_emp i (t - 1)) else so_find C (to_emp i (t - 1 - W))"
    from st HtNow have e: "p' = HtF i (clock (ht_clock s)) ?p" "s' = s\<lparr>ht_clock := ht_clock s + 1\<rparr>" by simp_all
    have "cinv (ht_set s) (map (ht_call C) (ps[t := p']))"
      using begin_inv [OF c, of t] l HtNow unfolding e by (simp add: map_update)
    with HtNow ok u ex upd [of False] call_begins begin_calls(2) show ?thesis
      unfolding e by (intro worker_frame [OF inv t]) simp_all
  next
    case (HtF i start p)
    note i = ok [unfolded HtF ht_worker_ok.simps]
    show ?thesis
    proof (cases "so_final C p")
      case True
      have "cinv (ht_set s) (map (ht_call C) (ps[t := p']))"
        using end_inv [OF c, of t] True st HtF l by (simp add: map_update split: if_splits)
      moreover have "ht_wrote (keys (ht_set s)) W t (Suc i)"
        using i call_emplaced True by (auto simp: ht_wrote_def less_Suc_eq)
      ultimately show ?thesis
        using True st HtF i u ex upd [of False] by (intro worker_frame [OF inv t]) (auto split: if_splits)
    next
      case False
      obtain q x where mv: "so_move C p (ht_set s) = (q, x)" by (cases "so_move C p (ht_set s)")
      with False st HtF have e: "p' = HtF i start q" "s' = s\<lparr>ht_set := x\<rparr>" by simp_all
      have idx: "t < length (map (ht_call C) ps)" using l by simp
      have m: "cinv x ((map (ht_call C) ps)[t := q]) \<and> keys (ht_set s) \<subseteq> keys x \<and> keys x \<subseteq> ht_keys W n
        \<and> (if t \<le> W then ht_emplacing before after (keys x) (to_emp i (t - 1)) q else finding q)"
      proof (cases "t \<le> W")
        case True
        then have em: "ht_emplacing before after (keys (ht_set s)) (to_emp i (t - 1)) p" using i by simp
        note m = call_moves [OF c, of t "to_emp i (t - 1)" q x, unfolded at HtF ht_call.simps, OF idx False em mv]
        have "insert (to_emp i (t - 1)) (keys (ht_set s)) \<subseteq> ht_keys W n" using key [OF _ True] i u by blast
        with m(3) have "keys x \<subseteq> ht_keys W n" by (rule subset_trans)
        with m True show ?thesis by simp
      next
        case reader: False
        then have fi: "finding p" using i by simp
        note m = move_find [OF c, of t q x, unfolded at HtF ht_call.simps, OF idx False fi mv]
        with reader u show ?thesis by simp
      qed
      have "cinv x (map (ht_call C) (ps[t := p']))" using m by (simp add: map_update e)
      moreover have "ht_wrote (keys x) W t i" using ht_mono(2) m i by blast
      ultimately show ?thesis
        using m i HtF ex upd [of False] unfolding e by (intro worker_frame [OF inv t]) (auto split: if_splits)
    qed
  next
    case (HtStop i start)
    then have "cinv (ht_set s) (map (ht_call C) (ps[t := p']))" using st by (intro same) simp
    with HtStop st ok u ex upd [of False] show ?thesis by (intro worker_frame [OF inv t]) (auto simp: ht_measured_def)
  qed (use st in simp_all)
qed

lemma run_test_protocol:
  "protocol (ht_step C clock W R n) (ht_start C W R) (ht_inv C cinv keys before after finding W R n)"
proof
  fix s ps assume st: "ht_start C W R (s, ps)"
  have pc: "ps ! t = HtTop 0" if "0 < t" "t \<le> W + R" for t
    using st that by (auto simp: ht_start_def nth_Cons split: nat.splits)
  have "cinv (so_init C) (map (ht_call C) ps)" using st by (intro init_inv) (auto simp: ht_start_def)
  then show "ht_inv C cinv keys before after finding W R n s ps"
    using st init_keys unfolding ht_inv_def
    by (intro conjI allI impI) (simp_all add: pc, auto simp: ht_start_def ht_init_def ht_loaded_def ht_wrote_def)
next
  fix s ps i p' s'
  assume inv: "ht_inv C cinv keys before after finding W R n s ps" and i: "i < length ps"
    and st: "(p', s') \<in> set (ht_step C clock W R n i (ps ! i) s)"
  show "ht_inv C cinv keys before after finding W R n s' (ps[i := p'])"
  proof (cases "i = 0")
    case True
    with st main_step [OF inv] show ?thesis by (simp add: ht_step_def)
  next
    case False
    with i ht_invD(1) [OF inv] st worker_step [OF inv, of i p' s' clock] show ?thesis by (simp add: ht_step_def)
  qed
qed

text \<open>What holds when \<open>run_test\<close> has returned, and that nothing waits for ever.\<close>

lemma run_test_returned:
  assumes inv: "ht_inv C cinv keys before after finding W R n s ps" and ret: "ps ! 0 = HtReturn"
  shows "keys (ht_set s) = ht_keys W n" "length (ht_writers s) = W" "length (ht_readers s) = R"
proof -
  note ok = ht_invD(4) [OF inv, unfolded ret ht_main_ok.simps]
  show "length (ht_writers s) = W" "length (ht_readers s) = R" using ok by (simp_all add: ht_ready_def)
  have "to_emp i t \<in> keys (ht_set s)" if "i < n" "t < W" for i t
  proof -
    have "ps ! Suc t = HtExit" using ok ht_invD(6) [OF inv, of "Suc t"] that by simp
    with ht_invD(5) [OF inv, of "Suc t"] that show ?thesis by (simp add: ht_wrote_def)
  qed
  then have "ht_keys W n \<subseteq> keys (ht_set s)" using ok by (auto simp: ht_keys_def ht_ready_def ht_loaded_def)
  with ht_invD(3) [OF inv] show "keys (ht_set s) = ht_keys W n" by blast
qed

lemma run_test_moves:
  assumes inv: "ht_inv C cinv keys before after finding W R n s ps" and "ps ! 0 \<noteq> HtReturn" "HtThrew \<notin> set ps"
  shows "\<exists>t < length ps. ht_step C clock W R n t (ps ! t) s \<noteq> []"
proof (cases "\<exists>j. ps ! 0 = HtJoin j \<and> j \<le> W + R \<and> \<not> ht_exited s j")
  case True
  then obtain j where j: "ps ! 0 = HtJoin j" "j \<le> W + R" "\<not> ht_exited s j" by blast
  note ok = ht_invD(4) [OF inv, unfolded j(1) ht_main_ok.simps]
  have l: "j < length ps" using j ht_invD(1) [OF inv] by simp
  then have "ps ! j \<noteq> HtThrew" using assms(3) nth_mem by metis
  moreover have "ps ! j \<noteq> HtExit" using ht_invD(6) [OF inv, of j] ok j by simp
  ultimately have "ht_worker C clock W n j (ps ! j) s \<noteq> []"
    using ht_invD(5) [OF inv, of j] ok j by (cases "ps ! j") (auto split: prod.splits)
  with l ok show ?thesis by (intro exI [of _ j]) (simp add: ht_step_def)
next
  case False
  have "ps ! 0 \<in> set ps" using ht_invD(1) [OF inv] by (intro nth_mem) simp
  with assms(3) have "ps ! 0 \<noteq> HtThrew" by metis
  with False assms(2) ht_invD(4) [OF inv] have "ht_main C W R (ps ! 0) s \<noteq> []"
    by (cases "ps ! 0") (auto split: prod.splits)
  then show ?thesis using ht_invD(1) [OF inv] by (intro exI [of _ 0]) (simp add: ht_step_def)
qed

end

text \<open>\<open>std::unordered_set\<close>, each call one step: what it is for threads that only look up, as those of \<open>main\<close>.\<close>

datatype 'k us_pc = UsIdle | UsEmplace 'k | UsFind 'k | UsDone

fun us_move :: "'k us_pc \<Rightarrow> 'k set \<Rightarrow> 'k us_pc \<times> 'k set" where
  "us_move (UsEmplace k) S = (UsDone, insert k S)"
| "us_move p S = (UsDone, S)"

definition unordered_set_ops :: "('k set, 'k us_pc, 'k) set_ops" where
  "unordered_set_ops = \<lparr>so_init = {}, so_idle = UsIdle, so_emplace = UsEmplace, so_find = UsFind, so_move = us_move,
     so_final = (\<lambda>p. p = UsDone), so_threw = (\<lambda>p. False)\<rparr>"

fun us_finding :: "'k us_pc \<Rightarrow> bool" where
  "us_finding (UsFind k) = True"
| "us_finding UsDone = True"
| "us_finding p = False"

interpretation us_set: concurrent_set unordered_set_ops "\<lambda>S ps. True" "\<lambda>S. S" "\<lambda>k p. p = UsEmplace k" "\<lambda>p. p = UsDone" us_finding
proof
  fix S :: "'a set" and ps and i :: nat and p' S'
  assume mv: "so_move unordered_set_ops (ps ! i) S = (p', S')"
  show "us_finding p' \<and> S' = S" if "us_finding (ps ! i)" "\<not> so_final unordered_set_ops (ps ! i)"
    using that mv by (cases "ps ! i") (auto simp: unordered_set_ops_def)
qed (auto simp: unordered_set_ops_def)

interpretation perf_hash: perf_container "hash_set_ops h" "hs_inv (set_traits h)" "hash_set_keys h"
  "\<lambda>k p. p = HsEmplace k" hs_inserted hs_finding
  by unfold_locales

interpretation perf_chunked: perf_container "chunked_set_ops hash" "cs_all_inv hash" cs_keys cs_before cs_after cs_finding
  by unfold_locales

interpretation perf_std: perf_container unordered_set_ops "\<lambda>S ps. True" "\<lambda>S. S" "\<lambda>k p. p = UsEmplace k" "\<lambda>p. p = UsDone" us_finding
  by unfold_locales


section \<open>How many keys there are\<close>

lemma to_string_not_Nil: "to_string n \<noteq> []"
  by (subst to_string.simps) simp

lemma digit_inj: "a < 10 \<Longrightarrow> b < 10 \<Longrightarrow> char_of (48 + a) = (char_of (48 + b) :: char) \<Longrightarrow> a = b" for a b :: nat
  using of_char_of [of "48 + a"] of_char_of [of "48 + b"] by simp

lemma to_string_inj: "to_string m = to_string n \<Longrightarrow> m = n"
proof (induction m arbitrary: n rule: to_string.induct)
  case (1 m)
  have d: "m mod 10 < 10" "n mod 10 < 10" by simp_all
  show ?case
  proof (cases "m < 10 \<or> n < 10")
    case True
    with 1(2) to_string_not_Nil not_sym [OF to_string_not_Nil] show ?thesis
      unfolding to_string.simps [of m] to_string.simps [of n] by (auto dest: digit_inj split: if_splits)
  next
    case False
    then have ge: "\<not> m < 10" "\<not> n < 10" by simp_all
    have "to_string (m div 10) @ [char_of (48 + m mod 10)] = to_string (n div 10) @ [char_of (48 + n mod 10)]"
      using 1(2) unfolding to_string.simps [of m] to_string.simps [of n] if_not_P [OF ge(1)] if_not_P [OF ge(2)] .
    then have e: "to_string (m div 10) = to_string (n div 10)" "char_of (48 + m mod 10) = (char_of (48 + n mod 10) :: char)"
      by (simp_all only: append1_eq_conv)
    have "m div 10 = n div 10" "m mod 10 = n mod 10" by (rule 1(1) [OF ge(1) e(1)], rule digit_inj [OF d e(2)])
    then show ?thesis by (metis div_mult_mod_eq)
  qed
qed

lemma to_string_digits: "c \<in> set (to_string n) \<Longrightarrow> c \<noteq> CHR ''_''"
proof (induction n rule: to_string.induct)
  case (1 n)
  have digit: "char_of (48 + d) \<noteq> CHR ''_''" if "d < 10" for d :: nat
  proof
    assume "char_of (48 + d) = CHR ''_''"
    then have "(of_char (char_of (48 + d) :: char) :: nat) = of_char (CHR ''_'')" by simp
    with that show False by (simp add: of_char_of)
  qed
  show ?case
    using 1 digit [of n] digit [of "n mod 10"] unfolding to_string.simps [of n] by (auto split: if_splits)
qed

lemma to_emp_inj: "to_emp i t = to_emp j u \<Longrightarrow> i = j \<and> t = u"
proof -
  assume e: "to_emp i t = to_emp j u"
  have "takeWhile (\<lambda>c. c \<noteq> CHR ''_'') (to_emp i t) = to_string i" for i t
    using to_string_digits by (simp add: to_emp_def takeWhile_append2)
  from arg_cong [OF e, of "takeWhile (\<lambda>c. c \<noteq> CHR ''_'')", unfolded this] have "i = j" by (rule to_string_inj)
  with e show ?thesis by (auto simp: to_emp_def dest: to_string_inj)
qed

lemma ht_keys_card: "card (ht_keys W n) = 100 + n * W"
proof -
  have "inj_on to_string {..<100}" "inj_on (\<lambda>(i, t). to_emp i t) ({..<n} \<times> {..<W})"
    by (auto simp: inj_on_def dest: to_string_inj to_emp_inj)
  moreover have "to_string j \<noteq> to_emp i t" for i j t
  proof
    assume "to_string j = to_emp i t"
    then have "CHR ''_'' \<in> set (to_string j)" by (simp add: to_emp_def)
    with to_string_digits show False by blast
  qed
  then have "to_string ` {..<100} \<inter> (\<lambda>(i, t). to_emp i t) ` ({..<n} \<times> {..<W}) = {}" by auto
  ultimately show ?thesis unfolding ht_keys_def by (subst card_Un_disjoint) (simp_all add: card_image)
qed


section \<open>The results\<close>

text \<open>What \<open>run_test\<close> can return, and what \<open>main\<close> prints for three results: the readers' and the writers'
  measures, under the labels of the program.\<close>

definition run_test :: "('sh, 'pc, string) set_ops \<Rightarrow> (nat \<Rightarrow> int) \<Rightarrow> nat \<Rightarrow> nat \<Rightarrow> nat \<Rightarrow> u64 list \<times> u64 list \<Rightarrow> bool" where
  "run_test C clock W R iterations r \<longleftrightarrow> (\<exists>s ps. reach (ht_start C W R) (interleave (ht_step C clock W R iterations)) (s, ps)
     \<and> ps ! 0 = HtReturn \<and> r = (ht_readers s, ht_writers s))"

definition perf_total :: "u64 list \<Rightarrow> int" where
  "perf_total ms = sint (sum_list ms)"

definition perf_print :: "u64 list \<times> u64 list \<Rightarrow> u64 list \<times> u64 list \<Rightarrow> u64 list \<times> u64 list \<Rightarrow> (string \<times> int) list" where
  "perf_print r1 r2 r3 =
     [(''Read std: '', perf_total (fst r2)), (''Read jt: '', perf_total (fst r1)), (''Read stl+jt: '', perf_total (fst r3)),
      (''Write std: '', perf_total (snd r1)), (''Write jt: '', perf_total (snd r2)), (''Write stl+jt: '', perf_total (snd r3))]"

definition perf_main :: "(string \<Rightarrow> u64) \<Rightarrow> (nat \<Rightarrow> nat \<Rightarrow> int) \<Rightarrow> (string \<times> int) list \<Rightarrow> bool" where
  "perf_main hash clock out \<longleftrightarrow> (\<exists>r1 r2 r3. run_test (hash_set_ops hash) (clock 0) 0 8 10000000 r1
     \<and> run_test unordered_set_ops (clock 1) 0 8 10000000 r2 \<and> run_test (chunked_set_ops hash) (clock 2) 0 8 10000000 r3
     \<and> out = perf_print r1 r2 r3)"


section \<open>Properties\<close>

text \<open>C18. \<open>run_test\<close> with \<open>hash_set\<close>, any numbers of writers and readers, fewer than 4095
  together, and iterations, every hash function and clock, under every interleaving: unless an \<open>emplace\<close> throws
  \<open>length_error\<close>, some thread can always move until \<open>run_test\<close> has returned; then the set has
  exactly the 100 keys loaded and those of the writers, \<open>size()\<close> is their number, and there is
  one measure for each thread; and at no time is another key found.\<close>

theorem perf_test_hash_set:
  assumes "reach (ht_start (hash_set_ops h) W R) (interleave (ht_step (hash_set_ops h) clock W R n)) (s, ps)"
  shows "(ps ! 0 = HtReturn \<longrightarrow> (\<forall>k. hs_find (set_traits h) k (ht_set s) = (if k \<in> ht_keys W n then Some k else None))
        \<and> hs_size (ht_set s) = of_nat (100 + n * W) \<and> length (ht_writers s) = W \<and> length (ht_readers s) = R)
    \<and> (ps ! 0 \<noteq> HtReturn \<and> HtThrew \<notin> set ps \<longrightarrow> (\<exists>t < length ps. ht_step (hash_set_ops h) clock W R n t (ps ! t) s \<noteq> []))
    \<and> (\<forall>k. hs_find (set_traits h) k (ht_set s) \<noteq> None \<longrightarrow> k \<in> ht_keys W n)"
proof -
  note inv = protocol.reach_inv [OF perf_hash.run_test_protocol assms]
  have mem: "hs_mem (set_traits h) (ht_set s)" using ht_invD(2) [OF inv] by (simp add: hs_inv_def)
  have find: "hs_find (set_traits h) k (ht_set s) = (if k \<in> hash_set_keys h (ht_set s) then Some k else None)" for k
    using hset.abs_some [OF mem, of k] by (cases "hs_abs (set_traits h) (ht_set s) k") (auto simp: hash_set_keys_def hs_abs_def)
  have "hs_size (ht_set s) = of_nat (card (hash_set_keys h (ht_set s)))"
    using hs_mem_size [OF mem] by (simp add: hash_set_keys_def)
  with perf_hash.run_test_returned [OF inv] perf_hash.run_test_moves [OF inv, of clock] ht_invD(3) [OF inv]
  show ?thesis unfolding find by (auto simp: ht_keys_card)
qed

text \<open>One writer and one reader, after the first key.\<close>

theorem perf_test_hash_set_witness:
  "\<exists>s ps. reach (ht_start (hash_set_ops (\<lambda>k. 0)) 1 1) (interleave (ht_step (hash_set_ops (\<lambda>k. 0)) (\<lambda>t. 0) 1 1 1)) (s, ps)
     \<and> ps = [HtLoad 1, HtTop 0, HtTop 0] \<and> hs_size (ht_set s) = 1 \<and> (\<exists>t < 3. ht_step (hash_set_ops (\<lambda>k. 0)) (\<lambda>t. 0) 1 1 1 t (ps ! t) s \<noteq> [])"
proof -
  let ?C = "hash_set_ops (\<lambda>k. 0) :: (string hash_storage, (string, string) hs_pc, string) set_ops"
  have "\<exists>s. run_sched (ht_step ?C (\<lambda>t. 0) 1 1 1) (replicate 9 (0, 0)) (ht_init ?C, [HtLoad 0, HtTop 0, HtTop 0])
      = Some (s, [HtLoad 1, HtTop 0, HtTop 0]) \<and> hs_size (ht_set s) = 1"
    by (simp add: ht_step_def ht_init_def run_defs)
  then obtain s where s: "run_sched (ht_step ?C (\<lambda>t. 0) 1 1 1) (replicate 9 (0, 0)) (ht_init ?C, [HtLoad 0, HtTop 0, HtTop 0])
      = Some (s, [HtLoad 1, HtTop 0, HtTop 0])" "hs_size (ht_set s) = 1" by (elim exE conjE) (rule that)
  have "ht_start ?C 1 1 (ht_init ?C, [HtLoad 0, HtTop 0, HtTop 0])" by (simp add: ht_start_def numeral_2_eq_2)
  then have "reach (ht_start ?C 1 1) (interleave (ht_step ?C (\<lambda>t. 0) 1 1 1)) (s, [HtLoad 1, HtTop 0, HtTop 0])"
    using run_sched_reach_start [OF _ s(1), of "ht_start ?C 1 1"] by blast
  from this perf_test_hash_set [OF this] s(2) show ?thesis
    by (intro exI [of _ s] exI [of _ "[HtLoad 1, HtTop 0, HtTop 0]"]) (simp add: numeral_3_eq_3)
qed

text \<open>The same for \<open>stl_chunked_set\<close>.\<close>

theorem perf_test_chunked_set:
  assumes "reach (ht_start (chunked_set_ops hash) W R) (interleave (ht_step (chunked_set_ops hash) clock W R n)) (s, ps)"
  shows "(ps ! 0 = HtReturn \<longrightarrow> set (cs_log (ht_set s)) = ht_keys W n
        \<and> (\<forall>d < 8. cs_sets (ht_set s) ! d = {k \<in> ht_keys W n. cs_chunk hash k = d}))
    \<and> (ps ! 0 \<noteq> HtReturn \<and> HtThrew \<notin> set ps \<longrightarrow> (\<exists>t < length ps. ht_step (chunked_set_ops hash) clock W R n t (ps ! t) s \<noteq> []))"
proof -
  note inv = protocol.reach_inv [OF perf_chunked.run_test_protocol assms]
  have "cs_inv hash (0 mod 8) (ht_set s) (map (ht_call (chunked_set_ops hash)) ps)"
    using ht_invD(2) [OF inv] unfolding cs_all_inv_def by blast
  then have "\<forall>d < 8. cs_sets (ht_set s) ! d = {k \<in> set (cs_log (ht_set s)). cs_chunk hash k = d}" by (simp add: cs_inv_def)
  with perf_chunked.run_test_returned [OF inv] perf_chunked.run_test_moves [OF inv, of clock]
  show ?thesis by (simp add: cs_keys_def)
qed

text \<open>\<open>main\<close> has no writers, so every total of writes it prints is 0, and the labels of the
  first two, which are exchanged, make no difference.\<close>

theorem perf_main_writes:
  assumes "perf_main hash clock out"
  shows "map snd (drop 3 out) = [0, 0, 0] \<and> map fst out = [''Read std: '', ''Read jt: '', ''Read stl+jt: '', ''Write std: '', ''Write jt: '', ''Write stl+jt: '']"
proof -
  obtain r1 r2 r3 where r: "run_test (hash_set_ops hash) (clock 0) 0 8 10000000 r1"
    "run_test unordered_set_ops (clock 1) 0 8 10000000 r2" "run_test (chunked_set_ops hash) (clock 2) 0 8 10000000 r3"
    "out = perf_print r1 r2 r3" using assms by (auto simp: perf_main_def)
  have "snd r1 = []" "snd r2 = []" "snd r3 = []"
    using r(1-3) perf_hash.run_test_returned(2) [OF protocol.reach_inv [OF perf_hash.run_test_protocol]]
      perf_std.run_test_returned(2) [OF protocol.reach_inv [OF perf_std.run_test_protocol]]
      perf_chunked.run_test_returned(2) [OF protocol.reach_inv [OF perf_chunked.run_test_protocol]]
    unfolding run_test_def by fastforce+
  then show ?thesis by (simp add: r(4) perf_print_def perf_total_def)
qed

end
