(* ===== verification/Linked_List.thy ===== *)
theory Linked_List
  imports Heap_Chain
begin

text \<open>
  The class \<open>linked_list\<close> of \<open>containers/list/linked_list.h\<close>, a stack for one thread. The
  class has no constructor (the macro declares only deleted ones) and \<open>pop_head\<close> returns the
  pointer \<open>node\<close> where it means \<open>val\<close>; it compiles for a \<open>T\<close> to which a pointer converts, by
  \<open>conv\<close>. \<open>d0\<close> is the value of \<open>{}\<close>. An access to a node that is not alive is \<open>None\<close>.
\<close>

record 'a ll_state =
  ll_head :: "nat option"
  ll_heap :: "'a qheap"
  ll_fresh :: nat

definition ll_push_head :: "'a \<Rightarrow> 'a ll_state \<Rightarrow> 'a ll_state" where
  "ll_push_head v s =
     (let new_node = ll_fresh s;
          h = set_next new_node (ll_head s) ((ll_heap s)(new_node \<mapsto> \<lparr>node_next = None, node_value = v\<rparr>))
      in \<lparr>ll_head = Some new_node, ll_heap = h, ll_fresh = new_node + 1\<rparr>)"

definition ll_pop_head :: "'a \<Rightarrow> (nat \<Rightarrow> 'a) \<Rightarrow> 'a ll_state \<Rightarrow> ('a \<times> 'a ll_state) option" where
  "ll_pop_head d0 conv s =
     (case ll_head s of
        None \<Rightarrow> Some (d0, s)
      | Some node \<Rightarrow> (case ll_heap s node of
          None \<Rightarrow> None
        | Some n \<Rightarrow> Some (conv node, s\<lparr>ll_head := node_next n, ll_heap := delete_node node (ll_heap s)\<rparr>)))"

text \<open>The list \<open>cs\<close> of nodes, each with its address and value, is the content of \<open>s\<close>.\<close>

definition ll_rep :: "'a ll_state \<Rightarrow> (nat \<times> 'a) list \<Rightarrow> bool" where
  "ll_rep s cs \<longleftrightarrow> ll_head s = head_of cs None \<and> chain (ll_heap s) cs None \<and> distinct (map fst cs)
     \<and> dom (ll_heap s) = fst ` set cs \<and> (\<forall>a \<in> fst ` set cs. a < ll_fresh s)"

lemma ll_push_rep:
  assumes "ll_rep s cs"
  shows "ll_rep (ll_push_head v s) ((ll_fresh s, v) # cs)"
proof -
  have out: "ll_fresh s \<notin> fst ` set cs" using assms unfolding ll_rep_def by blast
  with assms show ?thesis by (auto simp: ll_rep_def ll_push_head_def Let_def set_next_apply)
qed

lemma ll_pop_rep:
  assumes "ll_rep s ((a, v) # cs)"
  obtains s' where "ll_pop_head d0 conv s = Some (conv a, s')" "ll_rep s' cs"
proof -
  have e: "ll_head s = Some a" "ll_heap s a = Some \<lparr>node_next = head_of cs None, node_value = v\<rparr>"
    "a \<notin> fst ` set cs" using assms by (auto simp: ll_rep_def)
  then have "ll_rep (s\<lparr>ll_head := head_of cs None, ll_heap := delete_node a (ll_heap s)\<rparr>) cs"
    using assms by (auto simp: ll_rep_def)
  with e that show thesis by (simp add: ll_pop_head_def)
qed

text \<open>The stack keeps its nodes in order and never reads a node that was deleted; but what
  \<open>pop_head\<close> gives is the address of the node it has just deleted, whatever the value was.\<close>

theorem linked_list_pops_addresses:
  assumes "ll_rep s cs"
  shows "\<exists>s'. ll_rep (ll_push_head v s) ((ll_fresh s, v) # cs)
    \<and> ll_pop_head d0 conv (ll_push_head v s) = Some (conv (ll_fresh s), s') \<and> ll_rep s' cs
    \<and> ll_heap s' (ll_fresh s) = None"
proof -
  note push = ll_push_rep [OF assms, of v]
  obtain s' where s': "ll_pop_head d0 conv (ll_push_head v s) = Some (conv (ll_fresh s), s')" "ll_rep s' cs"
    by (rule ll_pop_rep [OF push])
  have "dom (ll_heap s') = fst ` set cs" using s'(2) by (simp add: ll_rep_def)
  moreover have "\<forall>a \<in> fst ` set cs. a < ll_fresh s" using assms unfolding ll_rep_def by (elim conjE)
  ultimately have "ll_fresh s \<notin> dom (ll_heap s')" using less_irrefl by metis
  then have "ll_heap s' (ll_fresh s) = None" by (simp only: domIff not_not)
  with push s' show ?thesis by blast
qed

theorem linked_list_pops_addresses_witness:
  "\<exists>s'. ll_pop_head 0 id (ll_push_head (7 :: nat) \<lparr>ll_head = None, ll_heap = Map.empty, ll_fresh = 1\<rparr>) = Some (1, s')"
  using linked_list_pops_addresses [of "\<lparr>ll_head = None, ll_heap = Map.empty, ll_fresh = 1\<rparr>" "[]" 7 0 id]
  by (auto simp: ll_rep_def)

end
