(* ===== verification/Spec2Isabelle.thy ===== *)
theory Spec2Isabelle
  imports Spin_Lock RW_Spinlock Recursive_Spinlock Recursive_RW_Spinlock Hash_Locks Thread_Pool_Queue Backoff Tagged_Ptr CF_RW_Lock Seq_Lock Mpmc_Sequential Mpsc_Buffered Spsc_Bounded Mpsc_Bounded Spmc_Message Nu_Alone Nu_Sample Sync_Sample Sutter_Queue Spsc_Queue Shared_Memory Worker_Thread Object_Safe_Wrapper Perf_Sample Linked_List
begin

text \<open>
  A model of the library under \<open>src/lib/hope_thread\<close> and of its samples: spin locks and
  read-write locks, a sequence lock, queues of every kind of concurrency, a hash map and a hash set, tagged pointers,
  named shared memory, a worker thread and a thread pool. The library is header-only; its
  classes are templates, and the model is polymorphic where they are.

  \<^bold>\<open>The parts and how they interact.\<close> Every class has its own state and is used by any
  number of threads. \<open>spinlock\<close> guards the queue of the thread pool, \<open>rw_spinlock\<close> the buckets
  of the hash storage, the chunks of \<open>stl_chunked_set\<close> and the object of
  \<open>object_safe_wrapper\<close>; the two recursive locks ask \<open>get_thread_id\<close> who calls; the hash map
  and the hash set are the hash storage with two kinds of elements; \<open>async_worker\<close> takes its
  work from an \<open>mpsc_queue\<close>, and \<open>thread_pool\<close> keeps spare wrappers in an
  \<open>mpmc_bounded_queue\<close> and puts its threads to sleep on events. Of the samples,
  \<open>src/samples/sync\<close> is a client of \<open>object_safe_wrapper\<close> over \<open>recursive_rw_spinlock\<close>,
  \<open>src/samples/spmc_bounded_non_uniform_queue\<close> of the queue it is named after, and
  \<open>src/samples/hash_map_perf_test\<close> of \<open>hash_set\<close> and \<open>stl_chunked_set\<close>.

  \<^bold>\<open>How it is modelled.\<close> The state of a class is a record with its members, an object in
  memory is an address in a heap, an integer is a word of its width, and a call is a program
  counter with its local variables. One access to shared memory is one step;
  \<open>Prelude.interleave\<close> is the step relation of the whole program under every scheduler, and
  \<open>Prelude.reach\<close> its reachable states. Steps are sequentially consistent: what weaker memory
  orders allow is not modelled. What the code takes from outside (the operating system, the hash
  function, the function objects) is an argument. Ghost lists record what was sent, got or done.

  \<^bold>\<open>The theories.\<close>
  \<^item> \<open>Prelude\<close>: words, interleaving, sums and ownership over threads; \<open>Interfaces\<close>: the
    contracts as locales (\<open>protocol\<close>, \<open>mutex_protocol\<close>, \<open>rw_protocol\<close>, \<open>simulation\<close>,
    \<open>matching\<close>, \<open>concurrent_set\<close>, \<open>fifo\<close>, \<open>bounded_fifo\<close>, \<open>queue_protocol\<close>, \<open>dictionary\<close>), each interpreted in the theory of
    the classes that keep it.
  \<^item> \<open>Spin_Lock\<close>, \<open>RW_Spinlock\<close>, \<open>Recursive_Spinlock\<close>, \<open>Recursive_RW_Spinlock\<close>
    (\<open>synchronization/spinlock.h\<close>), \<open>Thread_Id\<close> (\<open>core/thread_id.h\<close>): mutual exclusion, the
    exact account of the lock words, nesting, and what goes wrong where \<open>get_thread_id\<close> is 0.
  \<^item> \<open>CF_RW_Lock\<close> (\<open>contention_free_rw_lock.h\<close>): exclusion with one writing thread, and
    its failure with two. \<open>Seq_Lock\<close> (\<open>seq_lock.h\<close>): whole values for even numbers, torn ones
    for odd. \<open>Backoff\<close> (\<open>backoff.h\<close>): it never waits. \<open>Tagged_Ptr\<close> (\<open>tagged_pointer.h\<close>):
    packing and its limits.
  \<^item> \<open>Mpmc_Tickets\<close>, \<open>Mpmc_Bounded\<close>, \<open>Mpmc_Bag\<close>, \<open>Mpmc_Sequential\<close>
    (\<open>mpmc_bounded_queue.h\<close>): the 64-bit code follows a protocol of tickets on natural numbers;
    calls that overlap add or take a value in one of their steps, or fail, and calls that do not
    are those of a bounded queue; a signed subtraction that overflows is an outcome of its own.
    \<open>Spsc_Bounded\<close>, \<open>Mpsc_Bounded\<close>, \<open>Spmc_Message\<close>: other bounded queues, with what each keeps and
    where it fails, for every size.
  \<^item> \<open>Spmc_Non_Uniform\<close>, \<open>Nu_Concurrent\<close>, \<open>Nu_Alone\<close>
    (\<open>spmc_bounded_non_uniform_queue.h\<close>): the ring of bytes as functions, for calls that do not
    overlap; byte by byte with the writer and its consumers running at once, where every
    consumer gets the messages in order as long as the writer leaves it room; when a call leaves the
    array; and the proof that the second model, run alone, is the first.
  \<^item> \<open>Heap_Chain\<close>: linked nodes; \<open>Sutter_Queue\<close>, \<open>Mpsc_Queue\<close>, \<open>Spsc_Queue\<close>
    (\<open>sutter_queue.h\<close>, \<open>mpsc_queue.h\<close>, \<open>spsc_queue.h\<close>, \<open>lcsr.h\<close>): first in, first out under
    every interleaving, no access to a deleted node, destructors that end and delete each node once.
    \<open>Mpsc_Buffered\<close>: \<open>mpsc_queue\<close> with the policy \<open>buffered\<close> is in order with one producer, and its
    destructor leaks; with two it loses values. \<open>Linked_List\<close>
    (\<open>linked_list.h\<close>): a stack whose \<open>pop_head\<close> returns an address.
  \<^item> \<open>Hash_Storage\<close>, \<open>Hash_Concurrent\<close>, \<open>Hash_Map\<close> (\<open>hash_storage.h\<close>, \<open>hash_map.h\<close>,
    \<open>hash_set.h\<close>): the operations and the resize simulate an atomic map; calls that do not overlap
    are a dictionary; where every element lies. \<open>Hash_Locks\<close>: the same over the words of the
    locks, which shows that a section may be taken as one step. \<open>Chunked_Set\<close> (\<open>stl_chunked_set.h\<close>).
  \<^item> \<open>Shared_Memory\<close> (\<open>platform/shared_memory.h\<close>, both platforms): no descriptor and no
    mapping leaks on any path, and how an object of another size is treated.
  \<^item> \<open>Object_Safe_Wrapper\<close> (\<open>object_safe_wrapper.h\<close>), \<open>Worker_Thread\<close>
    (\<open>runtime/worker_thread.h\<close>), \<open>Thread_Pool\<close> and \<open>Thread_Pool_Work\<close>
    (\<open>runtime/threadpool.h\<close>) over \<open>Event\<close> (\<open>synchronization/event.h\<close>, both platforms):
    compositions. Each of the first two simulates the class it is built on, so the theorems of that
    class hold inside it; the pool has the account of who may hand a work to which thread, the
    place of every wrapper, from which no work is called twice. What is lost is shown from any state:
    a wake-up of the worker, and a work of the pool, once a call runs into the gap.
    \<open>Thread_Pool_Queue\<close> replaces its pool of wrappers by the accesses of \<open>Mpmc_Bounded\<close> and
    shows that every execution is one of \<open>Thread_Pool\<close>.
  \<^item> \<open>Sync_Sample\<close> (\<open>samples/sync/main.cpp\<close>): no push is lost and every walk sees a
    prefix; \<open>Nu_Sample\<close> (\<open>samples/spmc_bounded_non_uniform_queue/main.cpp\<close>): what the parts
    with one thread print, and that the last part adds up every number sent, the counter of the
    messages outstanding being what keeps room in the ring. \<open>Perf_Sample\<close>
    (\<open>samples/hash_map_perf_test/main.cpp\<close>): \<open>run_test\<close> for any \<open>concurrent_set\<close>, which is
    never stuck and, when it has returned, has left exactly the keys emplaced.

  \<^bold>\<open>Bounds.\<close> The read-write locks are correct for fewer than 4096 threads that hold or ask
  for them (12 bits of writers), the recursive one for at most 255 nested calls; \<open>mpmc_bounded_queue\<close> for fewer than \<open>2 ^ 63\<close> values and slots in all when calls overlap, and else
  for every position but those where its signed subtraction overflows; the ring of bytes has a power
  of two of them, fewer than \<open>2 ^ 62\<close>, and its positions stay below \<open>2 ^ 64\<close>, for which the sample is
  run with fewer than \<open>2 ^ 50\<close> messages. A call alone is run
  with as many steps as it can take (5 for \<open>mpmc_bounded_queue\<close>, 7 for the hash storage, 4
  for \<open>spsc_queue\<close>), the destructors with one round for each node ever made, and the worker with 7 steps for a
  value: each bound is part of a theorem that says the call returns. The hash map is shown to
  be a map for up to \<open>2 ^ 50\<close> insertions, with a bound \<open>max_lists\<close> on the lists of a bucket
  beyond which the allocation throws.

  \<^bold>\<open>What is taken as one step.\<close> Copying an item of a queue (except of the ring of bytes), \<open>new\<close>
  and \<open>delete\<close>, and a section under a lock: in the hash storage, where \<open>Hash_Locks\<close> shows that this
  loses nothing, and in the thread pool, where the exclusion is that of \<open>Spin_Lock\<close>. \<open>std::unordered_set\<close>, \<open>std::deque\<close> and \<open>std::list\<close> are sets and
  lists. In \<open>Thread_Pool\<close> the pool of wrappers is the bounded queue on lists that
  \<open>mpmc_bounded_queue\<close> refines for calls that do not overlap; the argument \<open>spurious\<close> lets
  its calls also fail or take values in another order, which is what \<open>Thread_Pool_Queue\<close> shows of
  calls that overlap.

  \<^bold>\<open>Not modelled.\<close> \<open>tls.h\<close> (empty), \<open>foundation.h\<close> (macros that delete constructors), the
  tests (they call the library), \<open>run_test\<close> with \<open>bLock\<close>, of which the program has no instance, memory orders weaker than sequential consistency,
  exceptions of \<open>new\<close> except in the hash storage, destruction while other threads are still
  in a call.

  \<^bold>\<open>What could follow.\<close> A release-acquire model for the queues, and the sections of the
  thread pool over the word of its lock.
\<close>

end
